(* ===== verification/Prelude.thy ===== *)
theory Prelude
  imports Main "HOL-Library.Word" "HOL-Library.Monad_Syntax"
begin

unbundle bit_operations_syntax

text \<open>
  The shared ground of the development: names for the machine types of the source (a 64-bit
  target, as in \<^verbatim>\<open>base/include/base/fixed_stdint.h\<close> for \<^verbatim>\<open>x86_64\<close> and
  \<^verbatim>\<open>arm_64\<close>), the lemma collections of the component theories, and the generic facts on
  words, lists and error results that several components use.
\<close>

section \<open>Machine types\<close>

type_synonym addr_t = "64 word"
type_synonym size_t = "64 word"
type_synonym time_t = "64 word"
type_synonym u32 = "32 word"
type_synonym u8 = "8 word"

text \<open>The C++ literal \<^verbatim>\<open>~0UL\<close>.\<close>

abbreviation all_ones :: "64 word" where
  "all_ones \<equiv> - 1"

text \<open>Alignment to a power of two, \<^verbatim>\<open>base/include/util/misc_math.h\<close>.\<close>

definition align_addr :: "addr_t \<Rightarrow> nat \<Rightarrow> addr_t" where
  "align_addr addr align = (addr + (push_bit align 1 - 1)) AND NOT (push_bit align 1 - 1)"

section \<open>Lemma collections\<close>

named_theorems word_nat
  \<comment> \<open>equations that move word arithmetic to \<open>nat\<close> through \<open>unat\<close>\<close>

named_theorems inv_intros
  \<comment> \<open>preservation of the component invariants\<close>

section \<open>Words as natural numbers\<close>

lemma unat_less_iff [word_nat]: "a < b \<longleftrightarrow> unat a < unat b"
  by (rule word_less_nat_alt)

lemma unat_le_iff [word_nat]: "a \<le> b \<longleftrightarrow> unat a \<le> unat b"
  by (rule word_le_nat_alt)

lemma unat_all_ones [word_nat]: "unat all_ones = 2 ^ 64 - 1"
  by (simp add: unsigned_minus_1_eq_mask mask_eq_exp_minus_1)

lemma unat64_bound: "unat (a :: 64 word) < 2 ^ 64"
  using unsigned_less [of a, where 'a = nat] by simp

lemma unat_sub_le: "b \<le> a \<Longrightarrow> unat (a - b) = unat a - unat b"
  by (simp add: unat_sub)

lemma unat_add_no_wrap:
  "unat a + unat b < 2 ^ LENGTH('a) \<Longrightarrow> unat (a + b) = unat a + unat b"
  for a b :: "'a::len word"
  by (simp add: unat_word_ariths)

text \<open>Unsigned addition has wrapped exactly when the sum is below an operand.\<close>

lemma wrap_iff: "a + b < a \<longleftrightarrow> 2 ^ LENGTH('a) \<le> unat a + unat b"
  for a b :: "'a::len word"
proof -
  have a: "unat a < 2 ^ LENGTH('a)" and b: "unat b < 2 ^ LENGTH('a)"
    by (rule unsigned_less)+
  show ?thesis
  proof (cases "unat a + unat b < 2 ^ LENGTH('a)")
    case True
    then show ?thesis by (simp add: word_less_nat_alt unat_add_no_wrap)
  next
    case False
    then have "unat (a + b) = unat a + unat b - 2 ^ LENGTH('a)"
      using a b by (simp only: unat_word_ariths le_mod_geq mod_less linorder_not_less)
    with False b have "unat (a + b) < unat a" by linarith
    with False show ?thesis by (simp add: word_less_nat_alt)
  qed
qed

lemma unat_exp: "n < 64 \<Longrightarrow> unat (2 ^ n :: addr_t) = 2 ^ n"
proof -
  assume "n < 64"
  then have "(2 :: nat) ^ n < 2 ^ 64" by (rule power_strict_increasing) simp
  then show ?thesis
    using unat_of_nat [of "2 ^ n", where 'a = 64] by simp
qed

text \<open>Clearing the low bits rounds down to a multiple of a power of two.\<close>

lemma align_down:
  assumes "n < 64"
  shows "unat (x AND NOT (push_bit n 1 - 1 :: addr_t)) = unat x div 2 ^ n * 2 ^ n"
proof -
  have "push_bit n 1 - 1 = (mask n :: addr_t)" by (simp add: mask_eq_exp_minus_1 push_bit_of_1)
  moreover have "unat (x AND NOT (mask n)) = push_bit n (drop_bit n (unat x))"
    by (rule bit_eqI) (auto simp: bit_unsigned_iff bit_and_iff bit_not_iff bit_mask_iff bit_push_bit_iff
        bit_drop_bit_eq dest: bit_imp_le_length)
  ultimately show ?thesis by (simp add: push_bit_eq_mult drop_bit_eq_div)
qed

section \<open>Evaluation\<close>

text \<open>
  Congruences under which the simplifier evaluates a run strictly: the bound value first, the
  continuation only once it is a value.
\<close>

lemmas eval_cong = bind_option_cong_code let_weak_cong

end
