(* ===== verification/Quota_Guard.thy ===== *)
theory Quota_Guard
  imports Prelude
begin

text \<open>
  \<^verbatim>\<open>base/include/base/quota_guard.h\<close>: the bookkeeping of RAM and capability quotas that
  every session of the system carries. The guard holds two \<^verbatim>\<open>size_t\<close> values at their
  64-bit width. The locale \<open>quota_contract\<close> states what a client of a guard relies on; it is
  interpreted on the guard's model, and the client lemmas (roll-back of a reservation) are
  proved once inside it. An unbounded abstract ledger with a saturating limit is the
  specification that every sequence of operations refines.
\<close>

section \<open>Quota\_guard\_untyped\<close>

record quota_guard =
  qg_limit :: size_t
  qg_used :: size_t

definition qg_init :: quota_guard where
  "qg_init = \<lparr>qg_limit = 0, qg_used = 0\<rparr>"

definition qg_avail :: "quota_guard \<Rightarrow> size_t" where
  "qg_avail g = qg_limit g - qg_used g"

definition qg_upgrade :: "size_t \<Rightarrow> quota_guard \<Rightarrow> quota_guard" where
  "qg_upgrade amount g =
     (let new_limit = qg_limit g + amount;
          overflow = new_limit < qg_limit g
      in g\<lparr>qg_limit := (if overflow then all_ones else new_limit)\<rparr>)"

definition qg_try_downgrade :: "size_t \<Rightarrow> quota_guard \<Rightarrow> bool \<times> quota_guard" where
  "qg_try_downgrade amount g =
     (if qg_avail g < amount then (False, g)
      else (True, g\<lparr>qg_limit := qg_limit g - amount\<rparr>))"

definition qg_try_withdraw :: "size_t \<Rightarrow> quota_guard \<Rightarrow> bool \<times> quota_guard" where
  "qg_try_withdraw amount g =
     (if amount > qg_avail g then (False, g)
      else (True, g\<lparr>qg_used := qg_used g + amount\<rparr>))"

definition qg_replenish :: "size_t \<Rightarrow> quota_guard \<Rightarrow> quota_guard" where
  "qg_replenish amount g =
     (let underflow = amount > qg_used g
      in g\<lparr>qg_used := (if underflow then 0 else qg_used g - amount)\<rparr>)"

section \<open>Quota\_guard and its reservations\<close>

datatype quota_error = Limit_exceeded

text \<open>\<^verbatim>\<open>Quota_guard::withdraw\<close> throws where \<^verbatim>\<open>try_withdraw\<close> returns false.\<close>

definition withdraw :: "size_t \<Rightarrow> quota_guard \<Rightarrow> quota_error + quota_guard" where
  "withdraw amount g =
     (case qg_try_withdraw amount g of
        (False, _) \<Rightarrow> Inl Limit_exceeded
      | (True, g') \<Rightarrow> Inr g')"

definition have_avail :: "size_t \<Rightarrow> quota_guard \<Rightarrow> bool" where
  "have_avail amount g \<longleftrightarrow> qg_avail g \<ge> amount"

text \<open>The constructor \<^verbatim>\<open>Quota_guard(UNIT amount)\<close>.\<close>

definition quota_guard_of :: "size_t \<Rightarrow> quota_guard" where
  "quota_guard_of amount = qg_upgrade amount qg_init"

text \<open>
  The deprecated \<^verbatim>\<open>Quota_guard::Reservation\<close>: an object that withdraws in its constructor and
  hands the amount back in its destructor unless it was acknowledged.
\<close>

record reservation =
  res_amount :: size_t
  res_ack :: bool

definition reservation_construct ::
    "size_t \<Rightarrow> quota_guard \<Rightarrow> quota_error + (reservation \<times> quota_guard)" where
  "reservation_construct amount g =
     (case withdraw amount g of
        Inl e \<Rightarrow> Inl e
      | Inr g' \<Rightarrow> Inr (\<lparr>res_amount = amount, res_ack = False\<rparr>, g'))"

definition reservation_acknowledge :: "reservation \<Rightarrow> reservation" where
  "reservation_acknowledge r = r\<lparr>res_ack := True\<rparr>"

definition reservation_destruct :: "reservation \<Rightarrow> quota_guard \<Rightarrow> quota_guard" where
  "reservation_destruct r g = (if \<not> res_ack r then qg_replenish (res_amount r) g else g)"

text \<open>
  \<^verbatim>\<open>Quota_guard_untyped::Reservation_guard\<close>: only \<^verbatim>\<open>cancel\<close> makes the destructor replenish.
\<close>

record reservation_guard =
  rg_amount :: size_t
  rg_canceled :: bool

definition rg_cancel :: "reservation_guard \<Rightarrow> reservation_guard" where
  "rg_cancel r = r\<lparr>rg_canceled := True\<rparr>"

definition rg_destruct :: "reservation_guard \<Rightarrow> quota_guard \<Rightarrow> quota_guard" where
  "rg_destruct r g = (if rg_canceled r then qg_replenish (rg_amount r) g else g)"

text \<open>
  \<^verbatim>\<open>with_reservation(amount, fn, error_fn)\<close>. The functor \<open>fn\<close> sees the reservation and the
  guard (it may use the same guard while it runs) and returns its result with both.
\<close>

definition with_reservation ::
    "size_t \<Rightarrow> (reservation_guard \<Rightarrow> quota_guard \<Rightarrow> 'r \<times> reservation_guard \<times> quota_guard)
       \<Rightarrow> 'r \<Rightarrow> quota_guard \<Rightarrow> 'r \<times> quota_guard" where
  "with_reservation amount fn error_result g =
     (case qg_try_withdraw amount g of
        (False, g') \<Rightarrow> (error_result, g')
      | (True, g') \<Rightarrow>
          (case fn \<lparr>rg_amount = amount, rg_canceled = False\<rparr> g' of
             (r, rg, g'') \<Rightarrow> (r, rg_destruct rg g'')))"

section \<open>Invariant\<close>

text \<open>The amount in use never exceeds the limit, so \<^verbatim>\<open>avail\<close> never wraps around.\<close>

definition qg_ok :: "quota_guard \<Rightarrow> bool" where
  "qg_ok g \<longleftrightarrow> qg_used g \<le> qg_limit g"

lemma qg_ok_init [simp, inv_intros]: "qg_ok qg_init"
  by (simp add: qg_ok_def qg_init_def)

lemma unat_qg_avail [word_nat]:
  "qg_ok g \<Longrightarrow> unat (qg_avail g) = unat (qg_limit g) - unat (qg_used g)"
  by (simp add: qg_ok_def qg_avail_def unat_sub_le)

lemma unat_qg_upgrade [word_nat]:
  "unat (qg_limit (qg_upgrade a g)) = min (2 ^ 64 - 1) (unat (qg_limit g) + unat a)"
proof (cases "qg_limit g + a < qg_limit g")
  case True
  then have "2 ^ 64 \<le> unat (qg_limit g) + unat a"
    by (simp add: wrap_iff)
  with True show ?thesis
    by (simp add: qg_upgrade_def unat_all_ones)
next
  case False
  then have "unat (qg_limit g) + unat a < 2 ^ 64"
    by (simp add: wrap_iff)
  with False show ?thesis
    by (simp add: qg_upgrade_def unat_add_no_wrap)
qed

lemma qg_used_upgrade [simp]: "qg_used (qg_upgrade a g) = qg_used g"
  by (simp add: qg_upgrade_def Let_def)

lemma qg_ok_upgrade [inv_intros]: "qg_ok g \<Longrightarrow> qg_ok (qg_upgrade a g)"
  using unat64_bound [of "qg_used g"]
  by (simp add: qg_ok_def unat_le_iff unat_qg_upgrade)

lemma try_downgrade_iff:
  "qg_ok g \<Longrightarrow> fst (qg_try_downgrade a g) \<longleftrightarrow> unat (qg_used g) + unat a \<le> unat (qg_limit g)"
  by (auto simp: qg_try_downgrade_def unat_less_iff unat_qg_avail qg_ok_def unat_le_iff)

lemma try_downgrade_True:
  assumes "qg_ok g" and "qg_try_downgrade a g = (True, g')"
  shows "unat (qg_limit g') = unat (qg_limit g) - unat a"
    and "unat a \<le> unat (qg_limit g)" and "qg_used g' = qg_used g" and "qg_ok g'"
proof -
  from assms have le: "unat (qg_used g) + unat a \<le> unat (qg_limit g)"
    using try_downgrade_iff [of g a] by simp
  from assms(2) have g': "g' = g\<lparr>qg_limit := qg_limit g - a\<rparr>"
    by (simp add: qg_try_downgrade_def split: if_splits)
  show lim: "unat (qg_limit g') = unat (qg_limit g) - unat a"
    using le by (simp add: g' unat_sub_le unat_le_iff)
  show "unat a \<le> unat (qg_limit g)" using le by simp
  show "qg_used g' = qg_used g" by (simp add: g')
  then show "qg_ok g'" using le lim by (simp add: qg_ok_def unat_le_iff)
qed

lemma try_downgrade_False: "qg_try_downgrade a g = (False, g') \<Longrightarrow> g' = g"
  by (simp add: qg_try_downgrade_def split: if_splits)

lemma try_withdraw_iff:
  "qg_ok g \<Longrightarrow> fst (qg_try_withdraw a g) \<longleftrightarrow> unat (qg_used g) + unat a \<le> unat (qg_limit g)"
  by (auto simp: qg_try_withdraw_def unat_less_iff unat_qg_avail qg_ok_def unat_le_iff)

lemma try_withdraw_True:
  assumes "qg_ok g" and "qg_try_withdraw a g = (True, g')"
  shows "unat (qg_used g') = unat (qg_used g) + unat a"
    and "qg_limit g' = qg_limit g" and "qg_ok g'"
proof -
  from assms have le: "unat (qg_used g) + unat a \<le> unat (qg_limit g)"
    using try_withdraw_iff [of g a] by simp
  from assms(2) have g': "g' = g\<lparr>qg_used := qg_used g + a\<rparr>"
    by (simp add: qg_try_withdraw_def split: if_splits)
  show used: "unat (qg_used g') = unat (qg_used g) + unat a"
    using le unat64_bound [of "qg_limit g"] by (simp add: g' unat_add_no_wrap)
  show "qg_limit g' = qg_limit g" by (simp add: g')
  then show "qg_ok g'" using le used by (simp add: qg_ok_def unat_le_iff)
qed

lemma try_withdraw_False: "qg_try_withdraw a g = (False, g') \<Longrightarrow> g' = g"
  by (simp add: qg_try_withdraw_def split: if_splits)

lemma qg_limit_replenish [simp]: "qg_limit (qg_replenish a g) = qg_limit g"
  by (simp add: qg_replenish_def Let_def)

lemma unat_qg_replenish [word_nat]:
  "unat (qg_used (qg_replenish a g)) = unat (qg_used g) - unat a"
  by (auto simp: qg_replenish_def Let_def unat_less_iff unat_sub_le unat_le_iff)

lemma qg_ok_replenish [inv_intros]: "qg_ok g \<Longrightarrow> qg_ok (qg_replenish a g)"
  by (simp add: qg_ok_def unat_le_iff unat_qg_replenish)

section \<open>The contract of a guard towards its clients\<close>

locale quota_contract =
  fixes ok :: "'g \<Rightarrow> bool"
    and limit used :: "'g \<Rightarrow> nat"
    and try_withdraw :: "'a \<Rightarrow> 'g \<Rightarrow> bool \<times> 'g"
    and replenish :: "'a \<Rightarrow> 'g \<Rightarrow> 'g"
    and val :: "'a \<Rightarrow> nat"
  assumes ok_bound: "ok g \<Longrightarrow> used g \<le> limit g"
    and withdraw_iff: "ok g \<Longrightarrow> fst (try_withdraw a g) \<longleftrightarrow> used g + val a \<le> limit g"
    and withdraw_fail: "try_withdraw a g = (False, g') \<Longrightarrow> g' = g"
    and withdraw_used: "ok g \<Longrightarrow> try_withdraw a g = (True, g') \<Longrightarrow> used g' = used g + val a"
    and withdraw_limit: "ok g \<Longrightarrow> try_withdraw a g = (True, g') \<Longrightarrow> limit g' = limit g"
    and withdraw_ok: "ok g \<Longrightarrow> try_withdraw a g = (True, g') \<Longrightarrow> ok g'"
    and replenish_used: "used (replenish a g) = used g - val a"
    and replenish_limit: "limit (replenish a g) = limit g"
    and replenish_ok: "ok g \<Longrightarrow> ok (replenish a g)"
begin

text \<open>Handing a successful withdrawal back restores the account.\<close>

lemma withdraw_replenish:
  assumes "ok g" and "try_withdraw a g = (True, g')"
  shows "used (replenish a g') = used g" and "limit (replenish a g') = limit g"
    and "ok (replenish a g')"
  using assms
  by (simp_all add: replenish_used replenish_limit withdraw_used withdraw_limit withdraw_ok replenish_ok)

text \<open>
  What others withdraw and hand back in between does not disturb the roll-back: any change to
  the guard that keeps the amount reserved is kept.
\<close>

lemma replenish_between:
  assumes "ok g" and "try_withdraw a g = (True, g')" and "ok h" and "used h = used g' + d"
  shows "used (replenish a h) = used g + d"
  using assms by (simp add: replenish_used withdraw_used)

end

interpretation qg: quota_contract
  qg_ok "\<lambda>g. unat (qg_limit g)" "\<lambda>g. unat (qg_used g)" qg_try_withdraw qg_replenish unat
proof unfold_locales
  fix g g' :: quota_guard and a :: size_t
  show "qg_ok g \<Longrightarrow> unat (qg_used g) \<le> unat (qg_limit g)"
    by (simp add: qg_ok_def unat_le_iff)
  show "qg_ok g \<Longrightarrow> fst (qg_try_withdraw a g) \<longleftrightarrow> unat (qg_used g) + unat a \<le> unat (qg_limit g)"
    by (rule try_withdraw_iff)
  show "qg_try_withdraw a g = (False, g') \<Longrightarrow> g' = g"
    by (rule try_withdraw_False)
  show "qg_ok g \<Longrightarrow> qg_try_withdraw a g = (True, g') \<Longrightarrow> unat (qg_used g') = unat (qg_used g) + unat a"
    by (rule try_withdraw_True)
  show "qg_ok g \<Longrightarrow> qg_try_withdraw a g = (True, g') \<Longrightarrow> unat (qg_limit g') = unat (qg_limit g)"
    by (simp add: try_withdraw_True)
  show "qg_ok g \<Longrightarrow> qg_try_withdraw a g = (True, g') \<Longrightarrow> qg_ok g'"
    by (rule try_withdraw_True)
  show "unat (qg_used (qg_replenish a g)) = unat (qg_used g) - unat a"
    by (rule unat_qg_replenish)
  show "unat (qg_limit (qg_replenish a g)) = unat (qg_limit g)"
    by simp
  show "qg_ok g \<Longrightarrow> qg_ok (qg_replenish a g)"
    by (rule qg_ok_replenish)
qed

section \<open>Operation sequences refine an abstract ledger\<close>

datatype qg_op = Upgrade size_t | Downgrade size_t | Withdraw size_t | Replenish size_t

fun qg_step :: "qg_op \<Rightarrow> quota_guard \<Rightarrow> bool \<times> quota_guard" where
  "qg_step (Upgrade a) g = (True, qg_upgrade a g)"
| "qg_step (Downgrade a) g = qg_try_downgrade a g"
| "qg_step (Withdraw a) g = qg_try_withdraw a g"
| "qg_step (Replenish a) g = (True, qg_replenish a g)"

fun qg_run :: "qg_op list \<Rightarrow> quota_guard \<Rightarrow> bool list \<times> quota_guard" where
  "qg_run [] g = ([], g)"
| "qg_run (x # xs) g =
     (let (r, g') = qg_step x g; (rs, g'') = qg_run xs g' in (r # rs, g''))"

text \<open>The ledger: a pair (limit, used) of natural numbers, the limit saturating at \<open>2^64 - 1\<close>.\<close>

fun ledger_step :: "qg_op \<Rightarrow> nat \<times> nat \<Rightarrow> bool \<times> nat \<times> nat" where
  "ledger_step (Upgrade a) (l, u) = (True, min (2 ^ 64 - 1) (l + unat a), u)"
| "ledger_step (Downgrade a) (l, u) = (if u + unat a \<le> l then (True, l - unat a, u) else (False, l, u))"
| "ledger_step (Withdraw a) (l, u) = (if u + unat a \<le> l then (True, l, u + unat a) else (False, l, u))"
| "ledger_step (Replenish a) (l, u) = (True, l, u - unat a)"

fun ledger_run :: "qg_op list \<Rightarrow> nat \<times> nat \<Rightarrow> bool list \<times> nat \<times> nat" where
  "ledger_run [] s = ([], s)"
| "ledger_run (x # xs) s =
     (let (r, s') = ledger_step x s; (rs, s'') = ledger_run xs s' in (r # rs, s''))"

definition qg_abs :: "quota_guard \<Rightarrow> nat \<times> nat" where
  "qg_abs g = (unat (qg_limit g), unat (qg_used g))"

lemma qg_step_refines:
  assumes "qg_ok g" and "qg_step x g = (r, g')"
  shows "qg_ok g' \<and> ledger_step x (qg_abs g) = (r, qg_abs g')"
proof (cases x)
  case (Upgrade a)
  with assms show ?thesis
    by (auto simp: qg_abs_def qg_ok_upgrade unat_qg_upgrade)
next
  case (Downgrade a)
  with assms show ?thesis
    using try_downgrade_iff [of g a] try_downgrade_True [of g a g'] try_downgrade_False [of a g g']
    by (cases r) (auto simp: qg_abs_def)
next
  case (Withdraw a)
  with assms show ?thesis
    using try_withdraw_iff [of g a] try_withdraw_True [of g a g'] try_withdraw_False [of a g g']
    by (cases r) (auto simp: qg_abs_def)
next
  case (Replenish a)
  with assms show ?thesis
    by (auto simp: qg_abs_def qg_ok_replenish unat_qg_replenish)
qed

lemma qg_run_refines:
  "qg_ok g \<Longrightarrow> qg_run xs g = (rs, g') \<Longrightarrow> qg_ok g' \<and> ledger_run xs (qg_abs g) = (rs, qg_abs g')"
proof (induction xs arbitrary: g rs)
  case Nil
  then show ?case by simp
next
  case (Cons x xs)
  obtain r h where h: "qg_step x g = (r, h)" by fastforce
  obtain ss k where k: "qg_run xs h = (ss, k)" by fastforce
  from h Cons.prems(1) have "qg_ok h" and st: "ledger_step x (qg_abs g) = (r, qg_abs h)"
    using qg_step_refines by blast+
  with Cons h k show ?case by auto
qed

section \<open>Properties\<close>

text \<open>
  \<^bold>\<open>C1.\<close> Whatever sequence of upgrades, downgrades, withdrawals and replenishments a guard sees
  from its construction on, it answers every call as the unbounded ledger does and ends in the
  same balance; the amount in use stays within the limit, so no 64-bit subtraction wraps.
\<close>

theorem quota_run_exact:
  "case qg_run ops qg_init of (answers, g) \<Rightarrow>
     qg_used g \<le> qg_limit g \<and>
     ledger_run ops (0, 0) = (answers, unat (qg_limit g), unat (qg_used g)) \<and>
     unat (qg_avail g) = unat (qg_limit g) - unat (qg_used g)"
proof -
  obtain rs g where r: "qg_run ops qg_init = (rs, g)" by fastforce
  have "qg_abs qg_init = (0, 0)" by (simp add: qg_abs_def qg_init_def)
  with qg_run_refines [OF qg_ok_init r] have "qg_ok g" and "ledger_run ops (0, 0) = (rs, qg_abs g)"
    by auto
  then show ?thesis by (simp add: r qg_abs_def unat_qg_avail) (simp add: qg_ok_def)
qed

text \<open>
  \<^verbatim>\<open>with_reservation\<close> is transactional: an amount that does not fit leaves the guard
  untouched and returns the error result; otherwise the functor runs, and afterwards the guard
  carries what the functor itself withdrew (\<open>d\<close>), plus the reserved amount unless the functor
  cancelled the reservation.
\<close>

theorem with_reservation_transactional:
  assumes "qg_ok g"
    and "\<And>rg h. qg_ok h \<Longrightarrow> \<exists>h'. fn rg h = (r, (if cancel then rg_cancel rg else rg), h') \<and>
           qg_ok h' \<and> unat (qg_used h') = unat (qg_used h) + d \<and> qg_limit h' = qg_limit h"
    and "with_reservation m fn e g = (res, g')"
  shows "if unat (qg_used g) + unat m \<le> unat (qg_limit g)
         then res = r \<and> qg_ok g' \<and> qg_limit g' = qg_limit g \<and>
              unat (qg_used g') = unat (qg_used g) + d + (if cancel then 0 else unat m)
         else res = e \<and> g' = g"
proof (cases "fst (qg_try_withdraw m g)")
  case True
  then obtain h where h: "qg_try_withdraw m g = (True, h)" by (metis prod.collapse)
  note w = try_withdraw_True [OF assms(1) h]
  let ?rg = "\<lparr>rg_amount = m, rg_canceled = False\<rparr>"
  obtain h' where f: "fn ?rg h = (r, (if cancel then rg_cancel ?rg else ?rg), h')" "qg_ok h'"
    "unat (qg_used h') = unat (qg_used h) + d" "qg_limit h' = qg_limit h"
    using assms(2) [OF w(3)] by blast
  have "g' = (if cancel then qg_replenish m h' else h')" and "res = r"
    using assms(3) h f(1) by (auto simp: with_reservation_def rg_destruct_def rg_cancel_def split: if_splits)
  moreover have "unat (qg_used (qg_replenish m h')) = unat (qg_used g) + d"
    by (rule qg.replenish_between [OF assms(1) h f(2,3)])
  ultimately show ?thesis
    using try_withdraw_iff [OF assms(1), of m] h w f by (auto intro: qg_ok_replenish)
next
  case False
  then have "qg_try_withdraw m g = (False, g)"
    by (metis prod.collapse try_withdraw_False)
  with False assms(3) show ?thesis
    using try_withdraw_iff [OF assms(1), of m] by (auto simp: with_reservation_def)
qed

theorem with_reservation_transactional_witness:
  "with_reservation 30 (\<lambda>rg h. ((), rg_cancel rg, h)) () \<lparr>qg_limit = 100, qg_used = 20\<rparr> =
     ((), \<lparr>qg_limit = 100, qg_used = 20\<rparr>) \<and> (20 :: nat) + 30 \<le> 100 \<and>
     unat (qg_used (snd (with_reservation 30 (\<lambda>rg h. ((), rg_cancel rg, h)) ()
       \<lparr>qg_limit = 100, qg_used = 20\<rparr>))) = 20"
proof -
  let ?g = "\<lparr>qg_limit = 100, qg_used = 20\<rparr>"
  have ok: "qg_ok ?g" by (simp add: qg_ok_def)
  have ev: "with_reservation 30 (\<lambda>rg h. ((), rg_cancel rg, h)) () ?g = ((), ?g)"
    by (simp add: with_reservation_def qg_try_withdraw_def qg_avail_def rg_destruct_def
        rg_cancel_def qg_replenish_def)
  have "\<exists>h'. ((), rg_cancel rg, h) = ((), (if True then rg_cancel rg else rg), h') \<and>
      qg_ok h' \<and> unat (qg_used h') = unat (qg_used h) + 0 \<and> qg_limit h' = qg_limit h"
    if "qg_ok h" for rg h using that by simp
  from with_reservation_transactional [OF ok this ev] ev show ?thesis by simp
qed

end
