(* ===== verification/Account.thy ===== *)
theory Account
  imports Quota_Guard
begin

text \<open>
  \<^verbatim>\<open>base/src/core/include/account.h\<close>: core's accounts, the tree of quota guards between which
  sessions transfer quota. An account refers to its guard, to its reference account and, through a
  registry, to the accounts that have it as their reference. The model is a store from account
  identities to account records; the registry is a list with new members at its head, as
  \<^verbatim>\<open>Registry_base::_insert\<close> leaves it.
\<close>

section \<open>State and operations\<close>

record 'i account =
  acc_guard :: quota_guard
  acc_initial_used :: size_t
  acc_initial_limit :: size_t
  acc_ref :: "'i option"
  acc_members :: "'i list"

type_synonym 'i accounts = "'i \<rightharpoonup> 'i account"

datatype account_error = Unrelated_account | Account_limit_exceeded

definition upd :: "'i \<Rightarrow> ('i account \<Rightarrow> 'i account) \<Rightarrow> 'i accounts \<Rightarrow> 'i accounts" where
  "upd i f s = (case s i of None \<Rightarrow> s | Some a \<Rightarrow> s(i \<mapsto> f a))"

definition transferrable_quota :: "'i account \<Rightarrow> size_t" where
  "transferrable_quota a = qg_limit (acc_guard a) - acc_initial_limit a"

text \<open>
  \<^verbatim>\<open>_adopt\<close>: constructing the \<^verbatim>\<open>Constructible\<close> registry element anew first destructs the old
  one, which leaves the registry of the former reference account.
\<close>

definition leave :: "'i \<Rightarrow> 'i accounts \<Rightarrow> 'i accounts" where
  "leave i s =
     (case s i of None \<Rightarrow> s
      | Some a \<Rightarrow>
          (case acc_ref a of None \<Rightarrow> s
           | Some r \<Rightarrow> upd r (\<lambda>ra. ra\<lparr>acc_members := remove1 i (acc_members ra)\<rparr>) s))"

definition adopt :: "'i \<Rightarrow> 'i \<Rightarrow> 'i accounts \<Rightarrow> 'i accounts" where
  "adopt this i s =
     upd i (\<lambda>a. a\<lparr>acc_ref := Some this\<rparr>)
       (upd this (\<lambda>t. t\<lparr>acc_members := i # acc_members t\<rparr>) (leave i s))"

text \<open>The two constructors.\<close>

definition account_construct_initial :: "'i \<Rightarrow> quota_guard \<Rightarrow> 'i accounts \<Rightarrow> 'i accounts" where
  "account_construct_initial i g s =
     s(i \<mapsto> \<lparr>acc_guard = g, acc_initial_used = qg_used g, acc_initial_limit = 0,
              acc_ref = None, acc_members = []\<rparr>)"

definition account_construct :: "'i \<Rightarrow> quota_guard \<Rightarrow> 'i \<Rightarrow> 'i accounts \<Rightarrow> 'i accounts" where
  "account_construct i g ref s =
     adopt ref i
       (s(i \<mapsto> \<lparr>acc_guard = g, acc_initial_used = qg_used g, acc_initial_limit = qg_limit g,
                 acc_ref = None, acc_members = []\<rparr>))"

definition guard_upd :: "'i \<Rightarrow> (quota_guard \<Rightarrow> quota_guard) \<Rightarrow> 'i accounts \<Rightarrow> 'i accounts" where
  "guard_upd i f = upd i (\<lambda>a. a\<lparr>acc_guard := f (acc_guard a)\<rparr>)"

text \<open>
  \<^verbatim>\<open>transfer_quota\<close>: \<open>this\<close> gives \<open>amount\<close> to \<open>other\<close>. The source holds the mutex of \<open>this\<close> for the checks and the
  downgrade, and then that of \<open>other\<close> for the upgrade; here both are one step.
\<close>

definition transfer_quota ::
    "'i \<Rightarrow> 'i \<Rightarrow> size_t \<Rightarrow> 'i accounts \<Rightarrow> account_error + 'i accounts" where
  "transfer_quota this other amount s =
     (let a = the (s this); b = the (s other) in
      if acc_ref a \<noteq> Some other \<and> acc_ref b \<noteq> Some this then Inl Unrelated_account
      else if amount > transferrable_quota a then Inl Account_limit_exceeded
      else (case qg_try_downgrade amount (acc_guard a) of
              (False, _) \<Rightarrow> Inl Account_limit_exceeded
            | (True, g) \<Rightarrow>
                Inr (guard_upd other (qg_upgrade amount) (guard_upd this (\<lambda>_. g) s))))"

definition account_withdraw ::
    "'i \<Rightarrow> size_t \<Rightarrow> 'i accounts \<Rightarrow> account_error + 'i accounts" where
  "account_withdraw i amount s =
     (case withdraw amount (acc_guard (the (s i))) of
        Inl Limit_exceeded \<Rightarrow> Inl Account_limit_exceeded
      | Inr g \<Rightarrow> Inr (guard_upd i (\<lambda>_. g) s))"

definition account_replenish :: "'i \<Rightarrow> size_t \<Rightarrow> 'i accounts \<Rightarrow> 'i accounts" where
  "account_replenish i amount s = guard_upd i (qg_replenish amount) s"

text \<open>
  The destructor. The guard outlives the account: the result pairs the guard the account leaves
  behind with the remaining store. The flag tells whether the final downgrade succeeded; the
  source logs an error where it does not.
\<close>

definition account_destruct :: "'i \<Rightarrow> 'i accounts \<Rightarrow> bool \<times> quota_guard \<times> 'i accounts" where
  "account_destruct i s =
     (let a = the (s i) in
      case acc_ref a of
        None \<Rightarrow> (True, acc_guard a, s(i := None))
      | Some r \<Rightarrow>
          let g = acc_guard a;
              g1 = (if qg_used g > acc_initial_used a
                    then qg_replenish (qg_used g - acc_initial_used a) g else g);
              downgrade = qg_limit g1 - acc_initial_limit a;
              s1 = guard_upd r (qg_upgrade downgrade) s;
              (ok, g2) = qg_try_downgrade downgrade g1;
              s2 = fold (adopt r) (acc_members a) s1;
              s3 = leave i s2
          in (ok, g2, s3(i := None)))"

section \<open>Well-formedness\<close>

text \<open>
  Every account respects its limits, the reference accounts form a forest (\<open>rk\<close> is the depth of an
  account in it), and the registries list exactly the accounts that refer to them.
\<close>

definition acc_ok :: "'i account \<Rightarrow> bool" where
  "acc_ok a \<longleftrightarrow> qg_ok (acc_guard a) \<and> acc_initial_limit a \<le> qg_limit (acc_guard a) \<and>
     (acc_ref a \<noteq> None \<longrightarrow> acc_initial_used a \<le> acc_initial_limit a)"

definition ref_of :: "'i accounts \<Rightarrow> 'i \<Rightarrow> 'i option" where
  "ref_of s i = Option.bind (s i) acc_ref"

definition members_of :: "'i accounts \<Rightarrow> 'i \<Rightarrow> 'i list" where
  "members_of s i = (case s i of None \<Rightarrow> [] | Some a \<Rightarrow> acc_members a)"

definition acc_links :: "'i accounts \<Rightarrow> bool" where
  "acc_links s \<longleftrightarrow>
     (\<forall>i r. ref_of s i = Some r \<longleftrightarrow> i \<in> set (members_of s r)) \<and>
     (\<forall>r. distinct (members_of s r)) \<and>
     (\<forall>i r. ref_of s i = Some r \<longrightarrow> r \<in> dom s) \<and>
     (\<exists>rk :: 'i \<Rightarrow> nat. \<forall>i r. ref_of s i = Some r \<longrightarrow> rk r < rk i)"

definition acc_wf :: "'i accounts \<Rightarrow> bool" where
  "acc_wf s \<longleftrightarrow> finite (dom s) \<and> (\<forall>i a. s i = Some a \<longrightarrow> acc_ok a) \<and> acc_links s"

text \<open>The quota that circulates among the accounts.\<close>

definition limit_of :: "'i accounts \<Rightarrow> 'i \<Rightarrow> nat" where
  "limit_of s i = (case s i of None \<Rightarrow> 0 | Some a \<Rightarrow> unat (qg_limit (acc_guard a)))"

definition total_limit :: "'i accounts \<Rightarrow> nat" where
  "total_limit s = (\<Sum>i\<in>dom s. limit_of s i)"

section \<open>Store updates\<close>

lemma upd_apply:
  "upd i f s j = (if j = i then map_option f (s i) else s j)"
  by (simp add: upd_def split: option.splits)

lemma dom_upd [simp]: "dom (upd i f s) = dom s"
  by (auto simp: dom_def upd_apply)

lemma dom_guard_upd [simp]: "dom (guard_upd i f s) = dom s"
  by (simp add: guard_upd_def)

lemma guard_upd_apply:
  "guard_upd i f s j = (if j = i then map_option (\<lambda>a. a\<lparr>acc_guard := f (acc_guard a)\<rparr>) (s i) else s j)"
  by (simp add: guard_upd_def upd_apply)

lemma links_guard_upd [simp]:
  "ref_of (guard_upd i f s) = ref_of s" "members_of (guard_upd i f s) = members_of s"
  by (auto simp: fun_eq_iff ref_of_def members_of_def guard_upd_apply bind_eq_None_conv
        map_option_case split: option.splits)

lemma acc_links_guard_upd [simp]: "acc_links (guard_upd i f s) = acc_links s"
  by (simp add: acc_links_def)

lemma limit_of_guard_upd:
  "limit_of (guard_upd i f s) j =
     (if j = i \<and> j \<in> dom s then unat (qg_limit (f (acc_guard (the (s i))))) else limit_of s j)"
  by (auto simp: limit_of_def guard_upd_apply dom_def split: option.splits)

lemma limit_of_le_total: "finite (dom s) \<Longrightarrow> limit_of s i \<le> total_limit s"
proof (cases "i \<in> dom s")
  case True
  assume "finite (dom s)"
  with True show ?thesis
    unfolding total_limit_def by (intro member_le_sum) auto
next
  case False
  then show ?thesis by (simp add: limit_of_def dom_def)
qed

lemma total_limit_split:
  assumes "finite (dom s)" and "i \<in> dom s"
  shows "total_limit s = limit_of s i + (\<Sum>j\<in>dom s - {i}. limit_of s j)"
  using assms by (simp add: total_limit_def sum.remove)

lemma total_limit_split2:
  assumes "finite (dom s)" and "i \<in> dom s" and "j \<in> dom s" and "i \<noteq> j"
  shows "total_limit s = limit_of s i + limit_of s j + (\<Sum>k\<in>dom s - {i, j}. limit_of s k)"
proof -
  have "dom s - {i} - {j} = dom s - {i, j}" by auto
  with assms show ?thesis
    by (simp add: total_limit_split [of s i] sum.remove [of "dom s - {i}" j])
qed

lemma unat_upgrade_exact:
  assumes "unat (qg_limit g) + unat a < 2 ^ 64"
  shows "unat (qg_limit (qg_upgrade a g)) = unat (qg_limit g) + unat a"
  using assms by (simp add: unat_qg_upgrade)

lemma wf_not_self_ref: "acc_links s \<Longrightarrow> ref_of s i \<noteq> Some i"
  unfolding acc_links_def by (metis less_irrefl)

lemma ref_of_Some: "s i = Some a \<Longrightarrow> ref_of s i = acc_ref a"
  by (simp add: ref_of_def)

section \<open>Transfers\<close>

lemma acc_ok_upgrade: "acc_ok a \<Longrightarrow> acc_ok (a\<lparr>acc_guard := qg_upgrade m (acc_guard a)\<rparr>)"
  using unat64_bound [of "acc_initial_limit a"]
  by (auto simp: acc_ok_def qg_ok_upgrade unat_le_iff unat_qg_upgrade)

lemma acc_ok_downgrade:
  assumes "acc_ok a" and "qg_try_downgrade m (acc_guard a) = (True, g)"
    and "\<not> transferrable_quota a < m"
  shows "acc_ok (a\<lparr>acc_guard := g\<rparr>)"
proof -
  have ok: "qg_ok (acc_guard a)" and il: "acc_initial_limit a \<le> qg_limit (acc_guard a)"
    using assms(1) by (auto simp: acc_ok_def)
  note d = try_downgrade_True [OF ok assms(2)]
  have "unat m \<le> unat (qg_limit (acc_guard a)) - unat (acc_initial_limit a)"
    using assms(3) il by (simp add: transferrable_quota_def unat_less_iff unat_sub_le not_less)
  then have "acc_initial_limit a \<le> qg_limit g"
    using d(1,2) il by (simp add: unat_le_iff)
  with d(4) assms(1) show ?thesis by (simp add: acc_ok_def)
qed

lemma transfer_cases:
  assumes "acc_links s" and "s this = Some a" and "s other = Some b"
    and "transfer_quota this other m s = Inr s'"
  obtains g where "qg_try_downgrade m (acc_guard a) = (True, g)"
    and "\<not> transferrable_quota a < m" and "this \<noteq> other"
    and "s' = guard_upd other (qg_upgrade m) (guard_upd this (\<lambda>_. g) s)"
proof -
  have "this \<noteq> other"
    using assms wf_not_self_ref [OF assms(1), of this]
    by (auto simp: transfer_quota_def ref_of_Some)
  with assms that show thesis
    by (auto simp: transfer_quota_def Let_def split: if_splits prod.splits bool.splits)
qed

lemma transfer_wf:
  assumes wf: "acc_wf s" and s: "s this = Some a" "s other = Some b"
    and t: "transfer_quota this other m s = Inr s'"
  shows "acc_wf s'"
proof -
  have links: "acc_links s" and ok: "\<And>i x. s i = Some x \<Longrightarrow> acc_ok x" and fin: "finite (dom s)"
    using wf by (auto simp: acc_wf_def)
  obtain g where g: "qg_try_downgrade m (acc_guard a) = (True, g)" "\<not> transferrable_quota a < m"
    and ne: "this \<noteq> other"
    and s': "s' = guard_upd other (qg_upgrade m) (guard_upd this (\<lambda>_. g) s)"
    using transfer_cases [OF links s t] .
  have "acc_ok x" if "s' i = Some x" for i x
    using that ok s ne acc_ok_downgrade [OF ok [OF s(1)] g] acc_ok_upgrade [OF ok [OF s(2)], of m]
    by (auto simp: s' guard_upd_apply split: if_splits)
  then show ?thesis using fin links by (auto simp: acc_wf_def s')
qed

lemma transfer_limits:
  assumes wf: "acc_wf s" and s: "s this = Some a" "s other = Some b"
    and t: "transfer_quota this other m s = Inr s'" and total: "total_limit s < 2 ^ 64"
  shows "unat m \<le> limit_of s this" and "limit_of s' this = limit_of s this - unat m"
    and "limit_of s' other = limit_of s other + unat m"
    and "j \<noteq> this \<Longrightarrow> j \<noteq> other \<Longrightarrow> s' j = s j" and "dom s' = dom s" and "this \<noteq> other"
    and "total_limit s' = total_limit s"
proof -
  have links: "acc_links s" and fin: "finite (dom s)" and oka: "qg_ok (acc_guard a)"
    using wf s(1) by (auto simp: acc_wf_def acc_ok_def)
  obtain g where g: "qg_try_downgrade m (acc_guard a) = (True, g)" and ne: "this \<noteq> other"
    and s': "s' = guard_upd other (qg_upgrade m) (guard_upd this (\<lambda>_. g) s)"
    using transfer_cases [OF links s t] by metis
  note d = try_downgrade_True [OF oka g]
  show le: "unat m \<le> limit_of s this" using d s by (simp add: limit_of_def)
  show l1: "limit_of s' this = limit_of s this - unat m"
    using d s ne by (simp add: s' limit_of_guard_upd) (simp add: limit_of_def dom_def)
  show dom: "dom s' = dom s" by (simp add: s')
  show "this \<noteq> other" by (rule ne)
  show fr: "j \<noteq> this \<Longrightarrow> j \<noteq> other \<Longrightarrow> s' j = s j" for j
    by (simp add: s' guard_upd_apply)
  have din: "this \<in> dom s" "other \<in> dom s" using s by auto
  note split = total_limit_split2 [OF fin din ne]
  have "unat (qg_limit (acc_guard b)) + unat m < 2 ^ 64"
    using le total split s by (simp add: limit_of_def)
  then show l2: "limit_of s' other = limit_of s other + unat m"
    using s ne by (simp add: s' limit_of_guard_upd unat_upgrade_exact guard_upd_apply)
      (simp add: limit_of_def dom_def)
  have rest: "(\<Sum>k\<in>dom s - {this, other}. limit_of s' k) = (\<Sum>k\<in>dom s - {this, other}. limit_of s k)"
    by (rule sum.cong) (auto simp: limit_of_def fr)
  show "total_limit s' = total_limit s"
    using total_limit_split2 [of s' this other] din ne fin split l1 l2 le rest
    by (simp add: dom)
qed

section \<open>Destruction\<close>

text \<open>The parts of an account that \<^verbatim>\<open>_adopt\<close> does not touch.\<close>

definition core_of :: "'i account \<Rightarrow> 'i account" where
  "core_of a = a\<lparr>acc_ref := None, acc_members := []\<rparr>"

definition same_core :: "'i accounts \<Rightarrow> 'i accounts \<Rightarrow> bool" where
  "same_core s t \<longleftrightarrow> (\<forall>j. map_option core_of (s j) = map_option core_of (t j))"

lemma same_core_refl [simp]: "same_core s s"
  by (simp add: same_core_def)

lemma same_core_trans: "same_core s t \<Longrightarrow> same_core t u \<Longrightarrow> same_core s u"
  by (simp add: same_core_def)

lemma same_core_upd:
  "(\<And>a. core_of (f a) = core_of a) \<Longrightarrow> same_core (upd i f s) s"
  by (auto simp: same_core_def upd_apply option.map_comp comp_def)

lemma same_core_leave: "same_core (leave i s) s"
  by (auto simp: leave_def core_of_def intro!: same_core_upd split: option.splits)

lemma same_core_adopt: "same_core (adopt r i s) s"
proof -
  let ?u = "upd r (\<lambda>t. t\<lparr>acc_members := i # acc_members t\<rparr>) (leave i s)"
  have "same_core (adopt r i s) ?u" and "same_core ?u (leave i s)"
    by (simp_all add: adopt_def same_core_upd core_of_def)
  then have "same_core (adopt r i s) (leave i s)" by (rule same_core_trans)
  then show ?thesis using same_core_leave by (rule same_core_trans)
qed

lemma same_core_fold_adopt: "same_core (fold (adopt r) cs s) s"
  by (induction cs arbitrary: s) (auto intro: same_core_trans same_core_adopt)

lemma same_coreD:
  "same_core s t \<Longrightarrow> t i = Some b \<Longrightarrow> \<exists>a. s i = Some a \<and> core_of a = core_of b"
  by (metis map_option_eq_Some option.simps(9) same_core_def)

lemma core_of_eqD:
  "core_of a = core_of b \<Longrightarrow> acc_guard a = acc_guard b \<and> acc_initial_used a = acc_initial_used b \<and>
     acc_initial_limit a = acc_initial_limit b"
  by (cases a, cases b) (simp add: core_of_def)

lemma same_core_limit: "same_core s t \<Longrightarrow> limit_of s i = limit_of t i"
proof (cases "t i")
  case None
  assume "same_core s t"
  with None have "s i = None" by (metis map_option_is_None same_core_def)
  with None show ?thesis by (simp add: limit_of_def)
next
  case (Some b)
  assume "same_core s t"
  then obtain a where "s i = Some a" "core_of a = core_of b"
    using same_coreD [of s t i b] Some by metis
  with Some show ?thesis using core_of_eqD [of a b] by (simp add: limit_of_def)
qed

lemma same_core_dom: "same_core s t \<Longrightarrow> dom s = dom t"
  by (metis (no_types, lifting) dom_map_option_comp comp_apply ext same_core_def)

lemma ref_of_leave [simp]: "ref_of (leave i s) = ref_of s"
  by (auto simp: fun_eq_iff ref_of_def leave_def upd_apply bind_eq_None_conv map_option_case
        split: option.splits)

lemma members_of_leave:
  assumes "ref_of s i = Some r"
  shows "members_of (leave i s) = (members_of s)(r := remove1 i (members_of s r))"
  using assms
  by (auto simp: fun_eq_iff members_of_def ref_of_def leave_def upd_apply map_option_case
        split: option.splits)

lemma members_of_upd_ref [simp]:
  "members_of (upd i (\<lambda>a. a\<lparr>acc_ref := x\<rparr>) s) = members_of s"
  by (auto simp: fun_eq_iff members_of_def upd_apply map_option_case split: option.splits)

lemma members_of_upd_members:
  "k \<in> dom s \<Longrightarrow> members_of (upd k (\<lambda>a. a\<lparr>acc_members := f (acc_members a)\<rparr>) s) =
     (members_of s)(k := f (members_of s k))"
  by (auto simp: fun_eq_iff members_of_def upd_apply map_option_case split: option.splits)

lemma ref_of_upd_members [simp]:
  "ref_of (upd k (\<lambda>a. a\<lparr>acc_members := f (acc_members a)\<rparr>) s) = ref_of s"
  by (auto simp: fun_eq_iff ref_of_def upd_apply map_option_case split: option.splits)

lemma ref_of_upd_ref:
  "i \<in> dom s \<Longrightarrow> ref_of (upd i (\<lambda>a. a\<lparr>acc_ref := Some r\<rparr>) s) = (ref_of s)(i := Some r)"
  by (auto simp: fun_eq_iff ref_of_def upd_apply map_option_case split: option.splits)

lemma adopt_links:
  assumes "ref_of s c = Some i" and "r \<in> dom s" and "r \<noteq> i"
  shows "ref_of (adopt r c s) = (ref_of s)(c := Some r)"
    and "members_of (adopt r c s) =
           (members_of s)(i := remove1 c (members_of s i), r := c # members_of s r)"
proof -
  have c: "c \<in> dom s" using assms(1) by (auto simp: ref_of_def bind_eq_Some_conv)
  have d: "dom (leave c s) = dom s" by (rule same_core_dom [OF same_core_leave])
  show "ref_of (adopt r c s) = (ref_of s)(c := Some r)"
    using c assms(2) by (simp add: adopt_def ref_of_upd_ref d)
  show "members_of (adopt r c s) =
          (members_of s)(i := remove1 c (members_of s i), r := c # members_of s r)"
    using assms by (simp add: adopt_def members_of_upd_members d members_of_leave fun_upd_twist)
qed

lemma fold_adopt_links:
  assumes "distinct cs" and "\<forall>c\<in>set cs. ref_of s c = Some i" and "r \<in> dom s" and "r \<noteq> i"
  shows "ref_of (fold (adopt r) cs s) = (\<lambda>j. if j \<in> set cs then Some r else ref_of s j)
    \<and> members_of (fold (adopt r) cs s) =
           (members_of s)(i := fold remove1 cs (members_of s i), r := rev cs @ members_of s r)"
  using assms
proof (induction cs arbitrary: s)
  case Nil
  then show ?case by simp
next
  case (Cons c cs)
  note a = adopt_links [of s c i r]
  have d: "dom (adopt r c s) = dom s" by (rule same_core_dom [OF same_core_adopt])
  have "\<forall>c'\<in>set cs. ref_of (adopt r c s) c' = Some i"
    using Cons.prems a by auto
  then have IH: "ref_of (fold (adopt r) cs (adopt r c s)) =
        (\<lambda>j. if j \<in> set cs then Some r else ref_of (adopt r c s) j)
    \<and> members_of (fold (adopt r) cs (adopt r c s)) =
        (members_of (adopt r c s))(i := fold remove1 cs (members_of (adopt r c s) i),
                                   r := rev cs @ members_of (adopt r c s) r)"
    using Cons.prems d by (intro Cons.IH) simp_all
  with Cons.prems a show ?case by (auto simp: fun_eq_iff)
qed

lemma fold_remove1_self: "distinct xs \<Longrightarrow> fold remove1 xs xs = []"
  by (induction xs) simp_all

text \<open>The links after the destruction of \<open>i\<close>, whose reference account is \<open>r\<close>.\<close>

lemma destruct_links:
  assumes links: "acc_links s" and i: "ref_of s i = Some r" and cs: "cs = members_of s i"
    and t: "t = (leave i (fold (adopt r) cs s))(i := None)"
  shows "acc_links t"
    and "ref_of t = (\<lambda>j. if j = i then None else if j \<in> set cs then Some r else ref_of s j)"
proof -
  have ri: "r \<noteq> i" using wf_not_self_ref [OF links] i by metis
  have rd: "r \<in> dom s" and ref: "\<And>j k. ref_of s j = Some k \<longleftrightarrow> j \<in> set (members_of s k)"
    and dist: "\<And>k. distinct (members_of s k)" and dd: "\<And>j k. ref_of s j = Some k \<Longrightarrow> k \<in> dom s"
    using links i by (auto simp: acc_links_def)
  obtain rk :: "'a \<Rightarrow> nat" where rk: "\<And>j k. ref_of s j = Some k \<Longrightarrow> rk k < rk j"
    using links unfolding acc_links_def by blast
  let ?u = "fold (adopt r) cs s"
  have f: "ref_of ?u = (\<lambda>j. if j \<in> set cs then Some r else ref_of s j)"
    "members_of ?u = (members_of s)(i := [], r := rev cs @ members_of s r)"
    using fold_adopt_links [of cs s i r] dist ref rd ri
    by (simp_all add: cs fold_remove1_self)
  have ics: "i \<notin> set cs" using wf_not_self_ref [OF links, of i] ref cs by metis
  have du: "dom t = dom s - {i}"
    using same_core_dom [OF same_core_fold_adopt [of r cs s]] same_core_dom [OF same_core_leave [of i ?u]]
    by (simp add: t)
  have iu: "ref_of ?u i = Some r" using ics i by (simp add: f)
  show rt: "ref_of t = (\<lambda>j. if j = i then None else if j \<in> set cs then Some r else ref_of s j)"
    using f(1) by (auto simp: t ref_of_def fun_eq_iff) (metis ref_of_def ref_of_leave)+
  have mt: "members_of t = (members_of s)(i := [], r := rev cs @ remove1 i (members_of s r))"
  proof -
    have "members_of t = (members_of (leave i ?u))(i := [])"
      by (auto simp: t members_of_def fun_eq_iff)
    also have "\<dots> = (members_of s)(i := [], r := rev cs @ remove1 i (members_of s r))"
      using ri ics by (auto simp: members_of_leave [OF iu] f remove1_append fun_eq_iff)
    finally show ?thesis .
  qed
  have disj: "set (members_of s r) \<inter> set cs = {}"
    using ref cs ri by (metis disjoint_iff option.inject)
  have irk: "rk r < rk i" using i by (rule rk)
  have crk: "rk i < rk c" if "c \<in> set cs" for c using ref cs rk that by metis
  have ref': "ref_of t j = Some k \<longleftrightarrow> j \<in> set (members_of t k)" for j k
    using ref [of j k] ref [of j r] ref [of j i] ics dist [of r] ri i disj
    by (auto simp: rt mt cs set_remove1_eq)
  have dist': "distinct (members_of t k)" for k
    using dist [of k] dist [of i] disj by (auto simp: mt cs dest: notin_set_remove1)
  have rd': "k \<in> dom t" if "ref_of t j = Some k" for j k
    using that rd dd [of j k] ri cs ref [of j i] by (auto simp: rt du simp del: domIff split: if_splits)
  have rk': "rk k < rk j" if "ref_of t j = Some k" for j k
    using that rk [of j k] irk crk [of j] by (auto simp: rt split: if_splits)
  show "acc_links t"
    unfolding acc_links_def using ref' dist' rd' rk' by blast
qed

text \<open>What the destructor computes, for an account with a reference account.\<close>

lemma destruct_guard:
  assumes "acc_ok a" and "acc_ref a \<noteq> None"
    and "g1 = (if qg_used (acc_guard a) > acc_initial_used a
               then qg_replenish (qg_used (acc_guard a) - acc_initial_used a) (acc_guard a)
               else acc_guard a)"
    and "qg_try_downgrade (qg_limit g1 - acc_initial_limit a) g1 = (ok, g2)"
  shows "qg_limit g1 = qg_limit (acc_guard a)" and "ok" and "qg_limit g2 = acc_initial_limit a"
    and "qg_ok g2"
proof -
  have ok: "qg_ok (acc_guard a)" and il: "acc_initial_limit a \<le> qg_limit (acc_guard a)"
    and iu: "acc_initial_used a \<le> acc_initial_limit a"
    using assms(1,2) by (auto simp: acc_ok_def)
  show l1: "qg_limit g1 = qg_limit (acc_guard a)" by (simp add: assms(3))
  have "unat (qg_used g1) \<le> unat (acc_initial_used a)"
    by (auto simp: assms(3) unat_qg_replenish unat_sub_le unat_less_iff unat_le_iff)
  moreover have ok1: "qg_ok g1" using ok by (simp add: assms(3) qg_ok_replenish)
  ultimately have "fst (qg_try_downgrade (qg_limit g1 - acc_initial_limit a) g1)"
    using il iu by (simp add: try_downgrade_iff l1 unat_sub_le unat_le_iff)
  then show "ok" by (simp add: assms(4))
  with assms(4) have g2: "g2 = g1\<lparr>qg_limit := qg_limit g1 - (qg_limit g1 - acc_initial_limit a)\<rparr>"
    and "qg_try_downgrade (qg_limit g1 - acc_initial_limit a) g1 = (True, g2)"
    by (auto simp: qg_try_downgrade_def split: if_splits)
  then show "qg_ok g2" using try_downgrade_True(4) [OF ok1] by blast
  show "qg_limit g2 = acc_initial_limit a" by (simp add: g2)
qed

lemma destruct_cases:
  assumes "s i = Some a" and "acc_ref a = Some r" and "account_destruct i s = (ok, g2, t)"
  obtains g1 where "g1 = (if qg_used (acc_guard a) > acc_initial_used a
               then qg_replenish (qg_used (acc_guard a) - acc_initial_used a) (acc_guard a)
               else acc_guard a)"
    and "qg_try_downgrade (qg_limit g1 - acc_initial_limit a) g1 = (ok, g2)"
    and "t = (leave i (fold (adopt r) (acc_members a)
                (guard_upd r (qg_upgrade (qg_limit g1 - acc_initial_limit a)) s)))(i := None)"
  using assms by (auto simp: account_destruct_def Let_def split: prod.splits)

lemma destruct_stores:
  assumes wf: "acc_wf s" and s: "s i = Some a" and r: "acc_ref a = Some r"
    and d: "account_destruct i s = (ok, g2, t)"
  shows "ok" and "qg_limit g2 = acc_initial_limit a" and "qg_ok g2"
    and "acc_links t" and "dom t = dom s - {i}" and "r \<noteq> i" and "r \<in> dom s"
    and "ref_of t = (\<lambda>j. if j = i then None else if j \<in> set (acc_members a) then Some r else ref_of s j)"
    and "same_core t ((guard_upd r (qg_upgrade (qg_limit (acc_guard a) - acc_initial_limit a)) s)(i := None))"
proof -
  have ok: "acc_ok a" and links: "acc_links s" using wf s by (auto simp: acc_wf_def)
  obtain g1 where g1: "g1 = (if qg_used (acc_guard a) > acc_initial_used a
               then qg_replenish (qg_used (acc_guard a) - acc_initial_used a) (acc_guard a)
               else acc_guard a)"
    and down: "qg_try_downgrade (qg_limit g1 - acc_initial_limit a) g1 = (ok, g2)"
    and t: "t = (leave i (fold (adopt r) (acc_members a)
                (guard_upd r (qg_upgrade (qg_limit g1 - acc_initial_limit a)) s)))(i := None)"
    using destruct_cases [of s i a r ok g2 t] s r d by metis
  have rn: "acc_ref a \<noteq> None" using r by simp
  note g = destruct_guard [OF ok rn g1 down]
  show "ok" "qg_limit g2 = acc_initial_limit a" "qg_ok g2" using g by simp_all
  let ?s1 = "guard_upd r (qg_upgrade (qg_limit (acc_guard a) - acc_initial_limit a)) s"
  have l1: "acc_links ?s1" and i1: "ref_of ?s1 i = Some r"
    using links s r by (simp_all add: ref_of_Some)
  have m1: "acc_members a = members_of ?s1 i" using s by (simp add: members_of_def)
  have t1: "t = (leave i (fold (adopt r) (acc_members a) ?s1))(i := None)" using t g(1) by simp
  note dl = destruct_links [OF l1 i1 m1 t1]
  show "acc_links t" by (rule dl)
  show "ref_of t = (\<lambda>j. if j = i then None else if j \<in> set (acc_members a) then Some r else ref_of s j)"
    by (simp only: dl(2) links_guard_upd)
  show "r \<noteq> i" using wf_not_self_ref [OF l1] i1 by metis
  show "r \<in> dom s" using l1 i1 by (auto simp: acc_links_def simp del: domIff)
  have c: "same_core (leave i (fold (adopt r) (acc_members a) ?s1)) ?s1"
    by (rule same_core_trans [OF same_core_leave same_core_fold_adopt])
  then show "same_core t (?s1(i := None))" by (simp add: t1 same_core_def)
  show "dom t = dom s - {i}" using same_core_dom [OF c] by (simp add: t1)
qed

lemma destruct_wf:
  assumes wf: "acc_wf s" and s: "s i = Some a" and r: "acc_ref a = Some r"
    and d: "account_destruct i s = (ok, g2, t)"
  shows "acc_wf t"
proof -
  note ds = destruct_stores [OF wf s r d]
  let ?m = "qg_limit (acc_guard a) - acc_initial_limit a"
  have "acc_ok b" if b: "t j = Some b" for j b
  proof -
    have ne: "j \<noteq> i" and "j \<in> dom s" using b ds(5) by (auto simp: dom_def)
    then obtain c where c: "s j = Some c" by blast
    have okc: "acc_ok c" using wf c by (auto simp: acc_wf_def)
    let ?c' = "if j = r then c\<lparr>acc_guard := qg_upgrade ?m (acc_guard c)\<rparr> else c"
    have okc': "acc_ok ?c'" using okc acc_ok_upgrade by auto
    have "map_option core_of (t j) =
        map_option core_of (((guard_upd r (qg_upgrade ?m) s)(i := None)) j)"
      using ds(9) unfolding same_core_def by blast
    then have "core_of b = core_of ?c'"
      using b c ne by (cases "j = r") (simp_all add: guard_upd_apply)
    then have eq: "acc_guard b = acc_guard ?c'" "acc_initial_used b = acc_initial_used ?c'"
      "acc_initial_limit b = acc_initial_limit ?c'"
      using core_of_eqD by blast+
    have "acc_ref b = None \<or> acc_ref c \<noteq> None"
    proof -
      have "acc_ref b = (if j \<in> set (acc_members a) then Some r else acc_ref c)"
        using ds(8) ref_of_Some [of t j b] ref_of_Some [of s j c] b c ne by metis
      moreover have "acc_ref c = Some i" if "j \<in> set (acc_members a)"
      proof -
        have "j \<in> set (members_of s i)" using that s by (simp add: members_of_def)
        then have "ref_of s j = Some i" using wf by (auto simp: acc_wf_def acc_links_def)
        then show ?thesis using ref_of_Some [of s j c] c by simp
      qed
      ultimately show ?thesis by auto
    qed
    with okc' eq show ?thesis by (auto simp: acc_ok_def split: if_splits)
  qed
  moreover have "finite (dom t)" using wf ds(5) by (simp add: acc_wf_def)
  ultimately show ?thesis using ds(4) by (simp add: acc_wf_def)
qed

lemma destruct_total:
  assumes wf: "acc_wf s" and s: "s i = Some a" and r: "acc_ref a = Some r"
    and d: "account_destruct i s = (ok, g2, t)" and total: "total_limit s < 2 ^ 64"
  shows "limit_of t r = limit_of s r + (limit_of s i - unat (acc_initial_limit a))"
    and "total_limit t + unat (acc_initial_limit a) = total_limit s"
proof -
  note ds = destruct_stores [OF wf s r d]
  let ?m = "qg_limit (acc_guard a) - acc_initial_limit a"
  have fin: "finite (dom s)" and il: "acc_initial_limit a \<le> qg_limit (acc_guard a)"
    using wf s by (auto simp: acc_wf_def acc_ok_def)
  have m: "unat ?m = limit_of s i - unat (acc_initial_limit a)"
    and il': "unat (acc_initial_limit a) \<le> limit_of s i"
    using il s by (auto simp: limit_of_def unat_sub_le unat_le_iff)
  have din: "i \<in> dom s" using s by blast
  note split = total_limit_split2 [OF fin din ds(7) ds(6) [symmetric]]
  obtain c where c: "s r = Some c" using ds(7) by blast
  have lt: "limit_of t j = limit_of ((guard_upd r (qg_upgrade ?m) s)(i := None)) j" for j
    by (rule same_core_limit [OF ds(9)])
  have "unat (qg_limit (acc_guard c)) + unat ?m < 2 ^ 64"
    using split total m c by (simp add: limit_of_def)
  then have lr: "limit_of t r = limit_of s r + unat ?m"
    using ds(6) c by (simp add: lt) (simp add: limit_of_def guard_upd_apply unat_upgrade_exact)
  then show "limit_of t r = limit_of s r + (limit_of s i - unat (acc_initial_limit a))"
    by (simp add: m)
  have "limit_of t k = limit_of s k" if "k \<notin> {i, r}" for k
    using that by (simp only: lt) (simp add: limit_of_def guard_upd_apply)
  then have rest: "(\<Sum>k\<in>dom s - {i, r}. limit_of t k) = (\<Sum>k\<in>dom s - {i, r}. limit_of s k)"
    by (intro sum.cong) auto
  have rt: "r \<in> dom t" and ft: "finite (dom t)" using ds(5,6,7) fin by auto
  have "dom t - {r} = dom s - {i, r}" using ds(5) by auto
  then have "total_limit t = limit_of t r + (\<Sum>k\<in>dom s - {i, r}. limit_of t k)"
    using total_limit_split [OF ft rt] by simp
  then show "total_limit t + unat (acc_initial_limit a) = total_limit s"
    using split lr rest m il' by simp
qed

section \<open>Reachable account systems\<close>

text \<open>
  Every way in which core changes its accounts. An account without a reference account (the
  initial one) is never destructed.
\<close>

inductive acc_reach :: "'i accounts \<Rightarrow> bool" where
  empty: "acc_reach Map.empty"
| initial: "acc_reach s \<Longrightarrow> i \<notin> dom s \<Longrightarrow> qg_ok g \<Longrightarrow> acc_reach (account_construct_initial i g s)"
| construct: "acc_reach s \<Longrightarrow> i \<notin> dom s \<Longrightarrow> ref \<in> dom s \<Longrightarrow> qg_ok g \<Longrightarrow>
    acc_reach (account_construct i g ref s)"
| transfer: "acc_reach s \<Longrightarrow> s this = Some a \<Longrightarrow> s other = Some b \<Longrightarrow>
    transfer_quota this other amount s = Inr s' \<Longrightarrow> acc_reach s'"
| withdraw: "acc_reach s \<Longrightarrow> s i = Some a \<Longrightarrow> account_withdraw i amount s = Inr s' \<Longrightarrow> acc_reach s'"
| replenish: "acc_reach s \<Longrightarrow> s i = Some a \<Longrightarrow> acc_reach (account_replenish i amount s)"
| destruct: "acc_reach s \<Longrightarrow> s i = Some a \<Longrightarrow> acc_ref a = Some r \<Longrightarrow>
    account_destruct i s = (ok, g, s') \<Longrightarrow> acc_reach s'"

lemma acc_wf_guard_upd:
  assumes "acc_wf s" and "s i = Some a" and "qg_ok (f (acc_guard a))"
    and "qg_limit (f (acc_guard a)) = qg_limit (acc_guard a)"
  shows "acc_wf (guard_upd i f s)"
  using assms by (auto simp: acc_wf_def guard_upd_apply acc_ok_def split: if_splits)

lemma ref_of_fresh: "i \<notin> dom s \<Longrightarrow> ref_of s i = None" and members_of_fresh: "i \<notin> dom s \<Longrightarrow> members_of s i = []"
  by (auto simp: ref_of_def members_of_def domIff)

lemma acc_links_fresh:
  assumes "acc_links s" and "i \<notin> dom s" and "acc_ref a = None" and "acc_members a = []"
  shows "acc_links (s(i \<mapsto> a))"
proof -
  have "ref_of (s(i \<mapsto> a)) = ref_of s" and "members_of (s(i \<mapsto> a)) = members_of s"
    using assms by (auto simp: fun_eq_iff ref_of_def members_of_def domIff)
  with assms(1) show ?thesis by (simp add: acc_links_def) blast
qed

lemma construct_initial_wf:
  assumes "acc_wf s" and "i \<notin> dom s" and "qg_ok g"
  shows "acc_wf (account_construct_initial i g s)"
  using assms
  by (auto simp: acc_wf_def account_construct_initial_def acc_ok_def intro!: acc_links_fresh
      split: if_splits)

lemma construct_wf:
  assumes wf: "acc_wf s" and i: "i \<notin> dom s" and r: "ref \<in> dom s" and g: "qg_ok g"
  shows "acc_wf (account_construct i g ref s)"
proof -
  let ?a = "\<lparr>acc_guard = g, acc_initial_used = qg_used g, acc_initial_limit = qg_limit g,
              acc_ref = None, acc_members = []\<rparr>"
  let ?s = "s(i \<mapsto> ?a)" and ?t = "account_construct i g ref s"
  have links: "acc_links ?s" using wf i by (intro acc_links_fresh) (auto simp: acc_wf_def)
  have ref: "\<And>j k. ref_of ?s j = Some k \<longleftrightarrow> j \<in> set (members_of ?s k)" using links
    by (auto simp: acc_links_def)
  have ri: "ref \<noteq> i" using i r by blast
  have lv: "leave i ?s = ?s" by (simp add: leave_def)
  have t: "?t = upd i (\<lambda>a. a\<lparr>acc_ref := Some ref\<rparr>)
              (upd ref (\<lambda>t. t\<lparr>acc_members := i # acc_members t\<rparr>) ?s)"
    by (simp add: account_construct_def adopt_def lv)
  have dom: "dom ?t = insert i (dom s)" by (simp add: t)
  have rt: "ref_of ?t = (ref_of ?s)(i := Some ref)"
    by (simp add: t ref_of_upd_ref)
  have mt: "members_of ?t = (members_of ?s)(ref := i # members_of ?s ref)"
    using r by (simp add: t members_of_upd_members)
  have none: "ref_of ?s i = None" by (simp add: ref_of_def)
  obtain rk :: "'a \<Rightarrow> nat" where rk: "\<And>j k. ref_of ?s j = Some k \<Longrightarrow> rk k < rk j"
    using links unfolding acc_links_def by blast
  have noti: "ref_of ?s j \<noteq> Some i" for j
    using ref [of j i] i by (simp add: members_of_def)
  have "acc_links ?t"
    unfolding acc_links_def
  proof (intro conjI allI impI)
    fix j k
    show "ref_of ?t j = Some k \<longleftrightarrow> j \<in> set (members_of ?t k)"
      using ref [of j k] none ref [of i k] by (auto simp: rt mt)
    show "distinct (members_of ?t k)"
      using links ref [of i ref] none by (auto simp: mt acc_links_def)
    show "k \<in> dom ?t" if "ref_of ?t j = Some k"
    proof (cases "j = i")
      case True
      with that have "k = ref" by (simp add: rt)
      with r show ?thesis by (simp add: dom)
    next
      case False
      with that have "ref_of ?s j = Some k" by (simp add: rt)
      with links have "k \<in> dom ?s" by (auto simp: acc_links_def simp del: domIff)
      then show ?thesis by (simp add: dom)
    qed
    have "(rk(i := Suc (rk ref))) k < (rk(i := Suc (rk ref))) j" if "ref_of ?t j = Some k" for j k
      using that rk [of j k] ri noti [of j] by (auto simp: rt split: if_splits)
    then show "\<exists>rk :: 'a \<Rightarrow> nat. \<forall>j k. ref_of ?t j = Some k \<longrightarrow> rk k < rk j" by blast
  qed
  moreover have "acc_ok b" if "?t j = Some b" for j b
    using that wf g ri by (auto simp: t upd_apply acc_wf_def acc_ok_def qg_ok_def split: if_splits)
  ultimately show ?thesis using wf by (simp add: acc_wf_def dom)
qed

lemma withdraw_wf:
  assumes "acc_wf s" and "s i = Some a" and "account_withdraw i m s = Inr s'"
  shows "acc_wf s'"
proof -
  obtain g where g: "qg_try_withdraw m (acc_guard a) = (True, g)" and s': "s' = guard_upd i (\<lambda>_. g) s"
    using assms(2,3)
    by (auto simp: account_withdraw_def withdraw_def split: sum.splits prod.splits bool.splits quota_error.splits)
  have "qg_ok (acc_guard a)" using assms(1,2) by (auto simp: acc_wf_def acc_ok_def)
  from try_withdraw_True [OF this g] show ?thesis
    unfolding s' by (intro acc_wf_guard_upd [OF assms(1,2)]) simp_all
qed

lemma acc_reach_wf: "acc_reach s \<Longrightarrow> acc_wf s"
proof (induction rule: acc_reach.induct)
  case empty
  show ?case by (simp add: acc_wf_def acc_links_def ref_of_def members_of_def)
next
  case (initial s i g)
  from initial.IH initial.hyps(2,3) show ?case by (rule construct_initial_wf)
next
  case (construct s i ref g)
  from construct.IH construct.hyps(2-4) show ?case by (rule construct_wf)
next
  case (transfer s this a other b amount s')
  from transfer.IH transfer.hyps(2-4) show ?case by (rule transfer_wf)
next
  case (withdraw s i a amount s')
  from withdraw.IH withdraw.hyps(2-3) show ?case by (rule withdraw_wf)
next
  case (replenish s i a amount)
  then have "qg_ok (acc_guard a)" by (auto simp: acc_wf_def acc_ok_def)
  then show ?case
    unfolding account_replenish_def
    using replenish by (intro acc_wf_guard_upd [where a = a]) (simp_all add: qg_ok_replenish)
next
  case (destruct s i a r ok g s')
  from destruct.IH destruct.hyps(2-4) show ?case by (rule destruct_wf)
qed

section \<open>Properties\<close>

text \<open>
  \<^bold>\<open>C2.\<close> In every account system core can reach, each account uses at most its limit, keeps at
  least the limit it was created with, and the reference links are consistent: they form a forest
  over live accounts, and each registry lists exactly the accounts that refer to it.
\<close>

theorem account_invariant:
  assumes "acc_reach s"
  shows "(\<forall>i a. s i = Some a \<longrightarrow> qg_used (acc_guard a) \<le> qg_limit (acc_guard a) \<and>
            acc_initial_limit a \<le> qg_limit (acc_guard a)) \<and> acc_links s"
  using acc_reach_wf [OF assms] by (auto simp: acc_wf_def acc_ok_def qg_ok_def)

text \<open>A small system: the initial account 0 and the account 1 that it created.\<close>

definition demo_accounts :: "nat accounts" where
  "demo_accounts =
     account_construct 1 \<lparr>qg_limit = 20, qg_used = 5\<rparr> 0
       (account_construct_initial 0 \<lparr>qg_limit = 100, qg_used = 10\<rparr> Map.empty)"

lemma demo_accounts_eq:
  "demo_accounts =
     [0 \<mapsto> \<lparr>acc_guard = \<lparr>qg_limit = 100, qg_used = 10\<rparr>, acc_initial_used = 10,
            acc_initial_limit = 0, acc_ref = None, acc_members = [1]\<rparr>,
      1 \<mapsto> \<lparr>acc_guard = \<lparr>qg_limit = 20, qg_used = 5\<rparr>, acc_initial_used = 5,
            acc_initial_limit = 20, acc_ref = Some 0, acc_members = []\<rparr>]"
  by (auto simp: demo_accounts_def account_construct_def account_construct_initial_def adopt_def
      leave_def upd_def fun_eq_iff)

lemma demo_accounts_reach: "acc_reach demo_accounts"
  unfolding demo_accounts_def
  by (intro acc_reach.construct acc_reach.initial acc_reach.empty)
    (simp_all add: qg_ok_def account_construct_initial_def)

lemma demo_accounts_wf: "acc_wf demo_accounts"
  by (rule acc_reach_wf [OF demo_accounts_reach])

lemma demo_accounts_total: "total_limit demo_accounts = 120"
  by (simp add: total_limit_def demo_accounts_eq limit_of_def)

theorem account_invariant_witness:
  "acc_reach demo_accounts \<and> dom demo_accounts = {0, 1} \<and> acc_links demo_accounts"
  using demo_accounts_reach account_invariant [OF demo_accounts_reach]
  by (auto simp: demo_accounts_eq)

text \<open>
  \<^bold>\<open>C3.\<close> A successful quota transfer takes place between an account and its reference account
  only, moves exactly the requested amount, leaves every other account alone and conserves the sum
  of all limits (as long as that sum fits a machine word), and it keeps the system well-formed.
\<close>

theorem transfer_conserves_quota:
  assumes "acc_wf s" and "s this = Some a" and "s other = Some b"
    and "total_limit s < 2 ^ 64" and "transfer_quota this other amount s = Inr s'"
  shows "acc_wf s' \<and>
    total_limit s' = total_limit s \<and>
    (acc_ref a = Some other \<or> acc_ref b = Some this) \<and>
    limit_of s' this + unat amount = limit_of s this \<and>
    limit_of s' other = limit_of s other + unat amount \<and>
    (\<forall>j. j \<noteq> this \<longrightarrow> j \<noteq> other \<longrightarrow> s' j = s j) \<and>
    unat (acc_initial_limit a) \<le> limit_of s' this"
proof (intro conjI)
  note l = transfer_limits [OF assms(1-3,5,4)]
  show wf: "acc_wf s'" by (rule transfer_wf [OF assms(1-3,5)])
  show "total_limit s' = total_limit s" by (rule l)
  show "acc_ref a = Some other \<or> acc_ref b = Some this"
    using assms(2,3,5) by (auto simp: transfer_quota_def split: if_splits)
  show "limit_of s' this + unat amount = limit_of s this" using l(1,2) by simp
  show "limit_of s' other = limit_of s other + unat amount" by (rule l)
  show "\<forall>j. j \<noteq> this \<longrightarrow> j \<noteq> other \<longrightarrow> s' j = s j" using l(4) by blast
  have "acc_links s" using assms(1) by (simp add: acc_wf_def)
  from transfer_cases [OF this assms(2,3,5)] obtain g where
    g: "s' = guard_upd other (qg_upgrade amount) (guard_upd this (\<lambda>_. g) s)" by metis
  then have "s' this = Some (a\<lparr>acc_guard := g\<rparr>)"
    using assms(2) l(6) by (simp add: guard_upd_apply)
  moreover from this have "acc_ok (a\<lparr>acc_guard := g\<rparr>)" using wf by (auto simp: acc_wf_def)
  ultimately show "unat (acc_initial_limit a) \<le> limit_of s' this"
    by (simp add: limit_of_def acc_ok_def unat_le_iff)
qed

theorem transfer_conserves_quota_witness:
  "\<exists>s'. transfer_quota 0 1 30 demo_accounts = Inr s' \<and> total_limit s' = 120 \<and>
        limit_of s' 0 + 30 = 100 \<and> limit_of s' 1 = 50"
proof -
  obtain a b where ab: "demo_accounts 0 = Some a" "demo_accounts 1 = Some b"
    by (simp add: demo_accounts_eq)
  obtain s' where t: "transfer_quota 0 1 30 demo_accounts = Inr s'"
    by (simp add: transfer_quota_def demo_accounts_eq transferrable_quota_def qg_try_downgrade_def
        qg_avail_def)
  have "total_limit demo_accounts < 2 ^ 64" by (simp add: demo_accounts_total)
  note p = transfer_conserves_quota [OF demo_accounts_wf ab this t]
  have "limit_of demo_accounts 0 = 100" "limit_of demo_accounts 1 = 20"
    by (simp_all add: demo_accounts_eq limit_of_def)
  with t p show ?thesis by (simp add: demo_accounts_total)
qed

text \<open>
  \<^bold>\<open>C4.\<close> Destructing an account never fails its final downgrade: its guard is left with exactly
  the limit the client donated at creation, everything above it goes back to the reference account
  (the sum of the remaining limits drops by the donation alone), the members become members of the
  reference account, and no account refers to the destructed one any more.
\<close>

theorem destruct_returns_quota:
  assumes "acc_wf s" and "s i = Some a" and "acc_ref a = Some r"
    and "total_limit s < 2 ^ 64" and "account_destruct i s = (ok, g, t)"
  shows "ok \<and>
    qg_limit g = acc_initial_limit a \<and>
    acc_wf t \<and>
    dom t = dom s - {i} \<and>
    total_limit t + unat (acc_initial_limit a) = total_limit s \<and>
    limit_of t r = limit_of s r + (limit_of s i - unat (acc_initial_limit a)) \<and>
    (\<forall>c. c \<in> set (acc_members a) \<longrightarrow> ref_of t c = Some r) \<and>
    (\<forall>c. ref_of t c \<noteq> Some i)"
proof (intro conjI)
  note ds = destruct_stores [OF assms(1-3,5)]
  show "ok" "qg_limit g = acc_initial_limit a" "dom t = dom s - {i}" by (rule ds)+
  show wf: "acc_wf t" by (rule destruct_wf [OF assms(1-3,5)])
  show "total_limit t + unat (acc_initial_limit a) = total_limit s"
    and "limit_of t r = limit_of s r + (limit_of s i - unat (acc_initial_limit a))"
    by (rule destruct_total [OF assms(1-3,5,4)])+
  have "i \<notin> set (acc_members a)"
  proof
    assume "i \<in> set (acc_members a)"
    then have "ref_of s i = Some i"
      using assms(1,2) by (auto simp: acc_wf_def acc_links_def members_of_def)
    then show False using wf_not_self_ref [of s i] assms(1) by (simp add: acc_wf_def)
  qed
  then show "\<forall>c. c \<in> set (acc_members a) \<longrightarrow> ref_of t c = Some r"
    by (auto simp: ds(8))
  have "i \<notin> dom t" by (simp add: ds(5))
  then show "\<forall>c. ref_of t c \<noteq> Some i"
    using wf unfolding acc_wf_def acc_links_def by metis
qed

theorem destruct_returns_quota_witness:
  "\<exists>g t. account_destruct 1 demo_accounts = (True, g, t) \<and> qg_limit g = 20 \<and>
     total_limit t = 100 \<and> dom t = {0}"
proof -
  obtain a where a: "demo_accounts 1 = Some a" "acc_ref a = Some 0" "acc_initial_limit a = 20"
    by (simp add: demo_accounts_eq)
  obtain ok g t where d: "account_destruct 1 demo_accounts = (ok, g, t)"
    by (metis prod.collapse)
  have "total_limit demo_accounts < 2 ^ 64" by (simp add: demo_accounts_total)
  note p = destruct_returns_quota [OF demo_accounts_wf a(1,2) this d]
  have "dom demo_accounts - {1} = {0}" by (auto simp: demo_accounts_eq)
  with d p a(3) show ?thesis by (simp add: demo_accounts_total)
qed

end
