(* ===== verification/Double_List.thy ===== *)
theory Double_List
  imports Prelude
begin

text \<open>
  \<^verbatim>\<open>base-hw/src/core/kernel/double_list.h\<close>: the intrusive doubly linked list of the kernel. The
  model keeps the pointers: a memory of \<^verbatim>\<open>_next\<close>/\<^verbatim>\<open>_prev\<close> fields shared by all lists, and per
  list the \<^verbatim>\<open>_head\<close> and \<^verbatim>\<open>_tail\<close> pointers, \<open>None\<close> being the null pointer. Dereferencing a null
  pointer is the result \<open>None\<close> of an operation. The locale \<open>kernel_list\<close> states the contract by
  which the scheduler uses its lists; its interpretation shows that the pointer code meets it.
\<close>

section \<open>Pointers\<close>

record 'i dmem =
  nxt :: "'i \<Rightarrow> 'i option"
  prv :: "'i \<Rightarrow> 'i option"

record 'i dlist =
  dl_head :: "'i option"
  dl_tail :: "'i option"

definition set_nxt :: "'i \<Rightarrow> 'i option \<Rightarrow> 'i dmem \<Rightarrow> 'i dmem" where
  "set_nxt i v m = m\<lparr>nxt := (nxt m)(i := v)\<rparr>"

definition set_prv :: "'i \<Rightarrow> 'i option \<Rightarrow> 'i dmem \<Rightarrow> 'i dmem" where
  "set_prv i v m = m\<lparr>prv := (prv m)(i := v)\<rparr>"

definition dl_init :: "'i dlist" where
  "dl_init = \<lparr>dl_head = None, dl_tail = None\<rparr>"

section \<open>Operations\<close>

definition connect_neighbors :: "'i \<Rightarrow> 'i dmem \<Rightarrow> 'i dmem option" where
  "connect_neighbors i m = do {
     p \<leftarrow> prv m i;
     let m1 = set_nxt p (nxt m i) m;
     n \<leftarrow> nxt m1 i;
     Some (set_prv n (prv m1 i) m1)
   }"

definition to_tail_inner :: "'i \<Rightarrow> 'i dmem \<times> 'i dlist \<Rightarrow> ('i dmem \<times> 'i dlist) option" where
  "to_tail_inner i = (\<lambda>(m, l).
     if Some i = dl_tail l then Some (m, l)
     else do {
       m1 \<leftarrow> connect_neighbors i m;
       let m2 = set_nxt i None (set_prv i (dl_tail l) m1);
       t \<leftarrow> dl_tail l;
       Some (set_nxt t (Some i) m2, l\<lparr>dl_tail := Some i\<rparr>)
     })"

definition to_head_inner :: "'i \<Rightarrow> 'i dmem \<times> 'i dlist \<Rightarrow> ('i dmem \<times> 'i dlist) option" where
  "to_head_inner i = (\<lambda>(m, l).
     if Some i = dl_head l then Some (m, l)
     else do {
       m1 \<leftarrow> connect_neighbors i m;
       let m2 = set_prv i None (set_nxt i (dl_head l) m1);
       h \<leftarrow> dl_head l;
       Some (set_prv h (Some i) m2, l\<lparr>dl_head := Some i\<rparr>)
     })"

definition tail_to_head :: "'i dmem \<times> 'i dlist \<Rightarrow> ('i dmem \<times> 'i dlist) option" where
  "tail_to_head = (\<lambda>(m, l).
     if dl_tail l = None \<or> dl_tail l = dl_head l then Some (m, l)
     else do {
       t \<leftarrow> dl_tail l;
       let m1 = set_nxt t (dl_head l) m;
       h \<leftarrow> dl_head l;
       let m2 = set_prv h (dl_tail l) m1;
       let tail1 = prv m2 t;
       t1 \<leftarrow> tail1;
       let m3 = set_nxt t1 None m2;
       let head1 = prv m3 h;
       h1 \<leftarrow> head1;
       Some (set_prv h1 None m3, \<lparr>dl_head = head1, dl_tail = tail1\<rparr>)
     })"

definition head_to_tail :: "'i dmem \<times> 'i dlist \<Rightarrow> ('i dmem \<times> 'i dlist) option" where
  "head_to_tail = (\<lambda>(m, l).
     if dl_head l = None \<or> dl_head l = dl_tail l then Some (m, l)
     else do {
       h \<leftarrow> dl_head l;
       let m1 = set_prv h (dl_tail l) m;
       t \<leftarrow> dl_tail l;
       let m2 = set_nxt t (dl_head l) m1;
       let head1 = nxt m2 h;
       h1 \<leftarrow> head1;
       let m3 = set_prv h1 None m2;
       let tail1 = nxt m3 t;
       t1 \<leftarrow> tail1;
       Some (set_nxt t1 None m3, \<lparr>dl_head = head1, dl_tail = tail1\<rparr>)
     })"

definition to_tail :: "'i \<Rightarrow> 'i dmem \<times> 'i dlist \<Rightarrow> ('i dmem \<times> 'i dlist) option" where
  "to_tail i s = (if Some i = dl_head (snd s) then head_to_tail s else to_tail_inner i s)"

definition to_head :: "'i \<Rightarrow> 'i dmem \<times> 'i dlist \<Rightarrow> ('i dmem \<times> 'i dlist) option" where
  "to_head i s = (if Some i = dl_tail (snd s) then tail_to_head s else to_head_inner i s)"

definition insert_tail :: "'i \<Rightarrow> 'i dmem \<times> 'i dlist \<Rightarrow> ('i dmem \<times> 'i dlist) option" where
  "insert_tail i = (\<lambda>(m, l).
     let (m1, l1) = (case dl_tail l of
                       Some t \<Rightarrow> (set_nxt t (Some i) m, l)
                     | None \<Rightarrow> (m, l\<lparr>dl_head := Some i\<rparr>))
     in Some (set_nxt i None (set_prv i (dl_tail l1) m1), l1\<lparr>dl_tail := Some i\<rparr>))"

definition insert_head :: "'i \<Rightarrow> 'i dmem \<times> 'i dlist \<Rightarrow> ('i dmem \<times> 'i dlist) option" where
  "insert_head i = (\<lambda>(m, l).
     let (m1, l1) = (case dl_head l of
                       Some h \<Rightarrow> (set_prv h (Some i) m, l)
                     | None \<Rightarrow> (m, l\<lparr>dl_tail := Some i\<rparr>))
     in Some (set_prv i None (set_nxt i (dl_head l1) m1), l1\<lparr>dl_head := Some i\<rparr>))"

definition dl_remove :: "'i \<Rightarrow> 'i dmem \<times> 'i dlist \<Rightarrow> ('i dmem \<times> 'i dlist) option" where
  "dl_remove i = (\<lambda>(m, l). do {
     (m1, l1) \<leftarrow> (if Some i = dl_tail l then Some (m, l\<lparr>dl_tail := prv m i\<rparr>)
                  else do { n \<leftarrow> nxt m i; Some (set_prv n (prv m i) m, l) });
     (if Some i = dl_head l1 then Some (m1, l1\<lparr>dl_head := nxt m1 i\<rparr>)
      else do { p \<leftarrow> prv m1 i; Some (set_nxt p (nxt m1 i) m1, l1) })
   })"

text \<open>\<^verbatim>\<open>for_each\<close>: the items in the order in which the function is applied to them.\<close>

partial_function (option) dl_walk :: "'i dmem \<Rightarrow> 'i option \<Rightarrow> 'i list option" where
  "dl_walk m p = (case p of
     None \<Rightarrow> Some []
   | Some i \<Rightarrow> do { xs \<leftarrow> dl_walk m (nxt m i); Some (i # xs) })"

definition dl_for_each :: "'i dmem \<times> 'i dlist \<Rightarrow> 'i list option" where
  "dl_for_each = (\<lambda>(m, l). dl_walk m (dl_head l))"

section \<open>The list that the pointers represent\<close>

definition hdo :: "'i list \<Rightarrow> 'i option \<Rightarrow> 'i option" where
  "hdo xs q = (case xs of [] \<Rightarrow> q | x # _ \<Rightarrow> Some x)"

definition lasto :: "'i option \<Rightarrow> 'i list \<Rightarrow> 'i option" where
  "lasto p xs = (if xs = [] then p else Some (last xs))"

fun seg :: "'i dmem \<Rightarrow> 'i option \<Rightarrow> 'i list \<Rightarrow> 'i option \<Rightarrow> bool" where
  "seg m p [] q \<longleftrightarrow> True"
| "seg m p (x # xs) q \<longleftrightarrow> prv m x = p \<and> nxt m x = hdo xs q \<and> seg m (Some x) xs q"

definition dl_rep :: "'i dmem \<Rightarrow> 'i dlist \<Rightarrow> 'i list \<Rightarrow> bool" where
  "dl_rep m l xs \<longleftrightarrow>
     distinct xs \<and> dl_head l = hdo xs None \<and> dl_tail l = lasto None xs \<and> seg m None xs None"

definition same_outside :: "'i set \<Rightarrow> 'i dmem \<Rightarrow> 'i dmem \<Rightarrow> bool" where
  "same_outside A m m' \<longleftrightarrow> (\<forall>i. i \<notin> A \<longrightarrow> nxt m' i = nxt m i \<and> prv m' i = prv m i)"

lemma hdo_simps [simp]: "hdo [] q = q" "hdo (x # xs) q = Some x"
  "hdo (xs @ ys) q = hdo xs (hdo ys q)"
  by (auto simp: hdo_def split: list.splits)

lemma lasto_simps [simp]: "lasto p [] = p" "lasto p (xs @ [x]) = Some x"
  "lasto p (x # xs) = lasto (Some x) xs" "lasto p (xs @ ys) = lasto (lasto p xs) ys"
  by (auto simp: lasto_def)

lemma hdo_SomeD: "hdo xs q = Some z \<Longrightarrow> z \<in> set xs \<or> q = Some z"
  "Some z = hdo xs q \<Longrightarrow> z \<in> set xs \<or> q = Some z"
  by (cases xs; auto)+

lemma lasto_SomeD: "lasto p xs = Some z \<Longrightarrow> z \<in> set xs \<or> p = Some z"
  "Some z = lasto p xs \<Longrightarrow> z \<in> set xs \<or> p = Some z"
  by (auto simp: lasto_def split: if_splits)

lemma lasto_None [simp]: "lasto (Some x) xs \<noteq> None" "hdo xs (Some x) \<noteq> None"
  by (cases xs; auto simp: lasto_def)+

lemma seg_append [simp]:
  "seg m p (xs @ ys) q \<longleftrightarrow> seg m p xs (hdo ys q) \<and> seg m (lasto p xs) ys q"
  by (induction xs arbitrary: p) auto

lemma mem_simps [simp]:
  "nxt (set_nxt i v m) j = (if j = i then v else nxt m j)" "prv (set_nxt i v m) = prv m"
  "prv (set_prv i v m) j = (if j = i then v else prv m j)" "nxt (set_prv i v m) = nxt m"
  by (simp_all add: set_nxt_def set_prv_def)

lemma seg_cong:
  "(\<And>i. i \<in> set xs \<Longrightarrow> nxt m' i = nxt m i \<and> prv m' i = prv m i) \<Longrightarrow> seg m' p xs q = seg m p xs q"
  by (induction xs arbitrary: p) auto

lemma seg_upd [simp]:
  "i \<notin> set xs \<Longrightarrow> seg (set_nxt i v m) p xs q = seg m p xs q"
  "i \<notin> set xs \<Longrightarrow> seg (set_prv i v m) p xs q = seg m p xs q"
  by (auto intro!: seg_cong)

lemma dl_rep_frame:
  "dl_rep m l xs \<Longrightarrow> same_outside A m m' \<Longrightarrow> A \<inter> set xs = {} \<Longrightarrow> dl_rep m' l xs"
  unfolding dl_rep_def same_outside_def by (metis disjoint_iff seg_cong)

lemma dl_rep_init [simp]: "dl_rep m dl_init []"
  by (simp add: dl_rep_def dl_init_def)

lemma snocE:
  obtains (Nil) "xs = []" | (snoc) ys y where "xs = ys @ [y]"
  by (cases xs rule: rev_cases) auto

section \<open>Each operation against the list\<close>

lemma insert_tail_rep:
  assumes "dl_rep m l xs" and "i \<notin> set xs"
  shows "\<exists>m' l'. insert_tail i (m, l) = Some (m', l') \<and> dl_rep m' l' (xs @ [i]) \<and>
    same_outside (insert i (set xs)) m m'"
  using assms
  by (cases xs rule: snocE)
    (auto simp: dl_rep_def insert_tail_def same_outside_def)

lemma insert_head_rep:
  assumes "dl_rep m l xs" and "i \<notin> set xs"
  shows "\<exists>m' l'. insert_head i (m, l) = Some (m', l') \<and> dl_rep m' l' (i # xs) \<and>
    same_outside (insert i (set xs)) m m'"
  using assms
  by (cases xs) (auto simp: dl_rep_def insert_head_def same_outside_def)

lemma dl_remove_rep:
  assumes "dl_rep m l (as @ i # bs)"
  shows "\<exists>m' l'. dl_remove i (m, l) = Some (m', l') \<and> dl_rep m' l' (as @ bs) \<and>
    same_outside (set (as @ bs)) m m'"
  using assms
  by (cases as rule: snocE; cases bs)
    (auto simp: dl_rep_def dl_remove_def same_outside_def dest!: hdo_SomeD lasto_SomeD)

lemma head_to_tail_rep:
  assumes "dl_rep m l (x # xs)"
  shows "\<exists>m' l'. head_to_tail (m, l) = Some (m', l') \<and> dl_rep m' l' (xs @ [x]) \<and>
    same_outside (set (x # xs)) m m'"
proof (cases xs)
  case Nil
  with assms show ?thesis by (auto simp: dl_rep_def head_to_tail_def same_outside_def)
next
  case (Cons y ys)
  with assms show ?thesis
    by (cases ys rule: snocE)
      (auto simp: dl_rep_def head_to_tail_def same_outside_def Let_def dest!: hdo_SomeD lasto_SomeD)
qed

lemma tail_to_head_rep:
  assumes "dl_rep m l (xs @ [x])"
  shows "\<exists>m' l'. tail_to_head (m, l) = Some (m', l') \<and> dl_rep m' l' (x # xs) \<and>
    same_outside (set (x # xs)) m m'"
proof (cases xs rule: snocE)
  case Nil
  with assms show ?thesis by (auto simp: dl_rep_def tail_to_head_def same_outside_def)
next
  case (snoc ys y)
  with assms show ?thesis
    by (cases ys)
      (auto simp: dl_rep_def tail_to_head_def same_outside_def Let_def dest!: hdo_SomeD lasto_SomeD)
qed

lemma to_tail_rep:
  assumes "dl_rep m l (as @ i # bs)"
  shows "\<exists>m' l'. to_tail i (m, l) = Some (m', l') \<and> dl_rep m' l' (as @ bs @ [i]) \<and>
    same_outside (set (as @ i # bs)) m m'"
proof (cases as rule: snocE)
  case Nil
  with assms have "to_tail i (m, l) = head_to_tail (m, l)"
    by (simp add: to_tail_def dl_rep_def)
  with head_to_tail_rep [of m l i bs] assms Nil show ?thesis by simp
next
  case (snoc ys y)
  show ?thesis
  proof (cases bs rule: snocE)
    case Nil
    with assms snoc show ?thesis
      by (cases ys) (auto simp: to_tail_def to_tail_inner_def dl_rep_def same_outside_def)
  next
    case (snoc zs z)
    with assms \<open>as = ys @ [y]\<close> show ?thesis
      by (cases ys; cases zs)
        (auto simp: to_tail_def to_tail_inner_def connect_neighbors_def dl_rep_def same_outside_def
          dest!: hdo_SomeD lasto_SomeD)
  qed
qed

lemma to_head_rep:
  assumes "dl_rep m l (as @ i # bs)"
  shows "\<exists>m' l'. to_head i (m, l) = Some (m', l') \<and> dl_rep m' l' (i # as @ bs) \<and>
    same_outside (set (as @ i # bs)) m m'"
proof (cases bs rule: snocE)
  case Nil
  with assms have "to_head i (m, l) = tail_to_head (m, l)"
    by (simp add: to_head_def dl_rep_def)
  with tail_to_head_rep [of m l as i] assms Nil show ?thesis by simp
next
  case (snoc zs z)
  show ?thesis
  proof (cases as)
    case Nil
    with assms snoc show ?thesis
      by (cases zs) (auto simp: to_head_def to_head_inner_def dl_rep_def same_outside_def
          dest!: lasto_SomeD)
  next
    case (Cons y ys)
    with assms \<open>bs = zs @ [z]\<close> show ?thesis
      by (cases ys rule: snocE; cases zs)
        (auto simp: to_head_def to_head_inner_def connect_neighbors_def dl_rep_def same_outside_def
          dest!: hdo_SomeD lasto_SomeD)
  qed
qed

text \<open>\<^verbatim>\<open>for_each\<close> terminates and visits the items in list order.\<close>

lemma dl_walk_simps [simp]:
  "dl_walk m None = Some []"
  "dl_walk m (Some i) = do { xs \<leftarrow> dl_walk m (nxt m i); Some (i # xs) }"
  by (simp_all add: dl_walk.simps)

lemma dl_walk_seg: "seg m p xs None \<Longrightarrow> dl_walk m (hdo xs None) = Some xs"
  by (induction xs arbitrary: p) auto

lemma dl_for_each_rep: "dl_rep m l xs \<Longrightarrow> dl_for_each (m, l) = Some xs"
  by (auto simp: dl_rep_def dl_for_each_def intro: dl_walk_seg)

section \<open>The contract of a kernel list\<close>

locale kernel_list =
  fixes rep :: "'m \<Rightarrow> 'l \<Rightarrow> 'i list \<Rightarrow> bool"
    and eqv :: "'i set \<Rightarrow> 'm \<Rightarrow> 'm \<Rightarrow> bool"
    and ins_tail ins_head rem mv_tail mv_head :: "'i \<Rightarrow> 'm \<times> 'l \<Rightarrow> ('m \<times> 'l) option"
    and walk :: "'m \<times> 'l \<Rightarrow> 'i list option"
  assumes frame: "rep m l xs \<Longrightarrow> eqv A m m' \<Longrightarrow> A \<inter> set xs = {} \<Longrightarrow> rep m' l xs"
    and ins_tail: "rep m l xs \<Longrightarrow> i \<notin> set xs \<Longrightarrow>
      \<exists>m' l'. ins_tail i (m, l) = Some (m', l') \<and> rep m' l' (xs @ [i]) \<and> eqv (insert i (set xs)) m m'"
    and ins_head: "rep m l xs \<Longrightarrow> i \<notin> set xs \<Longrightarrow>
      \<exists>m' l'. ins_head i (m, l) = Some (m', l') \<and> rep m' l' (i # xs) \<and> eqv (insert i (set xs)) m m'"
    and rem: "rep m l xs \<Longrightarrow> i \<in> set xs \<Longrightarrow>
      \<exists>m' l'. rem i (m, l) = Some (m', l') \<and> rep m' l' (remove1 i xs) \<and> eqv (set xs) m m'"
    and mv_tail: "rep m l xs \<Longrightarrow> i \<in> set xs \<Longrightarrow>
      \<exists>m' l'. mv_tail i (m, l) = Some (m', l') \<and> rep m' l' (remove1 i xs @ [i]) \<and> eqv (set xs) m m'"
    and mv_head: "rep m l xs \<Longrightarrow> i \<in> set xs \<Longrightarrow>
      \<exists>m' l'. mv_head i (m, l) = Some (m', l') \<and> rep m' l' (i # remove1 i xs) \<and> eqv (set xs) m m'"
    and walk: "rep m l xs \<Longrightarrow> walk (m, l) = Some xs"
    and distinct: "rep m l xs \<Longrightarrow> distinct xs"
begin

text \<open>
  Moving an item from one list to the front or back of another: both operations succeed, the two
  lists end as expected and any third list of the same memory is untouched.
\<close>

lemma rem_ins_head:
  assumes "rep m a xs" and "rep m b ys" and "rep m c zs" and "i \<in> set xs"
    and "set xs \<inter> set ys = {}" and "set xs \<inter> set zs = {}" and "set ys \<inter> set zs = {}"
  shows "\<exists>m1 a' m2 b'. rem i (m, a) = Some (m1, a') \<and> ins_head i (m1, b) = Some (m2, b') \<and>
    rep m2 a' (remove1 i xs) \<and> rep m2 b' (i # ys) \<and> rep m2 c zs"
proof -
  obtain m1 a' where r: "rem i (m, a) = Some (m1, a')" "rep m1 a' (remove1 i xs)" "eqv (set xs) m m1"
    using rem [OF assms(1,4)] by blast
  have b: "rep m1 b ys" and c: "rep m1 c zs" using frame r(3) assms by blast+
  have i: "i \<notin> set ys" using assms by blast
  obtain m2 b' where h: "ins_head i (m1, b) = Some (m2, b')" "rep m2 b' (i # ys)"
    "eqv (insert i (set ys)) m1 m2" using ins_head [OF b i] by blast
  have "insert i (set ys) \<inter> set (remove1 i xs) = {}"
    using assms(5) distinct [OF assms(1)] by (auto simp: set_remove1_eq dest: notin_set_remove1)
  then have "rep m2 a' (remove1 i xs)" using frame [OF r(2) h(3)] by blast
  moreover have "rep m2 c zs" using frame [OF c h(3)] assms by blast
  ultimately show ?thesis using r h by blast
qed

lemma rem_ins_tail:
  assumes "rep m a xs" and "rep m b ys" and "rep m c zs" and "i \<in> set xs"
    and "set xs \<inter> set ys = {}" and "set xs \<inter> set zs = {}" and "set ys \<inter> set zs = {}"
  shows "\<exists>m1 a' m2 b'. rem i (m, a) = Some (m1, a') \<and> ins_tail i (m1, b) = Some (m2, b') \<and>
    rep m2 a' (remove1 i xs) \<and> rep m2 b' (ys @ [i]) \<and> rep m2 c zs"
proof -
  obtain m1 a' where r: "rem i (m, a) = Some (m1, a')" "rep m1 a' (remove1 i xs)" "eqv (set xs) m m1"
    using rem [OF assms(1,4)] by blast
  have b: "rep m1 b ys" and c: "rep m1 c zs" using frame r(3) assms by blast+
  have i: "i \<notin> set ys" using assms by blast
  obtain m2 b' where h: "ins_tail i (m1, b) = Some (m2, b')" "rep m2 b' (ys @ [i])"
    "eqv (insert i (set ys)) m1 m2" using ins_tail [OF b i] by blast
  have "insert i (set ys) \<inter> set (remove1 i xs) = {}"
    using assms(5) distinct [OF assms(1)] by (auto simp: set_remove1_eq dest: notin_set_remove1)
  then have "rep m2 a' (remove1 i xs)" using frame [OF r(2) h(3)] by blast
  moreover have "rep m2 c zs" using frame [OF c h(3)] assms by blast
  ultimately show ?thesis using r h by blast
qed

end

lemma distinct_split: "i \<in> set xs \<Longrightarrow> distinct xs \<Longrightarrow>
    \<exists>as bs. xs = as @ i # bs \<and> remove1 i xs = as @ bs"
  by (metis distinct.simps(2) distinct_append not_distinct_conv_prefix remove1_append
      remove1.simps(2) split_list_first)

lemma same_outside_mono: "same_outside A m m' \<Longrightarrow> A \<subseteq> B \<Longrightarrow> same_outside B m m'"
  by (auto simp: same_outside_def)

interpretation dl: kernel_list
  dl_rep same_outside insert_tail insert_head dl_remove to_tail to_head dl_for_each
proof unfold_locales
  fix m m' :: "'i dmem" and l :: "'i dlist" and xs A and i :: 'i
  show "dl_rep m l xs \<Longrightarrow> same_outside A m m' \<Longrightarrow> A \<inter> set xs = {} \<Longrightarrow> dl_rep m' l xs"
    by (rule dl_rep_frame)
  show "dl_for_each (m, l) = Some xs" if "dl_rep m l xs"
    using that by (rule dl_for_each_rep)
  show dist: "distinct xs" if "dl_rep m l xs"
    using that by (simp add: dl_rep_def)
  show "\<exists>m' l'. insert_tail i (m, l) = Some (m', l') \<and> dl_rep m' l' (xs @ [i]) \<and>
      same_outside (insert i (set xs)) m m'" if "dl_rep m l xs" "i \<notin> set xs"
    using that by (rule insert_tail_rep)
  show "\<exists>m' l'. insert_head i (m, l) = Some (m', l') \<and> dl_rep m' l' (i # xs) \<and>
      same_outside (insert i (set xs)) m m'" if "dl_rep m l xs" "i \<notin> set xs"
    using that by (rule insert_head_rep)
  show "\<exists>m' l'. dl_remove i (m, l) = Some (m', l') \<and> dl_rep m' l' (remove1 i xs) \<and>
      same_outside (set xs) m m'" if "dl_rep m l xs" "i \<in> set xs"
    using distinct_split [OF that(2) dist [OF that(1)]] that(1) dl_remove_rep [of m l _ i]
    by (fastforce intro: same_outside_mono)
  show "\<exists>m' l'. to_tail i (m, l) = Some (m', l') \<and> dl_rep m' l' (remove1 i xs @ [i]) \<and>
      same_outside (set xs) m m'" if "dl_rep m l xs" "i \<in> set xs"
    using distinct_split [OF that(2) dist [OF that(1)]] that(1) to_tail_rep [of m l _ i]
    by fastforce
  show "\<exists>m' l'. to_head i (m, l) = Some (m', l') \<and> dl_rep m' l' (i # remove1 i xs) \<and>
      same_outside (set xs) m m'" if "dl_rep m l xs" "i \<in> set xs"
    using distinct_split [OF that(2) dist [OF that(1)]] that(1) to_head_rep [of m l _ i]
    by fastforce
qed

section \<open>Many lists in one memory\<close>

text \<open>
  The kernel keeps the same items on a family of lists (the scheduler: one ready and one unready
  list per priority). Operations address a list by its key; the abstract family performs them on
  plain lists and is stuck where the contract of an operation is violated.
\<close>

definition al_insert_tail :: "'i \<Rightarrow> 'i list \<Rightarrow> 'i list option" where
  "al_insert_tail i xs = (if i \<in> set xs then None else Some (xs @ [i]))"

definition al_insert_head :: "'i \<Rightarrow> 'i list \<Rightarrow> 'i list option" where
  "al_insert_head i xs = (if i \<in> set xs then None else Some (i # xs))"

definition al_remove :: "'i \<Rightarrow> 'i list \<Rightarrow> 'i list option" where
  "al_remove i xs = (if i \<in> set xs then Some (remove1 i xs) else None)"

definition al_to_tail :: "'i \<Rightarrow> 'i list \<Rightarrow> 'i list option" where
  "al_to_tail i xs = (if i \<in> set xs then Some (remove1 i xs @ [i]) else None)"

definition al_to_head :: "'i \<Rightarrow> 'i list \<Rightarrow> 'i list option" where
  "al_to_head i xs = (if i \<in> set xs then Some (i # remove1 i xs) else None)"

definition al_head_to_tail :: "'i list \<Rightarrow> 'i list" where
  "al_head_to_tail xs = (case xs of [] \<Rightarrow> [] | x # ys \<Rightarrow> ys @ [x])"

datatype ('k, 'i) dl_op =
  Ins_tail 'k 'i | Ins_head 'k 'i | Rem 'k 'i | To_tail 'k 'i | To_head 'k 'i

definition dl_at ::
    "('i dmem \<times> 'i dlist \<Rightarrow> ('i dmem \<times> 'i dlist) option) \<Rightarrow> 'k \<Rightarrow> 'i dmem \<times> ('k \<Rightarrow> 'i dlist) \<Rightarrow>
     ('i dmem \<times> ('k \<Rightarrow> 'i dlist)) option" where
  "dl_at f k = (\<lambda>(m, ls). do { (m', l') \<leftarrow> f (m, ls k); Some (m', ls(k := l')) })"

fun dl_exec :: "('k, 'i) dl_op \<Rightarrow> 'i dmem \<times> ('k \<Rightarrow> 'i dlist) \<Rightarrow> ('i dmem \<times> ('k \<Rightarrow> 'i dlist)) option" where
  "dl_exec (Ins_tail k i) s = dl_at (insert_tail i) k s"
| "dl_exec (Ins_head k i) s = dl_at (insert_head i) k s"
| "dl_exec (Rem k i) s = dl_at (dl_remove i) k s"
| "dl_exec (To_tail k i) s = dl_at (to_tail i) k s"
| "dl_exec (To_head k i) s = dl_at (to_head i) k s"

definition al_at :: "('i list \<Rightarrow> 'i list option) \<Rightarrow> 'k \<Rightarrow> ('k \<Rightarrow> 'i list) \<Rightarrow> ('k \<Rightarrow> 'i list) option" where
  "al_at f k xss = do { ys \<leftarrow> f (xss k); Some (xss(k := ys)) }"

fun al_exec :: "('k, 'i) dl_op \<Rightarrow> ('k \<Rightarrow> 'i list) \<Rightarrow> ('k \<Rightarrow> 'i list) option" where
  "al_exec (Ins_tail k i) xss = (if \<exists>j. i \<in> set (xss j) then None else al_at (al_insert_tail i) k xss)"
| "al_exec (Ins_head k i) xss = (if \<exists>j. i \<in> set (xss j) then None else al_at (al_insert_head i) k xss)"
| "al_exec (Rem k i) xss = al_at (al_remove i) k xss"
| "al_exec (To_tail k i) xss = al_at (al_to_tail i) k xss"
| "al_exec (To_head k i) xss = al_at (al_to_head i) k xss"

primrec dl_run where
  "dl_run [] s = Some s"
| "dl_run (x # xs) s = do { s' \<leftarrow> dl_exec x s; dl_run xs s' }"

primrec al_run where
  "al_run [] xss = Some xss"
| "al_run (x # xs) xss = do { xss' \<leftarrow> al_exec x xss; al_run xs xss' }"

definition dl_reps :: "'i dmem \<times> ('k \<Rightarrow> 'i dlist) \<Rightarrow> ('k \<Rightarrow> 'i list) \<Rightarrow> bool" where
  "dl_reps = (\<lambda>(m, ls) xss.
     (\<forall>k. dl_rep m (ls k) (xss k)) \<and> (\<forall>j k. j \<noteq> k \<longrightarrow> set (xss j) \<inter> set (xss k) = {}))"

lemma dl_reps_step:
  assumes reps: "dl_reps (m, ls) xss"
    and f: "f (m, ls k) = Some (m', l')" "dl_rep m' l' ys" "same_outside (set ys \<union> set (xss k)) m m'"
    and new: "\<And>i j. i \<in> set ys \<Longrightarrow> i \<notin> set (xss k) \<Longrightarrow> i \<notin> set (xss j)"
  shows "dl_at f k (m, ls) = Some (m', ls(k := l')) \<and> dl_reps (m', ls(k := l')) (xss(k := ys))"
proof -
  have rep: "\<And>j. dl_rep m (ls j) (xss j)"
    and dis: "\<And>i j. i \<noteq> j \<Longrightarrow> set (xss i) \<inter> set (xss j) = {}"
    using reps by (auto simp: dl_reps_def)
  have dis': "set ys \<inter> set (xss j) = {}" if "j \<noteq> k" for j
    using new dis [OF that] by blast
  then have "dl_rep m' (ls j) (xss j)" if "j \<noteq> k" for j
    using that dis [OF that] by (intro dl_rep_frame [OF rep f(3)]) blast
  with dis dis' f show ?thesis
    by (auto simp: dl_reps_def dl_at_def)
qed

lemma remove1_Un [simp]: "set (remove1 i xs) \<union> set xs = set xs"
  using set_remove1_subset [of i xs] by blast

lemma dl_exec_refines:
  assumes "dl_reps (m, ls) xss" and "al_exec x xss = Some yss"
  shows "\<exists>m' ls'. dl_exec x (m, ls) = Some (m', ls') \<and> dl_reps (m', ls') yss"
proof -
  have rep: "\<And>j. dl_rep m (ls j) (xss j)" using assms(1) by (auto simp: dl_reps_def)
  note step = dl_reps_step [OF assms(1)]
  show ?thesis
  proof (cases x)
    case (Ins_tail k i)
    with assms(2) have i: "\<And>j. i \<notin> set (xss j)" and y: "yss = xss(k := xss k @ [i])"
      by (auto simp: al_at_def al_insert_tail_def split: if_splits)
    obtain m' l' where "insert_tail i (m, ls k) = Some (m', l')" "dl_rep m' l' (xss k @ [i])"
      "same_outside (insert i (set (xss k))) m m'"
      using dl.ins_tail [OF rep i] by blast
    with step [of "insert_tail i" k m' l' "xss k @ [i]"] i show ?thesis
      by (auto simp: Ins_tail y elim!: same_outside_mono)
  next
    case (Ins_head k i)
    with assms(2) have i: "\<And>j. i \<notin> set (xss j)" and y: "yss = xss(k := i # xss k)"
      by (auto simp: al_at_def al_insert_head_def split: if_splits)
    obtain m' l' where "insert_head i (m, ls k) = Some (m', l')" "dl_rep m' l' (i # xss k)"
      "same_outside (insert i (set (xss k))) m m'"
      using dl.ins_head [OF rep i] by blast
    with step [of "insert_head i" k m' l' "i # xss k"] i show ?thesis
      by (auto simp: Ins_head y elim!: same_outside_mono)
  next
    case (Rem k i)
    with assms(2) have i: "i \<in> set (xss k)" and y: "yss = xss(k := remove1 i (xss k))"
      by (auto simp: al_at_def al_remove_def split: if_splits)
    obtain m' l' where "dl_remove i (m, ls k) = Some (m', l')" "dl_rep m' l' (remove1 i (xss k))"
      "same_outside (set (xss k)) m m'"
      using dl.rem [OF rep i] by blast
    with step [of "dl_remove i" k m' l' "remove1 i (xss k)"] i show ?thesis
      by (auto simp: Rem y elim!: same_outside_mono dest: notin_set_remove1)
  next
    case (To_tail k i)
    with assms(2) have i: "i \<in> set (xss k)" and y: "yss = xss(k := remove1 i (xss k) @ [i])"
      by (auto simp: al_at_def al_to_tail_def split: if_splits)
    obtain m' l' where "to_tail i (m, ls k) = Some (m', l')" "dl_rep m' l' (remove1 i (xss k) @ [i])"
      "same_outside (set (xss k)) m m'"
      using dl.mv_tail [OF rep i] by blast
    with step [of "to_tail i" k m' l' "remove1 i (xss k) @ [i]"] i show ?thesis
      by (auto simp: To_tail y insert_absorb dest: notin_set_remove1)
  next
    case (To_head k i)
    with assms(2) have i: "i \<in> set (xss k)" and y: "yss = xss(k := i # remove1 i (xss k))"
      by (auto simp: al_at_def al_to_head_def split: if_splits)
    obtain m' l' where "to_head i (m, ls k) = Some (m', l')" "dl_rep m' l' (i # remove1 i (xss k))"
      "same_outside (set (xss k)) m m'"
      using dl.mv_head [OF rep i] by blast
    with step [of "to_head i" k m' l' "i # remove1 i (xss k)"] i show ?thesis
      by (auto simp: To_head y insert_absorb dest: notin_set_remove1)
  qed
qed

lemma dl_run_refines:
  "dl_reps (m, ls) xss \<Longrightarrow> al_run ops xss = Some yss \<Longrightarrow>
    \<exists>m' ls'. dl_run ops (m, ls) = Some (m', ls') \<and> dl_reps (m', ls') yss"
proof (induction ops arbitrary: m ls xss)
  case Nil
  then show ?case by simp
next
  case (Cons x ops)
  then obtain xss' where "al_exec x xss = Some xss'" and r: "al_run ops xss' = Some yss"
    by (auto simp: bind_eq_Some_conv)
  then obtain m' ls' where "dl_exec x (m, ls) = Some (m', ls')" and "dl_reps (m', ls') xss'"
    using dl_exec_refines [OF Cons.prems(1)] by blast
  with Cons.IH [OF _ r] show ?case by auto
qed

lemma dl_reps_init: "dl_reps (m, \<lambda>_. dl_init) (\<lambda>_. [])"
  by (simp add: dl_reps_def)

section \<open>Properties\<close>

text \<open>
  \<^bold>\<open>C5.\<close> Starting from empty lists, any sequence of insertions, removals and moves that respects
  the list contract (insert only items on no list, remove or move only items on the addressed
  list) runs on the pointers without ever dereferencing a null pointer, and afterwards
  \<^verbatim>\<open>for_each\<close> on every list terminates and visits exactly the items of the abstract list in order.
\<close>

theorem double_lists_refine:
  assumes "al_run ops (\<lambda>_. []) = Some xss"
  shows "\<exists>m ls. dl_run ops (m0, \<lambda>_. dl_init) = Some (m, ls) \<and>
    (\<forall>k. dl_for_each (m, ls k) = Some (xss k) \<and> distinct (xss k) \<and> dl_head (ls k) = hdo (xss k) None)"
proof -
  obtain m ls where r: "dl_run ops (m0, \<lambda>_. dl_init) = Some (m, ls)" and reps: "dl_reps (m, ls) xss"
    using dl_run_refines [OF dl_reps_init assms] by blast
  have "dl_rep m (ls k) (xss k)" for k using reps by (auto simp: dl_reps_def)
  then show ?thesis using r dl.walk dl.distinct by (metis dl_rep_def)
qed

theorem double_lists_refine_witness:
  "\<exists>m ls. dl_run [Ins_tail True (1::nat), Ins_head True 2, Ins_tail True 3, To_tail True 1, Rem True 2,
        Ins_head False 2] (\<lparr>nxt = Map.empty, prv = Map.empty\<rparr>, \<lambda>_. dl_init) = Some (m, ls) \<and>
      dl_for_each (m, ls True) = Some [3, 1] \<and> dl_for_each (m, ls False) = Some [2]"
proof -
  let ?ops = "[Ins_tail True (1::nat), Ins_head True 2, Ins_tail True 3, To_tail True 1, Rem True 2,
        Ins_head False 2]"
  have "al_run ?ops (\<lambda>_. []) = Some ((\<lambda>_. [])(True := [3, 1], False := [2]))"
    by (simp add: al_at_def al_insert_tail_def al_insert_head_def al_to_tail_def al_remove_def
        fun_eq_iff)
  from double_lists_refine [OF this, of "\<lparr>nxt = Map.empty, prv = Map.empty\<rparr>"]
  show ?thesis by fastforce
qed

end
