(* ===== verification/Cpu_Scheduler.thy ===== *)
theory Cpu_Scheduler
  imports Double_List
begin

text \<open>
  \<^verbatim>\<open>base-hw/src/core/kernel/cpu_scheduler.h\<close> and \<^verbatim>\<open>.cc\<close>: the kernel's scheduler. Shares with a
  quota compete by priority for their claims; all ready shares take part in the round-robin of
  fills. The lists are used through the contract of \<open>Double_List\<close>. An operation returns \<open>None\<close>
  where the source would fail an assertion, dereference the null head or use a list outside its
  contract.
\<close>

section \<open>Shares and scheduler state\<close>

definition prio_min :: u32 where "prio_min = 0"
definition prio_max :: u32 where "prio_max = 4 - 1"

definition cpu_priority :: "u32 \<Rightarrow> u32" where
  "cpu_priority v = min v prio_max"

record share =
  sh_prio :: u32
  sh_quota :: u32
  sh_claim :: u32
  sh_fill :: u32
  sh_ready :: bool

definition cpu_share :: "u32 \<Rightarrow> u32 \<Rightarrow> share" where
  "cpu_share p q = \<lparr>sh_prio = cpu_priority p, sh_quota = q, sh_claim = q, sh_fill = 0, sh_ready = False\<rparr>"

record 'i sched =
  shares :: "'i \<Rightarrow> share"
  rcl :: "u32 \<Rightarrow> 'i list"
  ucl :: "u32 \<Rightarrow> 'i list"
  fills :: "'i list"
  idle :: 'i
  sc_head :: "'i option"
  head_quota :: u32
  head_claims :: bool
  head_yields :: bool
  head_was_removed :: bool
  sc_quota :: u32
  residual :: u32
  sc_fill :: u32
  need_to_schedule :: bool
  last_time :: time_t

definition share_upd :: "'i \<Rightarrow> (share \<Rightarrow> share) \<Rightarrow> 'i sched \<Rightarrow> 'i sched" where
  "share_upd i f s = s\<lparr>shares := (shares s)(i := f (shares s i))\<rparr>"

definition rcl_upd :: "u32 \<Rightarrow> 'i list \<Rightarrow> 'i sched \<Rightarrow> 'i sched" where
  "rcl_upd p xs s = s\<lparr>rcl := (rcl s)(p := xs)\<rparr>"

definition ucl_upd :: "u32 \<Rightarrow> 'i list \<Rightarrow> 'i sched \<Rightarrow> 'i sched" where
  "ucl_upd p xs s = s\<lparr>ucl := (ucl s)(p := xs)\<rparr>"

text \<open>The priorities in the order of \<^verbatim>\<open>_for_each_prio\<close>, from the highest to the lowest.\<close>

definition prios :: "u32 list" where
  "prios = [prio_max, prio_max - 1, prio_max - 2, prio_min]"

section \<open>Private operations\<close>

definition reset :: "'i \<Rightarrow> 'i sched \<Rightarrow> 'i sched" where
  "reset i = share_upd i (\<lambda>sh. sh\<lparr>sh_claim := sh_quota sh\<rparr>)"

definition reset_claims :: "u32 \<Rightarrow> 'i sched \<Rightarrow> 'i sched" where
  "reset_claims p s = (let s1 = fold reset (rcl s p) s in fold reset (ucl s1 p) s1)"

definition next_round :: "'i sched \<Rightarrow> 'i sched" where
  "next_round s = fold reset_claims prios (s\<lparr>residual := sc_quota s\<rparr>)"

definition consumed :: "u32 \<Rightarrow> 'i sched \<Rightarrow> 'i sched" where
  "consumed q s = (if residual s > q then s\<lparr>residual := residual s - q\<rparr> else next_round s)"

definition set_head :: "'i \<Rightarrow> u32 \<Rightarrow> bool \<Rightarrow> 'i sched \<Rightarrow> 'i sched" where
  "set_head i q c s = s\<lparr>head_quota := q, head_claims := c, sc_head := Some i\<rparr>"

definition next_fill :: "'i \<Rightarrow> 'i sched \<Rightarrow> 'i sched" where
  "next_fill h s =
     (let s1 = share_upd h (\<lambda>sh. sh\<lparr>sh_fill := sc_fill s\<rparr>) s
      in s1\<lparr>fills := al_head_to_tail (fills s1)\<rparr>)"

definition head_claimed :: "'i \<Rightarrow> u32 \<Rightarrow> 'i sched \<Rightarrow> 'i sched option" where
  "head_claimed h r s =
     (if sh_quota (shares s h) = 0 then Some s
      else
        let q = sh_quota (shares s h);
            s1 = share_upd h (\<lambda>sh. sh\<lparr>sh_claim := (if r > q then q else r)\<rparr>) s;
            sh = shares s1 h
        in if sh_claim sh \<noteq> 0 \<or> \<not> sh_ready sh then Some s1
           else do {
             xs \<leftarrow> al_to_tail h (rcl s1 (sh_prio sh));
             let s2 = rcl_upd (sh_prio sh) xs s1;
             (if \<not> head_yields s2
              then do { fs \<leftarrow> al_to_head h (fills s2); Some (s2\<lparr>fills := fs\<rparr>) }
              else Some s2)
           })"

definition head_filled :: "'i \<Rightarrow> u32 \<Rightarrow> 'i sched \<Rightarrow> 'i sched" where
  "head_filled h r s =
     (if hdo (fills s) None \<noteq> Some h then s
      else if r \<noteq> 0 then share_upd h (\<lambda>sh. sh\<lparr>sh_fill := r\<rparr>) s
      else next_fill h s)"

fun claim_for_head :: "u32 list \<Rightarrow> 'i sched \<Rightarrow> bool \<times> 'i sched" where
  "claim_for_head [] s = (False, s)"
| "claim_for_head (p # ps) s =
     (case rcl s p of
        [] \<Rightarrow> claim_for_head ps s
      | i # _ \<Rightarrow>
          if sh_claim (shares s i) = 0 then claim_for_head ps s
          else (True, set_head i (sh_claim (shares s i)) True s))"

definition fill_for_head :: "'i sched \<Rightarrow> bool \<times> 'i sched" where
  "fill_for_head s =
     (case fills s of
        [] \<Rightarrow> (False, s)
      | i # _ \<Rightarrow> (True, set_head i (sh_fill (shares s i)) False s))"

text \<open>\<^verbatim>\<open>_trim_consumption\<close> trims its argument in place: the result pairs it with the return value.\<close>

definition trim_consumption :: "u32 \<Rightarrow> 'i sched \<Rightarrow> u32 \<times> u32" where
  "trim_consumption q s =
     (let q' = min (min q (head_quota s)) (residual s)
      in (q', if \<not> head_yields s then head_quota s - q' else 0))"

definition quota_introduction :: "'i \<Rightarrow> 'i sched \<Rightarrow> 'i sched option" where
  "quota_introduction i s =
     (let p = sh_prio (shares s i) in
      if sh_ready (shares s i)
      then do { xs \<leftarrow> al_insert_tail i (rcl s p); Some (rcl_upd p xs s) }
      else do { xs \<leftarrow> al_insert_tail i (ucl s p); Some (ucl_upd p xs s) })"

definition quota_revokation :: "'i \<Rightarrow> 'i sched \<Rightarrow> 'i sched option" where
  "quota_revokation i s =
     (let p = sh_prio (shares s i) in
      if sh_ready (shares s i)
      then do { xs \<leftarrow> al_remove i (rcl s p); Some (rcl_upd p xs s) }
      else do { xs \<leftarrow> al_remove i (ucl s p); Some (ucl_upd p xs s) })"

definition quota_adaption :: "'i \<Rightarrow> u32 \<Rightarrow> 'i sched \<Rightarrow> 'i sched option" where
  "quota_adaption i q s =
     (if q \<noteq> 0
      then Some (if sh_claim (shares s i) > q then share_upd i (\<lambda>sh. sh\<lparr>sh_claim := q\<rparr>) s else s)
      else quota_revokation i s)"

section \<open>Public operations\<close>

definition sched_init :: "'i \<Rightarrow> ('i \<Rightarrow> share) \<Rightarrow> u32 \<Rightarrow> u32 \<Rightarrow> 'i sched" where
  "sched_init i shs q f =
     set_head i f False
       \<lparr>shares = shs, rcl = (\<lambda>_. []), ucl = (\<lambda>_. []), fills = [], idle = i, sc_head = None,
        head_quota = 0, head_claims = False, head_yields = False, head_was_removed = False,
        sc_quota = q, residual = q, sc_fill = f, need_to_schedule = True, last_time = 0\<rparr>"

definition timeout :: "'i sched \<Rightarrow> 'i sched" where
  "timeout s = s\<lparr>need_to_schedule := True\<rparr>"

definition choose_head :: "'i sched \<Rightarrow> 'i sched" where
  "choose_head s =
     (case claim_for_head prios s of
        (True, s') \<Rightarrow> s'
      | (False, s') \<Rightarrow>
          (case fill_for_head s' of
             (True, s'') \<Rightarrow> s''
           | (False, s'') \<Rightarrow> set_head (idle s'') (sc_fill s'') False s''))"

definition update :: "time_t \<Rightarrow> 'i sched \<Rightarrow> 'i sched option" where
  "update time s =
     (let duration = ucast (time - last_time s) :: u32;
          s1 = s\<lparr>last_time := time, need_to_schedule := False\<rparr>
      in do {
        s2 \<leftarrow>
          (case sc_head s1 of
             Some h \<Rightarrow>
               let (d, r) = trim_consumption duration s1 in do {
                 s' \<leftarrow> (if head_claims s1 then head_claimed h r s1 else Some (head_filled h r s1));
                 Some (consumed d (s'\<lparr>head_yields := False\<rparr>))
               }
           | None \<Rightarrow>
               if head_was_removed s1 then
                 let (d, r) = trim_consumption duration s1
                 in Some (consumed d (s1\<lparr>head_was_removed := False, head_yields := False\<rparr>))
               else Some s1);
        Some (choose_head s2)
      })"

definition ready :: "'i \<Rightarrow> 'i sched \<Rightarrow> 'i sched option" where
  "ready i s =
     (if sh_ready (shares s i) \<or> i = idle s then None
      else
        let s1 = share_upd i (\<lambda>sh. sh\<lparr>sh_ready := True\<rparr>) s;
            sh = shares s1 i;
            p = sh_prio sh
        in do {
          s2 \<leftarrow>
            (if sh_quota sh \<noteq> 0 then do {
               us \<leftarrow> al_remove i (ucl s1 p);
               let s1u = ucl_upd p us s1;
               (if sh_claim sh \<noteq> 0 then do {
                  rs \<leftarrow> al_insert_head i (rcl s1u p);
                  let s1r = rcl_upd p rs s1u;
                  Some (case sc_head s1r of
                          Some h \<Rightarrow>
                            if head_claims s1r
                            then (if p \<ge> sh_prio (shares s1r h) then s1r\<lparr>need_to_schedule := True\<rparr> else s1r)
                            else s1r\<lparr>need_to_schedule := True\<rparr>
                        | None \<Rightarrow> s1r\<lparr>need_to_schedule := True\<rparr>)
                } else do {
                  rs \<leftarrow> al_insert_tail i (rcl s1u p);
                  Some (rcl_upd p rs s1u)
                })
             } else Some s1);
          let s3 = share_upd i (\<lambda>sh. sh\<lparr>sh_fill := sc_fill s2\<rparr>) s2;
          fs \<leftarrow> al_insert_tail i (fills s3);
          let s4 = s3\<lparr>fills := fs\<rparr>;
          Some (if sc_head s4 = None \<or> sc_head s4 = Some (idle s4)
                then s4\<lparr>need_to_schedule := True\<rparr> else s4)
        })"

definition unready :: "'i \<Rightarrow> 'i sched \<Rightarrow> 'i sched option" where
  "unready i s =
     (if \<not> sh_ready (shares s i) \<or> i = idle s then None
      else
        let s1 = (if sc_head s = Some i then s\<lparr>need_to_schedule := True\<rparr> else s);
            s2 = share_upd i (\<lambda>sh. sh\<lparr>sh_ready := False\<rparr>) s1
        in do {
          fs \<leftarrow> al_remove i (fills s2);
          let s3 = s2\<lparr>fills := fs\<rparr>;
          let sh = shares s3 i;
          (if sh_quota sh = 0 then Some s3
           else do {
             rs \<leftarrow> al_remove i (rcl s3 (sh_prio sh));
             let s4 = rcl_upd (sh_prio sh) rs s3;
             us \<leftarrow> al_insert_tail i (ucl s4 (sh_prio sh));
             Some (ucl_upd (sh_prio sh) us s4)
           })
        })"

definition yield :: "'i sched \<Rightarrow> 'i sched" where
  "yield s = s\<lparr>head_yields := True, need_to_schedule := True\<rparr>"

definition remove :: "'i \<Rightarrow> 'i sched \<Rightarrow> 'i sched option" where
  "remove i s =
     (if i = idle s then None
      else do {
        s1 \<leftarrow> (if sh_ready (shares s i) then unready i s else Some s);
        let s2 = (if sc_head s1 = Some i then s1\<lparr>sc_head := None, head_was_removed := True\<rparr> else s1);
        let sh = shares s2 i;
        (if sh_quota sh = 0 then Some s2
         else do {
           us \<leftarrow> al_remove i (ucl s2 (sh_prio sh));
           Some (ucl_upd (sh_prio sh) us s2)
         })
      })"

definition sched_insert :: "'i \<Rightarrow> 'i sched \<Rightarrow> 'i sched option" where
  "sched_insert i s =
     (if sh_ready (shares s i) then None
      else if sh_quota (shares s i) = 0 then Some s
      else
        let s1 = reset i s; p = sh_prio (shares s1 i)
        in do { us \<leftarrow> al_insert_head i (ucl s1 p); Some (ucl_upd p us s1) })"

definition quota :: "'i \<Rightarrow> u32 \<Rightarrow> 'i sched \<Rightarrow> 'i sched option" where
  "quota i q s =
     (if i = idle s then None
      else do {
        s1 \<leftarrow> (if sh_quota (shares s i) \<noteq> 0 then quota_adaption i q s
               else if q \<noteq> 0 then quota_introduction i s else Some s);
        Some (share_upd i (\<lambda>sh. sh\<lparr>sh_quota := q\<rparr>) s1)
      })"

definition head :: "'i sched \<Rightarrow> ('i \<times> 'i sched) option" where
  "head s = do {
     s1 \<leftarrow> (if sc_head s = None then update (last_time s) s else Some s);
     h \<leftarrow> sc_head s1;
     Some (h, s1)
   }"

definition effective_head_quota :: "'i sched \<Rightarrow> u32" where
  "effective_head_quota s = min (head_quota s) (residual s)"

section \<open>Invariant\<close>

text \<open>
  \<open>R\<close> is the set of shares inserted into the scheduler. A registered share with a quota is on the
  ready or the unready list of its priority, by its ready flag, and on no other list; the ready
  shares make up the list of fills; only registered shares are ready.
\<close>

definition lists_ok :: "'i set \<Rightarrow> 'i sched \<Rightarrow> bool" where
  "lists_ok R s \<longleftrightarrow>
     (\<forall>p. distinct (rcl s p)) \<and> (\<forall>p. distinct (ucl s p)) \<and> distinct (fills s) \<and>
     (\<forall>i p. i \<in> set (rcl s p) \<longleftrightarrow> i \<in> R \<and> p = sh_prio (shares s i) \<and> sh_quota (shares s i) \<noteq> 0 \<and>
        sh_ready (shares s i)) \<and>
     (\<forall>i p. i \<in> set (ucl s p) \<longleftrightarrow> i \<in> R \<and> p = sh_prio (shares s i) \<and> sh_quota (shares s i) \<noteq> 0 \<and>
        \<not> sh_ready (shares s i)) \<and>
     (\<forall>i. i \<in> set (fills s) \<longleftrightarrow> i \<in> R \<and> sh_ready (shares s i)) \<and>
     (\<forall>i. sh_ready (shares s i) \<longrightarrow> i \<in> R) \<and>
     (\<forall>i. i \<in> R \<longrightarrow> sh_prio (shares s i) \<le> prio_max)"

definition nums_ok :: "'i sched \<Rightarrow> bool" where
  "nums_ok s \<longleftrightarrow> sc_quota s \<noteq> 0 \<and> sc_fill s \<noteq> 0 \<and> residual s \<noteq> 0 \<and> residual s \<le> sc_quota s \<and>
     (\<forall>i. i \<in> set (fills s) \<longrightarrow> sh_fill (shares s i) \<noteq> 0)"

definition sched_inv :: "'i set \<Rightarrow> 'i sched \<Rightarrow> bool" where
  "sched_inv R s \<longleftrightarrow> idle s \<notin> R \<and> lists_ok R s \<and> nums_ok s \<and>
     (\<forall>h. sc_head s = Some h \<longrightarrow> h \<in> R \<or> h = idle s)"

lemma upd_simps [simp]:
  "rcl (share_upd i f s) = rcl s" "ucl (share_upd i f s) = ucl s" "fills (share_upd i f s) = fills s"
  "idle (share_upd i f s) = idle s" "sc_head (share_upd i f s) = sc_head s"
  "sc_quota (share_upd i f s) = sc_quota s" "sc_fill (share_upd i f s) = sc_fill s"
  "residual (share_upd i f s) = residual s" "head_yields (share_upd i f s) = head_yields s"
  "head_claims (share_upd i f s) = head_claims s" "head_quota (share_upd i f s) = head_quota s"
  "need_to_schedule (share_upd i f s) = need_to_schedule s"
  "last_time (share_upd i f s) = last_time s"
  "head_was_removed (share_upd i f s) = head_was_removed s"
  "shares (share_upd i f s) j = (if j = i then f (shares s i) else shares s j)"
  by (simp_all add: share_upd_def)

lemma rcl_upd_simps [simp]:
  "rcl (rcl_upd p xs s) = (rcl s)(p := xs)" "ucl (rcl_upd p xs s) = ucl s"
  "fills (rcl_upd p xs s) = fills s" "shares (rcl_upd p xs s) = shares s"
  "idle (rcl_upd p xs s) = idle s" "sc_head (rcl_upd p xs s) = sc_head s"
  "sc_quota (rcl_upd p xs s) = sc_quota s" "sc_fill (rcl_upd p xs s) = sc_fill s"
  "residual (rcl_upd p xs s) = residual s" "head_yields (rcl_upd p xs s) = head_yields s"
  "head_claims (rcl_upd p xs s) = head_claims s" "head_quota (rcl_upd p xs s) = head_quota s"
  "need_to_schedule (rcl_upd p xs s) = need_to_schedule s"
  by (simp_all add: rcl_upd_def)

lemma ucl_upd_simps [simp]:
  "ucl (ucl_upd p xs s) = (ucl s)(p := xs)" "rcl (ucl_upd p xs s) = rcl s"
  "fills (ucl_upd p xs s) = fills s" "shares (ucl_upd p xs s) = shares s"
  "idle (ucl_upd p xs s) = idle s" "sc_head (ucl_upd p xs s) = sc_head s"
  "sc_quota (ucl_upd p xs s) = sc_quota s" "sc_fill (ucl_upd p xs s) = sc_fill s"
  "residual (ucl_upd p xs s) = residual s" "head_yields (ucl_upd p xs s) = head_yields s"
  "head_claims (ucl_upd p xs s) = head_claims s" "head_quota (ucl_upd p xs s) = head_quota s"
  "need_to_schedule (ucl_upd p xs s) = need_to_schedule s"
  by (simp_all add: ucl_upd_def)

lemma set_head_simps [simp]:
  "ucl (set_head i q c s) = ucl s" "rcl (set_head i q c s) = rcl s"
  "fills (set_head i q c s) = fills s" "shares (set_head i q c s) = shares s"
  "idle (set_head i q c s) = idle s" "sc_head (set_head i q c s) = Some i"
  "sc_quota (set_head i q c s) = sc_quota s" "sc_fill (set_head i q c s) = sc_fill s"
  "residual (set_head i q c s) = residual s" "head_yields (set_head i q c s) = head_yields s"
  "head_claims (set_head i q c s) = c" "head_quota (set_head i q c s) = q"
  by (simp_all add: set_head_def)

lemmas al_defs = al_insert_tail_def al_insert_head_def al_remove_def al_to_tail_def al_to_head_def

subsection \<open>The reset of all claims at the start of a round\<close>

definition reset_at :: "'i set \<Rightarrow> 'i sched \<Rightarrow> 'i sched" where
  "reset_at A s = s\<lparr>shares := \<lambda>j. if j \<in> A then (shares s j)\<lparr>sh_claim := sh_quota (shares s j)\<rparr>
                                  else shares s j\<rparr>"

lemma reset_at_simps [simp]:
  "rcl (reset_at A s) = rcl s" "ucl (reset_at A s) = ucl s" "fills (reset_at A s) = fills s"
  "idle (reset_at A s) = idle s" "sc_head (reset_at A s) = sc_head s"
  "sc_quota (reset_at A s) = sc_quota s" "sc_fill (reset_at A s) = sc_fill s"
  "residual (reset_at A s) = residual s"
  "shares (reset_at A s) j = (if j \<in> A then (shares s j)\<lparr>sh_claim := sh_quota (shares s j)\<rparr> else shares s j)"
  by (simp_all add: reset_at_def)

lemma reset_eq: "reset i s = reset_at {i} s"
  by (simp add: reset_def share_upd_def reset_at_def fun_eq_iff)

lemma reset_at_comp: "reset_at A (reset_at B s) = reset_at (A \<union> B) s"
  by (auto simp: reset_at_def fun_eq_iff)

lemma reset_at_empty [simp]: "reset_at {} s = s"
  by (simp add: reset_at_def)

lemma fold_reset: "fold reset xs s = reset_at (set xs) s"
  by (induction xs arbitrary: s) (auto simp: reset_eq reset_at_comp insert_commute Un_commute)

lemma reset_claims_eq: "reset_claims p s = reset_at (set (rcl s p) \<union> set (ucl s p)) s"
  by (simp add: reset_claims_def fold_reset Let_def reset_at_comp Un_commute)

lemma fold_reset_claims:
  "fold reset_claims ps s = reset_at (\<Union>p\<in>set ps. set (rcl s p) \<union> set (ucl s p)) s"
  by (induction ps arbitrary: s) (auto simp: reset_claims_eq reset_at_comp Un_ac)

definition claimants :: "'i sched \<Rightarrow> 'i set" where
  "claimants s = (\<Union>p\<in>set prios. set (rcl s p) \<union> set (ucl s p))"

lemma next_round_eq: "next_round s = reset_at (claimants s) (s\<lparr>residual := sc_quota s\<rparr>)"
  by (simp add: next_round_def fold_reset_claims claimants_def)

lemma set_prios: "p \<in> set prios \<longleftrightarrow> p \<le> prio_max"
proof -
  have "p = 0 \<or> p = 1 \<or> p = 2 \<or> p = 3" if "p \<le> 3"
  proof -
    from that have "unat p \<le> 3" by (simp add: word_le_nat_alt)
    then have "unat p = 0 \<or> unat p = 1 \<or> unat p = 2 \<or> unat p = 3" by linarith
    then show ?thesis by (simp add: word_unat_eq_iff)
  qed
  then show ?thesis by (auto simp: prios_def prio_max_def prio_min_def)
qed

section \<open>Preservation of the invariant\<close>

lemma mem_claimants: "lists_ok R s \<Longrightarrow> i \<in> claimants s \<longleftrightarrow> i \<in> R \<and> sh_quota (shares s i) \<noteq> 0"
  by (auto simp: claimants_def lists_ok_def set_prios)

lemma claim_for_head_mem:
  "claim_for_head ps s = (True, s') \<Longrightarrow>
    \<exists>p \<in> set ps. \<exists>i is. rcl s p = i # is \<and> sh_claim (shares s i) \<noteq> 0 \<and>
      s' = set_head i (sh_claim (shares s i)) True s"
  by (induction ps) (auto split: list.splits if_splits)

lemma claim_for_head_False: "claim_for_head ps s = (False, s') \<Longrightarrow> s' = s"
  by (induction ps) (auto split: list.splits if_splits)

lemma choose_head_cases:
  obtains (claim) p i "is" where "p \<in> set prios" "rcl s p = i # is" "sh_claim (shares s i) \<noteq> 0"
      "choose_head s = set_head i (sh_claim (shares s i)) True s"
  | (fill) i "is" where "fst (claim_for_head prios s) = False" "fills s = i # is"
      "choose_head s = set_head i (sh_fill (shares s i)) False s"
  | (idle) "fst (claim_for_head prios s) = False" "fills s = []"
      "choose_head s = set_head (idle s) (sc_fill s) False s"
proof (cases "claim_for_head prios s")
  case (Pair b s')
  show ?thesis
  proof (cases b)
    case True
    with Pair have c: "claim_for_head prios s = (True, s')" by simp
    then have "choose_head s = s'" by (simp add: choose_head_def)
    with claim_for_head_mem [OF c] claim show ?thesis by blast
  next
    case False
    with Pair have c: "claim_for_head prios s = (False, s)" using claim_for_head_False [of prios s s'] by simp
    then show ?thesis
      using fill idle by (cases "fills s") (auto simp: choose_head_def fill_for_head_def)
  qed
qed

lemma choose_head_is: "\<exists>i q c. choose_head s = set_head i q c s"
  by (cases s rule: choose_head_cases) auto

lemma choose_head_frame [simp]:
  "rcl (choose_head s) = rcl s" "ucl (choose_head s) = ucl s" "fills (choose_head s) = fills s"
  "shares (choose_head s) = shares s" "idle (choose_head s) = idle s"
  "sc_quota (choose_head s) = sc_quota s" "sc_fill (choose_head s) = sc_fill s"
  "residual (choose_head s) = residual s" "sc_head (choose_head s) \<noteq> None"
  using choose_head_is [of s] by auto

lemma choose_head_inv:
  assumes "lists_ok R s" "nums_ok s" "idle s \<notin> R"
  shows "sched_inv R (choose_head s)"
proof -
  have "sc_head (choose_head s) = Some h \<Longrightarrow> h \<in> R \<or> h = idle s" for h
    using assms(1) by (cases s rule: choose_head_cases)
      (auto simp: lists_ok_def, (metis list.set_intros(1))+)
  with assms show ?thesis by (simp add: sched_inv_def lists_ok_def nums_ok_def)
qed

lemma lists_okD:
  assumes "lists_ok R s"
  shows "distinct (rcl s p)" "distinct (ucl s p)" "distinct (fills s)"
    "i \<in> set (rcl s p) \<longleftrightarrow> i \<in> R \<and> p = sh_prio (shares s i) \<and> sh_quota (shares s i) \<noteq> 0 \<and>
        sh_ready (shares s i)"
    "i \<in> set (ucl s p) \<longleftrightarrow> i \<in> R \<and> p = sh_prio (shares s i) \<and> sh_quota (shares s i) \<noteq> 0 \<and>
        \<not> sh_ready (shares s i)"
    "i \<in> set (fills s) \<longleftrightarrow> i \<in> R \<and> sh_ready (shares s i)"
    "sh_ready (shares s i) \<Longrightarrow> i \<in> R" "i \<in> R \<Longrightarrow> sh_prio (shares s i) \<le> prio_max"
  using assms by (auto simp: lists_ok_def)

lemma lists_okI:
  assumes "\<And>p. distinct (rcl s p)" "\<And>p. distinct (ucl s p)" "distinct (fills s)"
    "\<And>i p. i \<in> set (rcl s p) \<longleftrightarrow> i \<in> R \<and> p = sh_prio (shares s i) \<and> sh_quota (shares s i) \<noteq> 0 \<and>
        sh_ready (shares s i)"
    "\<And>i p. i \<in> set (ucl s p) \<longleftrightarrow> i \<in> R \<and> p = sh_prio (shares s i) \<and> sh_quota (shares s i) \<noteq> 0 \<and>
        \<not> sh_ready (shares s i)"
    "\<And>i. i \<in> set (fills s) \<longleftrightarrow> i \<in> R \<and> sh_ready (shares s i)"
    "\<And>i. sh_ready (shares s i) \<Longrightarrow> i \<in> R" "\<And>i. i \<in> R \<Longrightarrow> sh_prio (shares s i) \<le> prio_max"
  shows "lists_ok R s"
  using assms by (auto simp: lists_ok_def)

text \<open>A change of a state that keeps the lists up to order and the placement of every share.\<close>

definition same_place :: "'i sched \<Rightarrow> 'i sched \<Rightarrow> bool" where
  "same_place s s' \<longleftrightarrow>
     (\<forall>p. set (rcl s' p) = set (rcl s p) \<and> distinct (rcl s' p)) \<and> ucl s' = ucl s \<and>
     set (fills s') = set (fills s) \<and> distinct (fills s') \<and>
     (\<forall>i. sh_prio (shares s' i) = sh_prio (shares s i) \<and> sh_quota (shares s' i) = sh_quota (shares s i) \<and>
        sh_ready (shares s' i) = sh_ready (shares s i)) \<and>
     sc_quota s' = sc_quota s \<and> sc_fill s' = sc_fill s \<and> idle s' = idle s"

lemma same_place_lists: "lists_ok R s \<Longrightarrow> same_place s s' \<Longrightarrow> lists_ok R s'"
  unfolding same_place_def by (rule lists_okI) (simp_all add: lists_okD)

lemma same_place_refl: "lists_ok R s \<Longrightarrow> same_place s s"
  by (simp add: same_place_def lists_okD)

lemma same_place_trans: "same_place s t \<Longrightarrow> same_place t u \<Longrightarrow> same_place s u"
  by (simp add: same_place_def)

lemma trim_consumption_le:
  "trim_consumption q s = (q', r) \<Longrightarrow> q' \<le> residual s \<and> q' \<le> head_quota s \<and> q' \<le> q"
  by (auto simp: trim_consumption_def Let_def min_def)

lemma consumed_ok:
  assumes "lists_ok R s" "nums_ok s" "q \<le> residual s"
  shows "same_place s (consumed q s) \<and> nums_ok (consumed q s)"
proof -
  have "residual s - q \<le> sc_quota s" "residual s - q \<noteq> 0" if "q < residual s"
    using that assms(2) unfolding nums_ok_def by (metis order.trans word_sub_le less_imp_le)
      (use that in auto)
  with assms show ?thesis
    by (auto simp: consumed_def next_round_eq same_place_def nums_ok_def lists_okD)
qed

lemma head_claimed_ok:
  assumes "lists_ok R s" "nums_ok s"
  shows "\<exists>s'. head_claimed h r s = Some s' \<and> same_place s s' \<and> nums_ok s' \<and> residual s' = residual s"
proof -
  note l = lists_okD [OF assms(1)]
  show ?thesis
    using assms(2) l(7) [of h] l(1) [of "sh_prio (shares s h)"] l(3)
    by (auto simp: head_claimed_def same_place_def nums_ok_def Let_def al_defs l)
qed

lemma head_filled_ok:
  assumes "lists_ok R s" "nums_ok s"
  shows "same_place s (head_filled h r s) \<and> nums_ok (head_filled h r s) \<and>
    residual (head_filled h r s) = residual s"
  using assms(2) lists_okD(1,3) [OF assms(1)]
  by (cases "fills s")
   (auto simp: head_filled_def next_fill_def same_place_def nums_ok_def Let_def al_head_to_tail_def)

lemma lists_ok_cong:
  "rcl s' = rcl s \<Longrightarrow> ucl s' = ucl s \<Longrightarrow> fills s' = fills s \<Longrightarrow> shares s' = shares s \<Longrightarrow>
    lists_ok R s' = lists_ok R s"
  by (simp add: lists_ok_def)

lemma nums_ok_cong:
  "fills s' = fills s \<Longrightarrow> shares s' = shares s \<Longrightarrow> sc_quota s' = sc_quota s \<Longrightarrow>
    sc_fill s' = sc_fill s \<Longrightarrow> residual s' = residual s \<Longrightarrow> nums_ok s' = nums_ok s"
  by (simp add: nums_ok_def)

lemma same_place_cong:
  "same_place t u \<Longrightarrow> rcl s = rcl t \<Longrightarrow> ucl s = ucl t \<Longrightarrow> fills s = fills t \<Longrightarrow> shares s = shares t \<Longrightarrow>
    sc_quota s = sc_quota t \<Longrightarrow> sc_fill s = sc_fill t \<Longrightarrow> idle s = idle t \<Longrightarrow> same_place s u"
  by (simp add: same_place_def)

subsection \<open>The order of claims\<close>

definition claims_first :: "('i \<Rightarrow> share) \<Rightarrow> 'i list \<Rightarrow> bool" where
  "claims_first shs xs \<longleftrightarrow> sorted_wrt (\<lambda>a b. sh_claim (shs a) = 0 \<longrightarrow> sh_claim (shs b) = 0) xs"

definition claims_ordered :: "'i set \<Rightarrow> 'i sched \<Rightarrow> bool" where
  "claims_ordered R s \<longleftrightarrow> (\<forall>p. claims_first (shares s) (rcl s p)) \<and>
     (\<forall>i. i \<in> R \<longrightarrow> sh_quota (shares s i) \<noteq> 0 \<longrightarrow> sh_claim (shares s i) \<le> sh_quota (shares s i))"

definition claims_ok :: "'i set \<Rightarrow> 'i sched \<Rightarrow> bool" where
  "claims_ok R s \<longleftrightarrow> claims_ordered R s \<and>
     (\<forall>h. sc_head s = Some h \<longrightarrow> head_claims s \<longrightarrow> sh_claim (shares s h) \<noteq> 0)"

lemma claims_first_remove1: "claims_first shs xs \<Longrightarrow> claims_first shs (remove1 i xs)"
  unfolding claims_first_def
  by (induction xs) (auto dest: notin_set_remove1)

lemma claims_first_cong:
  "(\<And>i. i \<in> set xs \<Longrightarrow> (sh_claim (shs' i) = 0) = (sh_claim (shs i) = 0)) \<Longrightarrow>
    claims_first shs' xs = claims_first shs xs"
  unfolding claims_first_def by (induction xs) auto

lemma claims_first_simps [simp]:
  "claims_first shs []"
  "claims_first shs (x # xs) \<longleftrightarrow>
     (sh_claim (shs x) = 0 \<longrightarrow> (\<forall>y \<in> set xs. sh_claim (shs y) = 0)) \<and> claims_first shs xs"
  "claims_first shs (xs @ [x]) \<longleftrightarrow>
     claims_first shs xs \<and> (\<forall>y \<in> set xs. sh_claim (shs y) = 0 \<longrightarrow> sh_claim (shs x) = 0)"
  unfolding claims_first_def by (auto simp: sorted_wrt_append)

lemma claims_ordered_cong:
  assumes "claims_ordered R s" "rcl s' = rcl s"
    "\<And>i. (sh_claim (shares s' i) = 0) = (sh_claim (shares s i) = 0)"
    "\<And>i. i \<in> R' \<Longrightarrow> sh_quota (shares s' i) \<noteq> 0 \<Longrightarrow> sh_claim (shares s' i) \<le> sh_quota (shares s' i)"
  shows "claims_ordered R' s'"
  using assms by (simp add: claims_ordered_def claims_first_cong [of _ "shares s'" "shares s"])

lemma consumed_claims:
  assumes l: "lists_ok R s" and c: "claims_ordered R s"
  shows "claims_ordered R (consumed q s)"
proof (cases "residual s > q")
  case True
  with c show ?thesis
    by (auto simp: consumed_def intro: claims_ordered_cong simp: claims_ordered_def)
next
  case False
  note m = mem_claimants [OF l]
  have cl: "claimants (s\<lparr>residual := sc_quota s\<rparr>) = claimants s" by (simp add: claimants_def)
  have "claims_first (shares (reset_at (claimants s) t)) (rcl s p)"
    if "shares t = shares s" for p t
  proof -
    have "sh_claim (shares (reset_at (claimants s) t) i) \<noteq> 0" if "i \<in> set (rcl s p)" for i
      using that \<open>shares t = shares s\<close> by (auto simp: m lists_okD [OF l])
    then show ?thesis unfolding claims_first_def
      by (induction "rcl s p") (auto simp: sorted_wrt_iff_nth_less)
  qed
  with False c show ?thesis
    by (auto simp: consumed_def next_round_eq claims_ordered_def)
qed

lemma head_claimed_claims:
  assumes l: "lists_ok R s" and c: "claims_ordered R s" and h: "sh_claim (shares s h) \<noteq> 0"
    and e: "head_claimed h r s = Some s'"
  shows "claims_ordered R s'"
proof (cases "sh_quota (shares s h) = 0")
  case True
  with e c show ?thesis by (simp add: head_claimed_def)
next
  case q: False
  let ?q = "sh_quota (shares s h)" let ?c = "if r > ?q then ?q else r"
  let ?p = "sh_prio (shares s h)" let ?xs = "remove1 h (rcl s ?p)"
  have le: "\<And>i. i \<in> R \<Longrightarrow> sh_quota (shares s i) \<noteq> 0 \<Longrightarrow> sh_claim (shares s i) \<le> sh_quota (shares s i)"
    and s: "\<And>p. claims_first (shares s) (rcl s p)"
    using c by (auto simp: claims_ordered_def)
  show ?thesis
  proof (cases "?c \<noteq> 0 \<or> \<not> sh_ready (shares s h)")
    case True
    with e q have s': "s' = share_upd h (\<lambda>sh. sh\<lparr>sh_claim := ?c\<rparr>) s"
      by (simp add: head_claimed_def Let_def)
    show ?thesis
    proof (cases "?c \<noteq> 0")
      case True
      with c h le show ?thesis unfolding s' by (rule_tac claims_ordered_cong) auto
    next
      case False
      with True have "\<not> sh_ready (shares s h)" by simp
      then have "\<And>p. h \<notin> set (rcl s p)" by (simp add: lists_okD [OF l])
      then have "claims_first (shares s') (rcl s p)" for p
        using s [of p] unfolding s' by (subst claims_first_cong [of _ _ "shares s"]) auto
      with le show ?thesis by (simp add: claims_ordered_def) (auto simp: s')
    qed
  next
    case False
    then have r: "r = 0" "sh_ready (shares s h)" using q by (auto split: if_splits)
    with q e have s': "\<exists>fs. s' = (rcl_upd ?p (?xs @ [h]) (share_upd h (\<lambda>sh. sh\<lparr>sh_claim := 0\<rparr>) s))\<lparr>fills := fs\<rparr>"
      by (auto simp: head_claimed_def Let_def al_defs rcl_upd_def share_upd_def
          split: if_splits intro: exI [of _ "fills s"])
    then have sh: "shares s' = (shares s)(h := (shares s h)\<lparr>sh_claim := 0\<rparr>)"
      and rc: "rcl s' = (rcl s)(?p := ?xs @ [h])" by (auto simp: share_upd_def)
    have "h \<notin> set ?xs" using lists_okD(1) [OF l] by simp
    then have "claims_first (shares s') ?xs"
      using claims_first_remove1 [OF s [of ?p], of h] unfolding sh
      by (subst claims_first_cong [of _ _ "shares s"]) auto
    moreover have "claims_first (shares s') (rcl s p)" if "p \<noteq> ?p" for p
      using s [of p] that lists_okD(4) [OF l, of h p] unfolding sh
      by (subst claims_first_cong [of _ _ "shares s"]) auto
    ultimately have "claims_first (shares s') (rcl s' p)" for p
      by (simp add: rc) (simp add: sh)
    with le show ?thesis by (simp add: claims_ordered_def) (simp add: sh)
  qed
qed

lemma head_filled_claims: "claims_ordered R s \<Longrightarrow> claims_ordered R (head_filled h r s)"
  by (rule claims_ordered_cong, assumption)
    (auto simp: head_filled_def next_fill_def Let_def claims_ordered_def)

lemma choose_head_claims: "claims_ordered R s \<Longrightarrow> claims_ok R (choose_head s)"
  by (cases s rule: choose_head_cases) (auto simp: claims_ok_def claims_ordered_def)

lemma claims_ordered_frame:
  "claims_ordered R s \<Longrightarrow> shares s' = shares s \<Longrightarrow> rcl s' = rcl s \<Longrightarrow> claims_ordered R s'"
  by (simp add: claims_ordered_def)

subsection \<open>Each operation keeps the invariant\<close>

text \<open>The effect of \<open>update\<close> before the choice of the new head.\<close>

lemma update_split:
  assumes inv: "sched_inv R s"
  shows "\<exists>s2. update time s = Some (choose_head s2) \<and> same_place s s2 \<and> nums_ok s2 \<and>
    (claims_ok R s \<longrightarrow> claims_ordered R s2)"
proof -
  let ?s1 = "s\<lparr>last_time := time, need_to_schedule := False\<rparr>"
  let ?d = "ucast (time - last_time s) :: u32"
  define C where "C v \<longleftrightarrow> claims_ok R s \<longrightarrow> claims_ordered R v" for v
  from inv have l: "lists_ok R ?s1" and n: "nums_ok ?s1"
    by (simp_all add: sched_inv_def lists_ok_cong [of ?s1 s] nums_ok_cong [of ?s1 s])
  have c1: "C ?s1" by (simp add: C_def claims_ok_def claims_ordered_def)
  obtain d r where t: "trim_consumption ?d ?s1 = (d, r)" by (cases "trim_consumption ?d ?s1")
  have d: "d \<le> residual s" using trim_consumption_le [OF t] by simp
  have fin: "\<exists>s2. update time s = Some (choose_head s2) \<and> same_place s s2 \<and> nums_ok s2 \<and> C s2"
    if u: "update time s = Some (choose_head (consumed d (v\<lparr>head_yields := False\<rparr>)))"
      and v: "same_place ?s1 v" "nums_ok v" "residual v = residual s" "C v" for v
  proof -
    let ?u = "v\<lparr>head_yields := False\<rparr>"
    have u1: "same_place ?s1 ?u" "nums_ok ?u" "d \<le> residual ?u"
      and u2: "claims_ordered R v \<Longrightarrow> claims_ordered R ?u"
      using v d by (simp_all add: same_place_def nums_ok_def claims_ordered_def)
    note lu = same_place_lists [OF l u1(1)]
    have "same_place ?u (consumed d ?u) \<and> nums_ok (consumed d ?u)"
      by (rule consumed_ok [OF lu u1(2,3)])
    moreover have "C (consumed d ?u)" using v(4) u2 consumed_claims [OF lu] by (auto simp: C_def)
    ultimately show ?thesis
      using u u1(1) same_place_trans [of ?s1 ?u] same_place_cong [of ?s1 _ s] by auto
  qed
  have "\<exists>s2. update time s = Some (choose_head s2) \<and> same_place s s2 \<and> nums_ok s2 \<and> C s2"
  proof (cases "sc_head s")
    case (Some h)
    show ?thesis
    proof (cases "head_claims s")
      case True
      obtain v where v: "head_claimed h r ?s1 = Some v" "same_place ?s1 v" "nums_ok v"
        "residual v = residual s" using head_claimed_ok [OF l n, of h r] by auto
      have "claims_ok R s \<Longrightarrow> sh_claim (shares ?s1 h) \<noteq> 0"
        using True Some by (simp add: claims_ok_def)
      with c1 head_claimed_claims [OF l _ _ v(1)] have "C v" by (simp add: C_def)
      then show ?thesis using v by (intro fin [of v]) (simp_all add: update_def Some True t)
    next
      case False
      moreover have "C (head_filled h r ?s1)" using c1 head_filled_claims by (auto simp: C_def)
      ultimately show ?thesis using head_filled_ok [OF l n, of h r]
        by (intro fin [of "head_filled h r ?s1"]) (simp_all add: update_def Some t)
    qed
  next
    case None
    let ?v = "?s1\<lparr>head_was_removed := False\<rparr>"
    have v: "same_place ?s1 ?v" "nums_ok ?v" "C ?v" "same_place s ?s1"
      using same_place_refl [OF l] n c1
      by (simp_all add: same_place_def nums_ok_def C_def claims_ordered_def)
    show ?thesis
    proof (cases "head_was_removed s")
      case True
      with None v show ?thesis by (intro fin [of ?v]) (simp_all add: update_def t)
    next
      case False
      with None have "update time s = Some (choose_head ?s1)" by (simp add: update_def)
      with v n c1 show ?thesis by blast
    qed
  qed
  then show ?thesis by (simp add: C_def)
qed

lemma update_ok:
  assumes inv: "sched_inv R s"
  shows "\<exists>s'. update time s = Some s' \<and> sched_inv R s'"
proof -
  from update_split [OF inv, of time] obtain s2 where
    s2: "update time s = Some (choose_head s2)" "same_place s s2" "nums_ok s2" by blast
  with inv have "lists_ok R s2" "idle s2 \<notin> R"
    by (auto simp: sched_inv_def same_place_def intro: same_place_lists [OF _ s2(2)])
  with s2 choose_head_inv show ?thesis by blast
qed

lemma need_if:
  "(if c then s\<lparr>need_to_schedule := True\<rparr> else s) = s\<lparr>need_to_schedule := (c \<or> need_to_schedule s)\<rparr>"
  by simp

definition ready_result :: "'i \<Rightarrow> bool \<Rightarrow> 'i sched \<Rightarrow> 'i sched" where
  "ready_result i b s = (let sh = shares s i; p = sh_prio sh in s
    \<lparr>shares := (shares s)(i := sh\<lparr>sh_ready := True, sh_fill := sc_fill s\<rparr>),
     rcl := (if sh_quota sh = 0 then rcl s
             else (rcl s)(p := if sh_claim sh \<noteq> 0 then i # rcl s p else rcl s p @ [i])),
     ucl := (if sh_quota sh = 0 then ucl s else (ucl s)(p := remove1 i (ucl s p))),
     fills := fills s @ [i], need_to_schedule := b\<rparr>)"

lemma ready_eq:
  assumes l: "lists_ok R s" and i: "i \<in> R" "\<not> sh_ready (shares s i)" "i \<noteq> idle s"
  shows "\<exists>b. ready i s = Some (ready_result i b s)"
proof (cases "sh_quota (shares s i) = 0")
  case True
  with i have "ready i s = Some (ready_result i
    (sc_head s = None \<or> sc_head s = Some (idle s) \<or> need_to_schedule s) s)"
    by (simp add: ready_def Let_def al_defs lists_okD [OF l] share_upd_def need_if
        ready_result_def)
  then show ?thesis by blast
next
  case False
  then have u: "i \<in> set (ucl s (sh_prio (shares s i)))" "i \<notin> set (rcl s (sh_prio (shares s i)))"
    "i \<notin> set (fills s)"
    using i by (auto simp: lists_okD [OF l])
  note simps = ready_def Let_def al_defs share_upd_def rcl_upd_def ucl_upd_def need_if
    ready_result_def
  show ?thesis
  proof (cases "sh_claim (shares s i) = 0")
    case True
    with i u False have "ready i s = Some (ready_result i
      (sc_head s = None \<or> sc_head s = Some (idle s) \<or> need_to_schedule s) s)"
      by (simp add: simps)
    then show ?thesis by blast
  next
    case c: False
    show ?thesis
    proof (cases "sc_head s")
      case None
      with i u False c have "ready i s = Some (ready_result i True s)" by (simp add: simps)
      then show ?thesis by blast
    next
      case (Some h)
      with i u False c have "ready i s = Some (ready_result i
        (sc_head s = Some (idle s) \<or> \<not> head_claims s \<or>
          sh_prio (shares s i) \<ge> sh_prio (shares s h) \<or> need_to_schedule s) s)"
        by (cases "head_claims s"; cases "h = i") (simp_all add: simps)
      then show ?thesis by blast
    qed
  qed
qed

lemma ready_ok:
  assumes inv: "sched_inv R s" and i: "i \<in> R" "\<not> sh_ready (shares s i)"
  shows "\<exists>s'. ready i s = Some s' \<and> sched_inv R s'"
proof -
  from inv have l: "lists_ok R s" and n: "nums_ok s" and idle: "i \<noteq> idle s"
    and h: "\<And>h. sc_head s = Some h \<Longrightarrow> h \<in> R \<or> h = idle s" and idl: "idle s \<notin> R"
    using i by (auto simp: sched_inv_def)
  note l' = lists_okD [OF l]
  obtain b where r: "ready i s = Some (ready_result i b s)" (is "_ = Some ?s'")
    using ready_eq [OF l i idle] by blast
  have "lists_ok R ?s'"
    using i by (intro lists_okI) (auto simp: l' ready_result_def Let_def split: if_splits)
  moreover have "nums_ok ?s'"
    using n i by (auto simp: nums_ok_def ready_result_def Let_def)
  moreover have "sc_head ?s' = sc_head s" "idle ?s' = idle s"
    by (simp_all add: ready_result_def Let_def)
  ultimately show ?thesis using r h idl by (simp add: sched_inv_def)
qed

definition unready_result :: "'i \<Rightarrow> 'i sched \<Rightarrow> 'i sched" where
  "unready_result i s = (let sh = shares s i; p = sh_prio sh in s
    \<lparr>shares := (shares s)(i := sh\<lparr>sh_ready := False\<rparr>),
     rcl := (if sh_quota sh = 0 then rcl s else (rcl s)(p := remove1 i (rcl s p))),
     ucl := (if sh_quota sh = 0 then ucl s else (ucl s)(p := ucl s p @ [i])),
     fills := remove1 i (fills s),
     need_to_schedule := (sc_head s = Some i \<or> need_to_schedule s)\<rparr>)"

lemma unready_eq:
  assumes l: "lists_ok R s" and i: "i \<in> R" "sh_ready (shares s i)" "i \<noteq> idle s"
  shows "unready i s = Some (unready_result i s)"
  using i lists_okD(4-6) [OF l]
  by (simp add: unready_def Let_def need_if al_defs share_upd_def rcl_upd_def ucl_upd_def
      unready_result_def)

lemma unready_ok:
  assumes inv: "sched_inv R s" and i: "i \<in> R" "sh_ready (shares s i)"
  shows "\<exists>s'. unready i s = Some s' \<and> sched_inv R s' \<and> \<not> sh_ready (shares s' i) \<and>
    sh_quota (shares s' i) = sh_quota (shares s i) \<and> sh_prio (shares s' i) = sh_prio (shares s i) \<and>
    idle s' = idle s"
proof -
  from inv have l: "lists_ok R s" and n: "nums_ok s" and idle: "i \<noteq> idle s"
    and h: "\<And>h. sc_head s = Some h \<Longrightarrow> h \<in> R \<or> h = idle s" and idl: "idle s \<notin> R"
    using i by (auto simp: sched_inv_def)
  note l' = lists_okD [OF l]
  define s' where "s' = unready_result i s"
  note s'_def = s'_def [unfolded unready_result_def Let_def]
  have "unready i s = Some s'"
    using unready_eq [OF l i idle] by (simp add: s'_def unready_result_def Let_def)
  moreover have "lists_ok R s'"
    using i unfolding s'_def by (intro lists_okI) (auto simp: l' split: if_splits)
  moreover have "nums_ok s'"
    using n by (auto simp: nums_ok_def s'_def dest: notin_set_remove1)
  moreover have "sc_head s' = sc_head s" "idle s' = idle s"
    by (simp_all add: s'_def)
  ultimately show ?thesis using h idl by (simp add: sched_inv_def) (simp add: s'_def)
qed

definition remove_result :: "'i \<Rightarrow> 'i sched \<Rightarrow> 'i sched" where
  "remove_result i s = (let sh = shares s i; p = sh_prio sh in s
    \<lparr>ucl := (if sh_quota sh = 0 then ucl s else (ucl s)(p := remove1 i (ucl s p))),
     sc_head := (if sc_head s = Some i then None else sc_head s),
     head_was_removed := (sc_head s = Some i \<or> head_was_removed s)\<rparr>)"

lemma remove_ok:
  assumes inv: "sched_inv R s" and i: "i \<in> R"
  shows "\<exists>s'. remove i s = Some s' \<and> sched_inv (R - {i}) s' \<and> sc_head s' \<noteq> Some i"
proof -
  from inv i have idle: "i \<noteq> idle s" by (auto simp: sched_inv_def)
  obtain s1 where s1: "(if sh_ready (shares s i) then unready i s else Some s) = Some s1"
    "sched_inv R s1" "\<not> sh_ready (shares s1 i)"
    using unready_ok [OF inv i] inv by (cases "sh_ready (shares s i)") auto
  then have l: "lists_ok R s1" and n: "nums_ok s1" and idl: "idle s1 \<notin> R"
    and h: "\<And>h. sc_head s1 = Some h \<Longrightarrow> h \<in> R \<or> h = idle s1"
    by (auto simp: sched_inv_def)
  note l' = lists_okD [OF l]
  define s' where "s' = remove_result i s1"
  note s'_def = s'_def [unfolded remove_result_def Let_def]
  have "remove i s = Some s'"
    using i idle s1 l' by (simp add: remove_def Let_def al_defs ucl_upd_def s'_def)
  moreover have "lists_ok (R - {i}) s'"
    unfolding s'_def by (rule lists_okI) (use s1(3) i in \<open>auto simp: l' split: if_splits\<close>)
  moreover have "nums_ok s'"
    using n by (auto simp: nums_ok_def s'_def)
  moreover have "idle s' = idle s1" "sc_head s' \<noteq> Some i"
    "\<And>h. sc_head s' = Some h \<Longrightarrow> h \<in> R - {i} \<or> h = idle s1"
    using h by (auto simp: s'_def split: if_splits)
  ultimately show ?thesis using h idl by (simp add: sched_inv_def)
qed

definition insert_result :: "'i \<Rightarrow> 'i sched \<Rightarrow> 'i sched" where
  "insert_result i s = (let sh = shares s i; p = sh_prio sh in s
    \<lparr>shares := (shares s)(i := if sh_quota sh = 0 then sh else sh\<lparr>sh_claim := sh_quota sh\<rparr>),
     ucl := (if sh_quota sh = 0 then ucl s else (ucl s)(p := i # ucl s p))\<rparr>)"

lemma insert_eq:
  assumes l: "lists_ok R s" and i: "i \<notin> R" "i \<noteq> idle s" "\<not> sh_ready (shares s i)"
  shows "sched_insert i s = Some (insert_result i s)"
  using i by (simp add: sched_insert_def Let_def al_defs ucl_upd_def reset_def share_upd_def
      lists_okD [OF l] insert_result_def)

lemma insert_ok:
  assumes inv: "sched_inv R s" and i: "i \<notin> R" "i \<noteq> idle s" "\<not> sh_ready (shares s i)"
    "sh_prio (shares s i) \<le> prio_max"
  shows "\<exists>s'. sched_insert i s = Some s' \<and> sched_inv (insert i R) s'"
proof -
  from inv have l: "lists_ok R s" and n: "nums_ok s" and idl: "idle s \<notin> R"
    and h: "\<And>h. sc_head s = Some h \<Longrightarrow> h \<in> R \<or> h = idle s"
    by (auto simp: sched_inv_def)
  note l' = lists_okD [OF l]
  define s' where "s' = insert_result i s"
  note s'_def = s'_def [unfolded insert_result_def Let_def]
  have "sched_insert i s = Some s'"
    using insert_eq [OF l i(1-3)] by (simp add: s'_def insert_result_def Let_def)
  moreover have "lists_ok (insert i R) s'"
    unfolding s'_def by (rule lists_okI) (use i in \<open>auto simp: l' split: if_splits\<close>)
  moreover have "nums_ok s'"
    using n by (auto simp: nums_ok_def s'_def)
  moreover have "idle s' = idle s" "sc_head s' = sc_head s"
    by (auto simp: s'_def)
  ultimately show ?thesis using h idl i by (auto simp: sched_inv_def)
qed

definition move_lists :: "'i \<Rightarrow> u32 \<Rightarrow> bool \<Rightarrow> 'i sched \<Rightarrow> (u32 \<Rightarrow> 'i list) \<Rightarrow> u32 \<Rightarrow> 'i list" where
  "move_lists i q rdy s f = (let sh = shares s i; p = sh_prio sh in
     if sh_ready sh = rdy
     then if sh_quota sh \<noteq> 0 \<and> q = 0 then f(p := remove1 i (f p))
          else if sh_quota sh = 0 \<and> q \<noteq> 0 then f(p := f p @ [i]) else f
     else f)"

definition quota_result :: "'i \<Rightarrow> u32 \<Rightarrow> 'i sched \<Rightarrow> 'i sched" where
  "quota_result i q s = (let sh = shares s i in s
    \<lparr>shares := (shares s)(i := sh\<lparr>
       sh_claim := (if sh_quota sh \<noteq> 0 \<and> q \<noteq> 0 \<and> sh_claim sh > q then q else sh_claim sh),
       sh_quota := q\<rparr>),
     rcl := move_lists i q True s (rcl s), ucl := move_lists i q False s (ucl s)\<rparr>)"

lemma quota_eq:
  assumes l: "lists_ok R s" and i: "i \<in> R" "i \<noteq> idle s"
  shows "quota i q s = Some (quota_result i q s)"
  using i lists_okD(4,5) [OF l]
  by (cases "sh_quota (shares s i) = 0"; cases "q = 0"; cases "sh_ready (shares s i)";
      cases "sh_claim (shares s i) > q")
    (simp_all add: quota_def quota_adaption_def quota_introduction_def quota_revokation_def
      Let_def al_defs ucl_upd_def rcl_upd_def share_upd_def quota_result_def move_lists_def)

lemma quota_ok:
  assumes inv: "sched_inv R s" and i: "i \<in> R"
  shows "\<exists>s'. quota i q s = Some s' \<and> sched_inv R s'"
proof -
  from inv have l: "lists_ok R s" and n: "nums_ok s" and idl: "idle s \<notin> R" and idle: "i \<noteq> idle s"
    and h: "\<And>h. sc_head s = Some h \<Longrightarrow> h \<in> R \<or> h = idle s"
    using i by (auto simp: sched_inv_def)
  note l' = lists_okD [OF l]
  define s' where "s' = quota_result i q s"
  note s'_def = s'_def [unfolded quota_result_def Let_def]
  have "quota i q s = Some s'"
    using quota_eq [OF l i idle] by (simp add: s'_def quota_result_def Let_def)
  moreover have "lists_ok R s'"
    unfolding s'_def by (rule lists_okI) (use i in \<open>auto simp: l' move_lists_def Let_def split: if_splits\<close>)
  moreover have "nums_ok s'"
    using n by (auto simp: nums_ok_def s'_def)
  moreover have "idle s' = idle s" "sc_head s' = sc_head s"
    by (auto simp: s'_def)
  ultimately show ?thesis using h idl i by (auto simp: sched_inv_def)
qed

lemma head_ok:
  assumes "sched_inv R s"
  shows "\<exists>h s'. head s = Some (h, s') \<and> sched_inv R s'"
proof (cases "sc_head s")
  case None
  obtain s2 where u: "update (last_time s) s = Some (choose_head s2)"
    using update_split [OF assms] by blast
  with update_ok [OF assms, of "last_time s"] have "sched_inv R (choose_head s2)" by simp
  with u None show ?thesis
    using choose_head_frame(9) [of s2] by (cases "sc_head (choose_head s2)") (auto simp: head_def)
qed (use assms in \<open>auto simp: head_def\<close>)

section \<open>The scheduler in use\<close>

text \<open>
  The operations the kernel calls, \<open>Insert\<close> being the construction of a share followed by its
  insertion, and the contract under which it calls them.
\<close>

datatype 'i sched_op =
  Update time_t | Ready 'i | Unready 'i | Yield | Timeout | Remove 'i | Insert 'i u32 u32
| Quota 'i u32 | Head

fun sched_exec :: "'i sched_op \<Rightarrow> 'i sched \<Rightarrow> 'i sched option" where
  "sched_exec (Update t) s = update t s"
| "sched_exec (Ready i) s = ready i s"
| "sched_exec (Unready i) s = unready i s"
| "sched_exec Yield s = Some (yield s)"
| "sched_exec Timeout s = Some (timeout s)"
| "sched_exec (Remove i) s = remove i s"
| "sched_exec (Insert i p q) s = sched_insert i (share_upd i (\<lambda>_. cpu_share p q) s)"
| "sched_exec (Quota i q) s = quota i q s"
| "sched_exec Head s = map_option snd (head s)"

fun op_ok :: "'i set \<Rightarrow> 'i sched_op \<Rightarrow> 'i sched \<Rightarrow> bool" where
  "op_ok R (Ready i) s \<longleftrightarrow> i \<in> R \<and> \<not> sh_ready (shares s i)"
| "op_ok R (Unready i) s \<longleftrightarrow> i \<in> R \<and> sh_ready (shares s i)"
| "op_ok R (Remove i) s \<longleftrightarrow> i \<in> R"
| "op_ok R (Insert i p q) s \<longleftrightarrow> i \<notin> R \<and> i \<noteq> idle s"
| "op_ok R (Quota i q) s \<longleftrightarrow> i \<in> R"
| "op_ok R _ s \<longleftrightarrow> True"

fun op_members :: "'i sched_op \<Rightarrow> 'i set \<Rightarrow> 'i set" where
  "op_members (Remove i) R = R - {i}"
| "op_members (Insert i p q) R = insert i R"
| "op_members _ R = R"

primrec sched_run :: "'i sched_op list \<Rightarrow> 'i sched \<Rightarrow> 'i sched option" where
  "sched_run [] s = Some s"
| "sched_run (x # xs) s = do { s' \<leftarrow> sched_exec x s; sched_run xs s' }"

text \<open>
  The stricter contract \<open>op_strict\<close> excludes one use: giving a quota to a share that has none but
  still carries a claim from an earlier quota.
\<close>

fun op_strict :: "'i set \<Rightarrow> 'i sched_op \<Rightarrow> 'i sched \<Rightarrow> bool" where
  "op_strict R (Quota i q) s \<longleftrightarrow> i \<in> R \<and> (sh_quota (shares s i) = 0 \<longrightarrow> sh_claim (shares s i) = 0)"
| "op_strict R x s \<longleftrightarrow> op_ok R x s"

inductive sched_reach :: "('i set \<Rightarrow> 'i sched_op \<Rightarrow> 'i sched \<Rightarrow> bool) \<Rightarrow> 'i set \<Rightarrow> 'i sched \<Rightarrow> bool"
  for K where
  init: "q \<noteq> 0 \<Longrightarrow> f \<noteq> 0 \<Longrightarrow> \<forall>i. \<not> sh_ready (shs i) \<Longrightarrow>
    sched_reach K {} (sched_init idl shs q f)"
| step: "sched_reach K R s \<Longrightarrow> K R x s \<Longrightarrow> sched_exec x s = Some s' \<Longrightarrow>
    sched_reach K (op_members x R) s'"

lemma cpu_share_prio [simp]: "sh_prio (cpu_share p q) \<le> prio_max" "\<not> sh_ready (cpu_share p q)"
  by (simp_all add: cpu_share_def cpu_priority_def)

lemma sched_inv_fresh:
  "sched_inv R s \<Longrightarrow> i \<notin> R \<Longrightarrow> \<not> sh_ready sh \<Longrightarrow> sched_inv R (share_upd i (\<lambda>_. sh) s)"
  by (auto simp: sched_inv_def lists_ok_def nums_ok_def)

lemma sched_exec_ok:
  assumes inv: "sched_inv R s" and ok: "op_ok R x s"
  shows "\<exists>s'. sched_exec x s = Some s' \<and> sched_inv (op_members x R) s'"
proof (cases x)
  case (Insert i p q)
  with ok inv insert_ok [OF sched_inv_fresh [OF inv], of i "cpu_share p q"] show ?thesis by auto
next
  case Yield
  with inv show ?thesis by (auto simp: yield_def sched_inv_def lists_ok_def nums_ok_def)
next
  case Timeout
  with inv show ?thesis by (auto simp: timeout_def sched_inv_def lists_ok_def nums_ok_def)
next
  case Head
  with head_ok [OF inv] show ?thesis by auto
next
  case (Remove i)
  with ok remove_ok [OF inv] show ?thesis by auto
next
  case (Unready i)
  with ok unready_ok [OF inv] show ?thesis by auto
qed (use ok in \<open>auto simp: update_ok [OF inv] intro: ready_ok [OF inv] quota_ok [OF inv]\<close>)

lemma sched_init_inv:
  "q \<noteq> 0 \<Longrightarrow> f \<noteq> 0 \<Longrightarrow> \<forall>i. \<not> sh_ready (shs i) \<Longrightarrow> sched_inv {} (sched_init idl shs q f)"
  by (simp add: sched_init_def sched_inv_def lists_ok_def nums_ok_def)

lemma op_strict_ok: "op_strict R x s \<Longrightarrow> op_ok R x s"
  by (cases x) auto

lemma sched_reach_inv: "sched_reach op_ok R s \<Longrightarrow> sched_inv R s"
proof (induction rule: sched_reach.induct)
  case (step R s x s')
  with sched_exec_ok show ?case by fastforce
qed (rule sched_init_inv)

lemma ready_claims:
  assumes l: "lists_ok R s" and c: "claims_ok R s" and i: "\<not> sh_ready (shares s i)"
  shows "claims_ok R (ready_result i b s)"
proof -
  let ?s' = "ready_result i b s"
  have c': "claims_first (shares ?s') (rcl s p)" for p
    using c unfolding claims_ok_def claims_ordered_def
    by (subst claims_first_cong [of _ _ "shares s"]) (auto simp: ready_result_def Let_def)
  have "claims_first (shares ?s') (rcl ?s' p)" for p
    using c' [of p] by (auto simp: ready_result_def Let_def)
  with c show ?thesis
    by (simp add: claims_ok_def claims_ordered_def) (auto simp: ready_result_def Let_def)
qed

lemma unready_claims: "claims_ok R s \<Longrightarrow> claims_ok R (unready_result i s)"
  by (auto simp: claims_ok_def claims_ordered_def unready_result_def Let_def
      claims_first_cong [of _ "(shares s)(i := (shares s i)\<lparr>sh_ready := False\<rparr>)" "shares s"]
      intro: claims_first_remove1)

lemma remove_claims: "claims_ok R s \<Longrightarrow> claims_ok (R - {i}) (remove_result i s)"
  by (auto simp: claims_ok_def claims_ordered_def remove_result_def Let_def split: if_splits)

lemma fresh_claims:
  assumes "claims_ok R s" "sched_inv R s" "i \<notin> R" "i \<noteq> idle s"
  shows "claims_ok R (share_upd i (\<lambda>_. sh) s)"
proof -
  from assms have "lists_ok R s" by (simp add: sched_inv_def)
  then have "i \<notin> set (rcl s p)" for p using assms by (simp add: lists_okD)
  then have "claims_first (shares (share_upd i (\<lambda>_. sh) s)) (rcl s p)" for p
    using assms(1) unfolding claims_ok_def claims_ordered_def
    by (subst claims_first_cong [of _ _ "shares s"]) auto
  with assms show ?thesis
    unfolding claims_ok_def claims_ordered_def sched_inv_def by auto
qed

lemma insert_claims:
  assumes "claims_ok R s" "sched_inv R s" "i \<notin> R" "i \<noteq> idle s"
  shows "claims_ok (insert i R) (insert_result i s)"
proof -
  from assms have "lists_ok R s" by (simp add: sched_inv_def)
  then have "i \<notin> set (rcl s p)" for p using assms by (simp add: lists_okD)
  then have "claims_first (shares (insert_result i s)) (rcl s p)" for p
    using assms(1) unfolding claims_ok_def claims_ordered_def
    by (subst claims_first_cong [of _ _ "shares s"]) (auto simp: insert_result_def Let_def)
  moreover have "rcl (insert_result i s) = rcl s" by (simp add: insert_result_def Let_def)
  ultimately show ?thesis
    using assms unfolding claims_ok_def claims_ordered_def sched_inv_def
    by (auto simp: insert_result_def Let_def)
qed

lemma quota_claims:
  assumes c: "claims_ok R s" and l: "lists_ok R s"
    and i: "sh_quota (shares s i) = 0 \<longrightarrow> sh_claim (shares s i) = 0"
  shows "claims_ok R (quota_result i q s)"
proof -
  let ?s' = "quota_result i q s"
  have z: "(sh_claim (shares ?s' j) = 0) = (sh_claim (shares s j) = 0)" for j
    by (auto simp: quota_result_def Let_def)
  have c': "claims_first (shares ?s') (rcl s p)" for p
    using c unfolding claims_ok_def claims_ordered_def
    by (subst claims_first_cong [of _ _ "shares s"]) (auto simp: z)
  have "claims_first (shares ?s') (rcl ?s' p)" for p
  proof -
    have "claims_first (shares ?s') (move_lists i q True s (rcl s) p)"
      using c' i by (cases "q = 0") (auto simp: move_lists_def Let_def claims_first_remove1 z)
    then show ?thesis by (simp add: quota_result_def Let_def)
  qed
  moreover have "sc_head ?s' = sc_head s" "head_claims ?s' = head_claims s"
    by (simp_all add: quota_result_def Let_def)
  moreover have "sh_claim (shares ?s' j) \<le> sh_quota (shares ?s' j)"
    if "j \<in> R" "sh_quota (shares ?s' j) \<noteq> 0" for j
    using that i c unfolding claims_ok_def claims_ordered_def
    by (auto simp: quota_result_def Let_def not_less)
  ultimately show ?thesis using c z by (simp add: claims_ok_def claims_ordered_def)
qed

lemma sched_exec_claims:
  assumes inv: "sched_inv R s" and c: "claims_ok R s" and ok: "op_strict R x s"
    and e: "sched_exec x s = Some s'"
  shows "claims_ok (op_members x R) s'"
proof -
  from inv have l: "lists_ok R s" and idl: "idle s \<notin> R" by (auto simp: sched_inv_def)
  have upd: "claims_ok R u" if "update t s = Some u" for t u
    using update_split [OF inv, of t] c that choose_head_claims by fastforce
  show ?thesis
  proof (cases x)
    case (Update t)
    with e upd show ?thesis by simp
  next
    case (Ready i)
    with ok idl have "i \<in> R" "\<not> sh_ready (shares s i)" "i \<noteq> idle s" by auto
    with Ready ready_eq [OF l, of i] ready_claims [OF l c, of i] e show ?thesis by auto
  next
    case (Unready i)
    with ok idl have "i \<in> R" "sh_ready (shares s i)" "i \<noteq> idle s" by auto
    with Unready unready_eq [OF l, of i] unready_claims [OF c, of i] e show ?thesis by auto
  next
    case (Remove i)
    with ok idl have i: "i \<in> R" "i \<noteq> idle s" by auto
    obtain s1 where s1: "(if sh_ready (shares s i) then unready i s else Some s) = Some s1"
      "sched_inv R s1" "claims_ok R s1" "\<not> sh_ready (shares s1 i)"
      using unready_ok [OF inv i(1)] inv unready_eq [OF l i(1) _ i(2)] c unready_claims [OF c, of i]
      by (cases "sh_ready (shares s i)") auto
    then have "remove i s = Some (remove_result i s1)"
      using i lists_okD(5) [of R s1 i "sh_prio (shares s1 i)"]
      by (simp add: remove_def Let_def al_defs ucl_upd_def remove_result_def sched_inv_def)
    with e Remove remove_claims [OF s1(3), of i] show ?thesis by simp
  next
    case (Insert i p q)
    with ok have i: "i \<notin> R" "i \<noteq> idle s" by auto
    let ?t = "share_upd i (\<lambda>_. cpu_share p q) s"
    have t: "sched_inv R ?t" "claims_ok R ?t"
      using sched_inv_fresh [OF inv i(1)] fresh_claims [OF c inv i] by auto
    then have "sched_insert i ?t = Some (insert_result i ?t)"
      using i by (intro insert_eq) (auto simp: sched_inv_def)
    with e Insert insert_claims [OF t(2,1), of i] i show ?thesis by simp
  next
    case (Quota i q)
    with ok idl have "i \<in> R" "i \<noteq> idle s" by auto
    with Quota quota_eq [OF l, of i q] quota_claims [OF c l, of i q] e ok show ?thesis by simp
  next
    case Head
    with e upd c show ?thesis by (auto simp: head_def bind_eq_Some_conv split: if_splits)
  qed (use e c in \<open>auto simp: yield_def timeout_def claims_ok_def claims_ordered_def\<close>)
qed

lemma sched_reach_strict:
  "sched_reach op_strict R s \<Longrightarrow> sched_inv R s \<and> claims_ok R s"
proof (induction rule: sched_reach.induct)
  case (init q f shs idl)
  then show ?case
    using sched_init_inv by (auto simp: claims_ok_def claims_ordered_def sched_init_def)
next
  case (step R s x s')
  then show ?case
    using sched_exec_ok [of R s x] op_strict_ok [of R x s] sched_exec_claims [of R s x s'] by force
qed

text \<open>The shares that may claim their quota.\<close>

definition eligible :: "'i set \<Rightarrow> 'i sched \<Rightarrow> 'i set" where
  "eligible R s = {i \<in> R. sh_ready (shares s i) \<and> sh_quota (shares s i) \<noteq> 0 \<and> sh_claim (shares s i) \<noteq> 0}"

lemma claim_for_head_none:
  "fst (claim_for_head ps s) = False \<Longrightarrow> \<forall>p. claims_first (shares s) (rcl s p) \<Longrightarrow>
    p \<in> set ps \<Longrightarrow> i \<in> set (rcl s p) \<Longrightarrow> sh_claim (shares s i) = 0"
proof (induction ps)
  case (Cons p' ps)
  have "claims_first (shares s) (rcl s p')" using Cons.prems(2) by blast
  then have "rcl s p' = x # xs \<Longrightarrow> sh_claim (shares s x) = 0 \<Longrightarrow> y \<in> set xs \<Longrightarrow> sh_claim (shares s y) = 0"
    for x xs y by simp
  with Cons show ?case by (auto split: list.splits if_splits)
qed simp

lemma claim_for_head_best:
  "claim_for_head ps s = (True, s') \<Longrightarrow> \<forall>p. claims_first (shares s) (rcl s p) \<Longrightarrow>
    sorted_wrt (>) ps \<Longrightarrow>
    \<exists>p is i. p \<in> set ps \<and> rcl s p = i # is \<and> sh_claim (shares s i) \<noteq> 0 \<and>
      s' = set_head i (sh_claim (shares s i)) True s \<and>
      (\<forall>p' j. p' \<in> set ps \<longrightarrow> j \<in> set (rcl s p') \<longrightarrow> sh_claim (shares s j) \<noteq> 0 \<longrightarrow> p' \<le> p)"
proof (induction ps)
  case (Cons p ps)
  show ?case
  proof (cases "\<exists>i is. rcl s p = i # is \<and> sh_claim (shares s i) \<noteq> 0")
    case True
    then obtain i "is" where i: "rcl s p = i # is" "sh_claim (shares s i) \<noteq> 0" by blast
    moreover have "p' \<le> p" if "p' \<in> set (p # ps)" for p'
      using that Cons.prems(3) by (auto simp: less_imp_le)
    ultimately show ?thesis using Cons.prems(1) by auto
  next
    case False
    have "claims_first (shares s) (rcl s p)" using Cons.prems(2) by blast
    with False have z: "\<And>j. j \<in> set (rcl s p) \<Longrightarrow> sh_claim (shares s j) = 0"
      by (cases "rcl s p") auto
    from False Cons.prems(1) have "claim_for_head ps s = (True, s')"
      by (auto split: list.splits)
    with Cons.IH Cons.prems obtain p1 i "is" where
      "p1 \<in> set ps" "rcl s p1 = i # is" "sh_claim (shares s i) \<noteq> 0"
      "s' = set_head i (sh_claim (shares s i)) True s"
      "\<forall>p' j. p' \<in> set ps \<longrightarrow> j \<in> set (rcl s p') \<longrightarrow> sh_claim (shares s j) \<noteq> 0 \<longrightarrow> p' \<le> p1" by auto
    with z show ?thesis by (metis list.set_intros(2) set_ConsD)
  qed
qed simp

lemma prios_sorted: "sorted_wrt (>) prios"
  by (simp add: prios_def prio_max_def prio_min_def)

lemma choose_head_policy:
  assumes l: "lists_ok R s" and n: "nums_ok s" and c: "claims_ordered R s"
  defines "s' \<equiv> choose_head s"
  shows "\<exists>h. sc_head s' = Some h \<and>
    (if eligible R s' \<noteq> {} then h \<in> eligible R s' \<and> head_claims s' \<and>
        head_quota s' = sh_claim (shares s' h) \<and>
        (\<forall>i \<in> eligible R s'. sh_prio (shares s' i) \<le> sh_prio (shares s' h))
     else if fills s' \<noteq> [] then h = hd (fills s') \<and> \<not> head_claims s' \<and>
        head_quota s' = sh_fill (shares s' h)
     else h = idle s' \<and> \<not> head_claims s' \<and> head_quota s' = sc_fill s')"
proof -
  have cf: "\<forall>p. claims_first (shares s) (rcl s p)" using c by (simp add: claims_ordered_def)
  have el: "eligible R s' = {i. \<exists>p \<in> set prios. i \<in> set (rcl s p) \<and> sh_claim (shares s i) \<noteq> 0}"
    unfolding s'_def eligible_def using lists_okD(8) [OF l] by (auto simp: lists_okD(4) [OF l] set_prios)
  show ?thesis
  proof (cases "claim_for_head prios s")
    case (Pair b t)
    show ?thesis
    proof (cases b)
      case True
      with Pair have "claim_for_head prios s = (True, t)" by simp
      from claim_for_head_best [OF this cf prios_sorted] obtain p i "is" where
        p: "p \<in> set prios" "rcl s p = i # is" "sh_claim (shares s i) \<noteq> 0"
          "t = set_head i (sh_claim (shares s i)) True s"
        and best: "\<And>p' j. p' \<in> set prios \<Longrightarrow> j \<in> set (rcl s p') \<Longrightarrow> sh_claim (shares s j) \<noteq> 0 \<Longrightarrow> p' \<le> p"
        by blast
      have s': "s' = t" using Pair True by (simp add: s'_def choose_head_def)
      have i: "i \<in> eligible R s'" using p by (auto simp: el intro!: bexI [of _ p])
      have "\<And>p j. j \<in> set (rcl s p) \<Longrightarrow> sh_prio (shares s j) = p" by (simp add: lists_okD [OF l])
      moreover from this [of i p] p have "sh_prio (shares s i) = p" by simp
      ultimately have "\<forall>j \<in> eligible R s'. sh_prio (shares s j) \<le> sh_prio (shares s i)"
        using best by (auto simp: el)
      with i p s' show ?thesis by auto
    next
      case False
      with Pair have f: "fst (claim_for_head prios s) = False" by simp
      have "eligible R s' = {}" using claim_for_head_none [OF f cf] by (auto simp: el)
      moreover have "t = s" using Pair False claim_for_head_False by fastforce
      ultimately show ?thesis
        using Pair False by (cases "fills s") (auto simp: s'_def choose_head_def fill_for_head_def)
    qed
  qed
qed

text \<open>The slice that the kernel programs into its timer is not empty.\<close>

lemma choose_head_slice:
  assumes "nums_ok s"
  shows "effective_head_quota (choose_head s) \<noteq> 0"
  using assms by (cases s rule: choose_head_cases)
    (auto simp: effective_head_quota_def nums_ok_def min_def)

text \<open>Runs that check the contract of each operation, for the evaluation of concrete runs.\<close>

primrec sched_checked :: "('i set \<Rightarrow> 'i sched_op \<Rightarrow> 'i sched \<Rightarrow> bool) \<Rightarrow> 'i sched_op list \<Rightarrow>
    'i set \<times> 'i sched \<Rightarrow> ('i set \<times> 'i sched) option" where
  "sched_checked K [] rs = Some rs"
| "sched_checked K (x # xs) rs =
     (if K (fst rs) x (snd rs)
      then do { s' \<leftarrow> sched_exec x (snd rs); sched_checked K xs (op_members x (fst rs), s') }
      else None)"

lemma sched_checked_reach:
  "sched_checked K xs (R, s) = Some (R', s') \<Longrightarrow> sched_reach K R s \<Longrightarrow> sched_reach K R' s'"
  by (induction xs arbitrary: R s)
    (auto simp: bind_eq_Some_conv split: if_splits intro: sched_reach.step)

definition demo_init :: "nat sched" where
  "demo_init = sched_init 0 (\<lambda>_. cpu_share 0 0) 1000 10"

lemma demo_init_reach: "sched_reach K {} demo_init"
  unfolding demo_init_def by (rule sched_reach.init) simp_all

text \<open>The members and the head after a checked run.\<close>

definition checked_head :: "(nat set \<Rightarrow> nat sched_op \<Rightarrow> nat sched \<Rightarrow> bool) \<Rightarrow> nat sched_op list \<Rightarrow>
    (nat set \<times> nat option) option" where
  "checked_head K xs = map_option (\<lambda>(R, s). (R, sc_head s)) (sched_checked K xs ({}, demo_init))"

lemma checked_headD:
  assumes "checked_head K xs = Some (R, h)"
  shows "\<exists>s. sched_checked K xs ({}, demo_init) = Some (R, s) \<and> sc_head s = h \<and> sched_reach K R s"
  using assms sched_checked_reach [OF _ demo_init_reach] by (fastforce simp: checked_head_def)

lemmas sched_eval = checked_head_def demo_init_def sched_init_def cpu_share_def cpu_priority_def
  sched_insert_def share_upd_def rcl_upd_def ucl_upd_def reset_def ready_def unready_def update_def
  quota_def quota_adaption_def quota_introduction_def quota_revokation_def al_defs
  trim_consumption_def head_claimed_def head_filled_def next_fill_def consumed_def choose_head_def
  fill_for_head_def prios_def prio_max_def prio_min_def set_head_def min_def Let_def
  al_head_to_tail_def

section \<open>Properties\<close>

text \<open>
  \<^bold>\<open>C7.\<close> In every state that the kernel can reach by calling the scheduler within its contract,
  the share lists are consistent (a registered share with quota is on exactly the ready or unready
  list of its priority, the fills are exactly the ready shares, no list holds a share twice), the
  residual time of the round is positive and within the round, the head is registered or idle, and
  every further call within the contract succeeds: no assertion fails, no list operation is
  applied to a share in the wrong place and no null head is dereferenced.
\<close>

theorem scheduler_consistent:
  assumes "sched_reach op_ok R s"
  shows "sched_inv R s \<and> (\<forall>x. op_ok R x s \<longrightarrow> (\<exists>s'. sched_exec x s = Some s'))"
  using sched_reach_inv [OF assms] sched_exec_ok by blast

theorem scheduler_consistent_witness:
  "\<exists>R s s'. sched_checked op_ok [Insert 1 3 100, Insert 2 1 0, Ready 2, Update 5, Ready 1, Update 9]
       ({}, demo_init) = Some (R, s) \<and> sched_inv R s \<and> sched_exec (Remove 1) s = Some s'"
proof -
  have "checked_head op_ok [Insert 1 3 100, Insert 2 1 0, Ready 2, Update 5, Ready 1, Update 9] =
      Some ({2, 1}, Some 1)"
    by (simp add: sched_eval cong: eval_cong)
  from checked_headD [OF this] obtain s where s: "sched_checked op_ok [Insert 1 3 100, Insert 2 1 0,
      Ready 2, Update 5, Ready 1, Update 9] ({}, demo_init) = Some ({2, 1}, s)"
    and r: "sched_reach op_ok {2, 1} s" by blast
  have "op_ok {2, 1} (Remove 1) s" by simp
  with scheduler_consistent [OF r] obtain s' where
    "sched_inv {2, 1} s" "sched_exec (Remove 1) s = Some s'" by blast
  with s show ?thesis by blast
qed

text \<open>
  \<^bold>\<open>C6.\<close> The scheduling policy. In every run of calls within the contract of the scheduler in which no share is
  given a quota while it carries the claim of a former quota (\<open>op_strict\<close>): after \<^verbatim>\<open>update\<close>, if some ready share with a quota still has claim
  left in the round, then such a share is the head, its slice is its claim, and no other such share
  has a higher priority; otherwise the head is the first share of the round-robin list with the
  rest of its fill as slice; only if no share is ready the idle share is the head. The time slice
  handed to the timer is not zero.
\<close>

theorem scheduling_policy:
  assumes "sched_reach op_strict R s" and "update time s = Some s'"
  shows "effective_head_quota s' \<noteq> 0 \<and> effective_head_quota s' \<le> residual s' \<and>
    (\<exists>h. sc_head s' = Some h \<and>
      (if eligible R s' \<noteq> {} then h \<in> eligible R s' \<and> head_claims s' \<and>
          head_quota s' = sh_claim (shares s' h) \<and>
          (\<forall>i \<in> eligible R s'. sh_prio (shares s' i) \<le> sh_prio (shares s' h))
       else if fills s' \<noteq> [] then h = hd (fills s') \<and> \<not> head_claims s' \<and>
          head_quota s' = sh_fill (shares s' h)
       else h = idle s' \<and> \<not> head_claims s' \<and> head_quota s' = sc_fill s'))"
proof -
  from sched_reach_strict [OF assms(1)] have inv: "sched_inv R s" and c: "claims_ok R s" by auto
  then have l: "lists_ok R s" by (simp add: sched_inv_def)
  obtain s2 where s2: "update time s = Some (choose_head s2)" "same_place s s2" "nums_ok s2"
    and c2: "claims_ordered R s2"
    using update_split [OF inv, of time] c by blast
  have s': "s' = choose_head s2" using s2(1) assms(2) by simp
  have "effective_head_quota s' \<le> residual s'" by (simp add: effective_head_quota_def)
  with choose_head_slice [OF s2(3)] choose_head_policy [OF same_place_lists [OF l s2(2)] s2(3) c2]
  show ?thesis unfolding s' by blast
qed

theorem scheduling_policy_witness:
  "\<exists>s s'. sched_checked op_strict [Insert 1 3 100, Insert 2 1 7, Ready 2, Update 5, Ready 1]
      ({}, demo_init) = Some ({2, 1}, s) \<and> update 9 s = Some s' \<and> sc_head s' = Some 1 \<and>
      effective_head_quota s' \<noteq> 0"
proof -
  have "checked_head op_strict [Insert 1 3 100, Insert 2 1 7, Ready 2, Update 5, Ready 1] =
      Some ({2, 1}, Some 2)"
    by (simp add: sched_eval cong: eval_cong)
  from checked_headD [OF this] obtain s where s: "sched_checked op_strict [Insert 1 3 100, Insert 2 1 7,
      Ready 2, Update 5, Ready 1] ({}, demo_init) = Some ({2, 1}, s)"
    and r: "sched_reach op_strict {2, 1} s" by blast
  have "checked_head op_strict [Insert 1 3 100, Insert 2 1 7, Ready 2, Update 5, Ready 1, Update 9] =
      Some ({2, 1}, Some 1)"
    by (simp add: sched_eval cong: eval_cong)
  with s obtain s' where s': "update 9 s = Some s'" "sc_head s' = Some 1"
    by (auto simp: checked_head_def bind_eq_Some_conv split: if_splits)
  from scheduling_policy [OF r s'(1)] s s' show ?thesis by blast
qed

text \<open>
  The restriction of the policy is needed, as the following run shows. Taking all quota from a share and giving it back
  leaves the share's old claim in place but puts it behind the shares of its priority that have
  used up theirs: the share of priority 3 with claim left is passed over in favour of one of
  priority 1.
\<close>

theorem stale_claim_inversion:
  "\<exists>s. sched_run [Insert 1 3 10, Insert 2 3 10, Insert 3 1 10, Ready 2, Ready 1, Ready 3, Update 0,
      Update 10, Quota 2 0, Quota 2 10, Update 10] demo_init = Some s \<and>
    sc_head s = Some 3 \<and> 2 \<in> eligible {1, 2, 3} s \<and>
    sh_prio (shares s 3) < sh_prio (shares s 2)"
  by (simp add: sched_eval eligible_def cong: eval_cong)

end
