(* ===== verification/Linked_List.thy ===== *)
theory Linked_List
  imports Prelude
begin

text \<open>
  \<^verbatim>\<open>base/include/util/list.h\<close>: the intrusive singly linked list. The model keeps the
  \<^verbatim>\<open>_next\<close> pointers of the elements as a function and the \<^verbatim>\<open>_first\<close> pointer of the list, \<open>None\<close>
  being the null pointer. The predicate \<open>lseg\<close> and the facts on it serve the FIFO queue too.
\<close>

section \<open>Operations\<close>

text \<open>
  The loop \<^verbatim>\<open>while (e->_next && (e->_next != le)) e = e->_next\<close>: the predecessor of \<open>le\<close>, or
  \<open>None\<close> if the end of the list is reached.
\<close>

partial_function (option) find_prev :: "('i \<Rightarrow> 'i option) \<Rightarrow> 'i \<Rightarrow> 'i \<Rightarrow> 'i option option" where
  "find_prev nx le e = (case nx e of
     None \<Rightarrow> Some None
   | Some n \<Rightarrow> if n = le then Some (Some e) else find_prev nx le n)"

definition list_insert :: "'i \<Rightarrow> 'i option \<Rightarrow> ('i \<Rightarrow> 'i option) \<times> 'i option \<Rightarrow> ('i \<Rightarrow> 'i option) \<times> 'i option" where
  "list_insert le at = (\<lambda>(nx, first).
     case at of
       None \<Rightarrow> (nx(le := first), Some le)
     | Some a \<Rightarrow> ((nx(le := nx a))(a := Some le), first))"

definition list_remove :: "'i \<Rightarrow> ('i \<Rightarrow> 'i option) \<times> 'i option \<Rightarrow> (('i \<Rightarrow> 'i option) \<times> 'i option) option" where
  "list_remove le = (\<lambda>(nx, first).
     case first of
       None \<Rightarrow> Some (nx, first)
     | Some f \<Rightarrow>
         if le = f then Some (nx(le := None), nx le)
         else do {
           r \<leftarrow> find_prev nx le f;
           (case r of
              None \<Rightarrow> Some (nx, first)
            | Some e \<Rightarrow> do {
                n \<leftarrow> nx e;
                Some ((nx(e := nx n))(le := None), first)
              })
         })"

section \<open>The list that the pointers represent\<close>

primrec lseg :: "('i \<Rightarrow> 'i option) \<Rightarrow> 'i option \<Rightarrow> 'i list \<Rightarrow> 'i option \<Rightarrow> bool" where
  "lseg nx p [] q \<longleftrightarrow> p = q"
| "lseg nx p (x # xs) q \<longleftrightarrow> p = Some x \<and> lseg nx (nx x) xs q"

definition list_rep :: "('i \<Rightarrow> 'i option) \<times> 'i option \<Rightarrow> 'i list \<Rightarrow> bool" where
  "list_rep = (\<lambda>(nx, first) xs. lseg nx first xs None \<and> distinct xs)"

primrec add_after :: "'i \<Rightarrow> 'i \<Rightarrow> 'i list \<Rightarrow> 'i list" where
  "add_after le a [] = []"
| "add_after le a (x # xs) = (if x = a then x # le # xs else x # add_after le a xs)"

definition insert_after :: "'i \<Rightarrow> 'i option \<Rightarrow> 'i list \<Rightarrow> 'i list" where
  "insert_after le at xs = (case at of None \<Rightarrow> le # xs | Some a \<Rightarrow> add_after le a xs)"

lemma lseg_append [simp]: "lseg nx p (xs @ ys) q \<longleftrightarrow> (\<exists>r. lseg nx p xs r \<and> lseg nx r ys q)"
  by (induction xs arbitrary: p) auto

lemma lseg_upd [simp]: "x \<notin> set xs \<Longrightarrow> lseg (nx(x := v)) p xs q = lseg nx p xs q"
  by (induction xs arbitrary: p) auto

lemma lseg_cong: "\<forall>x \<in> set xs. nx x = nx' x \<Longrightarrow> lseg nx p xs q = lseg nx' p xs q"
  by (induction xs arbitrary: p) auto

lemma lseg_eq: "lseg nx p xs None \<Longrightarrow> lseg nx p ys None \<Longrightarrow> xs = ys"
proof (induction xs arbitrary: p ys)
  case Nil
  then show ?case by (cases ys) auto
next
  case (Cons x xs)
  then show ?case by (cases ys) auto
qed

lemma lseg_hd: "lseg nx p xs None \<Longrightarrow> p = (case xs of [] \<Rightarrow> None | x # _ \<Rightarrow> Some x)"
  by (cases xs) auto

lemma find_prev_hit:
  assumes "lseg nx (Some e) (ys @ a # le # zs) None" "le \<noteq> e" "distinct (ys @ a # le # zs)"
  shows "find_prev nx le e = Some (Some a)"
  using assms
proof (induction ys arbitrary: e)
  case Nil
  then show ?case by (subst find_prev.simps) simp
next
  case (Cons y ys)
  then obtain n where n: "nx e = Some n" "n \<noteq> le" by (cases ys) auto
  with Cons have "find_prev nx le n = Some (Some a)" by auto
  with n show ?case by (subst find_prev.simps) simp
qed

lemma find_prev_miss:
  assumes "lseg nx (Some e) (e # xs) None" "le \<notin> set (e # xs)"
  shows "find_prev nx le e = Some None"
  using assms
proof (induction xs arbitrary: e)
  case Nil
  then show ?case by (subst find_prev.simps) simp
next
  case (Cons x xs)
  then have "find_prev nx le x = Some None" by auto
  with Cons.prems show ?case by (subst find_prev.simps) auto
qed

lemma add_after_split [simp]: "a \<notin> set ys \<Longrightarrow> add_after le a (ys @ a # zs) = ys @ a # le # zs"
  by (induction ys) auto

lemma list_insert_rep:
  assumes rep: "list_rep s xs" and new: "le \<notin> set xs" and at: "\<forall>a. at = Some a \<longrightarrow> a \<in> set xs"
  shows "list_rep (list_insert le at s) (insert_after le at xs)"
proof -
  obtain nx first where s: "s = (nx, first)" by (cases s)
  show ?thesis
  proof (cases at)
    case None
    with rep new show ?thesis by (auto simp: s list_rep_def list_insert_def insert_after_def)
  next
    case (Some a)
    with at have "a \<in> set xs" by simp
    then obtain ys zs where xs: "xs = ys @ a # zs" by (meson split_list)
    with rep new Some show ?thesis by (auto simp: s list_rep_def list_insert_def insert_after_def)
  qed
qed

lemma list_remove_rep:
  assumes rep: "list_rep s xs"
  shows "\<exists>s'. list_remove le s = Some s' \<and> list_rep s' (remove1 le xs)"
proof -
  obtain nx first where s: "s = (nx, first)" by (cases s)
  show ?thesis
  proof (cases xs)
    case Nil
    with rep show ?thesis by (auto simp: s list_rep_def list_remove_def)
  next
    case (Cons f fs)
    with rep have f: "first = Some f" and seg: "lseg nx (Some f) xs None" and d: "distinct xs"
      by (auto simp: s list_rep_def)
    consider "le = f" | "le \<noteq> f" "le \<in> set fs" | "le \<notin> set xs" using Cons by auto
    then show ?thesis
    proof cases
      case 1
      with seg d Cons show ?thesis by (auto simp: s f list_rep_def list_remove_def)
    next
      case 2
      then obtain us zs where fs: "fs = us @ le # zs" by (meson split_list)
      obtain ys a where ya: "f # us = ys @ [a]" by (metis list.simps(3) rev_exhaust)
      with fs Cons have xs: "xs = ys @ a # le # zs" by simp
      with seg d 2 have p: "find_prev nx le f = Some (Some a)" using find_prev_hit by metis
      have n: "nx a = Some le" using seg xs by auto
      have "list_remove le s = Some ((nx(a := nx le))(le := None), Some f)"
        using 2 p n by (simp add: s f list_remove_def)
      moreover have "list_rep ((nx(a := nx le))(le := None), Some f) (remove1 le xs)"
        using seg d by (auto simp: xs list_rep_def remove1_append)
      ultimately show ?thesis by blast
    next
      case 3
      with seg Cons have "find_prev nx le f = Some None" by (intro find_prev_miss) auto
      with 3 Cons rep show ?thesis by (auto simp: s f list_remove_def remove1_idem)
    qed
  qed
qed

end
