(* ===== verification/Timer.thy ===== *)
theory Timer
  imports Linked_List
begin

text \<open>
  \<^verbatim>\<open>base-hw/src/core/kernel/timer.h\<close> and \<^verbatim>\<open>timer.cc\<close>: the timer of a CPU and the list of its
  timeouts. The timeouts are kept in the pointer-based list of \<^verbatim>\<open>util/list.h\<close>. The timer device is a
  parameter: every operation that reads it has as argument \<open>d\<close> the value that \<^verbatim>\<open>_duration()\<close>
  returns at that moment, and the value given to \<^verbatim>\<open>_start_one_shot\<close> is the field
  \<open>last_duration\<close>. An assertion that fails, or a null pointer that is dereferenced, is \<open>None\<close>. The
  callback \<^verbatim>\<open>timeout_triggered\<close> does not use the timer; the model returns the timeouts in the order
  in which it is called on them.
\<close>

section \<open>State and operations\<close>

record 'i timer =
  now_base :: time_t
  last_duration :: time_t
  t_list :: "('i \<Rightarrow> 'i option) \<times> 'i option"
  t_listed :: "'i \<Rightarrow> bool"
  t_end :: "'i \<Rightarrow> time_t"

definition timer_init ::
    "(time_t \<Rightarrow> time_t) \<Rightarrow> (time_t \<Rightarrow> time_t) \<Rightarrow> time_t \<Rightarrow> time_t \<Rightarrow> 'i timer option" where
  "timer_init ticks_to_us us_to_ticks max_value cpu_quota_us =
     (if (ticks_to_us 1 < 1 \<or> ticks_to_us max_value = max_value) \<and>
         ticks_to_us max_value > 2 * cpu_quota_us \<and> us_to_ticks cpu_quota_us < all_ones
      then Some \<lparr>now_base = 0, last_duration = max_value, t_list = (\<lambda>_. None, None),
                 t_listed = (\<lambda>_. False), t_end = (\<lambda>_. 0)\<rparr>
      else None)"

definition now :: "time_t \<Rightarrow> 'i timer \<Rightarrow> time_t" where
  "now d s = now_base s + d"

text \<open>The search loop of \<open>set_timeout\<close>: the element after which the timeout is inserted.\<close>

partial_function (option) insert_pos ::
    "('i \<Rightarrow> 'i option) \<Rightarrow> ('i \<Rightarrow> time_t) \<Rightarrow> time_t \<Rightarrow> 'i option \<Rightarrow> 'i option \<Rightarrow> 'i option option" where
  "insert_pos nx en e t1 t2 = (case t2 of
     None \<Rightarrow> Some t1
   | Some t \<Rightarrow> if en t < e then insert_pos nx en e (Some t) (nx t) else Some t1)"

definition set_timeout :: "'i \<Rightarrow> time_t \<Rightarrow> time_t \<Rightarrow> 'i timer \<Rightarrow> 'i timer option" where
  "set_timeout i duration d s = do {
     s1 \<leftarrow> (if t_listed s i
            then do { l \<leftarrow> list_remove i (t_list s); Some (s\<lparr>t_list := l\<rparr>) }
            else Some (s\<lparr>t_listed := (t_listed s)(i := True)\<rparr>));
     let s2 = s1\<lparr>t_end := (t_end s1)(i := now d s1 + duration)\<rparr>;
     t1 \<leftarrow> insert_pos (fst (t_list s2)) (t_end s2) (t_end s2 i) None (snd (t_list s2));
     Some (s2\<lparr>t_list := list_insert i t1 (t_list s2)\<rparr>)
   }"

definition schedule_timeout :: "time_t \<Rightarrow> 'i timer \<Rightarrow> (time_t \<times> 'i timer) option" where
  "schedule_timeout d s = do {
     t \<leftarrow> snd (t_list s);
     let s1 = s\<lparr>now_base := now_base s + d\<rparr>;
     Some (d, s1\<lparr>last_duration := if t_end s1 t > now_base s1 then t_end s1 t - now_base s1 else 1\<rparr>)
   }"

partial_function (option) timeout_loop :: "time_t \<Rightarrow> 'i timer \<Rightarrow> ('i list \<times> 'i timer) option" where
  "timeout_loop t s = (case snd (t_list s) of
     None \<Rightarrow> Some ([], s)
   | Some i \<Rightarrow>
       if t_end s i > t then Some ([], s)
       else do {
         l \<leftarrow> list_remove i (t_list s);
         (is, s') \<leftarrow> timeout_loop t (s\<lparr>t_list := l, t_listed := (t_listed s)(i := False)\<rparr>);
         Some (i # is, s')
       })"

definition process_timeouts :: "time_t \<Rightarrow> 'i timer \<Rightarrow> ('i list \<times> 'i timer) option" where
  "process_timeouts d s = timeout_loop (now d s) s"

section \<open>The timeouts in the order of the list\<close>

text \<open>The timer with list \<open>xs\<close> has its timeouts in ascending order, each marked as listed.\<close>

definition timer_rep :: "'i timer \<Rightarrow> 'i list \<Rightarrow> bool" where
  "timer_rep s xs \<longleftrightarrow> list_rep (t_list s) xs \<and> sorted (map (t_end s) xs) \<and> (\<forall>i. t_listed s i \<longleftrightarrow> i \<in> set xs)"

lemma timer_repD:
  assumes "timer_rep s xs"
  shows "lseg (fst (t_list s)) (snd (t_list s)) xs None" "distinct xs"
    "snd (t_list s) = (case xs of [] \<Rightarrow> None | x # _ \<Rightarrow> Some x)"
  using assms by (auto simp: timer_rep_def list_rep_def split_beta dest: lseg_hd)

text \<open>Inserting after the position that the loop finds is insertion into the sorted list.\<close>

lemma insert_pos_insort:
  assumes "lseg nx t2 xs None" "i \<notin> set (ys @ xs)" "distinct (ys @ xs)" "t1 = (if ys = [] then None else Some (last ys))"
  shows "\<exists>t. insert_pos nx en (en i) t1 t2 = Some t \<and> (\<forall>a. t = Some a \<longrightarrow> a \<in> set (ys @ xs)) \<and>
    insert_after i t (ys @ xs) = ys @ insort_key en i xs"
  using assms
proof (induction xs arbitrary: ys t1 t2)
  case Nil
  have e: "insert_pos nx en (en i) t1 t2 = Some t1" using Nil by (subst insert_pos.simps) simp
  show ?case
  proof (cases ys rule: rev_cases)
    case Nil
    with e show ?thesis using \<open>t1 = _\<close> by (simp add: insert_after_def)
  next
    case (snoc zs z)
    with e Nil.prems show ?thesis using add_after_split [of z zs i "[]"] by (simp add: insert_after_def)
  qed
next
  case (Cons x xs)
  show ?case
  proof (cases "en x < en i")
    case True
    then have e: "insert_pos nx en (en i) t1 t2 = insert_pos nx en (en i) (Some x) (nx x)"
      using Cons.prems by (subst insert_pos.simps) simp
    obtain t where "insert_pos nx en (en i) (Some x) (nx x) = Some t"
      "\<forall>a. t = Some a \<longrightarrow> a \<in> set ((ys @ [x]) @ xs)"
      "insert_after i t ((ys @ [x]) @ xs) = (ys @ [x]) @ insort_key en i xs"
      using Cons.IH [of "nx x" "ys @ [x]" "Some x"] Cons.prems by auto
    with e True show ?thesis by auto
  next
    case False
    then have e: "insert_pos nx en (en i) t1 t2 = Some t1"
      using Cons.prems by (subst insert_pos.simps) simp
    show ?thesis
    proof (cases ys rule: rev_cases)
      case Nil
      with e False Cons.prems show ?thesis by (simp add: insert_after_def not_less)
    next
      case (snoc zs z)
      with e False Cons.prems show ?thesis
        using add_after_split [of z zs i "x # xs"] by (simp add: insert_after_def not_less)
    qed
  qed
qed

lemma set_timeout_rep:
  assumes rep: "timer_rep s xs" and e_def: "e = now d s + duration"
  shows "\<exists>s'. set_timeout i duration d s = Some s' \<and> t_end s' = (t_end s)(i := e) \<and>
    now_base s' = now_base s \<and> last_duration s' = last_duration s \<and>
    timer_rep s' (insort_key ((t_end s)(i := e)) i (remove1 i xs))"
proof -
  let ?en = "(t_end s)(i := e)" let ?ys = "remove1 i xs"
  obtain l where l: "list_rep l ?ys" "(if t_listed s i
      then do { l \<leftarrow> list_remove i (t_list s); Some (s\<lparr>t_list := l\<rparr>) }
      else Some (s\<lparr>t_listed := (t_listed s)(i := True)\<rparr>)) =
      Some (s\<lparr>t_list := l, t_listed := (t_listed s)(i := True)\<rparr>)"
  proof (cases "t_listed s i")
    case True
    moreover obtain l where "list_remove i (t_list s) = Some l" "list_rep l ?ys"
      using list_remove_rep rep by (metis timer_rep_def)
    moreover have "s\<lparr>t_list := l\<rparr> = s\<lparr>t_list := l, t_listed := (t_listed s)(i := True)\<rparr>"
      using True by (simp add: fun_upd_idem)
    ultimately show ?thesis using that [of l] by simp
  next
    case False
    moreover from False have "remove1 i xs = xs" using rep by (intro remove1_idem) (simp add: timer_rep_def)
    ultimately show ?thesis using that [of "t_list s"] rep by (simp add: timer_rep_def)
  qed
  have d: "distinct ?ys" "i \<notin> set ?ys" "lseg (fst l) (snd l) ?ys None"
    using l(1) timer_repD(2) [OF rep] by (auto simp: list_rep_def split_beta)
  obtain t where t: "insert_pos (fst l) ?en e None (snd l) = Some t" "\<forall>a. t = Some a \<longrightarrow> a \<in> set ?ys"
    "insert_after i t ?ys = insort_key ?en i ?ys"
    using insert_pos_insort [OF d(3), of i "[]" None ?en] d by auto
  let ?s = "s\<lparr>t_list := list_insert i t l, t_listed := (t_listed s)(i := True), t_end := ?en\<rparr>"
  have "set_timeout i duration d s = Some ?s"
    unfolding set_timeout_def l(2) using t(1) by (simp add: e_def now_def)
  moreover have "timer_rep ?s (insort_key ?en i ?ys)"
  proof -
    have "map ?en ?ys = map (t_end s) ?ys" using d(2) by (auto intro: map_cong)
    then have "sorted (map ?en ?ys)" using rep by (simp only: timer_rep_def sorted_map_remove1)
    moreover have "(t_listed s)(i := True) = (\<lambda>j. j \<in> insert i (set ?ys))"
      using rep timer_repD(2) [OF rep] by (auto simp: timer_rep_def fun_eq_iff)
    ultimately show ?thesis
      using list_insert_rep [OF l(1) d(2) t(2)] t(3)
      by (simp add: timer_rep_def sorted_insort_key set_insort_key)
  qed
  ultimately show ?thesis by auto
qed

lemma timeout_loop_rep:
  assumes "timer_rep s xs"
  shows "\<exists>s'. timeout_loop t s = Some (takeWhile (\<lambda>i. t_end s i \<le> t) xs, s') \<and> t_end s' = t_end s \<and>
    now_base s' = now_base s \<and> last_duration s' = last_duration s \<and>
    timer_rep s' (dropWhile (\<lambda>i. t_end s i \<le> t) xs)"
  using assms
proof (induction xs arbitrary: s)
  case Nil
  then show ?case using timer_repD(3) [OF Nil] by (subst timeout_loop.simps) simp
next
  case (Cons x xs)
  have h: "snd (t_list s) = Some x" using timer_repD(3) [OF Cons.prems] by simp
  show ?case
  proof (cases "t_end s x \<le> t")
    case False
    then show ?thesis using h Cons.prems by (subst timeout_loop.simps) (simp add: not_le)
  next
    case True
    obtain l where l: "list_remove x (t_list s) = Some l" "list_rep l xs"
      using list_remove_rep [of "t_list s" "x # xs" x] Cons.prems by (auto simp: timer_rep_def)
    let ?s = "s\<lparr>t_list := l, t_listed := (t_listed s)(x := False)\<rparr>"
    have "timer_rep ?s xs" using Cons.prems l timer_repD(2) [OF Cons.prems] by (auto simp: timer_rep_def)
    from Cons.IH [OF this] show ?thesis using h l True by (subst timeout_loop.simps) auto
  qed
qed

section \<open>Armed timeouts\<close>

text \<open>
  The timer as its clients see it: which timeouts are armed, and for when. \<open>timer_reach A s\<close> are the
  states that calls of the operations lead to, with the armed timeouts \<open>A\<close> that follow from the calls
  alone.
\<close>

inductive timer_reach :: "('i \<Rightarrow> time_t option) \<Rightarrow> 'i timer \<Rightarrow> bool" where
  start: "timer_init tu ut mx q = Some s \<Longrightarrow> timer_reach (\<lambda>_. None) s"
| arm: "timer_reach A s \<Longrightarrow> set_timeout i duration d s = Some s' \<Longrightarrow>
    timer_reach (A(i \<mapsto> now d s + duration)) s'"
| process: "timer_reach A s \<Longrightarrow> process_timeouts d s = Some (fired, s') \<Longrightarrow>
    timer_reach (\<lambda>i. case A i of None \<Rightarrow> None | Some e \<Rightarrow> if e \<le> now d s then None else Some e) s'"
| schedule: "timer_reach A s \<Longrightarrow> schedule_timeout d s = Some (d', s') \<Longrightarrow> timer_reach A s'"

definition armed_rep :: "('i \<Rightarrow> time_t option) \<Rightarrow> 'i timer \<Rightarrow> 'i list \<Rightarrow> bool" where
  "armed_rep A s xs \<longleftrightarrow> timer_rep s xs \<and> A = (\<lambda>i. if i \<in> set xs then Some (t_end s i) else None)"

lemma sorted_takeWhile_le: "sorted (map f xs) \<Longrightarrow> set (takeWhile (\<lambda>i. f i \<le> t) xs) = {i \<in> set xs. f i \<le> (t :: 'b :: linorder)}"
  by (induction xs) (auto intro: order_trans)

lemma sorted_dropWhile_le: "sorted (map f xs) \<Longrightarrow> set (dropWhile (\<lambda>i. f i \<le> t) xs) = {i \<in> set xs. \<not> f i \<le> (t :: 'b :: linorder)}"
proof (induction xs)
  case (Cons x xs)
  then show ?case by (cases "f x \<le> t") force+
qed simp

lemma process_timeouts_armed:
  assumes "armed_rep A s xs"
  shows "\<exists>s'. process_timeouts d s = Some (takeWhile (\<lambda>i. t_end s i \<le> now d s) xs, s') \<and>
    armed_rep (\<lambda>i. case A i of None \<Rightarrow> None | Some e \<Rightarrow> if e \<le> now d s then None else Some e) s'
      (dropWhile (\<lambda>i. t_end s i \<le> now d s) xs)"
proof -
  have rep: "timer_rep s xs" and A: "A = (\<lambda>i. if i \<in> set xs then Some (t_end s i) else None)"
    using assms by (auto simp: armed_rep_def)
  obtain s' where s': "timeout_loop (now d s) s = Some (takeWhile (\<lambda>i. t_end s i \<le> now d s) xs, s')"
    "t_end s' = t_end s" "timer_rep s' (dropWhile (\<lambda>i. t_end s i \<le> now d s) xs)"
    using timeout_loop_rep [OF rep] by blast
  have "set (dropWhile (\<lambda>i. t_end s i \<le> now d s) xs) = {i \<in> set xs. \<not> t_end s i \<le> now d s}"
    using rep by (intro sorted_dropWhile_le) (simp add: timer_rep_def)
  with s' show ?thesis by (auto simp: process_timeouts_def armed_rep_def A fun_eq_iff)
qed

lemma timer_reach_rep: "timer_reach A s \<Longrightarrow> \<exists>xs. armed_rep A s xs"
proof (induction rule: timer_reach.induct)
  case (start tu ut mx q s)
  then have "armed_rep (\<lambda>_. None) s []"
    by (auto simp: timer_init_def armed_rep_def timer_rep_def list_rep_def split: if_splits)
  then show ?case by blast
next
  case (arm A s i duration d s')
  then obtain xs where xs: "timer_rep s xs" "A = (\<lambda>i. if i \<in> set xs then Some (t_end s i) else None)"
    by (auto simp: armed_rep_def)
  let ?e = "now d s + duration"
  have "distinct xs" by (rule timer_repD(2) [OF xs(1)])
  moreover have "t_end s' = (t_end s)(i := ?e)" "timer_rep s' (insort_key ((t_end s)(i := ?e)) i (remove1 i xs))"
    using set_timeout_rep [OF xs(1) refl, of i duration d] arm.hyps(2) by auto
  ultimately have "armed_rep (A(i \<mapsto> ?e)) s' (insort_key ((t_end s)(i := ?e)) i (remove1 i xs))"
    by (auto simp: armed_rep_def xs(2) set_insort_key fun_eq_iff)
  then show ?case by blast
next
  case (process A s d fired s')
  then obtain xs where "armed_rep A s xs" by blast
  from process_timeouts_armed [OF this, of d] process.hyps(2) show ?case by auto
next
  case (schedule A s d d' s')
  then obtain xs where xs: "armed_rep A s xs" by blast
  have "t_list s' = t_list s" "t_listed s' = t_listed s" "t_end s' = t_end s"
    using schedule.hyps(2) by (auto simp: schedule_timeout_def Option.bind_eq_Some_conv Let_def)
  then have "armed_rep A s' xs" using xs by (auto simp: armed_rep_def timer_rep_def)
  then show ?case by blast
qed

lemma armed_first:
  assumes "armed_rep A s xs" "A j = Some e"
  shows "\<exists>i ys. xs = i # ys \<and> snd (t_list s) = Some i \<and> A i = Some (t_end s i) \<and> t_end s i \<le> e"
proof -
  have rep: "timer_rep s xs" and j: "j \<in> set xs" "e = t_end s j" using assms by (auto simp: armed_rep_def split: if_splits)
  then obtain i ys where xs: "xs = i # ys" by (cases xs) auto
  with rep j have "t_end s i \<le> e" by (auto simp: timer_rep_def)
  with xs timer_repD(3) [OF rep] assms(1) show ?thesis by (auto simp: armed_rep_def)
qed

lemma arm_total:
  assumes "timer_reach A s"
  shows "\<exists>s'. timer_reach (A(i \<mapsto> now d s + duration)) s' \<and> now_base s' = now_base s"
proof -
  obtain xs where "timer_rep s xs" using timer_reach_rep [OF assms] by (auto simp: armed_rep_def)
  from set_timeout_rep [OF this refl, of i duration d] show ?thesis using timer_reach.arm [OF assms] by blast
qed

text \<open>A timer with two armed timeouts, for the ticks 10 and 5.\<close>

lemma demo_timer: "\<exists>s :: nat timer. timer_reach [0 \<mapsto> 10, 1 \<mapsto> 5] s \<and> now_base s = 0"
proof -
  obtain s0 :: "nat timer" where "timer_reach (\<lambda>_. None) s0" "now_base s0 = 0"
    using timer_reach.start [of id id "2 ^ 32 - 1" 1000000] by (fastforce simp: timer_init_def)
  then obtain s1 :: "nat timer" where "timer_reach [0 \<mapsto> 10] s1" "now_base s1 = 0"
    using arm_total [of "\<lambda>_. None" s0 0 0 10] by (auto simp: now_def)
  then show ?thesis using arm_total [of "[0 \<mapsto> 10]" s1 1 0 5] by (auto simp: now_def)
qed

section \<open>Properties\<close>

text \<open>
  \<^bold>\<open>C31.\<close> Processing the timeouts terminates in every reachable state, triggers exactly the armed
  timeouts whose end has come, each of them once and in the order of their ends, and leaves exactly
  the others armed.
\<close>

theorem process_fires_due:
  assumes "timer_reach A s"
  shows "\<exists>fired s'. process_timeouts d s = Some (fired, s') \<and> distinct fired \<and>
    set fired = {i. \<exists>e. A i = Some e \<and> e \<le> now d s} \<and> sorted (map (the \<circ> A) fired) \<and>
    (\<forall>i. t_listed s' i \<longleftrightarrow> (\<exists>e. A i = Some e \<and> now d s < e))"
proof -
  obtain xs where xs: "armed_rep A s xs" using timer_reach_rep [OF assms] by blast
  then have rep: "timer_rep s xs" and A: "A = (\<lambda>i. if i \<in> set xs then Some (t_end s i) else None)"
    by (auto simp: armed_rep_def)
  let ?due = "takeWhile (\<lambda>i. t_end s i \<le> now d s) xs"
  obtain s' where s': "process_timeouts d s = Some (?due, s')"
    "armed_rep (\<lambda>i. case A i of None \<Rightarrow> None | Some e \<Rightarrow> if e \<le> now d s then None else Some e) s'
      (dropWhile (\<lambda>i. t_end s i \<le> now d s) xs)"
    using process_timeouts_armed [OF xs, of d] by blast
  have so: "sorted (map (t_end s) xs)" using rep by (simp add: timer_rep_def)
  have set: "set ?due = {i \<in> set xs. t_end s i \<le> now d s}" by (rule sorted_takeWhile_le [OF so])
  have rest: "set (dropWhile (\<lambda>i. t_end s i \<le> now d s) xs) = {i \<in> set xs. \<not> t_end s i \<le> now d s}"
    by (rule sorted_dropWhile_le [OF so])
  have "map (the \<circ> A) ?due = map (t_end s) ?due"
    by (rule map_cong [OF refl]) (auto simp: A dest: set_takeWhileD)
  also have "\<dots> = takeWhile (\<lambda>e. e \<le> now d s) (map (t_end s) xs)" by (simp add: takeWhile_map comp_def)
  finally have "sorted (map (the \<circ> A) ?due)" using so by (simp add: sorted_takeWhile)
  moreover have "distinct ?due" using timer_repD(2) [OF rep] by simp
  moreover have "t_listed s' i \<longleftrightarrow> (\<exists>e. A i = Some e \<and> now d s < e)" for i
  proof -
    have "t_listed s' i \<longleftrightarrow> i \<in> set (dropWhile (\<lambda>i. t_end s i \<le> now d s) xs)"
      using s'(2) by (simp add: armed_rep_def timer_rep_def)
    then show ?thesis unfolding rest by (auto simp: A)
  qed
  moreover have "set ?due = {i. \<exists>e. A i = Some e \<and> e \<le> now d s}" unfolding set by (auto simp: A)
  ultimately show ?thesis using s'(1) by blast
qed

theorem process_fires_due_witness:
  "\<exists>(s :: nat timer) fired s'. timer_reach [0 \<mapsto> 10, 1 \<mapsto> 5] s \<and> process_timeouts 7 s = Some (fired, s') \<and>
    set fired = {1} \<and> t_listed s' 0"
proof -
  obtain s :: "nat timer" where s: "timer_reach [0 \<mapsto> 10, 1 \<mapsto> 5] s" "now_base s = 0" using demo_timer by blast
  have "{i. \<exists>e. [0 \<mapsto> 10, 1 \<mapsto> 5 :: time_t] i = Some e \<and> e \<le> 7} = {1 :: nat}"
    by (auto split: if_splits)
  with process_fires_due [OF s(1), of 7] s show ?thesis by (auto simp: now_def)
qed

text \<open>
  \<^bold>\<open>C32.\<close> Scheduling programs the device for the nearest timeout, so that none is late: once the
  device has counted the programmed duration and the clock has not wrapped around, processing the
  timeouts triggers every timeout with the nearest end, and up to then no timeout is due.
\<close>

theorem nearest_timeout_fires:
  assumes "timer_reach A s" "A j = Some e"
    and nearest: "\<forall>k e'. A k = Some e' \<longrightarrow> e \<le> e'"
    and future: "now_base s + d < e"
  shows "\<exists>s'. schedule_timeout d s = Some (d, s') \<and> now (last_duration s') s' = e \<and>
    (\<forall>t < last_duration s'. \<forall>k e'. A k = Some e' \<longrightarrow> now t s' < e') \<and>
    (\<exists>fired s''. process_timeouts (last_duration s') s' = Some (fired, s'') \<and> j \<in> set fired)"
proof -
  obtain xs where xs: "armed_rep A s xs" using timer_reach_rep [OF assms(1)] by blast
  obtain i ys where i: "xs = i # ys" "snd (t_list s) = Some i" "A i = Some (t_end s i)" "t_end s i \<le> e"
    using armed_first [OF xs assms(2)] by blast
  with nearest have e: "t_end s i = e" by (auto intro: antisym)
  let ?n = "now_base s + d"
  let ?s = "s\<lparr>now_base := ?n, last_duration := e - ?n\<rparr>"
  have sch: "schedule_timeout d s = Some (d, ?s)" using i(2) e future by (simp add: schedule_timeout_def)
  have lt: "?n + t < e" if "t < e - ?n" for t
  proof -
    have "unat (e - ?n) = unat e - unat ?n" using future by (intro unat_sub_le) simp
    with that future have "unat ?n + unat t < unat e" by (simp add: word_nat)
    moreover have "unat (?n + t) = unat ?n + unat t"
      using calculation unat64_bound [of e] by (intro unat_add_no_wrap) simp
    ultimately show ?thesis by (simp add: word_nat)
  qed
  have xs': "armed_rep A ?s xs" using xs by (auto simp: armed_rep_def timer_rep_def)
  have n: "now (e - ?n) ?s = e" by (simp add: now_def)
  have j: "j \<in> set xs" "t_end s j = e" using xs assms(2) by (auto simp: armed_rep_def split: if_splits)
  have so: "sorted (map (t_end s) xs)" using xs by (simp add: armed_rep_def timer_rep_def)
  have "j \<in> set (takeWhile (\<lambda>i. t_end s i \<le> e) xs)"
    unfolding sorted_takeWhile_le [OF so] using j by simp
  with process_timeouts_armed [OF xs', of "e - ?n"]
  have "\<exists>fired s''. process_timeouts (e - ?n) ?s = Some (fired, s'') \<and> j \<in> set fired"
    unfolding n by auto
  moreover have "now t ?s < e'" if "t < e - ?n" "A k = Some e'" for t k e'
    using lt [OF that(1)] nearest that(2) by (fastforce simp: now_def)
  ultimately show ?thesis using sch n by auto
qed

theorem nearest_timeout_fires_witness:
  "\<exists>(s :: nat timer) s' fired s''. schedule_timeout 2 s = Some (2, s') \<and> now (last_duration s') s' = 5 \<and>
    process_timeouts (last_duration s') s' = Some (fired, s'') \<and> 1 \<in> set fired"
proof -
  obtain s :: "nat timer" where s: "timer_reach [0 \<mapsto> 10, 1 \<mapsto> 5] s" "now_base s = 0" using demo_timer by blast
  have "\<forall>(k :: nat) e'. [0 \<mapsto> 10, 1 \<mapsto> 5 :: time_t] k = Some e' \<longrightarrow> 5 \<le> e'"
    by auto
  from nearest_timeout_fires [OF s(1) _ this, of 1 2] s(2)
  obtain s' fired s'' where "schedule_timeout 2 s = Some (2, s')" "now (last_duration s') s' = 5"
    "process_timeouts (last_duration s') s' = Some (fired, s'')" "1 \<in> set fired" by auto
  then show ?thesis by blast
qed

end
