(* ===== verification/Kernel_Cpu.thy ===== *)
theory Kernel_Cpu
  imports Cpu_Scheduler Timer
begin

text \<open>
  \<^verbatim>\<open>base-hw/src/core/kernel/cpu.h\<close>, \<^verbatim>\<open>cpu.cc\<close> and \<^verbatim>\<open>cpu_mp.cc\<close>: a CPU composes its scheduler and its timer. Every
  entry into the kernel is a pass of \<^verbatim>\<open>Cpu::schedule\<close>: the exception of the job that was running is
  handled, and if the scheduler asks for it, timeouts are processed, a job is chosen, and the timer is
  programmed to interrupt it at the end of its time slice.

  What the exception of a job does to its CPU is a sequence of operations on scheduler, timer and CPU, an
  argument of the pass, as are the operations that the callbacks of timeouts lead to; the callbacks do
  not use the timer. The timeout of the CPU itself is \<open>None\<close>, that of a thread \<open>Some\<close>. The timer device and
  \<^verbatim>\<open>helping_destination\<close> are arguments too: a pass reads the device four times and follows the helping
  relationships before and after the exception.
\<close>

section \<open>State and operations\<close>

datatype cpu_state = RUN | HALT | SUSPEND

record 'i cpu =
  c_state :: cpu_state
  c_id :: nat
  c_timer :: "'i option timer"
  c_sched :: "'i sched"
  ipi_pending :: bool
  ipis_sent :: nat
  exec_time :: "'i \<Rightarrow> time_t"

definition cpu_construct ::
    "nat \<Rightarrow> 'i \<Rightarrow> ('i \<Rightarrow> share) \<Rightarrow> (time_t \<Rightarrow> time_t) \<Rightarrow> (time_t \<Rightarrow> time_t) \<Rightarrow> time_t \<Rightarrow> time_t \<Rightarrow> time_t \<Rightarrow> 'i cpu option" where
  "cpu_construct n idl shs ticks_to_us us_to_ticks max_value cpu_quota_us cpu_fill_us = do {
     t \<leftarrow> timer_init ticks_to_us us_to_ticks max_value cpu_quota_us;
     let s = sched_init idl shs (ucast (us_to_ticks cpu_quota_us)) (ucast (us_to_ticks cpu_fill_us));
     s1 \<leftarrow> sched_insert idl (share_upd idl (\<lambda>_. cpu_share prio_min 0) s);
     Some \<lparr>c_state = RUN, c_id = n, c_timer = t, c_sched = s1, ipi_pending = False, ipis_sent = 0, exec_time = (\<lambda>_. 0)\<rparr>
   }"

definition trigger_ip_interrupt :: "'i cpu \<Rightarrow> 'i cpu" where
  "trigger_ip_interrupt c = (if ipi_pending c then c else c\<lparr>ipis_sent := ipis_sent c + 1, ipi_pending := True\<rparr>)"

definition schedule_job :: "nat \<Rightarrow> 'i \<Rightarrow> 'i cpu \<Rightarrow> 'i cpu option" where
  "schedule_job executing_id i c = do {
     s \<leftarrow> ready i (c_sched c);
     let c1 = c\<lparr>c_sched := s\<rparr>;
     Some (if c_id c \<noteq> executing_id \<and> need_to_schedule s then trigger_ip_interrupt c1 else c1)
   }"

text \<open>\<^verbatim>\<open>Ipi::occurred\<close> executes the work items of two lists, which are operations of their own, and then admits new interrupts.\<close>

definition ipi_received :: "'i cpu \<Rightarrow> 'i cpu" where
  "ipi_received c = c\<lparr>ipi_pending := False\<rparr>"

text \<open>A job yields or goes to sleep only on the CPU that executes it; the source asserts this.\<close>

definition job_yield :: "nat \<Rightarrow> 'i cpu \<Rightarrow> 'i cpu option" where
  "job_yield executing_id c = (if c_id c = executing_id then Some (c\<lparr>c_sched := yield (c_sched c)\<rparr>) else None)"

definition job_deactivate :: "nat \<Rightarrow> 'i \<Rightarrow> 'i cpu \<Rightarrow> 'i cpu option" where
  "job_deactivate executing_id i c =
     (if c_id c = executing_id then do { s \<leftarrow> unready i (c_sched c); Some (c\<lparr>c_sched := s\<rparr>) } else None)"

text \<open>
  The assignment of a job to the CPU, a change of its quota, and its destruction. At its assignment the share
  of a job is as the constructor has left it, with a priority and a quota; before the assignment, \<^verbatim>\<open>quota\<close> only
  changes the number \<open>q\<close>, and the destructor does nothing.
\<close>

definition job_affinity :: "'i \<Rightarrow> u32 \<Rightarrow> u32 \<Rightarrow> 'i cpu \<Rightarrow> 'i cpu option" where
  "job_affinity i p q c = do { s \<leftarrow> sched_insert i (share_upd i (\<lambda>_. cpu_share p q) (c_sched c)); Some (c\<lparr>c_sched := s\<rparr>) }"

definition job_quota :: "'i \<Rightarrow> u32 \<Rightarrow> 'i cpu \<Rightarrow> 'i cpu option" where
  "job_quota i q c = do { s \<leftarrow> quota i q (c_sched c); Some (c\<lparr>c_sched := s\<rparr>) }"

definition job_destruct :: "'i \<Rightarrow> 'i cpu \<Rightarrow> 'i cpu option" where
  "job_destruct i c = do { s \<leftarrow> remove i (c_sched c); Some (c\<lparr>c_sched := s\<rparr>) }"

definition timer_irq_occurred :: "'i cpu \<Rightarrow> 'i cpu" where
  "timer_irq_occurred c = c\<lparr>c_sched := timeout (c_sched c)\<rparr>"

definition next_state_halt :: "'i cpu \<Rightarrow> 'i cpu" where
  "next_state_halt c = c\<lparr>c_state := HALT\<rparr>"

definition next_state_suspend :: "'i cpu \<Rightarrow> 'i cpu" where
  "next_state_suspend c = c\<lparr>c_state := SUSPEND\<rparr>"

definition reinit_cpu :: "'i cpu \<Rightarrow> 'i cpu" where
  "reinit_cpu c = c\<lparr>c_state := RUN\<rparr>"

text \<open>The job that runs on behalf of the head of the scheduler.\<close>

definition scheduled_job :: "('i \<Rightarrow> 'i option) \<Rightarrow> 'i cpu \<Rightarrow> ('i \<times> 'i cpu) option" where
  "scheduled_job helping_destination c = do {
     (h, s) \<leftarrow> head (c_sched c);
     j \<leftarrow> helping_destination h;
     Some (j, c\<lparr>c_sched := s\<rparr>)
   }"

datatype 'i cpu_op =
    Schedule_job nat 'i
  | Job_deactivate nat 'i
  | Job_yield nat
  | Job_affinity 'i u32 u32
  | Job_quota 'i u32
  | Job_destruct 'i
  | Arm_timeout 'i time_t time_t
  | Timer_irq
  | Ipi_irq
  | Next_halt
  | Next_suspend

fun cpu_exec :: "'i cpu_op \<Rightarrow> 'i cpu \<Rightarrow> 'i cpu option" where
  "cpu_exec (Schedule_job e i) c = schedule_job e i c"
| "cpu_exec (Job_deactivate e i) c = job_deactivate e i c"
| "cpu_exec (Job_yield e) c = job_yield e c"
| "cpu_exec (Job_affinity i p q) c = job_affinity i p q c"
| "cpu_exec (Job_quota i q) c = job_quota i q c"
| "cpu_exec (Job_destruct i) c = job_destruct i c"
| "cpu_exec (Arm_timeout i t d) c = do { t' \<leftarrow> set_timeout (Some i) t d (c_timer c); Some (c\<lparr>c_timer := t'\<rparr>) }"
| "cpu_exec Timer_irq c = Some (timer_irq_occurred c)"
| "cpu_exec Ipi_irq c = Some (ipi_received c)"
| "cpu_exec Next_halt c = Some (next_state_halt c)"
| "cpu_exec Next_suspend c = Some (next_state_suspend c)"

fun cpu_ops :: "'i cpu_op list \<Rightarrow> 'i cpu \<Rightarrow> 'i cpu option" where
  "cpu_ops [] c = Some c"
| "cpu_ops (x # xs) c = do { c1 \<leftarrow> cpu_exec x c; cpu_ops xs c1 }"

text \<open>\<^verbatim>\<open>Cpu::schedule()\<close>; the result \<open>None\<close> is the job that halts the CPU.\<close>

definition cpu_schedule ::
    "('i \<Rightarrow> 'i option) \<Rightarrow> ('i \<Rightarrow> 'i option) \<Rightarrow> 'i cpu_op list \<Rightarrow> ('i \<Rightarrow> 'i sched_op list) \<Rightarrow>
     time_t \<times> time_t \<times> time_t \<times> time_t \<Rightarrow> 'i cpu \<Rightarrow> ('i option \<times> 'i cpu) option" where
  "cpu_schedule help help' ops triggered = (\<lambda>(d1, d2, d3, d4) c. do {
     (old_job, c1) \<leftarrow> scheduled_job help c;
     c2 \<leftarrow> cpu_ops ops c1;
     if c_state c2 = SUSPEND \<or> c_state c2 = HALT then Some (None, c2)
     else do {
       c3 \<leftarrow> (if need_to_schedule (c_sched c2) then do {
               (fired, t) \<leftarrow> process_timeouts d1 (c_timer c2);
               s \<leftarrow> sched_run (concat (map (case_option [] triggered) fired)) (c_sched c2);
               s' \<leftarrow> update (now d2 t) s;
               t' \<leftarrow> set_timeout None (ucast (effective_head_quota s')) d3 t;
               (duration, t'') \<leftarrow> schedule_timeout d4 t';
               Some (c2\<lparr>c_timer := t'', c_sched := s',
                        exec_time := (exec_time c2)(old_job := exec_time c2 old_job + duration)\<rparr>)
             } else Some c2);
       (j, c4) \<leftarrow> scheduled_job help' c3;
       Some (Some j, c4)
     }
   })"

section \<open>The contract of the operations\<close>

text \<open>The scheduler is called within its contract, which depends on the set \<open>R\<close> of its shares.\<close>

fun cpu_op_ok :: "'i set \<Rightarrow> 'i cpu_op \<Rightarrow> 'i cpu \<Rightarrow> bool" where
  "cpu_op_ok R (Schedule_job e i) c \<longleftrightarrow> op_strict R (Ready i) (c_sched c)"
| "cpu_op_ok R (Job_deactivate e i) c \<longleftrightarrow> c_id c = e \<and> op_strict R (Unready i) (c_sched c)"
| "cpu_op_ok R (Job_yield e) c \<longleftrightarrow> c_id c = e"
| "cpu_op_ok R (Job_affinity i p q) c \<longleftrightarrow> op_strict R (Insert i p q) (c_sched c)"
| "cpu_op_ok R (Job_quota i q) c \<longleftrightarrow> op_strict R (Quota i q) (c_sched c)"
| "cpu_op_ok R (Job_destruct i) c \<longleftrightarrow> op_strict R (Remove i) (c_sched c)"
| "cpu_op_ok R _ c \<longleftrightarrow> True"

fun cpu_members :: "'i cpu_op \<Rightarrow> 'i set \<Rightarrow> 'i set" where
  "cpu_members (Job_affinity i p q) R = op_members (Insert i p q) R"
| "cpu_members (Job_destruct i) R = op_members (Remove i) R"
| "cpu_members _ R = R"

fun cpu_ops_ok :: "'i set \<Rightarrow> 'i cpu_op list \<Rightarrow> 'i cpu \<Rightarrow> bool" where
  "cpu_ops_ok R [] c \<longleftrightarrow> True"
| "cpu_ops_ok R (x # xs) c \<longleftrightarrow> cpu_op_ok R x c \<and>
     (case cpu_exec x c of None \<Rightarrow> True | Some c1 \<Rightarrow> cpu_ops_ok (cpu_members x R) xs c1)"

fun sched_ops_ok :: "'i set \<Rightarrow> 'i sched_op list \<Rightarrow> 'i sched \<Rightarrow> bool" where
  "sched_ops_ok R [] s \<longleftrightarrow> True"
| "sched_ops_ok R (x # xs) s \<longleftrightarrow> op_strict R x s \<and>
     (case sched_exec x s of None \<Rightarrow> True | Some s1 \<Rightarrow> sched_ops_ok (op_members x R) xs s1)"

text \<open>
  A pass is within the contract if the exception calls are, and the calls of the callbacks of the
  timeouts that are due.
\<close>

definition cpu_pass_ok :: "'i set \<Rightarrow> ('i \<Rightarrow> 'i option) \<Rightarrow> 'i cpu_op list \<Rightarrow> ('i \<Rightarrow> 'i sched_op list) \<Rightarrow> time_t \<Rightarrow> 'i cpu \<Rightarrow> bool" where
  "cpu_pass_ok R help ops triggered d1 c \<longleftrightarrow>
     (case scheduled_job help c of None \<Rightarrow> True | Some (_, c1) \<Rightarrow>
        cpu_ops_ok R ops c1 \<and>
        (case cpu_ops ops c1 of None \<Rightarrow> True | Some c2 \<Rightarrow>
           (case process_timeouts d1 (c_timer c2) of None \<Rightarrow> True | Some (fired, _) \<Rightarrow>
              sched_ops_ok (fold cpu_members ops R) (concat (map (case_option [] triggered) fired)) (c_sched c2))))"

definition cpu_rep :: "'i set \<Rightarrow> 'i cpu \<Rightarrow> bool" where
  "cpu_rep R c \<longleftrightarrow> sched_reach op_strict R (c_sched c) \<and> (\<exists>xs. timer_rep (c_timer c) xs)"

lemma sched_exec_reach:
  assumes "sched_reach op_strict R s" "op_strict R x s"
  shows "\<exists>s'. sched_exec x s = Some s' \<and> sched_reach op_strict (op_members x R) s'"
proof -
  have "sched_inv R s" using sched_reach_strict [OF assms(1)] by blast
  then obtain s' where "sched_exec x s = Some s'" using sched_exec_ok op_strict_ok [OF assms(2)] by blast
  with sched_reach.step [OF assms this] show ?thesis by blast
qed

lemma sched_run_reach:
  "sched_reach op_strict R s \<Longrightarrow> sched_ops_ok R xs s \<Longrightarrow>
     \<exists>s'. sched_run xs s = Some s' \<and> sched_reach op_strict (fold op_members xs R) s'"
proof (induction xs arbitrary: R s)
  case (Cons x xs)
  then obtain s1 where "sched_exec x s = Some s1" "sched_reach op_strict (op_members x R) s1" using sched_exec_reach [of R s x] by auto
  with Cons.IH [of "op_members x R" s1] Cons.prems(2) show ?case by auto
qed auto

text \<open>One operation keeps the scheduler and the timer in order and does not move the clock.\<close>

lemma cpu_exec_rep:
  assumes c: "cpu_rep R c" and x: "cpu_op_ok R x c"
  shows "\<exists>c'. cpu_exec x c = Some c' \<and> cpu_rep (cpu_members x R) c' \<and> now_base (c_timer c') = now_base (c_timer c)"
proof -
  have r: "sched_reach op_strict R (c_sched c)" using c by (simp add: cpu_rep_def)
  have job: "\<exists>s. sched_exec y (c_sched c) = Some s \<and> cpu_rep (op_members y R) (c\<lparr>c_sched := s\<rparr>)" if "op_strict R y (c_sched c)" for y
    using sched_exec_reach [OF r that] c by (auto simp: cpu_rep_def)
  show ?thesis
  proof (cases x)
    case (Schedule_job e i)
    then show ?thesis using job [of "Ready i"] x by (auto simp: schedule_job_def trigger_ip_interrupt_def cpu_rep_def Let_def)
  next
    case (Job_deactivate e i)
    then show ?thesis using job [of "Unready i"] x by (auto simp: job_deactivate_def)
  next
    case (Job_yield e)
    then show ?thesis using job [of Yield] x by (auto simp: job_yield_def)
  next
    case (Job_affinity i p q)
    then show ?thesis using job [of "Insert i p q"] x by (auto simp: job_affinity_def)
  next
    case (Job_quota i q)
    then show ?thesis using job [of "Quota i q"] x by (auto simp: job_quota_def)
  next
    case (Job_destruct i)
    then show ?thesis using job [of "Remove i"] x by (auto simp: job_destruct_def)
  next
    case (Arm_timeout i t d)
    obtain xs where "timer_rep (c_timer c) xs" using c by (auto simp: cpu_rep_def)
    from set_timeout_rep [OF this refl, of "Some i" t d] Arm_timeout c show ?thesis by (auto simp: cpu_rep_def)
  next
    case Timer_irq
    then show ?thesis using job [of Timeout] by (auto simp: timer_irq_occurred_def)
  qed (use c in \<open>auto simp: cpu_rep_def ipi_received_def next_state_halt_def next_state_suspend_def\<close>)
qed

lemma cpu_ops_rep:
  "cpu_rep R c \<Longrightarrow> cpu_ops_ok R xs c \<Longrightarrow>
     \<exists>c'. cpu_ops xs c = Some c' \<and> cpu_rep (fold cpu_members xs R) c' \<and> now_base (c_timer c') = now_base (c_timer c)"
proof (induction xs arbitrary: R c)
  case (Cons x xs)
  then obtain c1 where "cpu_exec x c = Some c1" "cpu_rep (cpu_members x R) c1" "now_base (c_timer c1) = now_base (c_timer c)"
    using cpu_exec_rep [of R c x] by auto
  with Cons.IH [of "cpu_members x R" c1] Cons.prems(2) show ?case by auto
qed auto

lemma scheduled_job_rep:
  assumes c: "cpu_rep R c" and h: "\<forall>i. help i \<noteq> None"
  shows "\<exists>j c'. scheduled_job help c = Some (j, c') \<and> cpu_rep R c' \<and> c_timer c' = c_timer c \<and> c_state c' = c_state c \<and>
    (\<exists>i. sc_head (c_sched c') = Some i \<and> help i = Some j) \<and> (sc_head (c_sched c) \<noteq> None \<longrightarrow> c' = c)"
proof -
  have r: "sched_reach op_strict R (c_sched c)" using c by (simp add: cpu_rep_def)
  then obtain i s where s: "head (c_sched c) = Some (i, s)" using head_ok [of R "c_sched c"] sched_reach_strict [OF r] by blast
  then have "sched_reach op_strict R s" using sched_exec_reach [OF r, of Head] by auto
  moreover have "sc_head s = Some i" "sc_head (c_sched c) \<noteq> None \<longrightarrow> s = c_sched c"
    using s by (auto simp: head_def split: Option.bind_splits if_splits)
  moreover obtain j where "help i = Some j" using h by (meson option.exhaust)
  ultimately show ?thesis using s c by (auto simp: scheduled_job_def cpu_rep_def)
qed

section \<open>The time slice\<close>

text \<open>The part of a pass that chooses a job and programs the timer.\<close>

lemma unat_ucast_u32: "unat (ucast (q :: u32) :: time_t) = unat q"
  by transfer (simp add: take_bit_take_bit nat_take_bit_eq)

lemma program_slice:
  assumes t: "timer_rep t xs" and q: "q \<noteq> (0 :: u32)" and d: "d3 \<le> d4" "unat (now_base t) + unat d4 + 2 ^ 32 < 2 ^ 64"
  shows "\<exists>t' t''. set_timeout i (ucast q) d3 t = Some t' \<and> schedule_timeout d4 t' = Some (d4, t'') \<and> (\<exists>ys. timer_rep t'' ys) \<and>
    t_listed t'' i \<and> t_end t'' i = now d3 t + ucast q \<and> now_base t'' = now_base t + d4 \<and> last_duration t'' \<noteq> 0 \<and>
    last_duration t'' \<le> ucast q \<and> (\<forall>k. t_listed t'' k \<and> now_base t'' < t_end t'' k \<longrightarrow> now (last_duration t'') t'' \<le> t_end t'' k)"
proof -
  let ?q = "ucast q :: time_t" let ?e = "now d3 t + ?q" let ?en = "(t_end t)(i := ?e)" let ?n = "now_base t + d4"
  have uq: "unat ?q = unat q" "unat q < 2 ^ 32"
    using unat_ucast_u32 [of q] unsigned_less [of q, where 'a = nat] by simp_all
  have un: "unat ?n = unat (now_base t) + unat d4" using d(2) by (intro unat_add_no_wrap) simp
  have u3: "unat (now d3 t) = unat (now_base t) + unat d3"
    unfolding now_def using d by (intro unat_add_no_wrap) (simp add: word_le_nat_alt)
  have ue: "unat ?e = unat (now_base t) + unat d3 + unat q"
    using u3 uq d by (subst unat_add_no_wrap) (simp_all add: word_le_nat_alt)
  obtain t' where t': "set_timeout i ?q d3 t = Some t'" "t_end t' = ?en" "now_base t' = now_base t"
      "timer_rep t' (insort_key ?en i (remove1 i xs))"
    using set_timeout_rep [OF t refl, of i ?q d3] by blast
  let ?ys = "insort_key ?en i (remove1 i xs)"
  obtain k zs where k: "?ys = k # zs" by (cases ?ys) (auto simp: insort_not_Nil)
  have so: "sorted (map ?en ?ys)" "\<forall>j. t_listed t' j \<longleftrightarrow> j \<in> set ?ys" using t'(2,4) by (auto simp: timer_rep_def)
  have le: "?en k \<le> ?en j" if "j \<in> set ?ys" for j using so(1) that unfolding k by auto
  have i: "i \<in> set ?ys" by (simp add: set_insort_key)
  let ?l = "if ?en k > ?n then ?en k - ?n else 1"
  let ?t = "t'\<lparr>now_base := ?n, last_duration := ?l\<rparr>"
  have "snd (t_list t') = Some k" using timer_repD(3) [OF t'(4)] k by simp
  then have sch: "schedule_timeout d4 t' = Some (d4, ?t)" using t'(2,3) by (simp add: schedule_timeout_def Let_def)
  have "?l \<le> ?q \<and> ?l \<noteq> 0"
  proof (cases "?en k > ?n")
    case True
    have "unat (?en k - ?n) = unat (?en k) - unat ?n" using True by (intro unat_sub_le) simp
    moreover have "unat (?en k) \<le> unat ?e" "unat ?n < unat (?en k)" "unat d3 \<le> unat d4" using le [OF i] True d(1) by (auto simp: word_le_nat_alt word_less_nat_alt)
    ultimately have "unat (?en k - ?n) \<le> unat ?q" "0 < unat (?en k - ?n)" using un ue uq by linarith+
    then show ?thesis using True by (auto simp: word_le_nat_alt)
  next
    case False
    have "0 < unat q" using q by (simp add: unat_gt_0)
    then show ?thesis using False uq by (auto simp: word_le_nat_alt)
  qed
  moreover have "now ?l ?t \<le> ?en j" if j: "j \<in> set ?ys" "?n < ?en j" for j
  proof (cases "?en k > ?n")
    case True
    then show ?thesis using le [OF j(1)] by (simp add: now_def)
  next
    case False
    have "unat (?n + 1) = unat ?n + 1" using un d(2) by (subst unat_add_no_wrap) simp_all
    then show ?thesis using False j(2) by (simp add: now_def word_le_nat_alt word_less_nat_alt)
  qed
  moreover have "timer_rep ?t ?ys" using t'(4) by (simp add: timer_rep_def)
  ultimately show ?thesis using t' sch so(2) i by (intro exI [of _ t'] exI [of _ ?t]) auto
qed

lemma update_need:
  assumes "update time s = Some s'"
  shows "\<not> need_to_schedule s'"
proof -
  have r: "need_to_schedule (reset_at A v) = need_to_schedule v" for A and v :: "'a sched" by (simp add: reset_at_def)
  have c: "need_to_schedule (consumed q v) = need_to_schedule v" for q and v :: "'a sched" by (simp add: consumed_def next_round_eq r)
  have f: "need_to_schedule (head_filled h q v) = need_to_schedule v" for h q and v :: "'a sched"
    by (simp add: head_filled_def next_fill_def Let_def)
  have h: "need_to_schedule v' = need_to_schedule v" if "head_claimed h q v = Some v'" for h q and v v' :: "'a sched"
    using that by (auto simp: head_claimed_def Let_def rcl_upd_def split: if_splits Option.bind_splits)
  have ch: "need_to_schedule (choose_head v) = need_to_schedule v" for v :: "'a sched"
    using choose_head_is [of v] by (auto simp: set_head_def)
  show ?thesis using assms
    by (auto simp: update_def Let_def ch c f dest!: h split: option.splits Option.bind_splits prod.splits if_splits)
qed

lemma update_slice:
  assumes "sched_reach op_strict R s"
  shows "\<exists>s'. update time s = Some s' \<and> sched_reach op_strict R s' \<and> effective_head_quota s' \<noteq> 0 \<and> sc_head s' \<noteq> None \<and> \<not> need_to_schedule s'"
proof -
  from sched_reach_strict [OF assms] have inv: "sched_inv R s" by blast
  obtain s2 where s2: "update time s = Some (choose_head s2)" "nums_ok s2" using update_split [OF inv, of time] by blast
  moreover have "sched_reach op_strict R (choose_head s2)" using sched_exec_reach [OF assms, of "Update time"] s2(1) by simp
  ultimately show ?thesis using choose_head_slice [of s2] update_need [OF s2(1)] choose_head_frame(9) [of s2] by blast
qed

text \<open>Asking for the head does not ask for rescheduling.\<close>

lemma scheduled_job_need:
  assumes "scheduled_job help c = Some (j, c')" "\<not> need_to_schedule (c_sched c)"
  shows "\<not> need_to_schedule (c_sched c')"
  using assms by (auto simp: scheduled_job_def head_def split: Option.bind_splits if_splits dest: update_need)

text \<open>
  The timer of \<open>c'\<close> is programmed for the slice of its head: from the readings \<open>d3\<close> and \<open>d4\<close> of the device and the
  timer \<open>t0\<close> of before, the timeout of the CPU is armed for the end of the slice, the interrupt comes
  within the slice, and not after a timeout that is still ahead.
\<close>

definition slice_programmed :: "time_t \<Rightarrow> time_t \<Rightarrow> 'i option timer \<Rightarrow> 'i cpu \<Rightarrow> bool" where
  "slice_programmed d3 d4 t0 c' \<longleftrightarrow>
     (let slice = effective_head_quota (c_sched c'); t = c_timer c' in
      slice \<noteq> 0 \<and> t_listed t None \<and> t_end t None = now d3 t0 + ucast slice \<and>
      last_duration t \<noteq> 0 \<and> last_duration t \<le> ucast slice \<and> now_base t = now_base t0 + d4 \<and>
      (\<forall>k. t_listed t k \<and> now_base t < t_end t k \<longrightarrow> now (last_duration t) t \<le> t_end t k))"

text \<open>The branch of a pass that is taken when the scheduler asks for it.\<close>

lemma reschedule_spec:
  assumes c: "cpu_rep R c" and t: "process_timeouts d1 (c_timer c) = Some (fired, t)"
    and ok: "sched_ops_ok R xs (c_sched c)"
    and d: "d3 \<le> d4" "unat (now_base (c_timer c)) + unat d4 + 2 ^ 32 < 2 ^ 64"
  shows "\<exists>s s' t' t''. sched_run xs (c_sched c) = Some s \<and> update (now d2 t) s = Some s' \<and>
    set_timeout None (ucast (effective_head_quota s')) d3 t = Some t' \<and> schedule_timeout d4 t' = Some (d4, t'') \<and>
    (let c3 = c\<lparr>c_timer := t'', c_sched := s', exec_time := e\<rparr> in cpu_rep (fold op_members xs R) c3 \<and>
      sc_head s' \<noteq> None \<and> \<not> need_to_schedule s' \<and> slice_programmed d3 d4 (c_timer c) c3)"
proof -
  obtain ts where "timer_rep (c_timer c) ts" "sched_reach op_strict R (c_sched c)" using c by (auto simp: cpu_rep_def)
  then obtain ts' s where t': "timer_rep t ts'" "now_base t = now_base (c_timer c)"
      and s: "sched_run xs (c_sched c) = Some s" "sched_reach op_strict (fold op_members xs R) s"
    using timeout_loop_rep [of "c_timer c" ts "now d1 (c_timer c)"] t sched_run_reach [OF _ ok] by (auto simp: process_timeouts_def)
  obtain s' where s': "update (now d2 t) s = Some s'" "sched_reach op_strict (fold op_members xs R) s'" "effective_head_quota s' \<noteq> 0"
      "sc_head s' \<noteq> None" "\<not> need_to_schedule s'"
    using update_slice [OF s(2), of "now d2 t"] by blast
  show ?thesis using program_slice [OF t'(1) s'(3) d(1), of None] d(2) s(1) s'
    by (auto simp: t'(2) now_def slice_programmed_def cpu_rep_def Let_def)
qed

text \<open>
  A CPU starts in order: the idle thread is inserted with quota 0, which leaves the lists of the
  scheduler untouched. The two quotas must not vanish when they are cut to 32 bits.
\<close>

lemma cpu_construct_rep:
  assumes "cpu_construct n idl shs ticks_to_us us_to_ticks max_value q f = Some c" "\<forall>i. \<not> sh_ready (shs i)"
    "(ucast (us_to_ticks q) :: u32) \<noteq> 0" "(ucast (us_to_ticks f) :: u32) \<noteq> 0"
  shows "cpu_rep {} c \<and> c_state c = RUN \<and> now_base (c_timer c) = 0"
proof -
  let ?s = "\<lambda>sh. sched_init idl sh (ucast (us_to_ticks q)) (ucast (us_to_ticks f))"
  let ?shs = "shs(idl := cpu_share prio_min 0)"
  have "sched_insert idl (share_upd idl (\<lambda>_. cpu_share prio_min 0) (?s shs)) = Some (?s ?shs)"
    by (simp add: sched_insert_def share_upd_def sched_init_def set_head_def cpu_share_def)
  moreover have "sched_reach op_strict {} (?s ?shs)" using assms(2,3,4) by (intro sched_reach.init) simp_all
  ultimately show ?thesis using assms(1)
    by (auto simp: cpu_construct_def cpu_rep_def timer_init_def timer_rep_def list_rep_def Let_def split: if_splits Option.bind_splits
        intro!: exI [of _ "[]"])
qed

section \<open>Properties\<close>

text \<open>
  \<^bold>\<open>C8.\<close> A pass of \<^verbatim>\<open>Cpu::schedule\<close> within the contract of the scheduler, with device readings
  that do not go back and a clock that does not wrap, succeeds and leaves scheduler and timer in order.
  A CPU that is to halt or to be suspended gets the halt job. Otherwise no request to reschedule is left
  and the job returned is the one that runs on behalf of the head. If rescheduling was needed, the head
  has a slice that is not empty, the timeout of the CPU is armed for its end, the timer is programmed to
  interrupt after a time that is neither zero nor more than the slice, and not after any timeout that
  is still ahead, and the time since the last pass is added to the execution time of the job that ran before.
\<close>

theorem cpu_pass_bounded:
  assumes c: "cpu_rep R c" and h: "\<forall>i. help i \<noteq> None" "\<forall>i. help' i \<noteq> None"
    and ok: "cpu_pass_ok R help ops triggered d1 c"
    and d: "d3 \<le> d4" "unat (now_base (c_timer c)) + unat d4 + 2 ^ 32 < 2 ^ 64"
  shows "\<exists>old_job c1 c2 r c'. scheduled_job help c = Some (old_job, c1) \<and> cpu_ops ops c1 = Some c2 \<and>
    cpu_schedule help help' ops triggered (d1, d2, d3, d4) c = Some (r, c') \<and> (\<exists>R'. cpu_rep R' c') \<and>
    (c_state c2 \<noteq> RUN \<longrightarrow> r = None \<and> c' = c2) \<and>
    (c_state c2 = RUN \<longrightarrow> \<not> need_to_schedule (c_sched c') \<and> (\<exists>i. sc_head (c_sched c') = Some i \<and> r = help' i \<and> r \<noteq> None)) \<and>
    (c_state c2 = RUN \<and> need_to_schedule (c_sched c2) \<longrightarrow>
      slice_programmed d3 d4 (c_timer c) c' \<and> exec_time c' = (exec_time c2)(old_job := exec_time c2 old_job + d4))"
proof -
  obtain old c1 where c1: "scheduled_job help c = Some (old, c1)" "cpu_rep R c1" "c_timer c1 = c_timer c"
    using scheduled_job_rep [OF c h(1)] by blast
  then have ok1: "cpu_ops_ok R ops c1" using ok by (simp add: cpu_pass_ok_def)
  let ?R = "fold cpu_members ops R"
  obtain c2 where c2: "cpu_ops ops c1 = Some c2" "cpu_rep ?R c2" "now_base (c_timer c2) = now_base (c_timer c)"
    using cpu_ops_rep [OF c1(2) ok1] c1(3) by auto
  consider (halt) "c_state c2 \<noteq> RUN" | (keep) "c_state c2 = RUN" "\<not> need_to_schedule (c_sched c2)"
    | (pick) "c_state c2 = RUN" "need_to_schedule (c_sched c2)" by blast
  then show ?thesis
  proof cases
    case halt
    then have "cpu_schedule help help' ops triggered (d1, d2, d3, d4) c = Some (None, c2)"
      using c1(1) c2(1) by (cases "c_state c2") (simp_all add: cpu_schedule_def)
    with halt c1 c2 show ?thesis by blast
  next
    case keep
    obtain j c4 where "scheduled_job help' c2 = Some (j, c4)" "cpu_rep ?R c4" "\<exists>i. sc_head (c_sched c4) = Some i \<and> help' i = Some j"
      using scheduled_job_rep [OF c2(2) h(2)] by blast
    with keep c1 c2 scheduled_job_need show ?thesis by (fastforce simp: cpu_schedule_def)
  next
    case pick
    obtain ts where "timer_rep (c_timer c2) ts" using c2(2) by (auto simp: cpu_rep_def)
    then obtain fired t where t: "process_timeouts d1 (c_timer c2) = Some (fired, t)"
      using timeout_loop_rep unfolding process_timeouts_def by blast
    let ?xs = "concat (map (case_option [] triggered) fired)"
    have xs: "sched_ops_ok ?R ?xs (c_sched c2)" using ok c1(1) c2(1) t by (simp add: cpu_pass_ok_def)
    let ?e = "(exec_time c2)(old := exec_time c2 old + d4)"
    from reschedule_spec [OF c2(2) t xs d(1), of d2 ?e] d(2) obtain s s' t' t'' c3 where
      run: "sched_run ?xs (c_sched c2) = Some s" "update (now d2 t) s = Some s'"
        "set_timeout None (ucast (effective_head_quota s')) d3 t = Some t'" "schedule_timeout d4 t' = Some (d4, t'')" and
      c3: "c3 = c2\<lparr>c_timer := t'', c_sched := s', exec_time := ?e\<rparr>" "cpu_rep (fold op_members ?xs ?R) c3"
        "sc_head s' \<noteq> None" "\<not> need_to_schedule s'" "slice_programmed d3 d4 (c_timer c2) c3"
      unfolding c2(3) Let_def by blast
    from scheduled_job_rep [OF c3(2) h(2)] c3(1,3) obtain j i where
      j: "scheduled_job help' c3 = Some (j, c3)" "sc_head s' = Some i" "help' i = Some j" by auto
    moreover have "cpu_schedule help help' ops triggered (d1, d2, d3, d4) c = Some (Some j, c3)"
      using c1(1) c2(1) pick t run j(1) c3(1) by (simp add: cpu_schedule_def)
    moreover have "slice_programmed d3 d4 (c_timer c) c3" using c3(5) c2(3) by (simp add: slice_programmed_def now_def)
    ultimately show ?thesis using c1(1) c2(1) pick c3
      by (intro exI [of _ old] exI [of _ c1] exI [of _ c2] exI [of _ "Some j"] exI [of _ c3]) auto
  qed
qed

text \<open>
  A CPU that has just been constructed: the exception inserts thread 1, makes it ready and arms a timeout
  for it, and the pass lets the thread run.
\<close>

definition demo_cpu :: "nat cpu option" where
  "demo_cpu = cpu_construct 0 0 (\<lambda>_. cpu_share 0 0) id id (2 ^ 32 - 1) 1000000 10000"

lemma demo_cpu_some: "\<exists>c. demo_cpu = Some c \<and> cpu_rep {} c \<and> now_base (c_timer c) = 0 \<and> c_state c = RUN \<and>
   sc_head (c_sched c) = Some 0 \<and> need_to_schedule (c_sched c) \<and> idle (c_sched c) = 0 \<and> exec_time c = (\<lambda>_. 0) \<and> c_id c = 0"
proof -
  have "demo_cpu \<noteq> None" by (simp add: demo_cpu_def cpu_construct_def timer_init_def sched_insert_def share_upd_def cpu_share_def sched_init_def)
  then obtain c where c: "demo_cpu = Some c" by blast
  have "cpu_rep {} c \<and> c_state c = RUN \<and> now_base (c_timer c) = 0"
    using c unfolding demo_cpu_def by (rule cpu_construct_rep) simp_all
  then show ?thesis using c by (auto simp: demo_cpu_def cpu_construct_def timer_init_def sched_insert_def share_upd_def cpu_share_def
    sched_init_def set_head_def Let_def)
qed

lemma callbacks_ok: "sched_ops_ok R (concat (map (case_option [] (\<lambda>_. [Timeout])) fired)) s"
  by (induction fired arbitrary: s) (auto split: option.splits)

theorem cpu_pass_bounded_witness:
  "\<exists>c r c'. demo_cpu = Some c \<and>
    cpu_schedule Some Some [Job_affinity 1 0 0, Schedule_job 0 1, Arm_timeout 1 2 0] (\<lambda>_. [Timeout]) (5, 6, 7, 8) c = Some (r, c') \<and>
    r \<noteq> None \<and> \<not> need_to_schedule (c_sched c') \<and> slice_programmed 7 8 (c_timer c) c' \<and> exec_time c' 0 = 8"
proof -
  let ?ops = "[Job_affinity 1 0 0, Schedule_job 0 1, Arm_timeout 1 2 0] :: nat cpu_op list"
  obtain c where c: "demo_cpu = Some c" "cpu_rep {} c" "now_base (c_timer c) = 0" "c_state c = RUN" "sc_head (c_sched c) = Some 0"
    "need_to_schedule (c_sched c)" "idle (c_sched c) = 0" "exec_time c = (\<lambda>_. 0)" "c_id c = 0"
    using demo_cpu_some by blast
  have s: "scheduled_job Some c = Some (0, c)" using c(5) by (simp add: scheduled_job_def head_def)
  have ops: "cpu_ops_ok {} ?ops c"
    using c(7) by (auto simp: job_affinity_def cpu_share_def share_upd_def sched_insert_def split: option.splits)
  then have "cpu_pass_ok {} Some ?ops (\<lambda>_. [Timeout]) 5 c"
    using s by (auto simp: cpu_pass_ok_def callbacks_ok simp del: cpu_ops.simps cpu_ops_ok.simps fold_simps split: option.splits)
  from cpu_pass_bounded [OF c(2) _ _ this, of Some 7 8 6] c(3) obtain c2 r c' where
    "cpu_ops ?ops c = Some c2" "cpu_schedule Some Some ?ops (\<lambda>_. [Timeout]) (5, 6, 7, 8) c = Some (r, c')"
    "c_state c2 = RUN \<longrightarrow> \<not> need_to_schedule (c_sched c') \<and> r \<noteq> None"
    "c_state c2 = RUN \<and> need_to_schedule (c_sched c2) \<longrightarrow> slice_programmed 7 8 (c_timer c) c' \<and> exec_time c' = (exec_time c2)(0 := exec_time c2 0 + 8)"
    using s by auto
  moreover from this(1) have "c_state c2 = RUN" "need_to_schedule (c_sched c2)" "exec_time c2 = (\<lambda>_. 0)"
    using c by (auto simp: schedule_job_def job_affinity_def ready_def sched_insert_def share_upd_def cpu_share_def Let_def rcl_upd_def split: Option.bind_splits if_splits)
  ultimately show ?thesis using c(1) by auto
qed

end
