(* ===== verification/Bit_Array.thy ===== *)
theory Bit_Array
  imports Prelude
begin

text \<open>
  \<^verbatim>\<open>base/include/util/bit_array.h\<close>: an array of bits kept in 64-bit words. Every operation
  returns the words as they are when it ends, also when it ends with an exception. A word access
  outside the backing store, which the source leaves undefined, is the error \<open>Out_of_array\<close>; the
  lemmas show that it does not occur. The locale \<open>bit_store\<close> is the contract on which the bit
  allocator rests.
\<close>

section \<open>Operations\<close>

datatype bit_error =
  Invalid_bit_count | Invalid_index_access | Invalid_clear | Invalid_set | Out_of_array

record bit_array =
  bit_cnt :: u32
  ba_words :: "addr_t list"

definition word_cnt :: "bit_array \<Rightarrow> u32" where
  "word_cnt a = bit_cnt a div 64"

definition word_of :: "addr_t \<Rightarrow> addr_t" where
  "word_of index = index div 64"

definition check_range :: "bit_array \<Rightarrow> addr_t \<Rightarrow> addr_t \<Rightarrow> bool" where
  "check_range a index width \<longleftrightarrow>
     (let total = ucast (word_cnt a * 64) :: addr_t
      in \<not> (index \<ge> total \<or> width > total \<or> total - width < index))"

definition mask_of :: "addr_t \<Rightarrow> addr_t \<Rightarrow> addr_t \<times> addr_t" where
  "mask_of index width =
     (let shift = index - word_of index * 64;
          rest = (if width + shift > 64 then width + shift - 64 else 0)
      in (if width \<ge> 64 then push_bit (unat shift) all_ones
          else push_bit (unat shift) (push_bit (unat width) 1 - 1), rest))"

lemma shift_eq: "index - word_of index * 64 = index mod 64"
  by (simp add: word_of_def minus_div_mult_eq_mod)

lemma rest_decreases:
  assumes "mask_of index width = (mk, rest)" "rest \<noteq> 0"
  shows "unat rest = unat width + unat (index mod 64) - 64"
    "64 < unat width + unat (index mod 64)" "unat rest < unat width"
proof -
  let ?s = "index mod 64"
  have s: "unat ?s < 64"
    by (simp add: unat_mod)
  from assms have g: "width + ?s > 64" and r: "rest = width + ?s - 64"
    by (auto simp: mask_of_def Let_def shift_eq split: if_splits)
  have nw: "unat (width + ?s) = unat width + unat ?s"
  proof (rule ccontr)
    assume "unat (width + ?s) \<noteq> unat width + unat ?s"
    then have "2 ^ LENGTH(64) \<le> unat ?s + unat width"
      using unat_add_no_wrap [of width ?s] by linarith
    then have "?s + width < ?s" by (simp only: wrap_iff)
    then have "unat (width + ?s) < unat ?s" by (simp only: unat_less_iff add.commute)
    with s g show False by (simp only: word_nat) simp
  qed
  with g have "64 < unat width + unat ?s" by (simp add: word_nat)
  moreover from r g nw have "unat rest = unat width + unat ?s - 64"
    by (simp add: unat_sub)
  ultimately show "unat rest = unat width + unat ?s - 64" "64 < unat width + unat ?s"
    "unat rest < unat width" using s by auto
qed

function set_loop :: "addr_t \<Rightarrow> addr_t \<Rightarrow> bool \<Rightarrow> addr_t list \<Rightarrow> bit_error option \<times> addr_t list" where
  "set_loop index width free ws =
     (let w = unat (word_of index); (mask, rest) = mask_of index width in
      if w \<ge> length ws then (Some Out_of_array, ws)
      else if free \<and> ws ! w AND mask \<noteq> mask then (Some Invalid_clear, ws)
      else if \<not> free \<and> ws ! w AND mask \<noteq> 0 then (Some Invalid_set, ws)
      else
        let ws' = ws[w := (if free then ws ! w AND NOT mask else ws ! w OR mask)]
        in if rest \<noteq> 0 then set_loop ((word_of index + 1) * 64) rest free ws' else (None, ws'))"
  by pat_completeness auto
termination
  by (relation "measure (\<lambda>(_, width, _, _). unat width)") (auto simp: rest_decreases(3) [OF sym])

definition ba_set_to :: "addr_t \<Rightarrow> addr_t \<Rightarrow> bool \<Rightarrow> bit_array \<Rightarrow> bit_error option \<times> bit_array" where
  "ba_set_to index width free a =
     (if \<not> check_range a index width then (Some Invalid_index_access, a)
      else case set_loop index width free (ba_words a) of (e, ws) \<Rightarrow> (e, a\<lparr>ba_words := ws\<rparr>))"

definition ba_init :: "u32 \<Rightarrow> bit_error + bit_array" where
  "ba_init bits =
     (if bits = 0 \<or> bits mod 64 \<noteq> 0 then Inl Invalid_bit_count
      else Inr \<lparr>bit_cnt = bits, ba_words = replicate (unat (bits div 64)) 0\<rparr>)"

function get_loop :: "addr_t \<Rightarrow> addr_t \<Rightarrow> addr_t list \<Rightarrow> bit_error + bool" where
  "get_loop index width ws =
     (let w = unat (word_of index); (mask, rest) = mask_of index width in
      if w \<ge> length ws then Inl Out_of_array
      else
        let used = (ws ! w AND mask \<noteq> 0)
        in if \<not> used \<and> rest \<noteq> 0 then get_loop ((word_of index + 1) * 64) rest ws else Inr used)"
  by pat_completeness auto
termination
  by (relation "measure (\<lambda>(_, width, _). unat width)") (auto simp: rest_decreases(3) [OF sym])

definition ba_get :: "addr_t \<Rightarrow> addr_t \<Rightarrow> bit_array \<Rightarrow> bit_error + bool" where
  "ba_get index width a =
     (if \<not> check_range a index width then Inl Invalid_index_access
      else get_loop index width (ba_words a))"

definition ba_set :: "addr_t \<Rightarrow> addr_t \<Rightarrow> bit_array \<Rightarrow> bit_error option \<times> bit_array" where
  "ba_set index width = ba_set_to index width False"

definition ba_clear :: "addr_t \<Rightarrow> addr_t \<Rightarrow> bit_array \<Rightarrow> bit_error option \<times> bit_array" where
  "ba_clear index width = ba_set_to index width True"

declare set_loop.simps [simp del] get_loop.simps [simp del]

section \<open>The bits of the array\<close>

definition bit_at :: "addr_t list \<Rightarrow> nat \<Rightarrow> bool" where
  "bit_at ws i \<longleftrightarrow> i < 64 * length ws \<and> bit (ws ! (i div 64)) (i mod 64)"

definition ba_ok :: "bit_array \<Rightarrow> bool" where
  "ba_ok a \<longleftrightarrow> bit_cnt a \<noteq> 0 \<and> bit_cnt a mod 64 = 0 \<and> length (ba_words a) = unat (bit_cnt a) div 64"

lemma mask_bit:
  assumes "mask_of index width = (mk, rest)"
  shows "bit mk j \<longleftrightarrow> j < 64 \<and> unat (index mod 64) \<le> j \<and> j - unat (index mod 64) < unat width"
proof -
  have "push_bit (unat width) 1 - (1 :: 64 word) = mask (unat width)"
    by (simp add: mask_eq_exp_minus_1 push_bit_of_1)
  with assms show ?thesis
    by (auto simp: mask_of_def Let_def shift_eq bit_push_bit_iff bit_mask_iff bit_not_iff
        word_nat split: if_splits)
qed

lemma mask_rest0:
  assumes "mask_of index width = (mk, 0)" "unat width + unat (index mod 64) < 2 ^ 64"
  shows "unat width + unat (index mod 64) \<le> 64"
proof -
  from assms(1) have "\<not> width + index mod 64 > 64"
    by (auto simp: mask_of_def Let_def shift_eq split: if_splits)
  moreover have "unat (width + index mod 64) = unat width + unat (index mod 64)"
    using assms(2) by (intro unat_add_no_wrap) simp
  ultimately show ?thesis by (simp add: word_nat)
qed

text \<open>The positions of a range that lie in the word of its first bit, and those behind it.\<close>

definition range_of :: "addr_t \<Rightarrow> addr_t \<Rightarrow> nat set" where
  "range_of index width = {unat index ..< unat index + unat width}"

lemma unat_next_word:
  assumes "unat index + 64 < 2 ^ 64"
  shows "unat ((word_of index + 1) * 64) = (unat index div 64 + 1) * 64"
proof -
  have "(unat index div 64 + 1) * 64 < 2 ^ 64" 
    using assms div_times_less_eq_dividend [of "unat index" 64] by (simp add: algebra_simps)
  moreover have "unat (word_of index + 1) = unat index div 64 + 1"
    using assms by (subst unat_add_no_wrap) (simp_all add: word_of_def unat_div)
  ultimately show ?thesis by (subst unat_mult_lem [THEN iffD1]) simp_all
qed

lemma bit_at_upd:
  "w < length ws \<Longrightarrow> bit_at (ws[w := x]) i = (if i div 64 = w then bit x (i mod 64) else bit_at ws i)"
  by (auto simp: bit_at_def nth_list_update)

definition good_range :: "addr_t \<Rightarrow> addr_t \<Rightarrow> addr_t list \<Rightarrow> bool" where
  "good_range index width ws \<longleftrightarrow> unat index < 64 * length ws \<and>
     unat index + unat width \<le> 64 * length ws \<and> 64 * length ws < 2 ^ 63"

lemma good_range_next:
  assumes g: "good_range index width ws" and m: "mask_of index width = (mk, rest)" "rest \<noteq> 0"
  shows "good_range ((word_of index + 1) * 64) rest ws"
    "range_of index width = {i \<in> range_of index width. i div 64 = unat index div 64} \<union>
       range_of ((word_of index + 1) * 64) rest"
    "i \<in> range_of ((word_of index + 1) * 64) rest \<Longrightarrow> i div 64 \<noteq> unat index div 64"
proof -
  let ?n = "(word_of index + 1) * 64"
  have n: "unat ?n = (unat index div 64 + 1) * 64"
    using g by (intro unat_next_word) (simp add: good_range_def)
  have s: "unat (index mod 64) = unat index mod 64" by (simp add: unat_mod)
  note r = rest_decreases(1,2) [OF m, unfolded s]
  have e: "unat ?n + unat rest = unat index + unat width"
    unfolding n r(1) using r(2) by (simp add: algebra_simps)
  have d: "unat index < unat ?n" "unat ?n \<le> unat index + 64"
    unfolding n by presburger+
  have "0 < unat rest" using m(2) by (simp add: unat_gt_0)
  with g e show "good_range ?n rest ws" unfolding good_range_def by linarith
  show "i \<in> range_of ?n rest \<Longrightarrow> i div 64 \<noteq> unat index div 64"
    unfolding range_of_def n by auto
  show "range_of index width = {i \<in> range_of index width. i div 64 = unat index div 64} \<union>
       range_of ?n rest"
    unfolding range_of_def e using d unfolding n by auto
qed

lemma same_word:
  fixes x :: nat
  assumes "w + x mod 64 \<le> 64" "x \<le> i" "i < x + w"
  shows "i div 64 = x div 64"
proof -
  define q r where q: "q = x div 64" "r = x mod 64"
  have x: "x = q * 64 + r" by (simp add: q)
  have "q * 64 \<le> i" "i < q * 64 + 64" using x assms(2,3) assms(1) [folded q(2)] by linarith+
  then have "i div 64 = q" by (intro div_nat_eqI) (simp_all add: mult.commute)
  then show ?thesis by (simp add: q)
qed

lemma good_range_last:
  assumes g: "good_range index width ws" and m: "mask_of index width = (mk, 0)"
  shows "range_of index width = {i \<in> range_of index width. i div 64 = unat index div 64}"
proof -
  have s: "unat (index mod 64) = unat index mod 64" by (simp add: unat_mod)
  have "(2 :: nat) ^ 63 < 2 ^ 64" by simp
  then have "unat width + unat index mod 64 < 2 ^ 64"
    using g mod_less_eq_dividend [of "unat index" 64] unfolding good_range_def by linarith
  then have "unat width + unat index mod 64 \<le> 64" using mask_rest0 [OF m] unfolding s by blast
  then have "i div 64 = unat index div 64" if "i \<in> range_of index width" for i
    using same_word [of "unat width" "unat index" i] that by (simp add: range_of_def)
  then show ?thesis by blast
qed

text \<open>The mask of a range selects its bits in the word of the first bit.\<close>

lemma mask_range:
  assumes "mask_of index width = (mk, rest)" and "i div 64 = unat index div 64"
  shows "bit mk (i mod 64) \<longleftrightarrow> i \<in> range_of index width"
proof -
  have s: "unat (index mod 64) = unat index mod 64" by (simp add: unat_mod)
  have "i = unat index div 64 * 64 + i mod 64" "unat index = unat index div 64 * 64 + unat index mod 64"
    using assms(2) by (metis div_mult_mod_eq)+
  then have "i \<in> range_of index width \<longleftrightarrow>
      unat index mod 64 \<le> i mod 64 \<and> i mod 64 - unat index mod 64 < unat width"
    unfolding range_of_def by (simp only: atLeastLessThan_iff) linarith
  then show ?thesis by (simp add: mask_bit [OF assms(1)] s)
qed

lemma word_bits_iff:
  assumes "\<And>j. j < 64 \<Longrightarrow> bit a j = bit b j"
  shows "a = (b :: 64 word)"
  by (rule bit_word_eqI) (use assms in simp)

text \<open>One word of a range: the check and the update of \<^verbatim>\<open>_set\<close> in terms of bits.\<close>

definition part_of :: "addr_t \<Rightarrow> addr_t \<Rightarrow> nat set" where
  "part_of index width = {i \<in> range_of index width. i div 64 = unat index div 64}"

lemma mask_checks:
  assumes m: "mask_of index width = (mk, rest)" and w: "unat index div 64 < length ws"
  shows "ws ! (unat index div 64) AND mk = mk \<longleftrightarrow> (\<forall>i \<in> part_of index width. bit_at ws i)"
    and "ws ! (unat index div 64) AND mk = 0 \<longleftrightarrow> (\<forall>i \<in> part_of index width. \<not> bit_at ws i)"
proof -
  let ?w = "unat index div 64" let ?x = "ws ! ?w"
  have at: "bit_at ws i = bit ?x (i mod 64)" if "i div 64 = ?w" for i
    using that w by (auto simp: bit_at_def)
  have j: "j < 64 \<Longrightarrow> (?w * 64 + j) div 64 = ?w \<and> (?w * 64 + j) mod 64 = j" for j by simp
  have al: "(\<forall>i \<in> part_of index width. P (i mod 64)) \<longleftrightarrow> (\<forall>j < 64. bit mk j \<longrightarrow> P j)" for P
  proof
    assume l: "\<forall>i \<in> part_of index width. P (i mod 64)"
    show "\<forall>j < 64. bit mk j \<longrightarrow> P j"
    proof (intro allI impI)
      fix j :: nat
      assume "j < 64" "bit mk j"
      with j [of j] have "?w * 64 + j \<in> part_of index width"
        using mask_range [OF m, of "?w * 64 + j"] by (simp add: part_of_def)
      with l j [of j] \<open>j < 64\<close> show "P j" by fastforce
    qed
  next
    assume "\<forall>j < 64. bit mk j \<longrightarrow> P j"
    then show "\<forall>i \<in> part_of index width. P (i mod 64)"
      using mask_range [OF m] by (auto simp: part_of_def)
  qed
  have "?x AND mk = mk \<longleftrightarrow> (\<forall>j < 64. bit mk j \<longrightarrow> bit ?x j)"
    by (auto simp: bit_eq_iff bit_and_iff possible_bit_word)
  with al [of "bit ?x"] at show "?x AND mk = mk \<longleftrightarrow> (\<forall>i \<in> part_of index width. bit_at ws i)"
    by (auto simp: part_of_def)
  have "?x AND mk = 0 \<longleftrightarrow> (\<forall>j < 64. bit mk j \<longrightarrow> \<not> bit ?x j)"
    by (auto simp: bit_eq_iff bit_and_iff possible_bit_word)
  with al [of "\<lambda>j. \<not> bit ?x j"] at
  show "?x AND mk = 0 \<longleftrightarrow> (\<forall>i \<in> part_of index width. \<not> bit_at ws i)"
    by (auto simp: part_of_def)
qed

lemma mask_update:
  assumes m: "mask_of index width = (mk, rest)" and w: "unat index div 64 < length ws"
  defines "x \<equiv> ws ! (unat index div 64)"
  shows "bit_at (ws[unat index div 64 := if free then x AND NOT mk else x OR mk]) i =
    (if i \<in> part_of index width then \<not> free else bit_at ws i)"
  using w mask_range [OF m, of i]
  by (cases "i div 64 = unat index div 64")
    (auto simp: bit_at_upd [OF w] part_of_def x_def bit_and_iff bit_or_iff bit_not_iff bit_at_def)

lemma set_loop_length [simp]: "length (snd (set_loop index width free ws)) = length ws"
proof (induction index width free ws rule: set_loop.induct)
  case (1 index width free ws)
  obtain mk rest where m: "mask_of index width = (mk, rest)" by (cases "mask_of index width")
  show ?case
    using 1 [OF refl m [symmetric] refl, of _] m by (subst set_loop.simps) (auto simp: Let_def)
qed

text \<open>
  \<^verbatim>\<open>_set\<close> succeeds exactly if all bits of the range have the expected value, and then flips
  exactly them; on a conflict it reports the error of its mode, and the bits outside the range are
  untouched.
\<close>

lemma set_loop_spec:
  assumes "good_range index width ws"
  shows "if \<forall>i \<in> range_of index width. bit_at ws i = free
    then \<exists>ws'. set_loop index width free ws = (None, ws') \<and>
      (\<forall>i. bit_at ws' i = (if i \<in> range_of index width then \<not> free else bit_at ws i))
    else \<exists>ws'. set_loop index width free ws = (Some (if free then Invalid_clear else Invalid_set), ws') \<and>
      (\<forall>i. i \<notin> range_of index width \<longrightarrow> bit_at ws' i = bit_at ws i)"
  using assms
proof (induction index width free ws rule: set_loop.induct)
  case (1 index width free ws)
  obtain mk rest where m: "mask_of index width = (mk, rest)" by (cases "mask_of index width")
  let ?w = "unat index div 64" let ?x = "ws ! ?w"
  have wi: "unat (word_of index) = ?w" by (simp add: word_of_def unat_div)
  have w: "?w < length ws" using "1.prems" by (auto simp: good_range_def)
  define ok where "ok \<longleftrightarrow> (\<forall>i \<in> part_of index width. bit_at ws i = free)"
  have ok: "ok \<longleftrightarrow> (if free then ?x AND mk = mk else ?x AND mk = 0)"
    unfolding ok_def using mask_checks [OF m w] by auto
  define ws1 where "ws1 = ws[?w := if free then ?x AND NOT mk else ?x OR mk]"
  have b1: "bit_at ws1 i = (if i \<in> part_of index width then \<not> free else bit_at ws i)" for i
    unfolding ws1_def by (rule mask_update [OF m w])
  have part: "part_of index width \<subseteq> range_of index width" by (auto simp: part_of_def)
  have step: "set_loop index width free ws =
      (if \<not> ok then (Some (if free then Invalid_clear else Invalid_set), ws)
       else if rest \<noteq> 0 then set_loop ((word_of index + 1) * 64) rest free ws1 else (None, ws1))"
    using w by (subst set_loop.simps) (simp add: m wi Let_def ok ws1_def not_le)
  show ?case
  proof (cases ok)
    case False
    with step part show ?thesis by (auto simp: ok_def)
  next
    case True
    show ?thesis
    proof (cases "rest = 0")
      case True
      with \<open>ok\<close> have "set_loop index width free ws = (None, ws1)" by (simp add: step)
      moreover have "range_of index width = part_of index width"
        using good_range_last [OF "1.prems"] m True by (simp add: part_of_def)
      ultimately show ?thesis using b1 \<open>ok\<close> by (simp add: ok_def)
    next
      case False
      let ?n = "(word_of index + 1) * 64"
      note nx = good_range_next [OF "1.prems" m False]
      have gr: "good_range ?n rest ws1" using nx(1) by (simp add: good_range_def ws1_def)
      have r: "range_of index width = part_of index width \<union> range_of ?n rest"
        using nx(2) by (simp add: part_of_def)
      have dj: "\<And>i. i \<in> range_of ?n rest \<Longrightarrow> i \<notin> part_of index width"
        using nx(3) by (auto simp: part_of_def)
      have e: "set_loop index width free ws = set_loop ?n rest free ws1"
        using False \<open>ok\<close> by (simp add: step)
      have same: "(\<forall>i \<in> range_of ?n rest. bit_at ws1 i = free) \<longleftrightarrow>
          (\<forall>i \<in> range_of index width. bit_at ws i = free)"
        using dj \<open>ok\<close> unfolding r ok_def by (auto simp: b1)
      have "if \<forall>i \<in> range_of ?n rest. bit_at ws1 i = free
        then \<exists>ws'. set_loop ?n rest free ws1 = (None, ws') \<and>
          (\<forall>i. bit_at ws' i = (if i \<in> range_of ?n rest then \<not> free else bit_at ws1 i))
        else \<exists>ws'. set_loop ?n rest free ws1 = (Some (if free then Invalid_clear else Invalid_set), ws') \<and>
          (\<forall>i. i \<notin> range_of ?n rest \<longrightarrow> bit_at ws' i = bit_at ws1 i)"
        using False \<open>ok\<close> gr w by (intro "1.IH") (auto simp: m wi ok ws1_def not_le split: if_splits)
      then show ?thesis unfolding same e r using b1 dj by (auto split: if_splits)
    qed
  qed
qed

lemma get_loop_spec:
  assumes "good_range index width ws"
  shows "get_loop index width ws = Inr (\<exists>i \<in> range_of index width. bit_at ws i)"
  using assms
proof (induction index width ws rule: get_loop.induct)
  case (1 index width ws)
  obtain mk rest where m: "mask_of index width = (mk, rest)" by (cases "mask_of index width")
  let ?w = "unat index div 64" let ?n = "(word_of index + 1) * 64"
  have wi: "unat (word_of index) = ?w" by (simp add: word_of_def unat_div)
  have w: "?w < length ws" using "1.prems" by (auto simp: good_range_def)
  have u: "ws ! ?w AND mk \<noteq> 0 \<longleftrightarrow> (\<exists>i \<in> part_of index width. bit_at ws i)"
    using mask_checks(2) [OF m w] by blast
  have part: "part_of index width \<subseteq> range_of index width" by (auto simp: part_of_def)
  show ?case
  proof (cases "ws ! ?w AND mk \<noteq> 0 \<or> rest = 0")
    case True
    then have "get_loop index width ws = Inr (ws ! ?w AND mk \<noteq> 0)"
      using w by (subst get_loop.simps) (auto simp: m wi Let_def not_le)
    with True part u good_range_last [OF "1.prems"] m show ?thesis by (auto simp: part_of_def)
  next
    case False
    then have "get_loop index width ws = get_loop ?n rest ws"
      using w by (subst get_loop.simps) (simp add: m wi Let_def not_le)
    also have "\<dots> = Inr (\<exists>i \<in> range_of ?n rest. bit_at ws i)"
      using False w m wi good_range_next(1) [OF "1.prems" m] by (intro "1.IH") auto
    finally show ?thesis
      using good_range_next(2) [OF "1.prems" m] False u unfolding part_of_def by auto
  qed
qed

section \<open>The contract of a bit store\<close>

definition ba_size :: "bit_array \<Rightarrow> nat" where
  "ba_size a = unat (bit_cnt a)"

definition ba_bit :: "bit_array \<Rightarrow> nat \<Rightarrow> bool" where
  "ba_bit a i = bit_at (ba_words a) i"

lemma ba_total:
  assumes "ba_ok a"
  shows "unat (ucast (word_cnt a * 64) :: addr_t) = ba_size a" "64 * length (ba_words a) = ba_size a"
    "ba_size a < 2 ^ 32"
proof -
  have "unat (bit_cnt a mod 64) = unat (bit_cnt a) mod 64" by (simp add: unat_mod)
  with assms have d: "unat (bit_cnt a) mod 64 = 0" by (simp add: ba_ok_def)
  then have e: "unat (bit_cnt a) div 64 * 64 = unat (bit_cnt a)" by presburger
  show b: "ba_size a < 2 ^ 32" unfolding ba_size_def by (rule order.strict_trans2 [OF unsigned_less]) simp
  have "unat (word_cnt a * 64) = unat (bit_cnt a)"
  proof -
    have "unat (word_cnt a) * unat (64 :: u32) = unat (bit_cnt a)"
      using e by (simp add: word_cnt_def unat_div)
    with b show ?thesis by (subst unat_mult_lem [THEN iffD1]) (simp_all add: ba_size_def)
  qed
  then show "unat (ucast (word_cnt a * 64) :: addr_t) = ba_size a"
    using less_le_trans [OF b, of "2 ^ 64"]
    by (simp add: ba_size_def unsigned_ucast_eq take_bit_nat_eq_self)
  show "64 * length (ba_words a) = ba_size a"
    using assms e by (simp add: ba_ok_def ba_size_def mult.commute)
qed

lemma check_range_iff:
  assumes "ba_ok a"
  shows "check_range a index width \<longleftrightarrow>
    unat index < ba_size a \<and> unat index + unat width \<le> ba_size a"
  unfolding check_range_def Let_def
  using ba_total(1) [OF assms] by (auto simp: word_nat unat_sub_le not_le)

lemma check_good: "ba_ok a \<Longrightarrow> check_range a index width \<Longrightarrow> good_range index width (ba_words a)"
  using ba_total [of a] by (simp add: check_range_iff good_range_def)

locale bit_store =
  fixes ok :: "'a \<Rightarrow> bool" and size_of :: "'a \<Rightarrow> nat" and bit_of :: "'a \<Rightarrow> nat \<Rightarrow> bool"
    and get_op :: "addr_t \<Rightarrow> addr_t \<Rightarrow> 'a \<Rightarrow> bit_error + bool"
    and set_op clear_op :: "addr_t \<Rightarrow> addr_t \<Rightarrow> 'a \<Rightarrow> bit_error option \<times> 'a"
  assumes get_in: "ok a \<Longrightarrow> unat i < size_of a \<Longrightarrow> unat i + unat w \<le> size_of a \<Longrightarrow>
      get_op i w a = Inr (\<exists>j \<in> range_of i w. bit_of a j)"
    and get_out: "ok a \<Longrightarrow> \<not> (unat i < size_of a \<and> unat i + unat w \<le> size_of a) \<Longrightarrow>
      get_op i w a = Inl Invalid_index_access"
    and set_in: "ok a \<Longrightarrow> unat i < size_of a \<Longrightarrow> unat i + unat w \<le> size_of a \<Longrightarrow>
      \<exists>a'. snd (set_op i w a) = a' \<and> ok a' \<and> size_of a' = size_of a \<and>
        (if \<exists>j \<in> range_of i w. bit_of a j
         then fst (set_op i w a) = Some Invalid_set \<and> (\<forall>j. j \<notin> range_of i w \<longrightarrow> bit_of a' j = bit_of a j)
         else fst (set_op i w a) = None \<and> (\<forall>j. bit_of a' j = (j \<in> range_of i w \<or> bit_of a j)))"
    and clear_in: "ok a \<Longrightarrow> unat i < size_of a \<Longrightarrow> unat i + unat w \<le> size_of a \<Longrightarrow>
      \<exists>a'. snd (clear_op i w a) = a' \<and> ok a' \<and> size_of a' = size_of a \<and>
        (if \<forall>j \<in> range_of i w. bit_of a j
         then fst (clear_op i w a) = None \<and> (\<forall>j. bit_of a' j = (j \<notin> range_of i w \<and> bit_of a j))
         else fst (clear_op i w a) = Some Invalid_clear \<and>
           (\<forall>j. j \<notin> range_of i w \<longrightarrow> bit_of a' j = bit_of a j))"
    and clear_out: "ok a \<Longrightarrow> \<not> (unat i < size_of a \<and> unat i + unat w \<le> size_of a) \<Longrightarrow>
      clear_op i w a = (Some Invalid_index_access, a)"
    and set_out: "ok a \<Longrightarrow> \<not> (unat i < size_of a \<and> unat i + unat w \<le> size_of a) \<Longrightarrow>
      set_op i w a = (Some Invalid_index_access, a)"
begin

lemma get_cases:
  assumes "ok a"
  obtains "get_op i w a = Inl Invalid_index_access"
      "\<not> (unat i < size_of a \<and> unat i + unat w \<le> size_of a)"
  | "get_op i w a = Inr True" "\<exists>j \<in> range_of i w. bit_of a j" "unat i < size_of a"
      "unat i + unat w \<le> size_of a"
  | "get_op i w a = Inr False" "\<forall>j \<in> range_of i w. \<not> bit_of a j" "unat i < size_of a"
      "unat i + unat w \<le> size_of a"
  using get_in [OF assms, of i w] get_out [OF assms, of i w] by (cases "get_op i w a") auto

lemma set_after_get:
  assumes "ok a" and "get_op i w a = Inr False"
  obtains a' where "set_op i w a = (None, a')" "ok a'" "size_of a' = size_of a"
    "\<And>j. bit_of a' j = (j \<in> range_of i w \<or> bit_of a j)"
proof -
  have f: "\<forall>j \<in> range_of i w. \<not> bit_of a j" and r: "unat i < size_of a" "unat i + unat w \<le> size_of a"
    using assms(2) get_in [OF assms(1), of i w] get_out [OF assms(1), of i w]
    by (cases rule: get_cases [OF assms(1), of i w]; simp)+
  with set_in [OF assms(1) r] that [of "snd (set_op i w a)"] show ?thesis
    by (metis prod.collapse)
qed

text \<open>Clearing what was set gives back the bits as they were.\<close>

lemma clear_after_set:
  assumes "ok a" and s: "set_op i w a = (None, a')"
  shows "\<exists>a''. clear_op i w a' = (None, a'') \<and> (\<forall>j. bit_of a'' j = bit_of a j)"
proof (cases "unat i < size_of a \<and> unat i + unat w \<le> size_of a")
  case True
  with set_in [OF assms(1), of i w] s have a': "ok a'" "size_of a' = size_of a"
    "\<And>j. bit_of a' j = (j \<in> range_of i w \<or> bit_of a j)" "\<And>j. j \<in> range_of i w \<Longrightarrow> \<not> bit_of a j"
    by (auto split: if_splits)
  with clear_in [OF a'(1), of i w] True have "fst (clear_op i w a') = None"
    "\<And>j. bit_of (snd (clear_op i w a')) j = (j \<notin> range_of i w \<and> bit_of a' j)" by auto
  with a' show ?thesis by (intro exI [of _ "snd (clear_op i w a')"]) (auto simp: prod_eq_iff)
next
  case False
  with set_out [OF assms(1) False] s show ?thesis by simp
qed

end

lemma ba_set_to_in:
  assumes "ba_ok a" "unat i < ba_size a" "unat i + unat w \<le> ba_size a"
  shows "ba_ok (snd (ba_set_to i w f a)) \<and> ba_size (snd (ba_set_to i w f a)) = ba_size a \<and>
    (if \<forall>j \<in> range_of i w. ba_bit a j = f
     then fst (ba_set_to i w f a) = None \<and>
       (\<forall>j. ba_bit (snd (ba_set_to i w f a)) j = (if j \<in> range_of i w then \<not> f else ba_bit a j))
     else fst (ba_set_to i w f a) = Some (if f then Invalid_clear else Invalid_set) \<and>
       (\<forall>j. j \<notin> range_of i w \<longrightarrow> ba_bit (snd (ba_set_to i w f a)) j = ba_bit a j))"
proof -
  have c: "check_range a i w" using assms by (simp add: check_range_iff)
  have "length (snd (set_loop i w f (ba_words a))) = length (ba_words a)" by simp
  with set_loop_spec [OF check_good [OF assms(1) c], of f] c assms show ?thesis
    by (cases "set_loop i w f (ba_words a)")
      (auto simp: ba_set_to_def ba_ok_def ba_size_def ba_bit_def split: if_splits)
qed

interpretation ba: bit_store ba_ok ba_size ba_bit ba_get ba_set ba_clear
proof
  fix a i w
  assume a: "ba_ok a"
  show "\<not> (unat i < ba_size a \<and> unat i + unat w \<le> ba_size a) \<Longrightarrow> ba_get i w a = Inl Invalid_index_access"
    "\<not> (unat i < ba_size a \<and> unat i + unat w \<le> ba_size a) \<Longrightarrow> ba_set i w a = (Some Invalid_index_access, a)"
    "\<not> (unat i < ba_size a \<and> unat i + unat w \<le> ba_size a) \<Longrightarrow> ba_clear i w a = (Some Invalid_index_access, a)"
    using a by (simp_all add: ba_get_def ba_set_def ba_clear_def ba_set_to_def check_range_iff)
  assume r: "unat i < ba_size a" "unat i + unat w \<le> ba_size a"
  then have c: "check_range a i w" using a by (simp add: check_range_iff)
  show "ba_get i w a = Inr (\<exists>j \<in> range_of i w. ba_bit a j)"
    using get_loop_spec [OF check_good [OF a c]] c by (simp add: ba_get_def ba_bit_def)
  show "\<exists>a'. snd (ba_set i w a) = a' \<and> ba_ok a' \<and> ba_size a' = ba_size a \<and>
        (if \<exists>j \<in> range_of i w. ba_bit a j
         then fst (ba_set i w a) = Some Invalid_set \<and> (\<forall>j. j \<notin> range_of i w \<longrightarrow> ba_bit a' j = ba_bit a j)
         else fst (ba_set i w a) = None \<and> (\<forall>j. ba_bit a' j = (j \<in> range_of i w \<or> ba_bit a j)))"
    using ba_set_to_in [OF a r, of False] by (auto simp: ba_set_def)
  show "\<exists>a'. snd (ba_clear i w a) = a' \<and> ba_ok a' \<and> ba_size a' = ba_size a \<and>
        (if \<forall>j \<in> range_of i w. ba_bit a j
         then fst (ba_clear i w a) = None \<and> (\<forall>j. ba_bit a' j = (j \<notin> range_of i w \<and> ba_bit a j))
         else fst (ba_clear i w a) = Some Invalid_clear \<and>
           (\<forall>j. j \<notin> range_of i w \<longrightarrow> ba_bit a' j = ba_bit a j))"
    using ba_set_to_in [OF a r, of True] by (auto simp: ba_clear_def)
qed

lemma ba_init_ok:
  assumes "ba_init bits = Inr a"
  shows "ba_ok a" "ba_size a = unat bits" "\<not> ba_bit a i"
proof -
  from assms have a: "a = \<lparr>bit_cnt = bits, ba_words = replicate (unat (bits div 64)) 0\<rparr>"
    and b: "bits \<noteq> 0" "bits mod 64 = 0"
    by (auto simp only: ba_init_def split: if_splits)
  show "ba_ok a" unfolding ba_ok_def a using b by (simp only: bit_array.simps length_replicate unat_div) simp
  show "ba_size a = unat bits" "\<not> ba_bit a i"
    by (auto simp: a ba_size_def ba_bit_def bit_at_def less_mult_imp_div_less mult.commute)
qed

section \<open>Properties\<close>

text \<open>
  \<^bold>\<open>C9.\<close> On an array with a valid bit count, \<^verbatim>\<open>get\<close>, \<^verbatim>\<open>set\<close> and \<^verbatim>\<open>clear\<close> throw
  \<^verbatim>\<open>Invalid_index_access\<close> exactly for ranges that leave the array and never touch a word outside
  the backing store. Inside the array \<^verbatim>\<open>get\<close> tells whether any bit of the range is set, whatever
  word boundaries the range crosses; \<^verbatim>\<open>set\<close> succeeds exactly if none is set, and then changes
  exactly the bits of the range; a following \<^verbatim>\<open>clear\<close> of the range restores all bits.
\<close>

theorem bit_array_exact:
  assumes "ba_ok a"
  shows "if unat i < ba_size a \<and> unat i + unat w \<le> ba_size a
    then ba_get i w a = Inr (\<exists>j \<in> range_of i w. ba_bit a j) \<and>
      (fst (ba_set i w a) = None \<longleftrightarrow> (\<forall>j \<in> range_of i w. \<not> ba_bit a j)) \<and>
      (fst (ba_clear i w a) = None \<longleftrightarrow> (\<forall>j \<in> range_of i w. ba_bit a j)) \<and>
      (\<forall>a'. ba_set i w a = (None, a') \<longrightarrow>
         (\<forall>j. ba_bit a' j = (j \<in> range_of i w \<or> ba_bit a j)) \<and>
         (\<exists>a''. ba_clear i w a' = (None, a'') \<and> (\<forall>j. ba_bit a'' j = ba_bit a j)))
    else ba_get i w a = Inl Invalid_index_access \<and> ba_set i w a = (Some Invalid_index_access, a) \<and>
      ba_clear i w a = (Some Invalid_index_access, a)"
proof (cases "unat i < ba_size a \<and> unat i + unat w \<le> ba_size a")
  case True
  then show ?thesis
    using ba.get_in [OF assms, of i w] ba.set_in [OF assms, of i w] ba.clear_in [OF assms, of i w]
      ba.clear_after_set [OF assms, of i w]
    by (auto split: if_splits)
next
  case False
  then show ?thesis
    unfolding if_not_P [OF False]
    using ba.get_out [OF assms] ba.set_out [OF assms] ba.clear_out [OF assms] by blast
qed

theorem bit_array_exact_witness:
  "ba_get 60 10 \<lparr>bit_cnt = 128, ba_words = [0, 32]\<rparr> = Inr True"
proof -
  have "ba_ok \<lparr>bit_cnt = 128, ba_words = [0, 32]\<rparr>" by (simp add: ba_ok_def)
  from bit_array_exact [OF this, of 60 10]
  have "ba_get 60 10 \<lparr>bit_cnt = 128, ba_words = [0, 32]\<rparr> =
      Inr (\<exists>j \<in> {60..<70}. ba_bit \<lparr>bit_cnt = 128, ba_words = [0, 32]\<rparr> j)"
    by (simp add: ba_size_def range_of_def)
  moreover have "ba_bit \<lparr>bit_cnt = 128, ba_words = [0, 32]\<rparr> 69"
    by (simp add: ba_bit_def bit_at_def)
  ultimately show ?thesis by (auto intro!: bexI [of _ 69])
qed

end
