(* ===== verification/Bit_Allocator.thy ===== *)
theory Bit_Allocator
  imports Bit_Array
begin

text \<open>
  \<^verbatim>\<open>base/include/util/bit_allocator.h\<close>: the allocator of aligned power-of-two blocks of indices
  on top of \<open>Bit_Array\<close>. The two nested loops of \<^verbatim>\<open>alloc\<close> are partial functions whose
  value \<open>None\<close> would be an endless loop; the lemmas show that they always return.
\<close>

section \<open>Operations\<close>

datatype alloc_error = Out_of_indices | Range_conflict | Array_error bit_error

record bit_allocator =
  ba_next :: addr_t
  ba_array :: bit_array

definition bits_aligned :: "u32 \<Rightarrow> addr_t" where
  "bits_aligned bits = (ucast bits + 64 - 1) AND NOT (64 - 1)"

definition reserve :: "addr_t \<Rightarrow> size_t \<Rightarrow> bit_allocator \<Rightarrow> bit_error option \<times> bit_allocator" where
  "reserve bit_start num b =
     (if num = 0 then (None, b)
      else case ba_set bit_start num (ba_array b) of (e, a) \<Rightarrow> (e, b\<lparr>ba_array := a\<rparr>))"

definition bit_allocator_init :: "u32 \<Rightarrow> bit_error + bit_allocator" where
  "bit_allocator_init bits =
     (case ba_init (ucast (bits_aligned bits)) of
        Inl e \<Rightarrow> Inl e
      | Inr a \<Rightarrow>
          (case reserve (ucast bits) (bits_aligned bits - ucast bits) \<lparr>ba_next = 0, ba_array = a\<rparr> of
             (None, b) \<Rightarrow> Inr b
           | (Some e, b) \<Rightarrow> Inl e))"

text \<open>The inner loop: \<open>Inr None\<close> is leaving it by its condition or by the caught exception.\<close>

partial_function (option) alloc_scan ::
    "addr_t \<Rightarrow> addr_t \<Rightarrow> addr_t \<Rightarrow> bit_allocator \<Rightarrow> ((bit_error + addr_t option) \<times> bit_allocator) option" where
  "alloc_scan step limit i b =
     (if i < limit then
        (case ba_get i step (ba_array b) of
           Inl e \<Rightarrow> Some (if e = Invalid_index_access then Inr None else Inl e, b)
         | Inr used \<Rightarrow>
             if used then alloc_scan step limit (i + step) b
             else
               (case ba_set i step (ba_array b) of
                  (None, a) \<Rightarrow> Some (Inr (Some i), b\<lparr>ba_array := a, ba_next := i + step\<rparr>)
                | (Some e, a) \<Rightarrow>
                    Some (if e = Invalid_index_access then Inr None else Inl e, b\<lparr>ba_array := a\<rparr>)))
      else Some (Inr None, b))"

partial_function (option) alloc_loop ::
    "addr_t \<Rightarrow> addr_t \<Rightarrow> bit_allocator \<Rightarrow> ((alloc_error + addr_t) \<times> bit_allocator) option" where
  "alloc_loop step limit b = do {
     (r, b1) \<leftarrow> alloc_scan step limit (ba_next b AND NOT (step - 1)) b;
     (case r of
        Inl e \<Rightarrow> Some (Inl (Array_error e), b1)
      | Inr (Some i) \<Rightarrow> Some (Inr i, b1)
      | Inr None \<Rightarrow>
          let limit' = ba_next b1; b2 = b1\<lparr>ba_next := 0\<rparr>
          in if limit' \<noteq> 0 then alloc_loop step limit' b2 else Some (Inl Out_of_indices, b2))
   }"

definition alloc :: "nat \<Rightarrow> bit_allocator \<Rightarrow> ((alloc_error + addr_t) \<times> bit_allocator) option" where
  "alloc num_log2 b = alloc_loop (push_bit num_log2 1) all_ones b"

definition alloc_addr :: "addr_t \<Rightarrow> nat \<Rightarrow> bit_allocator \<Rightarrow> alloc_error option \<times> bit_allocator" where
  "alloc_addr bit_start num_log2 b =
     (let step = push_bit num_log2 1
      in case ba_get bit_start step (ba_array b) of
           Inl e \<Rightarrow> (Some (Array_error e), b)
         | Inr True \<Rightarrow> (Some Range_conflict, b)
         | Inr False \<Rightarrow>
             (case ba_set bit_start step (ba_array b) of
                (Some e, a) \<Rightarrow> (Some (Array_error e), b\<lparr>ba_array := a\<rparr>)
              | (None, a) \<Rightarrow> (None, b\<lparr>ba_array := a, ba_next := bit_start + step\<rparr>)))"

definition free :: "addr_t \<Rightarrow> nat \<Rightarrow> bit_allocator \<Rightarrow> alloc_error option \<times> bit_allocator" where
  "free bit_start num_log2 b =
     (case ba_clear bit_start (push_bit num_log2 1) (ba_array b) of
        (Some e, a) \<Rightarrow> (Some (Array_error e), b\<lparr>ba_array := a\<rparr>)
      | (None, a) \<Rightarrow>
          (None, b\<lparr>ba_array := a, ba_next := (if bit_start < ba_next b then bit_start else ba_next b)\<rparr>))"

section \<open>Blocks\<close>

definition block :: "nat \<Rightarrow> nat \<Rightarrow> nat set" where
  "block start n = {start ..< start + 2 ^ n}"

definition free_block :: "bit_allocator \<Rightarrow> nat \<Rightarrow> nat \<Rightarrow> bool" where
  "free_block b n j \<longleftrightarrow> 2 ^ n dvd j \<and> j + 2 ^ n \<le> ba_size (ba_array b) \<and>
     (\<forall>t \<in> block j n. \<not> ba_bit (ba_array b) t)"

lemma step_unat: "n < 64 \<Longrightarrow> unat (push_bit n 1 :: addr_t) = 2 ^ n"
  by (simp add: push_bit_of_1 unat_exp)

lemma range_block: "n < 64 \<Longrightarrow> range_of i (push_bit n 1) = block (unat i) n"
  by (simp add: range_of_def block_def unat_exp)

definition alloc_ok :: "bit_allocator \<Rightarrow> bool" where
  "alloc_ok b \<longleftrightarrow> ba_ok (ba_array b)"

text \<open>The allocator after a block was marked as used.\<close>

definition marked :: "bit_allocator \<Rightarrow> nat \<Rightarrow> nat \<Rightarrow> bit_allocator \<Rightarrow> bool" where
  "marked b k n b' \<longleftrightarrow> alloc_ok b' \<and> ba_size (ba_array b') = ba_size (ba_array b) \<and>
     (\<forall>t. ba_bit (ba_array b') t = (t \<in> block k n \<or> ba_bit (ba_array b) t)) \<and>
     unat (ba_next b') = k + 2 ^ n"

lemma size32: "alloc_ok b \<Longrightarrow> ba_size (ba_array b) < 2 ^ 32"
  unfolding alloc_ok_def by (rule ba_total(3))

lemma no_wrap_step:
  assumes "alloc_ok b" "n < 64" "unat i + 2 ^ n \<le> ba_size (ba_array b)"
  shows "unat (i + push_bit n (1 :: addr_t)) = unat i + 2 ^ n"
proof -
  have "unat i + 2 ^ n < 2 ^ 64"
    using less_le_trans [OF size32 [OF assms(1)], of "2 ^ 64"] assms(3) by simp
  then show ?thesis
    using unat_add_no_wrap [of i "push_bit n 1"] by (simp add: unat_exp assms(2))
qed

lemma alloc_scan_spec:
  assumes ok: "alloc_ok b" and n: "n < 64" and al: "2 ^ n dvd unat i"
  shows "\<exists>r b'. alloc_scan (push_bit n 1) limit i b = Some (Inr r, b') \<and>
    (case r of
       None \<Rightarrow> b' = b \<and> (\<forall>j. free_block b n j \<longrightarrow> unat i \<le> j \<longrightarrow> j < unat limit \<longrightarrow> False)
     | Some k \<Rightarrow> free_block b n (unat k) \<and> unat i \<le> unat k \<and> marked b (unat k) n b')"
  using al
proof (induction "ba_size (ba_array b) - unat i" arbitrary: i rule: less_induct)
  case less
  let ?st = "push_bit n 1 :: addr_t" let ?a = "ba_array b"
  have a: "ba_ok ?a" using ok by (simp add: alloc_ok_def)
  have st: "unat ?st = 2 ^ n" by (rule step_unat [OF n])
  show ?case
  proof (cases "i < limit")
    case False
    then show ?thesis by (subst alloc_scan.simps) (auto simp: word_nat)
  next
    case True
    show ?thesis
    proof (cases rule: ba.get_cases [OF a, of i ?st])
      case 1
      have "0 < (2 :: nat) ^ n" by simp
      with 1(2) st have "\<not> free_block b n j" if "unat i \<le> j" for j
        using that unfolding free_block_def by linarith
      with 1(1) True show ?thesis by (subst alloc_scan.simps) auto
    next
      case 2
      from 2(4) st have le: "unat i + 2 ^ n \<le> ba_size ?a" by simp
      note nw = no_wrap_step [OF ok n le]
      have "ba_size ?a - unat (i + ?st) < ba_size ?a - unat i"
        unfolding nw using 2(3) by (intro diff_less_mono2) simp_all
      moreover have "2 ^ n dvd unat (i + ?st)" using less.prems nw by simp
      ultimately obtain r b' where r: "alloc_scan ?st limit (i + ?st) b = Some (Inr r, b')"
        and c: "case r of
           None \<Rightarrow> b' = b \<and> (\<forall>j. free_block b n j \<longrightarrow> unat (i + ?st) \<le> j \<longrightarrow> j < unat limit \<longrightarrow> False)
         | Some k \<Rightarrow> free_block b n (unat k) \<and> unat (i + ?st) \<le> unat k \<and> marked b (unat k) n b'"
        using less.hyps by blast
      have e: "alloc_scan ?st limit i b = Some (Inr r, b')"
        using True 2(1) r by (subst alloc_scan.simps) simp
      have "\<not> free_block b n (unat i)"
        using 2(2) range_block [OF n, of i] by (auto simp: free_block_def)
      moreover have "unat i + 2 ^ n \<le> j" if "2 ^ n dvd j" "unat i < j" for j
        using that less.prems by (metis dvd_diff_nat dvd_imp_le le_diff_conv2 less_imp_le
            zero_less_diff add.commute)
      ultimately have "\<not> free_block b n j" if "unat i \<le> j" "j < unat i + 2 ^ n" for j
        using that by (metis free_block_def leD le_neq_implies_less)
      then have "unat (i + ?st) \<le> j" if "unat i \<le> j" "free_block b n j" for j
        using that nw by (metis not_le)
      moreover have "unat i \<le> unat (i + ?st)" unfolding nw by simp
      ultimately have "case r of
           None \<Rightarrow> b' = b \<and> (\<forall>j. free_block b n j \<longrightarrow> unat i \<le> j \<longrightarrow> j < unat limit \<longrightarrow> False)
         | Some k \<Rightarrow> free_block b n (unat k) \<and> unat i \<le> unat k \<and> marked b (unat k) n b'"
        using c by (cases r) (auto simp del: push_bit_of_1 intro: order.trans)
      with e show ?thesis by blast
    next
      case 3
      from 3(4) st have le: "unat i + 2 ^ n \<le> ba_size ?a" by simp
      obtain a' where a': "ba_set i ?st ?a = (None, a')" "ba_ok a'" "ba_size a' = ba_size ?a"
        "\<And>j. ba_bit a' j = (j \<in> range_of i ?st \<or> ba_bit ?a j)"
        using ba.set_after_get [OF a 3(1)] by blast
      have "alloc_scan ?st limit i b = Some (Inr (Some i), b\<lparr>ba_array := a', ba_next := i + ?st\<rparr>)"
        using True 3(1) a'(1) by (subst alloc_scan.simps) simp
      moreover have "free_block b n (unat i)"
        using 3(2) le less.prems range_block [OF n, of i] by (simp add: free_block_def)
      moreover have "marked b (unat i) n (b\<lparr>ba_array := a', ba_next := i + ?st\<rparr>)"
        using a' no_wrap_step [OF ok n le] range_block [OF n, of i]
        by (simp add: marked_def alloc_ok_def)
      ultimately show ?thesis by auto
    qed
  qed
qed

lemma alloc_loop_spec:
  assumes ok: "alloc_ok b" and n: "n < 64"
  shows "\<exists>r b'. alloc n b = Some (r, b') \<and>
    (if \<exists>j. free_block b n j
     then \<exists>k. r = Inr k \<and> free_block b n (unat k) \<and> marked b (unat k) n b'
     else r = Inl Out_of_indices \<and> b' = b\<lparr>ba_next := 0\<rparr>)"
proof -
  let ?st = "push_bit n 1 :: addr_t" let ?s = "ba_next b AND NOT (?st - 1)"
  have s: "unat ?s = unat (ba_next b) div 2 ^ n * 2 ^ n" by (rule align_down [OF n])
  then have "2 ^ n dvd unat ?s" by simp
  from alloc_scan_spec [OF ok n this, of all_ones] obtain r1 b1 where
    r1: "alloc_scan ?st all_ones ?s b = Some (Inr r1, b1)" and
    c1: "case r1 of
       None \<Rightarrow> b1 = b \<and> (\<forall>j. free_block b n j \<longrightarrow> unat ?s \<le> j \<longrightarrow> j < unat all_ones \<longrightarrow> False)
     | Some k \<Rightarrow> free_block b n (unat k) \<and> unat ?s \<le> unat k \<and> marked b (unat k) n b1" by blast
  show ?thesis
  proof (cases r1)
    case (Some k)
    with r1 have "alloc n b = Some (Inr k, b1)" unfolding alloc_def by (subst alloc_loop.simps) simp
    with c1 Some show ?thesis by auto
  next
    case None
    let ?b2 = "b\<lparr>ba_next := 0\<rparr>"
    have fb: "free_block ?b2 = free_block b" by (simp add: free_block_def fun_eq_iff)
    have first: "\<not> free_block b n j" if "unat ?s \<le> j" for j
    proof
      assume f: "free_block b n j"
      have "0 < (2 :: nat) ^ n" by simp
      with f have "j < ba_size (ba_array b)" unfolding free_block_def by linarith
      also have "\<dots> < 2 ^ 32" by (rule size32 [OF ok])
      also have "\<dots> < unat all_ones" by (simp add: word_nat)
      finally show False using c1 None f that by auto
    qed
    show ?thesis
    proof (cases "ba_next b = 0")
      case True
      with r1 None c1 have "alloc n b = Some (Inl Out_of_indices, ?b2)"
        unfolding alloc_def by (subst alloc_loop.simps) simp
      moreover have "\<not> free_block b n j" for j using first s True by simp
      ultimately show ?thesis by auto
    next
      case False
      have "alloc_ok ?b2" using ok by (simp add: alloc_ok_def)
      from alloc_scan_spec [OF this n, of 0 "ba_next b"] obtain r2 b3 where
        r2: "alloc_scan ?st (ba_next b) 0 ?b2 = Some (Inr r2, b3)" and
        c2: "case r2 of
           None \<Rightarrow> b3 = ?b2 \<and> (\<forall>j. free_block b n j \<longrightarrow> j < unat (ba_next b) \<longrightarrow> False)
         | Some k \<Rightarrow> free_block b n (unat k) \<and> marked ?b2 (unat k) n b3"
        unfolding fb by (auto split: option.splits)
      have e: "alloc n b = alloc_loop ?st (ba_next b) ?b2"
        using r1 None c1 False unfolding alloc_def by (subst alloc_loop.simps) simp
      show ?thesis
      proof (cases r2)
        case (Some k)
        with r2 have "alloc n b = Some (Inr k, b3)" unfolding e by (subst alloc_loop.simps) simp
        moreover have "marked b (unat k) n b3" using c2 Some by (simp add: marked_def)
        ultimately show ?thesis using c2 Some by auto
      next
        case None
        with r2 c2 have "alloc n b = Some (Inl Out_of_indices, ?b2)"
          unfolding e by (subst alloc_loop.simps) simp
        moreover have "\<not> free_block b n j" for j
        proof (cases "unat ?s \<le> j")
          case False
          moreover have "unat ?s \<le> unat (ba_next b)" unfolding s by simp
          ultimately show ?thesis using c2 None by auto
        qed (rule first)
        ultimately show ?thesis by auto
      qed
    qed
  qed
qed

section \<open>The allocator in use\<close>

lemma alloc_addr_spec:
  assumes ok: "alloc_ok b" and n: "n < 64"
  shows "case alloc_addr s n b of
     (None, b') \<Rightarrow> (\<forall>t \<in> block (unat s) n. \<not> ba_bit (ba_array b) t) \<and>
       unat s + 2 ^ n \<le> ba_size (ba_array b) \<and> marked b (unat s) n b'
   | (Some e, b') \<Rightarrow> b' = b \<and> (e = Range_conflict \<or> e = Array_error Invalid_index_access)"
proof -
  let ?st = "push_bit n 1 :: addr_t" let ?a = "ba_array b"
  have a: "ba_ok ?a" using ok by (simp add: alloc_ok_def)
  show ?thesis
  proof (cases rule: ba.get_cases [OF a, of s ?st])
    case 3
    obtain a' where a': "ba_set s ?st ?a = (None, a')" "ba_ok a'" "ba_size a' = ba_size ?a"
      "\<And>j. ba_bit a' j = (j \<in> range_of s ?st \<or> ba_bit ?a j)"
      using ba.set_after_get [OF a 3(1)] by blast
    have le: "unat s + 2 ^ n \<le> ba_size ?a" using 3(4) by (simp add: unat_exp n)
    have "alloc_addr s n b = (None, b\<lparr>ba_array := a', ba_next := s + ?st\<rparr>)"
      using 3(1) a'(1) by (simp add: alloc_addr_def Let_def)
    moreover have "marked b (unat s) n (b\<lparr>ba_array := a', ba_next := s + ?st\<rparr>)"
      using a' no_wrap_step [OF ok n le] range_block [OF n, of s]
      by (simp add: marked_def alloc_ok_def)
    ultimately show ?thesis using 3(2) le range_block [OF n, of s] by simp
  qed (simp_all add: alloc_addr_def Let_def)
qed

lemma free_spec:
  assumes ok: "alloc_ok b" and n: "n < 64" and le: "unat s + 2 ^ n \<le> ba_size (ba_array b)"
    and all: "\<forall>t \<in> block (unat s) n. ba_bit (ba_array b) t"
  shows "\<exists>b'. free s n b = (None, b') \<and> alloc_ok b' \<and> ba_size (ba_array b') = ba_size (ba_array b) \<and>
    (\<forall>t. ba_bit (ba_array b') t = (t \<notin> block (unat s) n \<and> ba_bit (ba_array b) t))"
proof -
  let ?st = "push_bit n 1 :: addr_t" let ?a = "ba_array b"
  have a: "ba_ok ?a" using ok by (simp add: alloc_ok_def)
  have "0 < (2 :: nat) ^ n" by simp
  with le have lt: "unat s < ba_size ?a" by linarith
  have le': "unat s + unat ?st \<le> ba_size ?a" using le by (simp add: unat_exp n)
  obtain e a' where c: "ba_clear s ?st ?a = (e, a')" by (cases "ba_clear s ?st ?a")
  with ba.clear_in [OF a lt le'] all range_block [OF n, of s]
  have "e = None" "ba_ok a'" "ba_size a' = ba_size ?a"
    "\<And>t. ba_bit a' t = (t \<notin> block (unat s) n \<and> ba_bit ?a t)" by auto
  with c show ?thesis by (auto simp: free_def alloc_ok_def)
qed

text \<open>
  \<open>live\<close> is the set of blocks, each with the logarithm of its size, that were handed out and not
  yet freed. Clients free blocks that they own and with the size they were allocated with.
\<close>

inductive allocator_reach :: "u32 \<Rightarrow> (addr_t \<times> nat) set \<Rightarrow> bit_allocator \<Rightarrow> bool" for bits where
  init: "bit_allocator_init bits = Inr b \<Longrightarrow> allocator_reach bits {} b"
| alloc: "allocator_reach bits live b \<Longrightarrow> n < 64 \<Longrightarrow> alloc n b = Some (Inr k, b') \<Longrightarrow>
    allocator_reach bits (insert (k, n) live) b'"
| alloc_fails: "allocator_reach bits live b \<Longrightarrow> n < 64 \<Longrightarrow> alloc n b = Some (Inl e, b') \<Longrightarrow>
    allocator_reach bits live b'"
| alloc_addr: "allocator_reach bits live b \<Longrightarrow> n < 64 \<Longrightarrow> alloc_addr s n b = (None, b') \<Longrightarrow>
    allocator_reach bits (insert (s, n) live) b'"
| alloc_addr_fails: "allocator_reach bits live b \<Longrightarrow> n < 64 \<Longrightarrow> alloc_addr s n b = (Some e, b') \<Longrightarrow>
    allocator_reach bits live b'"
| free: "allocator_reach bits live b \<Longrightarrow> (s, n) \<in> live \<Longrightarrow> free s n b = (e, b') \<Longrightarrow>
    allocator_reach bits (live - {(s, n)}) b'"

definition blocks_of :: "(addr_t \<times> nat) set \<Rightarrow> nat set" where
  "blocks_of live = (\<Union>(s, n) \<in> live. block (unat s) n)"

lemma blocks_of_iff: "t \<in> blocks_of live \<longleftrightarrow> (\<exists>x \<in> live. t \<in> block (unat (fst x)) (snd x))"
  by (simp add: blocks_of_def split_beta)

definition allocator_inv :: "u32 \<Rightarrow> (addr_t \<times> nat) set \<Rightarrow> bit_allocator \<Rightarrow> bool" where
  "allocator_inv bits live b \<longleftrightarrow> alloc_ok b \<and> unat bits \<le> ba_size (ba_array b) \<and>
     (\<forall>t < ba_size (ba_array b). ba_bit (ba_array b) t \<longleftrightarrow> unat bits \<le> t \<or> t \<in> blocks_of live) \<and>
     (\<forall>(s, n) \<in> live. n < 64 \<and> unat s + 2 ^ n \<le> unat bits) \<and>
     (\<forall>x \<in> live. \<forall>y \<in> live. x \<noteq> y \<longrightarrow> block (unat (fst x)) (snd x) \<inter> block (unat (fst y)) (snd y) = {})"

lemma block_nonempty: "s \<in> block s n" by (simp add: block_def)

lemma block_below:
  "(\<forall>t \<in> block s n. t < m) \<longleftrightarrow> s + 2 ^ n \<le> m"
proof
  assume *: "\<forall>t \<in> block s n. t < m"
  have "0 < (2 :: nat) ^ n" by simp
  then have "s + 2 ^ n - 1 \<in> block s n" unfolding block_def atLeastLessThan_iff by linarith
  with * have "s + 2 ^ n - 1 < m" by blast
  with \<open>0 < 2 ^ n\<close> show "s + 2 ^ n \<le> m" by linarith
qed (auto simp: block_def)

lemma allocator_inv_mark:
  assumes inv: "allocator_inv bits live b" and n: "n < 64"
    and f: "\<forall>t \<in> block (unat k) n. \<not> ba_bit (ba_array b) t" "unat k + 2 ^ n \<le> ba_size (ba_array b)"
    and m: "marked b (unat k) n b'"
  shows "allocator_inv bits (insert (k, n) live) b'"
proof -
  have b: "\<And>t. t < ba_size (ba_array b) \<Longrightarrow>
      ba_bit (ba_array b) t \<longleftrightarrow> unat bits \<le> t \<or> t \<in> blocks_of live"
    using inv by (simp add: allocator_inv_def)
  have lt: "t < ba_size (ba_array b)" if "t \<in> block (unat k) n" for t
    using that f(2) by (auto simp: block_def)
  have "\<forall>t \<in> block (unat k) n. t < unat bits" using f(1) b lt by (meson not_le)
  then have le: "unat k + 2 ^ n \<le> unat bits" by (simp add: block_below)
  have dj: "block (unat k) n \<inter> block (unat (fst y)) (snd y) = {}" if "y \<in> live" for y
    using f(1) b lt that by (fastforce simp: blocks_of_def)
  have "blocks_of (insert (k, n) live) = block (unat k) n \<union> blocks_of live"
    by (simp add: blocks_of_def)
  with inv m n le dj show ?thesis
    unfolding allocator_inv_def marked_def by (auto simp: Int_commute)
qed

lemma allocator_inv_free:
  assumes inv: "allocator_inv bits live b" and x: "(s, n) \<in> live"
  shows "\<exists>b'. free s n b = (None, b') \<and> allocator_inv bits (live - {(s, n)}) b'"
proof -
  have ok: "alloc_ok b" and n: "n < 64" and le: "unat s + 2 ^ n \<le> unat bits"
    and sz: "unat bits \<le> ba_size (ba_array b)"
    and b: "\<And>t. t < ba_size (ba_array b) \<Longrightarrow>
      ba_bit (ba_array b) t \<longleftrightarrow> unat bits \<le> t \<or> t \<in> blocks_of live"
    using inv x by (auto simp: allocator_inv_def)
  have dj: "block (unat s) n \<inter> block (unat (fst y)) (snd y) = {}" if "y \<in> live" "y \<noteq> (s, n)" for y
  proof -
    have "\<forall>x \<in> live. \<forall>y \<in> live. x \<noteq> y \<longrightarrow>
        block (unat (fst x)) (snd x) \<inter> block (unat (fst y)) (snd y) = {}"
      using inv by (simp add: allocator_inv_def)
    from bspec [OF bspec [OF this x] that(1)] that(2) show ?thesis by simp
  qed
  have below: "\<forall>t \<in> block (unat s) n. t < unat bits" using le by (simp add: block_below)
  have "block (unat s) n \<subseteq> blocks_of live" using x by (auto simp: blocks_of_def)
  with below sz b have "\<forall>t \<in> block (unat s) n. ba_bit (ba_array b) t" by fastforce
  from free_spec [OF ok n _ this] le sz obtain b' where
    f: "free s n b = (None, b')" "alloc_ok b'" "ba_size (ba_array b') = ba_size (ba_array b)"
      "\<And>t. ba_bit (ba_array b') t = (t \<notin> block (unat s) n \<and> ba_bit (ba_array b) t)" by auto
  have "t \<in> blocks_of (live - {(s, n)}) \<longleftrightarrow> t \<in> blocks_of live \<and> t \<notin> block (unat s) n" for t
  proof
    assume "t \<in> blocks_of (live - {(s, n)})"
    with dj show "t \<in> blocks_of live \<and> t \<notin> block (unat s) n" unfolding blocks_of_iff by blast
  next
    assume t: "t \<in> blocks_of live \<and> t \<notin> block (unat s) n"
    then obtain y where "y \<in> live" "t \<in> block (unat (fst y)) (snd y)" by (auto simp: blocks_of_iff)
    moreover from this t have "y \<noteq> (s, n)" by auto
    ultimately show "t \<in> blocks_of (live - {(s, n)})" by (auto simp: blocks_of_iff)
  qed
  then have "t < ba_size (ba_array b') \<Longrightarrow>
      ba_bit (ba_array b') t \<longleftrightarrow> unat bits \<le> t \<or> t \<in> blocks_of (live - {(s, n)})" for t
    using b [of t] below by (auto simp: f)
  moreover have "\<forall>(s', n') \<in> live - {(s, n)}. n' < 64 \<and> unat s' + 2 ^ n' \<le> unat bits"
    "\<forall>x \<in> live - {(s, n)}. \<forall>y \<in> live - {(s, n)}. x \<noteq> y \<longrightarrow>
      block (unat (fst x)) (snd x) \<inter> block (unat (fst y)) (snd y) = {}"
    using inv unfolding allocator_inv_def by blast+
  ultimately have "allocator_inv bits (live - {(s, n)}) b'"
    unfolding allocator_inv_def using f(2,3) sz by (intro conjI) simp_all
  with f(1) show ?thesis by blast
qed

lemma bits_aligned_unat:
  "unat (bits_aligned bits) = (unat bits + 63) div 64 * 64"
proof -
  have b: "unat bits < 2 ^ 32" by (rule order.strict_trans2 [OF unsigned_less]) simp
  have u: "unat (ucast bits :: addr_t) = unat bits"
    using less_le_trans [OF b, of "2 ^ 64"] by (simp add: unsigned_ucast_eq take_bit_nat_eq_self)
  have "unat (ucast bits + 63 :: addr_t) = unat bits + 63"
    using b u by (subst unat_add_no_wrap) simp_all
  moreover have "bits_aligned bits = (ucast bits + 63) AND NOT (push_bit 6 1 - 1)"
    by (simp add: bits_aligned_def add.commute)
  ultimately show ?thesis using align_down [of 6 "ucast bits + 63"] by simp
qed

lemma allocator_inv_init:
  assumes i: "bit_allocator_init bits = Inr b"
    and small: "unat bits + 63 < 2 ^ 32"
  shows "allocator_inv bits {} b"
proof -
  let ?n = "bits_aligned bits"
  obtain a where a: "ba_init (ucast ?n) = Inr a"
    using i by (auto simp: bit_allocator_init_def split: sum.splits)
  have nn: "unat bits \<le> unat ?n" "unat ?n < 2 ^ 32"
    using small unfolding bits_aligned_unat by presburger+
  then have sz: "ba_size a = unat ?n"
    using ba_init_ok(2) [OF a] by (simp add: unsigned_ucast_eq take_bit_nat_eq_self)
  have u: "unat (ucast bits :: addr_t) = unat bits"
    using nn by (simp add: unsigned_ucast_eq take_bit_nat_eq_self)
  have d: "unat (?n - ucast bits) = unat ?n - unat bits"
    using nn u by (simp add: unat_sub word_nat)
  note ok = ba_init_ok(1,3) [OF a]
  show ?thesis
  proof (cases "?n - ucast bits = 0")
    case True
    then have "unat ?n = unat bits" using d nn by simp
    moreover have "b = \<lparr>ba_next = 0, ba_array = a\<rparr>"
      using i a True by (simp add: bit_allocator_init_def reserve_def)
    ultimately show ?thesis
      using ok sz by (simp add: allocator_inv_def alloc_ok_def blocks_of_def)
  next
    case False
    then have "unat (?n - ucast bits) \<noteq> 0" by (simp only: unat_eq_0 not_False_eq_True)
    with d have lt: "unat (ucast bits :: addr_t) < ba_size a" unfolding u sz by linarith
    have le: "unat (ucast bits :: addr_t) + unat (?n - ucast bits) \<le> ba_size a"
      unfolding u sz d using nn by linarith
    obtain e a' where s: "ba_set (ucast bits) (?n - ucast bits) a = (e, a')"
      by (cases "ba_set (ucast bits) (?n - ucast bits) a")
    with ba.set_in [OF ok(1) lt le] ok(2) have
      a': "e = None" "ba_ok a'" "ba_size a' = unat ?n"
        "\<And>j. ba_bit a' j = (j \<in> range_of (ucast bits) (?n - ucast bits))"
      by (auto simp: sz)
    have "b = \<lparr>ba_next = 0, ba_array = a'\<rparr>"
      using i a False s a'(1) by (simp add: bit_allocator_init_def reserve_def)
    then show ?thesis
      using a' nn by (auto simp: allocator_inv_def alloc_ok_def blocks_of_def range_of_def u d)
  qed
qed

lemma allocator_reach_inv:
  "allocator_reach bits live b \<Longrightarrow> unat bits + 63 < 2 ^ 32 \<Longrightarrow> allocator_inv bits live b"
proof (induction rule: allocator_reach.induct)
  case (init b)
  then show ?case by (rule allocator_inv_init)
next
  case (alloc live b n k b')
  then have inv: "allocator_inv bits live b" by simp
  then have "alloc_ok b" by (simp add: allocator_inv_def)
  from alloc_loop_spec [OF this alloc(2)] alloc(3)
  have "free_block b n (unat k)" "marked b (unat k) n b'" by (auto split: if_splits)
  then show ?case using allocator_inv_mark [OF inv alloc(2)] by (auto simp: free_block_def)
next
  case (alloc_fails live b n e b')
  then have inv: "allocator_inv bits live b" by simp
  then have "alloc_ok b" by (simp add: allocator_inv_def)
  from alloc_loop_spec [OF this alloc_fails(2)] alloc_fails(3) have "b' = b\<lparr>ba_next := 0\<rparr>"
    by (auto split: if_splits)
  with inv show ?case by (simp add: allocator_inv_def alloc_ok_def)
next
  case (alloc_addr live b n s b')
  then have inv: "allocator_inv bits live b" by simp
  then have "alloc_ok b" by (simp add: allocator_inv_def)
  from alloc_addr_spec [OF this alloc_addr(2), of s] alloc_addr(3) allocator_inv_mark [OF inv alloc_addr(2)]
  show ?case by auto
next
  case (alloc_addr_fails live b n s e b')
  then have inv: "allocator_inv bits live b" by simp
  then have "alloc_ok b" by (simp add: allocator_inv_def)
  from alloc_addr_spec [OF this alloc_addr_fails(2), of s] alloc_addr_fails(3) inv show ?case by auto
next
  case (free live b s n e b')
  then have "allocator_inv bits live b" by simp
  from allocator_inv_free [OF this free(2)] free(3) show ?case by auto
qed

section \<open>Properties\<close>

text \<open>
  \<^bold>\<open>C11.\<close> \<^verbatim>\<open>alloc\<close> always returns. It finds an aligned free block whenever there is one, marks exactly
  the indices of that block and leaves all others alone; it throws \<^verbatim>\<open>Out_of_indices\<close> exactly if
  no aligned block of that size is free, and then no index has changed.
\<close>

theorem alloc_complete:
  assumes "allocator_reach bits live b" and "unat bits + 63 < 2 ^ 32" and "n < 64"
  shows "\<exists>r b'. alloc n b = Some (r, b') \<and>
    (if \<exists>j. free_block b n j
     then \<exists>k. r = Inr k \<and> free_block b n (unat k) \<and>
       (\<forall>t. ba_bit (ba_array b') t = (t \<in> block (unat k) n \<or> ba_bit (ba_array b) t))
     else r = Inl Out_of_indices \<and> ba_array b' = ba_array b)"
proof -
  have "alloc_ok b" using allocator_reach_inv [OF assms(1,2)] by (simp add: allocator_inv_def)
  from alloc_loop_spec [OF this assms(3)] show ?thesis
    by (cases "\<exists>j. free_block b n j") (auto simp: marked_def)
qed

definition demo_allocator :: bit_allocator where
  "demo_allocator = \<lparr>ba_next = 0, ba_array = \<lparr>bit_cnt = 64, ba_words = [0xFFFFFFFFFFFFFFF0]\<rparr>\<rparr>"

lemma demo_allocator_init: "bit_allocator_init 4 = Inr demo_allocator"
  by code_simp

theorem alloc_complete_witness:
  "\<exists>k b'. alloc 1 demo_allocator = Some (Inr k, b') \<and> free_block demo_allocator 1 (unat k)"
proof -
  have "block 0 1 = {0, 1}" by (auto simp: block_def)
  then have "free_block demo_allocator 1 0"
    by (simp add: free_block_def demo_allocator_def ba_size_def ba_bit_def bit_at_def)
  then have e: "\<exists>j. free_block demo_allocator 1 j" by blast
  have "unat (4 :: u32) + 63 < 2 ^ 32" "(1 :: nat) < 64" by simp_all
  from alloc_complete [OF allocator_reach.init [OF demo_allocator_init] this] show ?thesis
    unfolding if_P [OF e] by blast
qed

text \<open>
  \<^bold>\<open>C10.\<close> Whatever is allocated, requested at an address and freed, in whatever order: the blocks
  that are in use lie below \<^verbatim>\<open>BITS\<close>, no two of them overlap, the set bits of the array are exactly
  their indices and the padding above \<^verbatim>\<open>BITS\<close>, so no index leaks, and every block in use can be
  freed.
\<close>

theorem allocator_blocks_disjoint:
  assumes "allocator_reach bits live b" and "unat bits + 63 < 2 ^ 32"
  shows "(\<forall>(s, n) \<in> live. unat s + 2 ^ n \<le> unat bits \<and> fst (free s n b) = None) \<and>
    (\<forall>x \<in> live. \<forall>y \<in> live. x \<noteq> y \<longrightarrow> block (unat (fst x)) (snd x) \<inter> block (unat (fst y)) (snd y) = {}) \<and>
    (\<forall>t < unat bits. ba_bit (ba_array b) t \<longleftrightarrow> t \<in> blocks_of live)"
proof -
  have inv: "allocator_inv bits live b" by (rule allocator_reach_inv [OF assms])
  have "fst (free s n b) = None" if "(s, n) \<in> live" for s n
    using allocator_inv_free [OF inv that] by auto
  with inv show ?thesis unfolding allocator_inv_def by auto
qed

theorem allocator_blocks_disjoint_witness:
  "\<exists>b. alloc_addr 2 1 demo_allocator = (None, b) \<and> fst (free 2 1 b) = None"
proof -
  have "fst (alloc_addr 2 1 demo_allocator) = None" by code_simp
  then obtain b where b: "alloc_addr 2 1 demo_allocator = (None, b)" by (metis prod.collapse)
  have "allocator_reach 4 (insert (2, 1) {}) b"
    by (rule allocator_reach.alloc_addr [OF allocator_reach.init [OF demo_allocator_init] _ b]) simp
  from allocator_blocks_disjoint [OF this] b show ?thesis by auto
qed

text \<open>
  \<^verbatim>\<open>alloc\<close> searches from the index behind the last allocation, not from the lowest: after
  index 2 was requested by address, the next allocation returns 3 although 0 is free.
\<close>

theorem alloc_not_lowest:
  "map_option fst (alloc 0 (snd (alloc_addr 2 0 demo_allocator))) = Some (Inr 3) \<and>
    free_block (snd (alloc_addr 2 0 demo_allocator)) 0 0"
proof -
  have "snd (alloc_addr 2 0 demo_allocator) =
      \<lparr>ba_next = 3, ba_array = \<lparr>bit_cnt = 64, ba_words = [0xFFFFFFFFFFFFFFF4]\<rparr>\<rparr>"
    by code_simp
  moreover have "ba_get 3 1 \<lparr>bit_cnt = 64, ba_words = [0xFFFFFFFFFFFFFFF4]\<rparr> = Inr False"
    "ba_set 3 1 \<lparr>bit_cnt = 64, ba_words = [0xFFFFFFFFFFFFFFF4]\<rparr> =
      (None, \<lparr>bit_cnt = 64, ba_words = [0xFFFFFFFFFFFFFFFC]\<rparr>)"
    by code_simp+
  then have "map_option fst (alloc 0
      \<lparr>ba_next = 3, ba_array = \<lparr>bit_cnt = 64, ba_words = [0xFFFFFFFFFFFFFFF4]\<rparr>\<rparr>) = Some (Inr 3)"
    unfolding alloc_def by (subst alloc_loop.simps, subst alloc_scan.simps) simp
  ultimately show ?thesis
    by (simp add: free_block_def ba_size_def ba_bit_def bit_at_def block_def)
qed

end
