(* ===== verification/Packet_Queue.thy ===== *)
theory Packet_Queue
  imports Prelude
begin

text \<open>
  \<^verbatim>\<open>os/include/os/packet_stream.h\<close>, first part: packet descriptors and the ring of descriptors
  that source and sink share. Head and tail are in shared memory, so the operations are also
  considered on arbitrary values of both. The queue size \<open>N\<close> is the template parameter. The locale
  \<open>bounded_fifo\<close> is the contract by which the two ends of a packet stream use a queue.
\<close>

section \<open>Descriptors and queue\<close>

record packet_descriptor =
  pd_offset :: addr_t
  pd_size :: size_t

definition null_packet :: packet_descriptor where
  "null_packet = \<lparr>pd_offset = 0, pd_size = 0\<rparr>"

record pqueue =
  pq_head :: u32
  pq_tail :: u32
  pq_queue :: "packet_descriptor list"

datatype role = PRODUCER | CONSUMER

definition pq_construct :: "role \<Rightarrow> pqueue \<Rightarrow> pqueue" where
  "pq_construct role q =
     (if role = PRODUCER then q\<lparr>pq_head := 0, pq_queue := map (\<lambda>_. null_packet) (pq_queue q)\<rparr>
      else q\<lparr>pq_tail := 0\<rparr>)"

definition pq_empty :: "pqueue \<Rightarrow> bool" where
  "pq_empty q \<longleftrightarrow> pq_tail q = pq_head q"

definition pq_full :: "u32 \<Rightarrow> pqueue \<Rightarrow> bool" where
  "pq_full N q \<longleftrightarrow> (pq_head q + 1) mod N = pq_tail q"

text \<open>An access outside the array, which the source leaves undefined, is the result \<open>None\<close>.\<close>

definition pq_add :: "u32 \<Rightarrow> packet_descriptor \<Rightarrow> pqueue \<Rightarrow> (bool \<times> pqueue) option" where
  "pq_add N p q =
     (if pq_full N q then Some (False, q)
      else if unat (pq_head q mod N) \<ge> length (pq_queue q) then None
      else Some (True, q\<lparr>pq_queue := (pq_queue q)[unat (pq_head q mod N) := p],
                         pq_head := (pq_head q + 1) mod N\<rparr>))"

definition pq_peek :: "u32 \<Rightarrow> pqueue \<Rightarrow> packet_descriptor option" where
  "pq_peek N q =
     (if unat (pq_tail q mod N) \<ge> length (pq_queue q) then None
      else Some (pq_queue q ! unat (pq_tail q mod N)))"

definition pq_get :: "u32 \<Rightarrow> pqueue \<Rightarrow> (packet_descriptor \<times> pqueue) option" where
  "pq_get N q = do { p \<leftarrow> pq_peek N q; Some (p, q\<lparr>pq_tail := (pq_tail q + 1) mod N\<rparr>) }"

definition single_element :: "u32 \<Rightarrow> pqueue \<Rightarrow> bool" where
  "single_element N q \<longleftrightarrow> (pq_tail q + 1) mod N = pq_head q"

definition single_slot_free :: "u32 \<Rightarrow> pqueue \<Rightarrow> bool" where
  "single_slot_free N q \<longleftrightarrow> (pq_head q + 2) mod N = pq_tail q"

definition slots_free :: "u32 \<Rightarrow> pqueue \<Rightarrow> u32" where
  "slots_free N q =
     (if pq_tail q > pq_head q then pq_tail q - pq_head q else N - pq_head q + pq_tail q) - 1"

section \<open>The sequence a queue holds\<close>

text \<open>The template parameter is an \<^verbatim>\<open>int\<close>; a queue of size one could hold no packet.\<close>

definition size_ok :: "u32 \<Rightarrow> bool" where
  "size_ok N \<longleftrightarrow> 2 \<le> N \<and> N < 2 ^ 31"

definition pq_count :: "u32 \<Rightarrow> pqueue \<Rightarrow> nat" where
  "pq_count N q = (unat (pq_head q) + unat N - unat (pq_tail q)) mod unat N"

definition pq_list :: "u32 \<Rightarrow> pqueue \<Rightarrow> packet_descriptor list" where
  "pq_list N q = map (\<lambda>k. pq_queue q ! ((unat (pq_tail q) + k) mod unat N)) [0..<pq_count N q]"

definition pq_ok :: "u32 \<Rightarrow> pqueue \<Rightarrow> bool" where
  "pq_ok N q \<longleftrightarrow> size_ok N \<and> pq_head q < N \<and> pq_tail q < N \<and> length (pq_queue q) = unat N"

lemma size_ok_nat: "size_ok N \<Longrightarrow> 2 \<le> unat N \<and> unat N < 2 ^ 31"
  by (simp add: size_ok_def word_nat)

lemma unat_step:
  assumes "size_ok N" "x < N" "k \<le> 2"
  shows "unat ((x + of_nat k) mod N) = (unat x + k) mod unat N"
proof -
  have "unat x + k < 2 ^ 32" using size_ok_nat [OF assms(1)] assms(2,3) by (simp add: word_nat)
  moreover have "unat (of_nat k :: u32) = k" using assms(3) by (simp add: unat_of_nat)
  ultimately have "unat (x + of_nat k) = unat x + k" by (subst unat_add_no_wrap) simp_all
  then show ?thesis by (simp add: unat_mod)
qed

lemma unat_step1: "size_ok N \<Longrightarrow> x < N \<Longrightarrow> unat ((x + 1) mod N) = (unat x + 1) mod unat N"
  using unat_step [of N x 1] by simp

lemma unat_step2: "size_ok N \<Longrightarrow> x < N \<Longrightarrow> unat ((x + 2) mod N) = (unat x + 2) mod unat N"
  using unat_step [of N x 2] by simp

text \<open>Arithmetic on a ring of size \<open>n\<close>, positions below \<open>n\<close>.\<close>

lemma ring_mod:
  fixes n :: nat
  shows "x < n \<Longrightarrow> (x + 1) mod n = (if x + 1 = n then 0 else x + 1)"
    "x < n \<Longrightarrow> 2 \<le> n \<Longrightarrow> (x + 2) mod n = (if x + 2 < n then x + 2 else x + 2 - n)"
    "h < n \<Longrightarrow> t < n \<Longrightarrow> (h + n - t) mod n = (if t \<le> h then h - t else h + n - t)"
  by (auto simp: mod_if)

lemma ring_inj:
  fixes n :: nat
  assumes "(t + k) mod n = (t + c) mod n" "k < n" "c < n"
  shows "k = c"
proof -
  have less: False if "(t + k) mod n = (t + c) mod n" "k < c" "c < n" for k c :: nat
  proof -
    have "n dvd (t + c) - (t + k)" using that by (metis mod_eq_dvd_iff_nat nat_add_left_cancel_le
          less_imp_le)
    with that show False by (simp add: nat_dvd_not_less)
  qed
  show ?thesis using less [of k c] less [of c k] assms by (metis linorder_neqE_nat)
qed

lemma pq_nat:
  assumes "pq_ok N q"
  shows "unat (pq_head q) < unat N" "unat (pq_tail q) < unat N" "2 \<le> unat N"
    "length (pq_queue q) = unat N" "size_ok N"
    "pq_count N q = (if unat (pq_tail q) \<le> unat (pq_head q) then unat (pq_head q) - unat (pq_tail q)
       else unat (pq_head q) + unat N - unat (pq_tail q))"
    "pq_count N q < unat N" "unat (pq_head q) = (unat (pq_tail q) + pq_count N q) mod unat N"
proof -
  show 1: "unat (pq_head q) < unat N" "unat (pq_tail q) < unat N" "2 \<le> unat N"
    "length (pq_queue q) = unat N" "size_ok N"
    using assms size_ok_nat [of N] by (auto simp: pq_ok_def word_nat)
  show c: "pq_count N q = (if unat (pq_tail q) \<le> unat (pq_head q) then unat (pq_head q) - unat (pq_tail q)
       else unat (pq_head q) + unat N - unat (pq_tail q))"
    unfolding pq_count_def using 1 by (intro ring_mod(3))
  show "pq_count N q < unat N" unfolding c using 1 by auto
  show "unat (pq_head q) = (unat (pq_tail q) + pq_count N q) mod unat N"
    unfolding c using 1 by (auto simp: mod_if)
qed

lemma pq_step_nat:
  assumes "pq_ok N q"
  shows "unat ((pq_head q + 1) mod N) = (if unat (pq_head q) + 1 = unat N then 0 else unat (pq_head q) + 1)"
    "unat ((pq_tail q + 1) mod N) = (if unat (pq_tail q) + 1 = unat N then 0 else unat (pq_tail q) + 1)"
    "unat ((pq_head q + 2) mod N) =
       (if unat (pq_head q) + 2 < unat N then unat (pq_head q) + 2 else unat (pq_head q) + 2 - unat N)"
  using assms pq_nat(1-3,5) [OF assms]
  by (simp_all only: pq_ok_def unat_step1 unat_step2 ring_mod)

lemma pq_empty_iff: "pq_ok N q \<Longrightarrow> pq_empty q \<longleftrightarrow> pq_count N q = 0"
  using pq_nat(1,2,6) [of N q] by (auto simp: pq_empty_def word_unat_eq_iff)

lemma pq_full_iff: "pq_ok N q \<Longrightarrow> pq_full N q \<longleftrightarrow> pq_count N q = unat N - 1"
  unfolding pq_full_def word_unat_eq_iff pq_step_nat pq_nat(6)
  using pq_nat(1-3) [of N q] by auto

lemma single_element_iff: "pq_ok N q \<Longrightarrow> single_element N q \<longleftrightarrow> pq_count N q = 1"
  unfolding single_element_def word_unat_eq_iff pq_step_nat pq_nat(6)
  using pq_nat(1-3) [of N q] by auto

lemma single_slot_free_iff: "pq_ok N q \<Longrightarrow> single_slot_free N q \<longleftrightarrow> pq_count N q = unat N - 2"
  unfolding single_slot_free_def word_unat_eq_iff pq_step_nat pq_nat(6)
  using pq_nat(1-3) [of N q] by auto

lemma slots_free_eq: "pq_ok N q \<Longrightarrow> unat (slots_free N q) = unat N - 1 - pq_count N q"
proof -
  assume ok: "pq_ok N q"
  note n = pq_nat [OF ok]
  have b: "unat N < 2 ^ 31" using size_ok_nat n by blast
  show ?thesis
  proof (cases "pq_tail q > pq_head q")
    case True
    then have "unat (pq_tail q - pq_head q) = unat (pq_tail q) - unat (pq_head q)"
      by (simp add: unat_sub)
    with True n(6) show ?thesis
      using n(1,2) by (simp add: slots_free_def unat_sub word_nat)
  next
    case False
    have le: "pq_head q \<le> N" using n(1) by (simp add: word_nat)
    have "unat (N - pq_head q + pq_tail q) = unat N - unat (pq_head q) + unat (pq_tail q)"
      using b n(1,2) unat_sub_le [OF le] by (subst unat_add_no_wrap) simp_all
    with False n(6) show ?thesis
      using n(1,2,3) by (simp add: slots_free_def unat_sub word_nat)
  qed
qed

lemma pq_list_length [simp]: "length (pq_list N q) = pq_count N q"
  by (simp add: pq_list_def)

lemma pq_add_spec:
  assumes ok: "pq_ok N q" and nf: "\<not> pq_full N q"
  shows "\<exists>q'. pq_add N p q = Some (True, q') \<and> pq_ok N q' \<and> pq_list N q' = pq_list N q @ [p]"
proof -
  note n = pq_nat [OF ok]
  let ?c = "pq_count N q" let ?t = "unat (pq_tail q)" let ?h = "unat (pq_head q)"
  define q' where "q' = q\<lparr>pq_queue := (pq_queue q)[?h := p], pq_head := (pq_head q + 1) mod N\<rparr>"
  have hm: "unat (pq_head q mod N) = ?h" using n(1) by (simp add: unat_mod)
  have h': "unat ((pq_head q + 1) mod N) = (?h + 1) mod unat N"
    using ok unat_step1 unfolding pq_ok_def by blast
  have e: "pq_add N p q = Some (True, q')"
    using nf n(1,4) hm by (simp add: pq_add_def q'_def)
  have ok': "pq_ok N q'"
    using ok n(3) unfolding pq_ok_def q'_def by (simp add: word_nat h')
  have c': "pq_count N q' = ?c + 1"
    using nf n(1,2,3,6) pq_nat(6) [OF ok'] unfolding pq_full_iff [OF ok]
    by (simp add: q'_def pq_step_nat(1) [OF ok]) (auto split: if_splits)
  have "pq_list N q' = map (\<lambda>k. (pq_queue q)[?h := p] ! ((?t + k) mod unat N)) [0..<?c + 1]"
    unfolding pq_list_def c' by (simp add: q'_def)
  also have "\<dots> = pq_list N q @ [p]"
  proof -
    have "?h \<noteq> (?t + k) mod unat N" if "k < ?c" for k
      using that ring_inj [of ?t k "unat N" ?c] n(7,8) by auto
    moreover have "(?t + ?c) mod unat N = ?h" using n(8) by simp
    ultimately show ?thesis using n(1,4) by (simp add: pq_list_def)
  qed
  finally show ?thesis using e ok' by blast
qed

lemma pq_get_spec:
  assumes ok: "pq_ok N q" and l: "pq_list N q = p # ps"
  shows "\<exists>q'. pq_get N q = Some (p, q') \<and> pq_ok N q' \<and> pq_list N q' = ps \<and> pq_peek N q = Some p"
proof -
  note n = pq_nat [OF ok]
  let ?c = "pq_count N q" let ?t = "unat (pq_tail q)"
  define q' where "q' = q\<lparr>pq_tail := (pq_tail q + 1) mod N\<rparr>"
  have c: "?c > 0" using l by (metis length_greater_0_conv list.discI pq_list_length)
  have tm: "unat (pq_tail q mod N) = ?t" using n(2) by (simp add: unat_mod)
  have t': "unat ((pq_tail q + 1) mod N) = (?t + 1) mod unat N"
    using ok unat_step1 unfolding pq_ok_def by blast
  have ok': "pq_ok N q'"
    using ok n(3) unfolding pq_ok_def q'_def by (simp add: word_nat t')
  have c': "pq_count N q' = ?c - 1"
    using c n(1,2,3,6) pq_nat(6) [OF ok'] 
    by (simp add: q'_def pq_step_nat(2) [OF ok]) (auto split: if_splits)
  have u: "[0..<?c] = 0 # map Suc [0..<?c - 1]" using c by (metis Suc_diff_1 map_Suc_upt upt_conv_Cons)
  have "p # ps = pq_queue q ! ?t # map (\<lambda>k. pq_queue q ! ((?t + Suc k) mod unat N)) [0..<?c - 1]"
    using l n(2) unfolding pq_list_def u by (simp add: comp_def)
  moreover have "pq_list N q' = map (\<lambda>k. pq_queue q ! ((?t + Suc k) mod unat N)) [0..<?c - 1]"
    unfolding pq_list_def c' by (simp add: q'_def t' mod_add_left_eq)
  moreover have "pq_peek N q = Some (pq_queue q ! ?t)"
    using n(2,4) tm by (simp add: pq_peek_def)
  ultimately show ?thesis using ok' by (auto simp: pq_get_def q'_def)
qed

section \<open>The contract of a bounded queue\<close>

locale bounded_fifo =
  fixes ok :: "'q \<Rightarrow> bool" and abs :: "'q \<Rightarrow> 'p list" and cap :: nat
    and add_op :: "'p \<Rightarrow> 'q \<Rightarrow> (bool \<times> 'q) option"
    and get_op :: "'q \<Rightarrow> ('p \<times> 'q) option"
    and empty_op full_op single_op slot_op :: "'q \<Rightarrow> bool"
    and slots_op :: "'q \<Rightarrow> u32"
  assumes bounded: "ok q \<Longrightarrow> length (abs q) \<le> cap"
    and empty_iff: "ok q \<Longrightarrow> empty_op q \<longleftrightarrow> abs q = []"
    and full_iff: "ok q \<Longrightarrow> full_op q \<longleftrightarrow> length (abs q) = cap"
    and single_iff: "ok q \<Longrightarrow> single_op q \<longleftrightarrow> length (abs q) = 1"
    and slot_iff: "ok q \<Longrightarrow> slot_op q \<longleftrightarrow> length (abs q) + 1 = cap"
    and slots: "ok q \<Longrightarrow> unat (slots_op q) = cap - length (abs q)"
    and add_full: "ok q \<Longrightarrow> full_op q \<Longrightarrow> add_op p q = Some (False, q)"
    and add: "ok q \<Longrightarrow> \<not> full_op q \<Longrightarrow>
      \<exists>q'. add_op p q = Some (True, q') \<and> ok q' \<and> abs q' = abs q @ [p]"
    and get: "ok q \<Longrightarrow> abs q = p # ps \<Longrightarrow> \<exists>q'. get_op q = Some (p, q') \<and> ok q' \<and> abs q' = ps"
begin

lemma get_nonempty:
  assumes "ok q" "\<not> empty_op q"
  obtains q' where "get_op q = Some (hd (abs q), q')" "ok q'" "abs q' = tl (abs q)"
  using assms get [of q "hd (abs q)" "tl (abs q)"] by (auto simp: empty_iff)

text \<open>Slots that are reported free can be used: that many additions succeed in a row.\<close>

primrec add_all :: "'p list \<Rightarrow> 'q \<Rightarrow> 'q option" where
  "add_all [] q = Some q"
| "add_all (p # ps) q = (case add_op p q of Some (True, q') \<Rightarrow> add_all ps q' | _ \<Rightarrow> None)"

lemma slots_usable:
  "ok q \<Longrightarrow> length ps \<le> unat (slots_op q) \<Longrightarrow> \<exists>q'. add_all ps q = Some q' \<and> ok q' \<and> abs q' = abs q @ ps"
proof (induction ps arbitrary: q)
  case (Cons p ps)
  then have "\<not> full_op q" using bounded [of q] by (auto simp: full_iff slots)
  with add [OF Cons.prems(1), of p] obtain q' where
    q': "add_op p q = Some (True, q')" "ok q'" "abs q' = abs q @ [p]" by blast
  with Cons.prems have "length ps \<le> unat (slots_op q')" by (simp add: slots)
  with Cons.IH [OF q'(2)] q' show ?case by auto
qed simp

end

lemma pq_bounded_fifo:
  assumes N: "size_ok N"
  shows "bounded_fifo (pq_ok N) (pq_list N) (unat N - 1) (pq_add N) (pq_get N) pq_empty (pq_full N)
    (single_element N) (single_slot_free N) (slots_free N)"
proof
  fix q p ps
  assume ok: "pq_ok N q"
  note n = pq_nat(3,7) [OF ok]
  show "length (pq_list N q) \<le> unat N - 1" using n by simp
  show "pq_empty q \<longleftrightarrow> pq_list N q = []"
    by (simp add: pq_empty_iff [OF ok] flip: length_0_conv)
  show "pq_full N q \<longleftrightarrow> length (pq_list N q) = unat N - 1" by (simp add: pq_full_iff [OF ok])
  show "single_element N q \<longleftrightarrow> length (pq_list N q) = 1" by (simp add: single_element_iff [OF ok])
  show "single_slot_free N q \<longleftrightarrow> length (pq_list N q) + 1 = unat N - 1"
    using n by (auto simp: single_slot_free_iff [OF ok])
  show "unat (slots_free N q) = unat N - 1 - length (pq_list N q)" by (simp add: slots_free_eq [OF ok])
  show "pq_full N q \<Longrightarrow> pq_add N p q = Some (False, q)" by (simp add: pq_add_def)
  show "\<not> pq_full N q \<Longrightarrow> \<exists>q'. pq_add N p q = Some (True, q') \<and> pq_ok N q' \<and> pq_list N q' = pq_list N q @ [p]"
    by (rule pq_add_spec [OF ok])
  show "pq_list N q = p # ps \<Longrightarrow> \<exists>q'. pq_get N q = Some (p, q') \<and> pq_ok N q' \<and> pq_list N q' = ps"
    using pq_get_spec [OF ok] by blast
qed

text \<open>The submit and acknowledgement queues of the default policy.\<close>

interpretation dq: bounded_fifo "pq_ok 64" "pq_list 64" "unat (64 :: u32) - 1" "pq_add 64" "pq_get 64" pq_empty
  "pq_full 64" "single_element 64" "single_slot_free 64" "slots_free 64"
  by (rule pq_bounded_fifo) (simp add: size_ok_def)

end
