(* ===== verification/Packet_Stream.thy ===== *)
theory Packet_Stream
  imports Packet_Queue
begin

text \<open>
  \<^verbatim>\<open>os/include/os/packet_stream.h\<close>, second part: the transmitter and receiver ends of a queue
  with their signals, the layout of the transport dataspace, and the source and sink of a packet
  stream. A signal submission appends the context of the signal transmitter to a log. The packet
  allocator of a source, an abstract \<^verbatim>\<open>Range_allocator\<close>, is an argument of the two operations
  that call it.
\<close>

section \<open>Transmitter\<close>

datatype stream_error =
  Saturated_tx_queue | Empty_rx_queue | Transport_dataspace_too_small | Invalid_packet
| Packet_alloc_failed | Saturated_submit_queue | Empty_ack_queue | Saturated_ack_queue
| Empty_submit_queue | Wild_access

type_synonym signal_log = "nat option list"

record transmitter =
  rx_ready :: "nat option"
  tx_wakeup_needed :: bool
  tx_log :: signal_log

definition transmitter_init :: transmitter where
  "transmitter_init = \<lparr>rx_ready = None, tx_wakeup_needed = False, tx_log = []\<rparr>"

definition tx_submit :: "transmitter \<Rightarrow> transmitter" where
  "tx_submit t = t\<lparr>tx_log := tx_log t @ [rx_ready t]\<rparr>"

definition register_rx_ready_cap :: "nat \<Rightarrow> transmitter \<times> pqueue \<Rightarrow> transmitter \<times> pqueue" where
  "register_rx_ready_cap cap = (\<lambda>(t, q).
     let t1 = t\<lparr>rx_ready := Some cap\<rparr>
     in (if \<not> pq_empty q then tx_submit t1 else t1, q))"

definition ready_for_tx :: "u32 \<Rightarrow> transmitter \<times> pqueue \<Rightarrow> bool" where
  "ready_for_tx N = (\<lambda>(t, q). \<not> pq_full N q)"

definition tx :: "u32 \<Rightarrow> packet_descriptor \<Rightarrow> transmitter \<times> pqueue \<Rightarrow> stream_error + transmitter \<times> pqueue" where
  "tx N p = (\<lambda>(t, q).
     if pq_full N q then Inl Saturated_tx_queue
     else case pq_add N p q of
       None \<Rightarrow> Inl Wild_access
     | Some (_, q') \<Rightarrow> Inr (if single_element N q' then tx_submit t else t, q'))"

definition try_tx ::
    "u32 \<Rightarrow> packet_descriptor \<Rightarrow> transmitter \<times> pqueue \<Rightarrow> stream_error + bool \<times> transmitter \<times> pqueue" where
  "try_tx N p = (\<lambda>(t, q).
     if pq_full N q then Inr (False, t, q)
     else case pq_add N p q of
       None \<Rightarrow> Inl Wild_access
     | Some (_, q') \<Rightarrow>
         Inr (True, if single_element N q' then t\<lparr>tx_wakeup_needed := True\<rparr> else t, q'))"

definition tx_wakeup :: "transmitter \<Rightarrow> bool \<times> transmitter" where
  "tx_wakeup t =
     (if tx_wakeup_needed t then (True, (tx_submit t)\<lparr>tx_wakeup_needed := False\<rparr>)
      else (False, t\<lparr>tx_wakeup_needed := False\<rparr>))"

definition tx_slots_free :: "u32 \<Rightarrow> transmitter \<times> pqueue \<Rightarrow> u32" where
  "tx_slots_free N = (\<lambda>(t, q). slots_free N q)"

section \<open>Receiver\<close>

record receiver =
  tx_ready :: "nat option"
  rx_wakeup_needed :: bool
  rx_log :: signal_log

definition receiver_init :: receiver where
  "receiver_init = \<lparr>tx_ready = None, rx_wakeup_needed = False, rx_log = []\<rparr>"

definition rx_submit :: "receiver \<Rightarrow> receiver" where
  "rx_submit r = r\<lparr>rx_log := rx_log r @ [tx_ready r]\<rparr>"

definition register_tx_ready_cap :: "nat \<Rightarrow> receiver \<times> pqueue \<Rightarrow> receiver \<times> pqueue" where
  "register_tx_ready_cap cap = (\<lambda>(r, q).
     let r1 = r\<lparr>tx_ready := Some cap\<rparr>
     in (if \<not> pq_empty q then rx_submit r1 else r1, q))"

definition ready_for_rx :: "receiver \<times> pqueue \<Rightarrow> bool" where
  "ready_for_rx = (\<lambda>(r, q). \<not> pq_empty q)"

definition rx :: "u32 \<Rightarrow> receiver \<times> pqueue \<Rightarrow> stream_error + packet_descriptor \<times> receiver \<times> pqueue" where
  "rx N = (\<lambda>(r, q).
     if pq_empty q then Inl Empty_rx_queue
     else case pq_get N q of
       None \<Rightarrow> Inl Wild_access
     | Some (p, q') \<Rightarrow> Inr (p, if single_slot_free N q' then rx_submit r else r, q'))"

definition try_rx :: "u32 \<Rightarrow> receiver \<times> pqueue \<Rightarrow> stream_error + packet_descriptor \<times> receiver \<times> pqueue" where
  "try_rx N = (\<lambda>(r, q).
     case (if \<not> pq_empty q then pq_get N q else Some (null_packet, q)) of
       None \<Rightarrow> Inl Wild_access
     | Some (p, q') \<Rightarrow>
         Inr (p, if single_slot_free N q' then r\<lparr>rx_wakeup_needed := True\<rparr> else r, q'))"

definition rx_wakeup :: "bool \<Rightarrow> receiver \<Rightarrow> bool \<times> receiver" where
  "rx_wakeup omit_signal r =
     (if rx_wakeup_needed r \<and> \<not> omit_signal then (True, (rx_submit r)\<lparr>rx_wakeup_needed := False\<rparr>)
      else (False, r\<lparr>rx_wakeup_needed := False\<rparr>))"

definition rx_peek :: "u32 \<Rightarrow> receiver \<times> pqueue \<Rightarrow> stream_error + packet_descriptor" where
  "rx_peek N = (\<lambda>(r, q). case pq_peek N q of None \<Rightarrow> Inl Wild_access | Some p \<Rightarrow> Inr p)"

section \<open>The transport dataspace\<close>

record stream_base =
  ds_local_base :: addr_t
  ds_size :: size_t
  submit_queue_offset :: addr_t
  ack_queue_offset :: addr_t
  bulk_buffer_offset :: addr_t
  bulk_buffer_size :: size_t

text \<open>The local address and the size of the dataspace are what region map and dataspace report.\<close>

definition base_init :: "addr_t \<Rightarrow> size_t \<Rightarrow> size_t \<Rightarrow> size_t \<Rightarrow> stream_error + stream_base" where
  "base_init local_base sz submit_queue_size ack_queue_size =
     (let ack_off = 0 + submit_queue_size;
          bulk_off = align_addr (ack_off + ack_queue_size) 6
      in if bulk_off \<ge> sz then Inl Transport_dataspace_too_small
         else Inr \<lparr>ds_local_base = local_base, ds_size = sz, submit_queue_offset = 0,
                   ack_queue_offset = ack_off, bulk_buffer_offset = bulk_off,
                   bulk_buffer_size = sz - bulk_off\<rparr>)"

definition submit_queue_local_base :: "stream_base \<Rightarrow> addr_t" where
  "submit_queue_local_base b = ds_local_base b + submit_queue_offset b"

definition ack_queue_local_base :: "stream_base \<Rightarrow> addr_t" where
  "ack_queue_local_base b = ds_local_base b + ack_queue_offset b"

definition bulk_buffer_local_base :: "stream_base \<Rightarrow> addr_t" where
  "bulk_buffer_local_base b = ds_local_base b + bulk_buffer_offset b"

text \<open>
  Offsets are signed 64-bit integers and sizes unsigned ones: the first two comparisons are signed,
  the sum of offset and size in the third is unsigned and wraps.
\<close>

definition packet_valid :: "stream_base \<Rightarrow> packet_descriptor \<Rightarrow> bool" where
  "packet_valid b p \<longleftrightarrow> pd_size p = 0 \<or>
     (sint (pd_offset p) \<ge> sint (bulk_buffer_offset b) \<and>
      sint (pd_offset p) < sint (bulk_buffer_offset b + bulk_buffer_size b) \<and>
      pd_offset p + pd_size p \<le> bulk_buffer_offset b + bulk_buffer_size b)"

text \<open>\<open>None\<close> is the null pointer; \<open>content_size\<close> is the size of the content type.\<close>

definition packet_content ::
    "size_t \<Rightarrow> stream_base \<Rightarrow> packet_descriptor \<Rightarrow> stream_error + addr_t option" where
  "packet_content content_size b p =
     (if pd_size p = 0 then Inr None
      else if \<not> packet_valid b p \<or> pd_size p < content_size then Inl Invalid_packet
      else Inr (Some (ds_local_base b + pd_offset p)))"

section \<open>Source\<close>

record source =
  so_base :: stream_base
  submit_transmitter :: transmitter
  ack_receiver :: receiver

record sink =
  si_base :: stream_base
  submit_receiver :: receiver
  ack_transmitter :: transmitter

text \<open>
  A packet stream: its two ends and the two queues in the dataspace that both map. \<open>SN\<close> and
  \<open>AN\<close> are the queue sizes of the policy.
\<close>

record stream =
  src :: source
  snk :: sink
  submit_queue :: pqueue
  ack_queue :: pqueue
  SN :: u32
  AN :: u32

definition source_construct :: "stream_base \<Rightarrow> stream \<Rightarrow> stream" where
  "source_construct b s =
     s\<lparr>submit_queue := pq_construct PRODUCER (submit_queue s),
       ack_queue := pq_construct CONSUMER (ack_queue s),
       src := \<lparr>so_base = b, submit_transmitter = transmitter_init, ack_receiver = receiver_init\<rparr>\<rparr>"

definition register_sigh_packet_avail :: "nat \<Rightarrow> stream \<Rightarrow> stream" where
  "register_sigh_packet_avail cap s =
     (case register_rx_ready_cap cap (submit_transmitter (src s), submit_queue s) of
        (t, q) \<Rightarrow> s\<lparr>src := (src s)\<lparr>submit_transmitter := t\<rparr>, submit_queue := q\<rparr>)"

definition register_sigh_ready_to_ack :: "nat \<Rightarrow> stream \<Rightarrow> stream" where
  "register_sigh_ready_to_ack cap s =
     (case register_tx_ready_cap cap (ack_receiver (src s), ack_queue s) of
        (r, q) \<Rightarrow> s\<lparr>src := (src s)\<lparr>ack_receiver := r\<rparr>, ack_queue := q\<rparr>)"

text \<open>\<open>alloc_aligned\<close> and \<open>free_op\<close> are the operations of the packet allocator.\<close>

definition alloc_packet ::
    "(size_t \<Rightarrow> nat \<Rightarrow> 'a \<Rightarrow> ('e + addr_t) \<times> 'a) \<Rightarrow> size_t \<Rightarrow> nat \<Rightarrow> 'a \<Rightarrow> (stream_error + packet_descriptor) \<times> 'a" where
  "alloc_packet alloc_aligned sz align a =
     (if sz = 0 then (Inr null_packet, a)
      else case alloc_aligned sz align a of
             (Inr base, a') \<Rightarrow> (Inr \<lparr>pd_offset = base, pd_size = sz\<rparr>, a')
           | (Inl _, a') \<Rightarrow> (Inl Packet_alloc_failed, a'))"

definition alloc_packet_attempt ::
    "(size_t \<Rightarrow> nat \<Rightarrow> 'a \<Rightarrow> ('e + addr_t) \<times> 'a) \<Rightarrow> size_t \<Rightarrow> nat \<Rightarrow> 'a \<Rightarrow> packet_descriptor option \<times> 'a" where
  "alloc_packet_attempt alloc_aligned sz align a =
     (if sz = 0 then (Some null_packet, a)
      else case alloc_aligned sz align a of
             (Inr base, a') \<Rightarrow> (Some \<lparr>pd_offset = base, pd_size = sz\<rparr>, a')
           | (Inl _, a') \<Rightarrow> (None, a'))"

definition release_packet :: "(addr_t \<Rightarrow> size_t \<Rightarrow> 'a \<Rightarrow> 'a) \<Rightarrow> packet_descriptor \<Rightarrow> 'a \<Rightarrow> 'a" where
  "release_packet free_op p a = (if pd_size p \<noteq> 0 then free_op (pd_offset p) (pd_size p) a else a)"

definition ready_to_submit :: "u32 \<Rightarrow> stream \<Rightarrow> bool" where
  "ready_to_submit count s \<longleftrightarrow> tx_slots_free (SN s) (submit_transmitter (src s), submit_queue s) \<ge> count"

definition submit_packet :: "packet_descriptor \<Rightarrow> stream \<Rightarrow> stream_error + stream" where
  "submit_packet p s =
     (if \<not> ready_to_submit 1 s then Inl Saturated_submit_queue
      else case tx (SN s) p (submit_transmitter (src s), submit_queue s) of
             Inl e \<Rightarrow> Inl e
           | Inr (t, q) \<Rightarrow> Inr (s\<lparr>src := (src s)\<lparr>submit_transmitter := t\<rparr>, submit_queue := q\<rparr>))"

definition try_submit_packet :: "packet_descriptor \<Rightarrow> stream \<Rightarrow> stream_error + bool \<times> stream" where
  "try_submit_packet p s =
     (case try_tx (SN s) p (submit_transmitter (src s), submit_queue s) of
        Inl e \<Rightarrow> Inl e
      | Inr (b, t, q) \<Rightarrow> Inr (b, s\<lparr>src := (src s)\<lparr>submit_transmitter := t\<rparr>, submit_queue := q\<rparr>))"

definition source_wakeup :: "stream \<Rightarrow> stream" where
  "source_wakeup s =
     (let (signalled, t) = tx_wakeup (submit_transmitter (src s));
          (_, r) = rx_wakeup signalled (ack_receiver (src s))
      in s\<lparr>src := (src s)\<lparr>submit_transmitter := t, ack_receiver := r\<rparr>\<rparr>)"

definition ack_avail :: "stream \<Rightarrow> bool" where
  "ack_avail s = ready_for_rx (ack_receiver (src s), ack_queue s)"

definition get_acked_packet :: "stream \<Rightarrow> stream_error + packet_descriptor \<times> stream" where
  "get_acked_packet s =
     (if \<not> ack_avail s then Inl Empty_ack_queue
      else case rx (AN s) (ack_receiver (src s), ack_queue s) of
             Inl e \<Rightarrow> Inl e
           | Inr (p, r, q) \<Rightarrow> Inr (p, s\<lparr>src := (src s)\<lparr>ack_receiver := r\<rparr>, ack_queue := q\<rparr>))"

definition try_get_acked_packet :: "stream \<Rightarrow> stream_error + packet_descriptor \<times> stream" where
  "try_get_acked_packet s =
     (case try_rx (AN s) (ack_receiver (src s), ack_queue s) of
        Inl e \<Rightarrow> Inl e
      | Inr (p, r, q) \<Rightarrow> Inr (p, s\<lparr>src := (src s)\<lparr>ack_receiver := r\<rparr>, ack_queue := q\<rparr>))"

section \<open>Sink\<close>

definition sink_construct :: "stream_base \<Rightarrow> stream \<Rightarrow> stream" where
  "sink_construct b s =
     s\<lparr>submit_queue := pq_construct CONSUMER (submit_queue s),
       ack_queue := pq_construct PRODUCER (ack_queue s),
       snk := \<lparr>si_base = b, submit_receiver = receiver_init, ack_transmitter = transmitter_init\<rparr>\<rparr>"

definition register_sigh_ack_avail :: "nat \<Rightarrow> stream \<Rightarrow> stream" where
  "register_sigh_ack_avail cap s =
     (case register_rx_ready_cap cap (ack_transmitter (snk s), ack_queue s) of
        (t, q) \<Rightarrow> s\<lparr>snk := (snk s)\<lparr>ack_transmitter := t\<rparr>, ack_queue := q\<rparr>)"

definition register_sigh_ready_to_submit :: "nat \<Rightarrow> stream \<Rightarrow> stream" where
  "register_sigh_ready_to_submit cap s =
     (case register_tx_ready_cap cap (submit_receiver (snk s), submit_queue s) of
        (r, q) \<Rightarrow> s\<lparr>snk := (snk s)\<lparr>submit_receiver := r\<rparr>, submit_queue := q\<rparr>)"

definition packet_avail :: "stream \<Rightarrow> bool" where
  "packet_avail s = ready_for_rx (submit_receiver (snk s), submit_queue s)"

definition get_packet :: "stream \<Rightarrow> stream_error + packet_descriptor \<times> stream" where
  "get_packet s =
     (if \<not> packet_avail s then Inl Empty_submit_queue
      else case rx (SN s) (submit_receiver (snk s), submit_queue s) of
             Inl e \<Rightarrow> Inl e
           | Inr (p, r, q) \<Rightarrow> Inr (p, s\<lparr>snk := (snk s)\<lparr>submit_receiver := r\<rparr>, submit_queue := q\<rparr>))"

definition try_get_packet :: "stream \<Rightarrow> stream_error + packet_descriptor \<times> stream" where
  "try_get_packet s =
     (case try_rx (SN s) (submit_receiver (snk s), submit_queue s) of
        Inl e \<Rightarrow> Inl e
      | Inr (p, r, q) \<Rightarrow> Inr (p, s\<lparr>snk := (snk s)\<lparr>submit_receiver := r\<rparr>, submit_queue := q\<rparr>))"

definition sink_wakeup :: "stream \<Rightarrow> stream" where
  "sink_wakeup s =
     (let (signalled, t) = tx_wakeup (ack_transmitter (snk s));
          (_, r) = rx_wakeup signalled (submit_receiver (snk s))
      in s\<lparr>snk := (snk s)\<lparr>ack_transmitter := t, submit_receiver := r\<rparr>\<rparr>)"

definition peek_packet :: "stream \<Rightarrow> stream_error + packet_descriptor" where
  "peek_packet s = rx_peek (SN s) (submit_receiver (snk s), submit_queue s)"

definition ready_to_ack :: "stream \<Rightarrow> bool" where
  "ready_to_ack s = ready_for_tx (AN s) (ack_transmitter (snk s), ack_queue s)"

definition ack_slots_free :: "stream \<Rightarrow> u32" where
  "ack_slots_free s = tx_slots_free (AN s) (ack_transmitter (snk s), ack_queue s)"

definition acknowledge_packet :: "packet_descriptor \<Rightarrow> stream \<Rightarrow> stream_error + stream" where
  "acknowledge_packet p s =
     (if ack_slots_free s = 0 then Inl Saturated_ack_queue
      else case tx (AN s) p (ack_transmitter (snk s), ack_queue s) of
             Inl e \<Rightarrow> Inl e
           | Inr (t, q) \<Rightarrow> Inr (s\<lparr>snk := (snk s)\<lparr>ack_transmitter := t\<rparr>, ack_queue := q\<rparr>))"

definition try_ack_packet :: "packet_descriptor \<Rightarrow> stream \<Rightarrow> stream_error + bool \<times> stream" where
  "try_ack_packet p s =
     (case try_tx (AN s) p (ack_transmitter (snk s), ack_queue s) of
        Inl e \<Rightarrow> Inl e
      | Inr (b, t, q) \<Rightarrow> Inr (b, s\<lparr>snk := (snk s)\<lparr>ack_transmitter := t\<rparr>, ack_queue := q\<rparr>))"

section \<open>Sequences of calls\<close>

text \<open>
  A call that throws leaves the stream as it was. The history records what the source submitted,
  what the sink took, what the sink acknowledged and what the source took of the acknowledgements.
  \<open>None\<close> is an access outside a queue array.
\<close>

datatype stream_call =
  Submit packet_descriptor | Try_submit packet_descriptor | Get_packet | Try_get
| Acknowledge packet_descriptor | Try_ack packet_descriptor | Get_acked | Try_get_acked
| Source_wakeup | Sink_wakeup | Register_packet_avail nat | Register_ready_to_ack nat
| Register_ack_avail nat | Register_ready_to_submit nat

record history =
  submitted :: "packet_descriptor list"
  taken :: "packet_descriptor list"
  acked :: "packet_descriptor list"
  ack_taken :: "packet_descriptor list"

definition after :: "stream \<times> history \<Rightarrow> stream_error + 'r \<Rightarrow> ('r \<Rightarrow> stream \<times> history) \<Rightarrow> (stream \<times> history) option" where
  "after sh res f = (case res of
     Inl e \<Rightarrow> if e = Wild_access then None else Some sh
   | Inr r \<Rightarrow> Some (f r))"

fun stream_exec :: "stream_call \<Rightarrow> stream \<times> history \<Rightarrow> (stream \<times> history) option" where
  "stream_exec (Submit p) (s, h) =
     after (s, h) (submit_packet p s) (\<lambda>s'. (s', h\<lparr>submitted := submitted h @ [p]\<rparr>))"
| "stream_exec (Try_submit p) (s, h) =
     after (s, h) (try_submit_packet p s)
       (\<lambda>(b, s'). (s', if b then h\<lparr>submitted := submitted h @ [p]\<rparr> else h))"
| "stream_exec Get_packet (s, h) =
     after (s, h) (get_packet s) (\<lambda>(p, s'). (s', h\<lparr>taken := taken h @ [p]\<rparr>))"
| "stream_exec Try_get (s, h) =
     after (s, h) (try_get_packet s)
       (\<lambda>(p, s'). (s', if packet_avail s then h\<lparr>taken := taken h @ [p]\<rparr> else h))"
| "stream_exec (Acknowledge p) (s, h) =
     after (s, h) (acknowledge_packet p s) (\<lambda>s'. (s', h\<lparr>acked := acked h @ [p]\<rparr>))"
| "stream_exec (Try_ack p) (s, h) =
     after (s, h) (try_ack_packet p s)
       (\<lambda>(b, s'). (s', if b then h\<lparr>acked := acked h @ [p]\<rparr> else h))"
| "stream_exec Get_acked (s, h) =
     after (s, h) (get_acked_packet s) (\<lambda>(p, s'). (s', h\<lparr>ack_taken := ack_taken h @ [p]\<rparr>))"
| "stream_exec Try_get_acked (s, h) =
     after (s, h) (try_get_acked_packet s)
       (\<lambda>(p, s'). (s', if ack_avail s then h\<lparr>ack_taken := ack_taken h @ [p]\<rparr> else h))"
| "stream_exec Source_wakeup (s, h) = Some (source_wakeup s, h)"
| "stream_exec Sink_wakeup (s, h) = Some (sink_wakeup s, h)"
| "stream_exec (Register_packet_avail c) (s, h) = Some (register_sigh_packet_avail c s, h)"
| "stream_exec (Register_ready_to_ack c) (s, h) = Some (register_sigh_ready_to_ack c s, h)"
| "stream_exec (Register_ack_avail c) (s, h) = Some (register_sigh_ack_avail c s, h)"
| "stream_exec (Register_ready_to_submit c) (s, h) = Some (register_sigh_ready_to_submit c s, h)"

primrec stream_run :: "stream_call list \<Rightarrow> stream \<times> history \<Rightarrow> (stream \<times> history) option" where
  "stream_run [] sh = Some sh"
| "stream_run (c # cs) sh = do { sh' \<leftarrow> stream_exec c sh; stream_run cs sh' }"

definition no_history :: history where
  "no_history = \<lparr>submitted = [], taken = [], acked = [], ack_taken = []\<rparr>"

subsection \<open>FIFO delivery\<close>

definition stream_ok :: "stream \<Rightarrow> bool" where
  "stream_ok s \<longleftrightarrow> pq_ok (SN s) (submit_queue s) \<and> pq_ok (AN s) (ack_queue s)"

definition fifo_inv :: "stream \<times> history \<Rightarrow> bool" where
  "fifo_inv = (\<lambda>(s, h). stream_ok s \<and>
     submitted h = taken h @ pq_list (SN s) (submit_queue s) \<and>
     acked h = ack_taken h @ pq_list (AN s) (ack_queue s))"

lemma fifo_of: "pq_ok N q \<Longrightarrow> bounded_fifo (pq_ok N) (pq_list N) (unat N - 1) (pq_add N) (pq_get N)
    pq_empty (pq_full N) (single_element N) (single_slot_free N) (slots_free N)"
  by (rule pq_bounded_fifo) (simp add: pq_ok_def)

lemma slots_zero: "pq_ok N q \<Longrightarrow> slots_free N q = 0 \<longleftrightarrow> pq_full N q"
  using slots_free_eq [of N q] pq_full_iff [of N q] pq_nat(7) [of N q]
  by (auto simp: word_unat_eq_iff)

lemma tx_spec:
  assumes "pq_ok N q" "\<not> pq_full N q"
  shows "\<exists>t' q'. tx N p (t, q) = Inr (t', q') \<and> pq_ok N q' \<and> pq_list N q' = pq_list N q @ [p]"
  using pq_add_spec [OF assms, of p] assms(2) by (auto simp: tx_def)

lemma try_tx_spec:
  assumes "pq_ok N q"
  shows "\<exists>t' q'. try_tx N p (t, q) = Inr (\<not> pq_full N q, t', q') \<and> pq_ok N q' \<and>
    pq_list N q' = pq_list N q @ (if pq_full N q then [] else [p])"
  using pq_add_spec [OF assms, of p] assms by (auto simp: try_tx_def)

lemma pq_get_nonempty:
  assumes "pq_ok N q" "\<not> pq_empty q"
  shows "\<exists>q'. pq_get N q = Some (hd (pq_list N q), q') \<and> pq_ok N q' \<and> pq_list N q' = tl (pq_list N q) \<and>
    hd (pq_list N q) # tl (pq_list N q) = pq_list N q"
proof -
  have "pq_list N q \<noteq> []" using bounded_fifo.empty_iff [OF fifo_of [OF assms(1)] assms(1)] assms(2) by simp
  then show ?thesis
    using bounded_fifo.get [OF fifo_of [OF assms(1)] assms(1), of "hd (pq_list N q)" "tl (pq_list N q)"]
    by simp
qed

lemma rx_spec:
  assumes "pq_ok N q" "\<not> pq_empty q"
  shows "\<exists>r' q'. rx N (r, q) = Inr (hd (pq_list N q), r', q') \<and> pq_ok N q' \<and>
    pq_list N q = hd (pq_list N q) # pq_list N q'"
  using pq_get_nonempty [OF assms] assms(2) by (auto simp: rx_def)

lemma try_rx_spec:
  assumes "pq_ok N q"
  shows "\<exists>r' q'. try_rx N (r, q) = Inr (if pq_empty q then null_packet else hd (pq_list N q), r', q') \<and>
    pq_ok N q' \<and> pq_list N q = (if pq_empty q then pq_list N q' else hd (pq_list N q) # pq_list N q')"
  using pq_get_nonempty [OF assms] assms by (cases "pq_empty q") (auto simp: try_rx_def)

abbreviation fifo_step where
  "fifo_step c s h \<equiv> \<exists>s' h'. stream_exec c (s, h) = Some (s', h') \<and> fifo_inv (s', h') \<and> SN s' = SN s \<and> AN s' = AN s"

lemmas fifo_step_defs = after_def fifo_inv_def stream_ok_def

lemma submit_fifo:
  assumes inv: "fifo_inv (s, h)"
  shows "fifo_step (Submit p) s h"
proof -
  have sq: "pq_ok (SN s) (submit_queue s)" using inv by (simp add: fifo_inv_def stream_ok_def)
  have one: "1 \<le> slots_free (SN s) (submit_queue s) \<longleftrightarrow> \<not> pq_full (SN s) (submit_queue s)"
    using slots_zero [OF sq] by (auto simp: word_le_nat_alt word_unat_eq_iff Suc_le_eq)
  show ?thesis
  proof (cases "pq_full (SN s) (submit_queue s)")
    case True
    with inv show ?thesis
      by (simp add: after_def submit_packet_def ready_to_submit_def tx_slots_free_def one)
  next
    case False
    with tx_spec [OF sq False, of p "submit_transmitter (src s)"] inv one show ?thesis
      by (auto simp: fifo_step_defs submit_packet_def ready_to_submit_def tx_slots_free_def)
  qed
qed

lemma get_packet_fifo:
  assumes inv: "fifo_inv (s, h)"
  shows "fifo_step Get_packet s h"
proof (cases "pq_empty (submit_queue s)")
  case True
  with inv show ?thesis by (simp add: after_def get_packet_def packet_avail_def ready_for_rx_def)
next
  case False
  have "pq_ok (SN s) (submit_queue s)" using inv by (simp add: fifo_inv_def stream_ok_def)
  with False rx_spec [of "SN s" "submit_queue s" "submit_receiver (snk s)"] inv show ?thesis
    by (auto simp: fifo_step_defs get_packet_def packet_avail_def ready_for_rx_def)
qed

lemma acknowledge_fifo:
  assumes inv: "fifo_inv (s, h)"
  shows "fifo_step (Acknowledge p) s h"
proof -
  have aq: "pq_ok (AN s) (ack_queue s)" using inv by (simp add: fifo_inv_def stream_ok_def)
  show ?thesis
  proof (cases "pq_full (AN s) (ack_queue s)")
    case True
    with inv slots_zero [OF aq] show ?thesis
      by (simp add: after_def acknowledge_packet_def ack_slots_free_def tx_slots_free_def)
  next
    case False
    with tx_spec [OF aq False, of p "ack_transmitter (snk s)"] inv slots_zero [OF aq] show ?thesis
      by (auto simp: fifo_step_defs acknowledge_packet_def ack_slots_free_def tx_slots_free_def)
  qed
qed

lemma get_acked_fifo:
  assumes inv: "fifo_inv (s, h)"
  shows "fifo_step Get_acked s h"
proof (cases "pq_empty (ack_queue s)")
  case True
  with inv show ?thesis by (simp add: after_def get_acked_packet_def ack_avail_def ready_for_rx_def)
next
  case False
  have "pq_ok (AN s) (ack_queue s)" using inv by (simp add: fifo_inv_def stream_ok_def)
  with False rx_spec [of "AN s" "ack_queue s" "ack_receiver (src s)"] inv show ?thesis
    by (auto simp: fifo_step_defs get_acked_packet_def ack_avail_def ready_for_rx_def)
qed

lemma stream_exec_fifo:
  assumes inv: "fifo_inv (s, h)"
  shows "fifo_step c s h"
proof -
  have sq: "pq_ok (SN s) (submit_queue s)" and aq: "pq_ok (AN s) (ack_queue s)"
    using inv by (auto simp: fifo_inv_def stream_ok_def)
  show ?thesis
  proof (cases c)
    case (Try_submit p)
    with try_tx_spec [OF sq, of p "submit_transmitter (src s)"] inv show ?thesis
      by (auto simp: fifo_step_defs try_submit_packet_def)
  next
    case Try_get
    with try_rx_spec [OF sq, of "submit_receiver (snk s)"] inv show ?thesis
      by (auto simp: fifo_step_defs try_get_packet_def packet_avail_def ready_for_rx_def split: if_splits)
  next
    case (Try_ack p)
    with try_tx_spec [OF aq, of p "ack_transmitter (snk s)"] inv show ?thesis
      by (auto simp: fifo_step_defs try_ack_packet_def)
  next
    case Try_get_acked
    with try_rx_spec [OF aq, of "ack_receiver (src s)"] inv show ?thesis
      by (auto simp: fifo_step_defs try_get_acked_packet_def ack_avail_def ready_for_rx_def split: if_splits)
  qed (use inv submit_fifo get_packet_fifo acknowledge_fifo get_acked_fifo in \<open>simp_all add: fifo_step_defs
      source_wakeup_def sink_wakeup_def register_sigh_packet_avail_def register_sigh_ready_to_ack_def
      register_sigh_ack_avail_def register_sigh_ready_to_submit_def
      register_rx_ready_cap_def register_tx_ready_cap_def Let_def split_beta\<close>)
qed

lemma stream_run_fifo:
  "fifo_inv (s, h) \<Longrightarrow>
    \<exists>s' h'. stream_run cs (s, h) = Some (s', h') \<and> fifo_inv (s', h') \<and> SN s' = SN s \<and> AN s' = AN s"
proof (induction cs arbitrary: s h)
  case (Cons c cs)
  from stream_exec_fifo [OF Cons.prems, of c] obtain s1 h1 where
    "stream_exec c (s, h) = Some (s1, h1)" "fifo_inv (s1, h1)" "SN s1 = SN s" "AN s1 = AN s" by blast
  with Cons.IH [of s1 h1] show ?case by auto
qed simp

definition mem_ok :: "stream \<Rightarrow> bool" where
  "mem_ok s \<longleftrightarrow> length (pq_queue (submit_queue s)) = unat (SN s) \<and> length (pq_queue (ack_queue s)) = unat (AN s)"

lemma construct_fifo:
  assumes "mem_ok s" "size_ok (SN s)" "size_ok (AN s)"
  shows "fifo_inv (sink_construct bk (source_construct bs s), no_history)"
  using assms by (auto simp: fifo_inv_def stream_ok_def sink_construct_def source_construct_def mem_ok_def
      pq_construct_def pq_ok_def pq_list_def pq_count_def no_history_def size_ok_def word_nat)

subsection \<open>Hostile peers\<close>

text \<open>
  Head and tail are in memory that the peer can write, so nothing may depend on their values for
  memory safety.
\<close>

lemma mod_in_queue: "N \<noteq> 0 \<Longrightarrow> unat (x mod N :: u32) < unat N"
  by (simp add: unat_mod unat_gt_0)

lemma pq_safe:
  assumes "N \<noteq> 0" "length (pq_queue q) = unat N"
  shows "pq_add N p q \<noteq> None" "pq_get N q \<noteq> None" "pq_peek N q \<noteq> None"
proof -
  have "\<not> unat N \<le> unat (x mod N)" for x using mod_in_queue [OF assms(1)] by (simp add: not_le)
  then show "pq_add N p q \<noteq> None" "pq_get N q \<noteq> None" "pq_peek N q \<noteq> None"
    by (auto simp: pq_add_def pq_get_def pq_peek_def assms(2))
qed

lemma pq_safe_length:
  "pq_add N p q = Some (b, q') \<Longrightarrow> length (pq_queue q') = length (pq_queue q)"
  "pq_get N q = Some (p, q') \<Longrightarrow> length (pq_queue q') = length (pq_queue q)"
  by (auto simp: pq_add_def pq_get_def bind_eq_Some_conv split: if_splits)

lemma end_safe:
  assumes "N \<noteq> 0" "length (pq_queue q) = unat N"
  shows "tx N p (t, q) \<noteq> Inl Wild_access" "try_tx N p (t, q) \<noteq> Inl Wild_access"
    "rx N (r, q) \<noteq> Inl Wild_access" "try_rx N (r, q) \<noteq> Inl Wild_access" "rx_peek N (r, q) \<noteq> Inl Wild_access"
  using pq_safe(1) [OF assms, of p] pq_safe(2,3) [OF assms]
  by (auto simp: tx_def try_tx_def rx_def try_rx_def rx_peek_def split: option.splits)

lemma end_safe_length:
  "tx N p (t, q) = Inr (t', q') \<Longrightarrow> length (pq_queue q') = length (pq_queue q)"
  "try_tx N p (t, q) = Inr (b, t', q') \<Longrightarrow> length (pq_queue q') = length (pq_queue q)"
  "rx N (r, q) = Inr (p', r', q') \<Longrightarrow> length (pq_queue q') = length (pq_queue q)"
  "try_rx N (r, q) = Inr (p', r', q') \<Longrightarrow> length (pq_queue q') = length (pq_queue q)"
  by (auto simp: tx_def try_tx_def rx_def try_rx_def pq_safe_length split: option.splits if_splits)

lemmas stream_defs = submit_packet_def try_submit_packet_def get_packet_def try_get_packet_def
  acknowledge_packet_def try_ack_packet_def get_acked_packet_def try_get_acked_packet_def
  source_wakeup_def sink_wakeup_def register_sigh_packet_avail_def register_sigh_ready_to_ack_def
  register_sigh_ack_avail_def register_sigh_ready_to_submit_def register_rx_ready_cap_def
  register_tx_ready_cap_def

lemma stream_exec_safe:
  assumes "mem_ok s" "SN s \<noteq> 0" "AN s \<noteq> 0"
  shows "\<exists>s' h'. stream_exec c (s, h) = Some (s', h') \<and> mem_ok s' \<and> SN s' = SN s \<and> AN s' = AN s"
proof -
  from assms have l: "length (pq_queue (submit_queue s)) = unat (SN s)"
    "length (pq_queue (ack_queue s)) = unat (AN s)" by (auto simp: mem_ok_def)
  note safe = end_safe [OF assms(2) l(1)] end_safe [OF assms(3) l(2)]
  show ?thesis
    using l safe by (cases c)
      (auto simp: after_def stream_defs mem_ok_def Let_def end_safe_length split_beta
        split: sum.splits)
qed

text \<open>Calls interleaved with arbitrary writes of the peer to the shared heads and tails.\<close>

datatype hostile_step = Call stream_call | Scribble u32 u32 u32 u32

fun hostile_exec :: "hostile_step \<Rightarrow> stream \<times> history \<Rightarrow> (stream \<times> history) option" where
  "hostile_exec (Call c) sh = stream_exec c sh"
| "hostile_exec (Scribble a b c d) (s, h) =
     Some (s\<lparr>submit_queue := (submit_queue s)\<lparr>pq_head := a, pq_tail := b\<rparr>,
             ack_queue := (ack_queue s)\<lparr>pq_head := c, pq_tail := d\<rparr>\<rparr>, h)"

primrec hostile_run :: "hostile_step list \<Rightarrow> stream \<times> history \<Rightarrow> (stream \<times> history) option" where
  "hostile_run [] sh = Some sh"
| "hostile_run (c # cs) sh = do { sh' \<leftarrow> hostile_exec c sh; hostile_run cs sh' }"

lemma hostile_run_safe:
  "mem_ok s \<Longrightarrow> SN s \<noteq> 0 \<Longrightarrow> AN s \<noteq> 0 \<Longrightarrow> \<exists>s' h'. hostile_run cs (s, h) = Some (s', h') \<and> mem_ok s'"
proof (induction cs arbitrary: s h)
  case (Cons c cs)
  show ?case
  proof (cases c)
    case (Call d)
    with stream_exec_safe [OF Cons.prems, of d h] Cons.prems Cons.IH show ?thesis by force
  next
    case (Scribble a b c d)
    with Cons.prems Cons.IH show ?thesis by (simp add: mem_ok_def)
  qed
qed simp

subsection \<open>Packet bounds\<close>

lemma sint_nonneg:
  assumes "unat (x :: addr_t) < 2 ^ 63"
  shows "sint x = int (unat x)"
proof -
  have u: "uint x = int (unat x)" by simp
  have "uint x < 2 ^ 63" unfolding u using assms by (metis of_nat_less_iff of_nat_numeral of_nat_power)
  then have "signed_take_bit 63 (uint x) = uint x"
    by (intro signed_take_bit_int_eq_self) (simp_all add: order.trans [OF _ uint_ge_0])
  then show ?thesis by (simp add: sint_uint)
qed

lemma unat_of_sint_nonneg:
  assumes "0 \<le> sint (x :: addr_t)"
  shows "unat x < 2 ^ 63"
proof -
  have "\<not> bit x 63" using assms bit_last_iff [of x] by simp
  then have "x = take_bit 63 x"
    by (intro bit_word_eqI) (auto simp: bit_take_bit_iff less_Suc_eq eval_nat_numeral)
  then have "unat x = take_bit 63 (unat x)" by (metis unsigned_take_bit_eq)
  also have "\<dots> < 2 ^ 63" by (rule take_bit_nat_less_exp)
  finally show ?thesis .
qed

lemma packet_valid_bounds:
  assumes v: "packet_valid b p" "pd_size p \<noteq> 0" and sz: "unat (pd_size p) \<le> 2 ^ 63"
    and bb: "unat (bulk_buffer_offset b) + unat (bulk_buffer_size b) < 2 ^ 63"
  shows "unat (bulk_buffer_offset b) \<le> unat (pd_offset p) \<and>
    unat (pd_offset p) + unat (pd_size p) \<le> unat (bulk_buffer_offset b) + unat (bulk_buffer_size b)"
proof -
  let ?o = "pd_offset p" let ?b = "bulk_buffer_offset b" let ?z = "bulk_buffer_size b"
  have lt: "(2 :: nat) ^ 63 + 2 ^ 63 = 2 ^ 64" by simp
  have b: "unat ?b < 2 ^ 63" using bb by linarith
  have sb: "sint ?b = int (unat ?b)" by (rule sint_nonneg [OF b])
  from v have ge: "sint ?o \<ge> sint ?b" and le: "?o + pd_size p \<le> ?b + ?z"
    by (auto simp: packet_valid_def)
  have "0 \<le> sint ?o" using ge sb by linarith
  then have o: "unat ?o < 2 ^ 63" by (rule unat_of_sint_nonneg)
  with ge sb have "unat ?b \<le> unat ?o" using sint_nonneg [OF o] by linarith
  moreover have "unat (?o + pd_size p) = unat ?o + unat (pd_size p)"
    using o sz lt by (intro unat_add_no_wrap) simp
  moreover have "unat (?b + ?z) = unat ?b + unat ?z"
    using bb lt by (intro unat_add_no_wrap) simp
  ultimately show ?thesis using le by (simp add: word_nat)
qed

lemma align_addr_ge:
  assumes "unat x + 64 < 2 ^ 64"
  shows "unat x \<le> unat (align_addr x 6)"
proof -
  have e: "align_addr x 6 = (x + 63) AND NOT (push_bit 6 1 - 1)" by (simp add: align_addr_def)
  have "unat (x + 63) = unat x + 63"
    using assms by (subst unat_add_no_wrap) simp_all
  then have "unat (align_addr x 6) = (unat x + 63) div 2 ^ 6 * 2 ^ 6"
    unfolding e using align_down [of 6 "x + 63"] by simp
  then show ?thesis by simp
qed

lemma base_init_layout:
  assumes b: "base_init la sz sq aq = Inr b" and small: "unat sq + unat aq < 2 ^ 62"
  shows "unat (bulk_buffer_offset b) + unat (bulk_buffer_size b) = unat sz"
    "unat sq + unat aq \<le> unat (bulk_buffer_offset b)" "ds_local_base b = la" "ds_size b = sz"
proof -
  from b have off: "bulk_buffer_offset b = align_addr (sq + aq) 6"
    and lt: "align_addr (sq + aq) 6 < sz"
    and size: "bulk_buffer_size b = sz - align_addr (sq + aq) 6"
    and la: "ds_local_base b = la" "ds_size b = sz"
    by (auto simp: base_init_def Let_def not_le split: if_splits)
  show "unat (bulk_buffer_offset b) + unat (bulk_buffer_size b) = unat sz"
    unfolding off size using lt by (simp add: unat_sub word_nat)
  have "unat (sq + aq) = unat sq + unat aq"
    using small by (intro unat_add_no_wrap) simp
  then show "unat sq + unat aq \<le> unat (bulk_buffer_offset b)"
    unfolding off using align_addr_ge [of "sq + aq"] small by simp
  show "ds_local_base b = la" "ds_size b = sz" by (fact la)+
qed

section \<open>Properties\<close>

text \<open>
  \<^bold>\<open>C19.\<close> A stream whose two ends were constructed in a dataspace delivers in order: after any
  sequence of blocking and non-blocking calls, signal registrations and wakeups on both ends, the
  packets submitted are those taken by the sink followed by those still queued, the same holds for
  the acknowledgements, and no call reaches outside a queue. A queue never holds more than its size
  minus one.
\<close>

theorem stream_delivers_in_order:
  assumes "mem_ok s" "size_ok (SN s)" "size_ok (AN s)"
  shows "\<exists>s' h. stream_run cs (sink_construct bk (source_construct bs s), no_history) = Some (s', h) \<and>
    submitted h = taken h @ pq_list (SN s) (submit_queue s') \<and>
    acked h = ack_taken h @ pq_list (AN s) (ack_queue s') \<and>
    length (submitted h) < length (taken h) + unat (SN s) \<and>
    length (acked h) < length (ack_taken h) + unat (AN s)"
proof -
  from stream_run_fifo [OF construct_fifo [OF assms], of cs bk bs] obtain s' h where
    r: "stream_run cs (sink_construct bk (source_construct bs s), no_history) = Some (s', h)"
    and i: "fifo_inv (s', h)" and n: "SN s' = SN s" "AN s' = AN s"
    by (auto simp: sink_construct_def source_construct_def)
  from i n have "pq_ok (SN s) (submit_queue s')" "pq_ok (AN s) (ack_queue s')"
    by (auto simp: fifo_inv_def stream_ok_def)
  from pq_nat(7) [OF this(1)] pq_nat(7) [OF this(2)] r i n show ?thesis
    by (auto simp: fifo_inv_def)
qed

definition demo_stream :: stream where
  "demo_stream =
     (let b = \<lparr>ds_local_base = 0x10000, ds_size = 0x1000, submit_queue_offset = 0, ack_queue_offset = 64,
               bulk_buffer_offset = 128, bulk_buffer_size = 0xF80\<rparr>;
          q = \<lparr>pq_head = 7, pq_tail = 9, pq_queue = replicate 4 null_packet\<rparr>
      in \<lparr>src = \<lparr>so_base = b, submit_transmitter = transmitter_init, ack_receiver = receiver_init\<rparr>,
          snk = \<lparr>si_base = b, submit_receiver = receiver_init, ack_transmitter = transmitter_init\<rparr>,
          submit_queue = q, ack_queue = q, SN = 4, AN = 4\<rparr>)"

theorem stream_delivers_in_order_witness:
  "\<exists>s' h. stream_run [Submit \<lparr>pd_offset = 128, pd_size = 5\<rparr>, Try_submit \<lparr>pd_offset = 256, pd_size = 9\<rparr>,
      Get_packet] (sink_construct (so_base (src demo_stream)) (source_construct (so_base (src demo_stream))
        demo_stream), no_history) = Some (s', h) \<and>
    submitted h = taken h @ pq_list 4 (submit_queue s')"
proof -
  have "mem_ok demo_stream" "size_ok (SN demo_stream)" "size_ok (AN demo_stream)" "SN demo_stream = 4"
    by (simp_all add: demo_stream_def mem_ok_def size_ok_def Let_def)
  from stream_delivers_in_order [OF this(1-3), of "[Submit \<lparr>pd_offset = 128, pd_size = 5\<rparr>,
      Try_submit \<lparr>pd_offset = 256, pd_size = 9\<rparr>, Get_packet]"] this(4)
  show ?thesis by fastforce
qed

text \<open>
  \<^bold>\<open>C20.\<close> Whatever values a hostile peer writes to the heads and tails in the shared dataspace,
  between any calls, no operation of source or sink accesses a queue outside its array.
\<close>

theorem hostile_peer_memory_safe:
  assumes "mem_ok s" "SN s \<noteq> 0" "AN s \<noteq> 0"
  shows "\<exists>s' h'. hostile_run cs (s, h) = Some (s', h') \<and> mem_ok s'"
  by (rule hostile_run_safe [OF assms])

theorem hostile_peer_memory_safe_witness:
  "\<exists>s' h'. hostile_run [Scribble 0xFFFFFFFF 3 8 0, Call (Submit null_packet), Call Try_get]
      (demo_stream, no_history) = Some (s', h')"
proof -
  have "mem_ok demo_stream" "SN demo_stream \<noteq> 0" "AN demo_stream \<noteq> 0"
    by (simp_all add: demo_stream_def mem_ok_def Let_def)
  from hostile_peer_memory_safe [OF this] show ?thesis by blast
qed

text \<open>
  \<^bold>\<open>C21.\<close> For packets of at most $2^{63}$ bytes, \<^verbatim>\<open>packet_content\<close> hands out a pointer only if the
  whole packet lies in the bulk buffer, behind both queues and within the dataspace, and is large
  enough for the content type.
\<close>

theorem packet_content_in_bulk_buffer:
  assumes "base_init la sz sq aq = Inr b" "unat sq + unat aq < 2 ^ 62" "unat sz < 2 ^ 63"
    and "packet_content cs b p = Inr (Some a)" "unat (pd_size p) \<le> 2 ^ 63"
  shows "a = la + pd_offset p \<and> unat sq + unat aq \<le> unat (pd_offset p) \<and>
    unat (pd_offset p) + unat (pd_size p) \<le> unat sz \<and> cs \<le> pd_size p"
proof -
  note l = base_init_layout [OF assms(1,2)]
  from assms(4) have v: "packet_valid b p" "pd_size p \<noteq> 0" "cs \<le> pd_size p" "a = la + pd_offset p"
    by (auto simp: packet_content_def l not_less split: if_splits)
  from packet_valid_bounds [OF v(1,2) assms(5)] assms(3) l v show ?thesis by simp
qed

theorem packet_content_in_bulk_buffer_witness:
  "packet_content 1 \<lparr>ds_local_base = 0x10000, ds_size = 0x1000, submit_queue_offset = 0,
      ack_queue_offset = 64, bulk_buffer_offset = 128, bulk_buffer_size = 0xF80\<rparr>
      \<lparr>pd_offset = 512, pd_size = 100\<rparr> = Inr (Some 0x10200) \<and> (64 + 64 :: nat) \<le> 512"
proof -
  let ?b = "\<lparr>ds_local_base = 0x10000, ds_size = 0x1000, submit_queue_offset = 0,
      ack_queue_offset = 64, bulk_buffer_offset = 128, bulk_buffer_size = 0xF80\<rparr>"
  have b: "base_init 0x10000 0x1000 64 64 = Inr ?b"
    by (simp add: base_init_def align_addr_def Let_def)
  have c: "packet_content 1 ?b \<lparr>pd_offset = 512, pd_size = 100\<rparr> = Inr (Some 0x10200)"
    by (simp add: packet_content_def packet_valid_def)
  from packet_content_in_bulk_buffer [OF b _ _ c] c show ?thesis by simp
qed

text \<open>
  \<^bold>\<open>C22.\<close> What \<^verbatim>\<open>packet_valid\<close> accepts, for packets of every size: beside the empty packet, exactly those
  that start in the bulk buffer and either end within the dataspace or are so large that offset plus
  size exceeds 64 bits. The sum is unsigned and wraps, so a packet of the second kind passes although it
  reaches far behind the buffer.
\<close>

theorem packet_valid_wraps:
  assumes "base_init la sz sq aq = Inr b" "unat sq + unat aq < 2 ^ 62" "unat sz < 2 ^ 63"
  shows "packet_valid b p \<longleftrightarrow> pd_size p = 0 \<or>
    unat (bulk_buffer_offset b) \<le> unat (pd_offset p) \<and> unat (pd_offset p) < unat sz \<and>
    (unat (pd_offset p) + unat (pd_size p) \<le> unat sz \<or> 2 ^ 64 \<le> unat (pd_offset p) + unat (pd_size p))"
proof -
  let ?o = "pd_offset p" let ?s = "pd_size p" let ?b = "bulk_buffer_offset b" let ?z = "bulk_buffer_size b"
  have bz: "unat (?b + ?z) = unat sz" using base_init_layout [OF assms(1,2)] assms(3)
    by (subst unat_add_no_wrap) simp_all
  have b: "unat ?b < 2 ^ 63" using base_init_layout(1) [OF assms(1,2)] assms(3) by linarith
  have s: "sint ?b = int (unat ?b)" "sint (?b + ?z) = int (unat sz)"
    using sint_nonneg [OF b] sint_nonneg [of "?b + ?z"] bz assms(3) by simp_all
  have "packet_valid b p \<longleftrightarrow> ?s = 0 \<or> int (unat ?b) \<le> sint ?o \<and> sint ?o < int (unat sz) \<and> unat (?o + ?s) \<le> unat sz"
    unfolding packet_valid_def s by (simp only: word_le_nat_alt bz)
  also have "\<dots> \<longleftrightarrow> ?s = 0 \<or> unat ?b \<le> unat ?o \<and> unat ?o < unat sz \<and> unat (?o + ?s) \<le> unat sz"
  proof (cases "unat ?o < 2 ^ 63")
    case True
    then show ?thesis by (simp only: sint_nonneg of_nat_le_iff of_nat_less_iff)
  next
    case False
    then have "sint ?o < 0" using unat_of_sint_nonneg [of ?o] by linarith
    then have "\<not> int (unat ?b) \<le> sint ?o" "\<not> unat ?o < unat sz" using False assms(3) by linarith+
    then show ?thesis by blast
  qed
  also have "unat ?o < unat sz \<and> unat (?o + ?s) \<le> unat sz \<longleftrightarrow>
      unat ?o < unat sz \<and> (unat ?o + unat ?s \<le> unat sz \<or> 2 ^ 64 \<le> unat ?o + unat ?s)"
    using unsigned_less [of ?s, where 'a = nat] assms(3) unat_plus_if' [of ?o ?s] by (auto split: if_splits)
  finally show ?thesis .
qed

theorem packet_valid_wraps_witness:
  "packet_valid \<lparr>ds_local_base = 0x10000, ds_size = 0x1000, submit_queue_offset = 0,
      ack_queue_offset = 64, bulk_buffer_offset = 128, bulk_buffer_size = 0xF80\<rparr>
    \<lparr>pd_offset = 512, pd_size = - 8\<rparr> \<and> unat (- 8 :: size_t) = 2 ^ 64 - 8"
proof -
  let ?b = "\<lparr>ds_local_base = 0x10000, ds_size = 0x1000, submit_queue_offset = 0,
      ack_queue_offset = 64, bulk_buffer_offset = 128, bulk_buffer_size = 0xF80\<rparr>"
  have b: "base_init 0x10000 0x1000 64 64 = Inr ?b"
    by (simp add: base_init_def align_addr_def Let_def)
  show ?thesis using packet_valid_wraps [OF b, of "\<lparr>pd_offset = 512, pd_size = - 8\<rparr>"] by simp
qed

text \<open>
  \<^verbatim>\<open>peek_packet\<close> on an empty queue does not return an invalid descriptor: after one packet
  was submitted and taken in a queue of two slots and another pair followed, it returns the first
  packet again.
\<close>

theorem peek_packet_stale:
  "\<exists>s h. stream_run [Submit \<lparr>pd_offset = 128, pd_size = 5\<rparr>, Get_packet,
      Submit \<lparr>pd_offset = 256, pd_size = 9\<rparr>, Get_packet]
      (sink_construct (so_base (src demo_stream)) (source_construct (so_base (src demo_stream))
        (demo_stream\<lparr>SN := 2, submit_queue := \<lparr>pq_head = 0, pq_tail = 0, pq_queue = replicate 2 null_packet\<rparr>\<rparr>)),
       no_history) = Some (s, h) \<and>
    \<not> packet_avail s \<and> peek_packet s = Inr \<lparr>pd_offset = 128, pd_size = 5\<rparr>"
  by (simp add: demo_stream_def stream_defs after_def sink_construct_def source_construct_def pq_construct_def
      ready_to_submit_def tx_slots_free_def slots_free_def tx_def pq_full_def pq_add_def single_element_def
      tx_submit_def packet_avail_def ready_for_rx_def pq_empty_def rx_def pq_get_def pq_peek_def
      single_slot_free_def rx_submit_def peek_packet_def rx_peek_def eval_nat_numeral Let_def cong: eval_cong)

end
