(* ===== verification/Packet_Wakeup.thy ===== *)
theory Packet_Wakeup
  imports Packet_Stream
begin

text \<open>
  The signals of a packet queue under concurrency. Source and sink run in different protection
  domains; \<^verbatim>\<open>_tx_queue_mutex\<close> and \<^verbatim>\<open>_rx_queue_mutex\<close> are each local to one side, so that the memory
  accesses of a call of \<^verbatim>\<open>tx\<close> interleave with those of a call of \<^verbatim>\<open>rx\<close>. A test of the queue (\<^verbatim>\<open>full\<close>,
  \<^verbatim>\<open>single_element\<close> and so on) reads one variable that the other side writes, and so is a single step. A call on a
  full or empty queue throws. What a client does then is up to it; to be able to wait, it has to be sent a
  signal as soon as another call may succeed. Memory accesses take effect in program order.
\<close>

section \<open>Interleaved steps\<close>

text \<open>Where the transmitter is within \<^verbatim>\<open>tx\<close> and \<^verbatim>\<open>add\<close>, and the receiver within \<^verbatim>\<open>rx\<close> and \<^verbatim>\<open>get\<close>.\<close>

datatype tx_pc =
    Tx_idle
  | Tx_test packet_descriptor
  | Tx_add packet_descriptor
  | Tx_write packet_descriptor
  | Tx_advance packet_descriptor
  | Tx_signal

datatype rx_pc =
    Rx_idle
  | Rx_test
  | Rx_get
  | Rx_advance packet_descriptor
  | Rx_signal

text \<open>
  The queue and its two ends. \<open>tx_threw\<close> and \<open>rx_threw\<close> record that the last call of a side has thrown, and the number
  of signals that the other side had sent by then; \<open>sent\<close> and \<open>received\<close> are histories.
\<close>

record conc =
  cq :: pqueue
  c_tx :: transmitter
  c_rx :: receiver
  tx_at :: tx_pc
  rx_at :: rx_pc
  tx_threw :: "nat option"
  rx_threw :: "nat option"
  sent :: "packet_descriptor list"
  received :: "packet_descriptor list"

abbreviation rx_signals :: "conc \<Rightarrow> nat" where "rx_signals c \<equiv> length (tx_log (c_tx c))"
abbreviation tx_signals :: "conc \<Rightarrow> nat" where "tx_signals c \<equiv> length (rx_log (c_rx c))"

text \<open>The two writes of \<^verbatim>\<open>add\<close> and the read and write of \<^verbatim>\<open>get\<close>.\<close>

definition write_slot :: "u32 \<Rightarrow> packet_descriptor \<Rightarrow> pqueue \<Rightarrow> pqueue" where
  "write_slot N p q = q\<lparr>pq_queue := (pq_queue q)[unat (pq_head q mod N) := p]\<rparr>"

definition advance_head :: "u32 \<Rightarrow> pqueue \<Rightarrow> pqueue" where
  "advance_head N q = q\<lparr>pq_head := (pq_head q + 1) mod N\<rparr>"

definition read_slot :: "u32 \<Rightarrow> pqueue \<Rightarrow> packet_descriptor" where
  "read_slot N q = pq_queue q ! unat (pq_tail q mod N)"

definition advance_tail :: "u32 \<Rightarrow> pqueue \<Rightarrow> pqueue" where
  "advance_tail N q = q\<lparr>pq_tail := (pq_tail q + 1) mod N\<rparr>"

inductive tx_step :: "u32 \<Rightarrow> conc \<Rightarrow> conc \<Rightarrow> bool" for N where
  call: "tx_at c = Tx_idle \<Longrightarrow> tx_step N c (c\<lparr>tx_at := Tx_test p, tx_threw := None\<rparr>)"
| saturated: "tx_at c = Tx_test p \<Longrightarrow> pq_full N (cq c) \<Longrightarrow>
    tx_step N c (c\<lparr>tx_at := Tx_idle, tx_threw := Some (tx_signals c)\<rparr>)"
| room: "tx_at c = Tx_test p \<Longrightarrow> \<not> pq_full N (cq c) \<Longrightarrow> tx_step N c (c\<lparr>tx_at := Tx_add p\<rparr>)"
| add_full: "tx_at c = Tx_add p \<Longrightarrow> pq_full N (cq c) \<Longrightarrow> tx_step N c (c\<lparr>tx_at := Tx_signal\<rparr>)"
| add_room: "tx_at c = Tx_add p \<Longrightarrow> \<not> pq_full N (cq c) \<Longrightarrow> tx_step N c (c\<lparr>tx_at := Tx_write p\<rparr>)"
| put: "tx_at c = Tx_write p \<Longrightarrow> tx_step N c (c\<lparr>cq := write_slot N p (cq c), tx_at := Tx_advance p\<rparr>)"
| advance: "tx_at c = Tx_advance p \<Longrightarrow>
    tx_step N c (c\<lparr>cq := advance_head N (cq c), tx_at := Tx_signal, sent := sent c @ [p]\<rparr>)"
| signal: "tx_at c = Tx_signal \<Longrightarrow>
    tx_step N c (c\<lparr>tx_at := Tx_idle, c_tx := if single_element N (cq c) then tx_submit (c_tx c) else c_tx c\<rparr>)"

inductive rx_step :: "u32 \<Rightarrow> conc \<Rightarrow> conc \<Rightarrow> bool" for N where
  call: "rx_at c = Rx_idle \<Longrightarrow> rx_step N c (c\<lparr>rx_at := Rx_test, rx_threw := None\<rparr>)"
| empty: "rx_at c = Rx_test \<Longrightarrow> pq_empty (cq c) \<Longrightarrow>
    rx_step N c (c\<lparr>rx_at := Rx_idle, rx_threw := Some (rx_signals c)\<rparr>)"
| avail: "rx_at c = Rx_test \<Longrightarrow> \<not> pq_empty (cq c) \<Longrightarrow> rx_step N c (c\<lparr>rx_at := Rx_get\<rparr>)"
| get: "rx_at c = Rx_get \<Longrightarrow> rx_step N c (c\<lparr>rx_at := Rx_advance (read_slot N (cq c))\<rparr>)"
| advance: "rx_at c = Rx_advance p \<Longrightarrow>
    rx_step N c (c\<lparr>cq := advance_tail N (cq c), rx_at := Rx_signal, received := received c @ [p]\<rparr>)"
| signal: "rx_at c = Rx_signal \<Longrightarrow>
    rx_step N c (c\<lparr>rx_at := Rx_idle, c_rx := if single_slot_free N (cq c) then rx_submit (c_rx c) else c_rx c\<rparr>)"

inductive conc_reach :: "u32 \<Rightarrow> conc \<Rightarrow> bool" for N where
  init: "length slots = unat N \<Longrightarrow> conc_reach N
    \<lparr>cq = \<lparr>pq_head = 0, pq_tail = 0, pq_queue = slots\<rparr>, c_tx = t, c_rx = r, tx_at = Tx_idle, rx_at = Rx_idle,
     tx_threw = None, rx_threw = None, sent = [], received = []\<rparr>"
| tx: "conc_reach N c \<Longrightarrow> tx_step N c c' \<Longrightarrow> conc_reach N c'"
| rx: "conc_reach N c \<Longrightarrow> rx_step N c c' \<Longrightarrow> conc_reach N c'"

section \<open>A side on its own\<close>

text \<open>Without interleaving, the steps of one side are the operations of the transmitter and of the receiver.\<close>

lemma add_in_steps:
  assumes "pq_ok N q" "\<not> pq_full N q"
  shows "pq_add N p q = Some (True, advance_head N (write_slot N p q))"
  using assms pq_nat(1,4) [OF assms(1)]
  by (simp add: pq_add_def advance_head_def write_slot_def unat_mod)

lemma get_in_steps:
  assumes "pq_ok N q"
  shows "pq_get N q = Some (read_slot N q, advance_tail N q)"
  using pq_nat(2,4) [OF assms]
  by (simp add: pq_get_def pq_peek_def advance_tail_def read_slot_def unat_mod)


lemma tx_in_steps:
  assumes ok: "pq_ok N (cq c)" and c: "tx_at c = Tx_idle"
  shows "\<exists>c'. (tx_step N)\<^sup>*\<^sup>* c c' \<and> tx_at c' = Tx_idle \<and>
    (case tx N p (c_tx c, cq c) of
       Inl e \<Rightarrow> e = Saturated_tx_queue \<and> tx_threw c' = Some (tx_signals c) \<and> cq c' = cq c \<and> c_tx c' = c_tx c
     | Inr (t, q) \<Rightarrow> tx_threw c' = None \<and> cq c' = q \<and> c_tx c' = t)"
proof -
  let ?c1 = "c\<lparr>tx_at := Tx_test p, tx_threw := None\<rparr>"
  have 1: "tx_step N c ?c1" using c by (rule tx_step.call)
  show ?thesis
  proof (cases "pq_full N (cq c)")
    case True
    have "tx_step N ?c1 (?c1\<lparr>tx_at := Tx_idle, tx_threw := Some (tx_signals ?c1)\<rparr>)"
      using True by (intro tx_step.saturated) simp_all
    with 1 have "(tx_step N)\<^sup>*\<^sup>* c (?c1\<lparr>tx_at := Tx_idle, tx_threw := Some (tx_signals ?c1)\<rparr>)" by simp
    with True show ?thesis by (intro exI conjI) (assumption, simp_all add: tx_def)
  next
    case False
    let ?c2 = "?c1\<lparr>tx_at := Tx_add p\<rparr>" let ?c3 = "?c2\<lparr>tx_at := Tx_write p\<rparr>"
    let ?c4 = "?c3\<lparr>cq := write_slot N p (cq ?c3), tx_at := Tx_advance p\<rparr>"
    let ?c5 = "?c4\<lparr>cq := advance_head N (cq ?c4), tx_at := Tx_signal, sent := sent ?c4 @ [p]\<rparr>"
    let ?c6 = "?c5\<lparr>tx_at := Tx_idle, c_tx := if single_element N (cq ?c5) then tx_submit (c_tx ?c5) else c_tx ?c5\<rparr>"
    have "tx_step N ?c1 ?c2" "tx_step N ?c2 ?c3" "tx_step N ?c3 ?c4" "tx_step N ?c4 ?c5" "tx_step N ?c5 ?c6"
      using False by (intro tx_step.room tx_step.add_room tx_step.put tx_step.advance tx_step.signal; simp)+
    with 1 have "(tx_step N)\<^sup>*\<^sup>* c ?c6" by (meson converse_rtranclp_into_rtranclp rtranclp.rtrancl_refl)
    with False add_in_steps [OF ok False, of p] show ?thesis by (intro exI conjI) (assumption, simp_all add: tx_def)
  qed
qed

lemma rx_in_steps:
  assumes ok: "pq_ok N (cq c)" and c: "rx_at c = Rx_idle"
  shows "\<exists>c'. (rx_step N)\<^sup>*\<^sup>* c c' \<and> rx_at c' = Rx_idle \<and>
    (case rx N (c_rx c, cq c) of
       Inl e \<Rightarrow> e = Empty_rx_queue \<and> rx_threw c' = Some (rx_signals c) \<and> cq c' = cq c \<and> c_rx c' = c_rx c
     | Inr (p, r, q) \<Rightarrow> rx_threw c' = None \<and> cq c' = q \<and> c_rx c' = r \<and> received c' = received c @ [p])"
proof -
  let ?c1 = "c\<lparr>rx_at := Rx_test, rx_threw := None\<rparr>"
  have 1: "rx_step N c ?c1" using c by (rule rx_step.call)
  show ?thesis
  proof (cases "pq_empty (cq c)")
    case True
    have "rx_step N ?c1 (?c1\<lparr>rx_at := Rx_idle, rx_threw := Some (rx_signals ?c1)\<rparr>)"
      using True by (intro rx_step.empty) simp_all
    with 1 have "(rx_step N)\<^sup>*\<^sup>* c (?c1\<lparr>rx_at := Rx_idle, rx_threw := Some (rx_signals ?c1)\<rparr>)" by simp
    with True show ?thesis by (intro exI conjI) (assumption, simp_all add: rx_def)
  next
    case False
    let ?c2 = "?c1\<lparr>rx_at := Rx_get\<rparr>" let ?p = "read_slot N (cq c)" let ?c3 = "?c2\<lparr>rx_at := Rx_advance ?p\<rparr>"
    let ?c4 = "?c3\<lparr>cq := advance_tail N (cq ?c3), rx_at := Rx_signal, received := received ?c3 @ [?p]\<rparr>"
    let ?c5 = "?c4\<lparr>rx_at := Rx_idle, c_rx := if single_slot_free N (cq ?c4) then rx_submit (c_rx ?c4) else c_rx ?c4\<rparr>"
    have "rx_step N ?c1 ?c2" using False by (intro rx_step.avail) simp_all
    moreover have "rx_step N ?c2 ?c3" using rx_step.get [of ?c2 N] by simp
    moreover have "rx_step N ?c3 ?c4" "rx_step N ?c4 ?c5" by (intro rx_step.advance rx_step.signal; simp)+
    ultimately have "(rx_step N)\<^sup>*\<^sup>* c ?c5" using 1 by (meson converse_rtranclp_into_rtranclp rtranclp.rtrancl_refl)
    with False get_in_steps [OF ok] show ?thesis by (intro exI conjI) (assumption, simp_all add: rx_def)
  qed
qed

section \<open>Invariant\<close>

definition conc_inv :: "u32 \<Rightarrow> conc \<Rightarrow> bool" where
  "conc_inv N c \<longleftrightarrow> pq_ok N (cq c) \<and> sent c = received c @ pq_list N (cq c) \<and>
     (\<forall>p. tx_at c = Tx_add p \<or> tx_at c = Tx_write p \<or> tx_at c = Tx_advance p \<longrightarrow> pq_count N (cq c) < unat N - 1) \<and>
     (\<forall>p. tx_at c = Tx_advance p \<longrightarrow> pq_queue (cq c) ! unat (pq_head (cq c) mod N) = p) \<and>
     (rx_at c = Rx_get \<longrightarrow> 0 < pq_count N (cq c)) \<and>
     (\<forall>p. rx_at c = Rx_advance p \<longrightarrow> 0 < pq_count N (cq c) \<and> p = hd (pq_list N (cq c))) \<and>
     (\<forall>k. tx_threw c = Some k \<longrightarrow> tx_at c = Tx_idle \<and> k \<le> tx_signals c) \<and>
     (\<forall>k. rx_threw c = Some k \<longrightarrow> rx_at c = Rx_idle \<and> k \<le> rx_signals c) \<and>
     (rx_threw c = Some (rx_signals c) \<longrightarrow> pq_count N (cq c) = 0 \<or> tx_at c = Tx_signal \<and> pq_count N (cq c) = 1) \<and>
     (tx_threw c = Some (tx_signals c) \<longrightarrow>
        pq_count N (cq c) = unat N - 1 \<or> rx_at c = Rx_signal \<and> pq_count N (cq c) = unat N - 2)"

lemma write_slot_list:
  assumes "pq_ok N q"
  shows "pq_ok N (write_slot N p q) \<and> pq_list N (write_slot N p q) = pq_list N q \<and>
    pq_count N (write_slot N p q) = pq_count N q"
proof -
  note n = pq_nat [OF assms]
  have "unat (pq_head q) \<noteq> (unat (pq_tail q) + k) mod unat N" if "k < pq_count N q" for k
    using that ring_inj [of "unat (pq_tail q)" k "unat N" "pq_count N q"] n(7,8) by auto
  moreover have "pq_count N (write_slot N p q) = pq_count N q"
    by (simp add: pq_count_def write_slot_def)
  moreover have "pq_ok N (write_slot N p q)" using assms by (simp add: pq_ok_def write_slot_def)
  moreover have "unat (pq_head q mod N) = unat (pq_head q)" using n(1) by (simp add: unat_mod)
  ultimately show ?thesis by (simp add: pq_list_def) (simp add: write_slot_def)
qed

lemma advance_head_list:
  assumes ok: "pq_ok N q" and c: "pq_count N q < unat N - 1"
  shows "pq_ok N (advance_head N q)"
    "pq_list N (advance_head N q) = pq_list N q @ [pq_queue q ! unat (pq_head q mod N)]"
    "pq_count N (advance_head N q) = pq_count N q + 1"
proof -
  have nf: "\<not> pq_full N q" using c by (simp add: pq_full_iff [OF ok])
  let ?p = "pq_queue q ! unat (pq_head q mod N)"
  have "write_slot N ?p q = q" by (simp add: write_slot_def)
  with pq_add_spec [OF ok nf, of ?p] add_in_steps [OF ok nf, of ?p]
  have s: "pq_ok N (advance_head N q)" "pq_list N (advance_head N q) = pq_list N q @ [?p]" by auto
  then show "pq_ok N (advance_head N q)" "pq_list N (advance_head N q) = pq_list N q @ [?p]" by auto
  from s(2) show "pq_count N (advance_head N q) = pq_count N q + 1"
    by (metis length_append_singleton pq_list_length Suc_eq_plus1)
qed

lemma advance_tail_list:
  assumes ok: "pq_ok N q" and c: "0 < pq_count N q"
  shows "pq_ok N (advance_tail N q)" "pq_list N q = read_slot N q # pq_list N (advance_tail N q)"
    "pq_count N q = pq_count N (advance_tail N q) + 1"
proof -
  have "\<not> pq_empty q" using c by (simp add: pq_empty_iff [OF ok])
  with pq_get_nonempty [OF ok] get_in_steps [OF ok]
  have s: "pq_ok N (advance_tail N q)" "pq_list N q = read_slot N q # pq_list N (advance_tail N q)" by auto
  then show "pq_ok N (advance_tail N q)" "pq_list N q = read_slot N q # pq_list N (advance_tail N q)"
    by auto
  from s(2) show "pq_count N q = pq_count N (advance_tail N q) + 1"
    by (metis length_Cons pq_list_length Suc_eq_plus1)
qed

lemma write_slot_at:
  assumes "pq_ok N q"
  shows "pq_queue (write_slot N p q) ! unat (pq_head (write_slot N p q) mod N) = p"
  using pq_nat(1,4) [OF assms] by (simp add: write_slot_def unat_mod)

lemma tx_step_inv:
  assumes "conc_inv N c" "tx_step N c c'"
  shows "conc_inv N c'"
proof -
  have ok: "pq_ok N (cq c)" using assms(1) by (simp add: conc_inv_def)
  note n = pq_nat(3,7) [OF ok]
  show ?thesis
    using assms(2)
  proof cases
    case (call p)
    then show ?thesis using assms(1) by (auto simp: conc_inv_def)
  next
    case (saturated p)
    then show ?thesis using assms(1) by (auto simp: conc_inv_def pq_full_iff [OF ok])
  next
    case (room p)
    then show ?thesis using assms(1) n by (auto simp: conc_inv_def pq_full_iff [OF ok])
  next
    case (add_full p)
    then show ?thesis using assms(1) by (auto simp: conc_inv_def pq_full_iff [OF ok])
  next
    case (add_room p)
    then show ?thesis using assms(1) by (auto simp: conc_inv_def)
  next
    case (put p)
    then show ?thesis using assms(1) write_slot_list [OF ok, of p] write_slot_at [OF ok, of p] by (auto simp: conc_inv_def)
  next
    case (advance p)
    with assms(1) have "pq_count N (cq c) < unat N - 1" "pq_queue (cq c) ! unat (pq_head (cq c) mod N) = p"
      by (auto simp: conc_inv_def)
    note a = advance_head_list [OF ok this(1), unfolded this(2)]
    have "pq_count N (cq c) > 0 \<Longrightarrow> hd (pq_list N (cq c) @ xs) = hd (pq_list N (cq c))" for xs
      by (metis hd_append length_greater_0_conv pq_list_length)
    with advance assms(1) a show ?thesis by (auto simp: conc_inv_def)
  next
    case signal
    then show ?thesis using assms(1) by (auto simp: conc_inv_def single_element_iff [OF ok] tx_submit_def)
  qed
qed

lemma rx_step_inv:
  assumes "conc_inv N c" "rx_step N c c'"
  shows "conc_inv N c'"
proof -
  have ok: "pq_ok N (cq c)" using assms(1) by (simp add: conc_inv_def)
  note n = pq_nat(3,7) [OF ok]
  show ?thesis
    using assms(2)
  proof cases
    case call
    then show ?thesis using assms(1) by (auto simp: conc_inv_def)
  next
    case empty
    then show ?thesis using assms(1) by (auto simp: conc_inv_def pq_empty_iff [OF ok])
  next
    case avail
    then show ?thesis using assms(1) by (auto simp: conc_inv_def pq_empty_iff [OF ok])
  next
    case get
    with assms(1) have "0 < pq_count N (cq c)" by (auto simp: conc_inv_def)
    with get assms(1) advance_tail_list(2) [OF ok this] show ?thesis by (auto simp: conc_inv_def)
  next
    case (advance p)
    with assms(1) have c: "0 < pq_count N (cq c)" "p = hd (pq_list N (cq c))" by (auto simp: conc_inv_def)
    note a = advance_tail_list [OF ok c(1)]
    have "pq_queue (advance_tail N (cq c)) = pq_queue (cq c)" "pq_head (advance_tail N (cq c)) = pq_head (cq c)"
      by (simp_all add: advance_tail_def)
    with a advance c assms(1) n show ?thesis by (auto simp: conc_inv_def)
  next
    case signal
    then show ?thesis using assms(1) by (auto simp: conc_inv_def single_slot_free_iff [OF ok] rx_submit_def)
  qed
qed

lemma conc_reach_inv: "conc_reach N c \<Longrightarrow> size_ok N \<Longrightarrow> conc_inv N c"
proof (induction rule: conc_reach.induct)
  case (init slots t r)
  then show ?case
    using size_ok_nat [of N]
    by (auto simp: conc_inv_def pq_ok_def pq_list_def pq_count_def word_nat)
qed (use tx_step_inv rx_step_inv in blast)+

section \<open>Properties\<close>

text \<open>
  \<^bold>\<open>C18.\<close> However the memory accesses of \<^verbatim>\<open>tx\<close> at one side of a queue and of \<^verbatim>\<open>rx\<close> at the other side interleave: what
  was sent is what was received followed by the content of the queue. If the last call of the receiver has
  thrown because the queue was empty, and the transmitter has sent no signal since, then the queue is still
  empty, or the transmitter is within \<^verbatim>\<open>tx\<close>, about to find a single element and to send the signal. If the
  last call of the transmitter has thrown because the queue was full, and the receiver has sent no signal
  since, then the queue is still full, or the receiver is within \<^verbatim>\<open>rx\<close>, about to find a single free slot and to
  send the signal. And never have both sides thrown without a signal since.
\<close>

theorem no_lost_wakeup:
  assumes "conc_reach N c" "size_ok N"
  shows "sent c = received c @ pq_list N (cq c) \<and>
    (rx_threw c = Some (rx_signals c) \<longrightarrow> pq_empty (cq c) \<or> tx_at c = Tx_signal \<and> single_element N (cq c)) \<and>
    (tx_threw c = Some (tx_signals c) \<longrightarrow> pq_full N (cq c) \<or> rx_at c = Rx_signal \<and> single_slot_free N (cq c)) \<and>
    \<not> (rx_threw c = Some (rx_signals c) \<and> tx_threw c = Some (tx_signals c))"
proof -
  have inv: "conc_inv N c" by (rule conc_reach_inv [OF assms])
  then have ok: "pq_ok N (cq c)" by (simp add: conc_inv_def)
  from inv pq_nat(3) [OF ok] show ?thesis
    by (auto simp: conc_inv_def pq_empty_iff [OF ok] pq_full_iff [OF ok] single_element_iff [OF ok]
        single_slot_free_iff [OF ok])
qed

theorem no_lost_wakeup_witness:
  "\<exists>c. conc_reach 4 c \<and> rx_threw c = Some (rx_signals c) \<and> pq_empty (cq c) \<and> tx_threw c \<noteq> Some (tx_signals c)"
proof -
  let ?c = "\<lparr>cq = \<lparr>pq_head = 0, pq_tail = 0, pq_queue = replicate 4 null_packet\<rparr>, c_tx = transmitter_init, c_rx = receiver_init,
    tx_at = Tx_idle, rx_at = Rx_idle, tx_threw = None, rx_threw = None, sent = [], received = []\<rparr>"
  let ?c' = "?c\<lparr>rx_at := Rx_test, rx_threw := None\<rparr>"
  let ?d = "?c'\<lparr>rx_at := Rx_idle, rx_threw := Some (rx_signals ?c')\<rparr>"
  have "conc_reach 4 ?c" by (rule conc_reach.init) simp
  moreover have "rx_step 4 ?c ?c'" by (rule rx_step.call) simp
  moreover have "rx_step 4 ?c' ?d" by (rule rx_step.empty) (simp_all add: pq_empty_def)
  ultimately have r: "conc_reach 4 ?d" using conc_reach.rx by blast
  have "size_ok 4" by (simp add: size_ok_def)
  from no_lost_wakeup [OF r this] r show ?thesis by (intro exI [of _ ?d]) auto
qed

end
