(* ===== verification/Chunk.thy ===== *)
theory Chunk
  imports Prelude
begin

text \<open>
  \<^verbatim>\<open>os/include/ram_fs/chunk.h\<close>: the sparse storage of RAM files. The nesting of the class
  templates is a \<open>geometry\<close>: \<^verbatim>\<open>Chunk<S>\<close> is \<open>Leaf_geo S\<close> and \<^verbatim>\<open>Chunk_index<N, E>\<close> is
  \<open>Index_geo N e\<close>. Offsets and sizes are 64-bit values, kept as natural numbers with the wrap-around
  of sums and differences written out. Loops that could fail to end are partial functions; a
  \<^verbatim>\<open>memcpy\<close> outside the data of a chunk is the error \<open>Wild_memory\<close>. The allocator of the entries is
  a parameter that may refuse any request with an exception. The locale \<open>chunk_level\<close> is what a \<^verbatim>\<open>Chunk_index\<close> requires of its entry type and also
  what it provides itself, so the nesting is verified level by level.
\<close>

section \<open>Chunks\<close>

definition wadd :: "nat \<Rightarrow> nat \<Rightarrow> nat" where "wadd a b = (a + b) mod 2 ^ 64"
definition wsub :: "nat \<Rightarrow> nat \<Rightarrow> nat" where "wsub a b = (a + 2 ^ 64 - b) mod 2 ^ 64"

datatype geometry = Leaf_geo nat | Index_geo nat geometry

primrec geo_size :: "geometry \<Rightarrow> nat" where
  "geo_size (Leaf_geo S) = S"
| "geo_size (Index_geo N g) = geo_size g * N"

datatype chunk_error = Index_out_of_range | Wild_memory | Out_of_ram | Out_of_caps | Denied

datatype chunk =
  Leaf nat nat "u8 list"
| Index nat nat "chunk option list"

primrec base_offset :: "chunk \<Rightarrow> nat" where
  "base_offset (Leaf b n d) = b"
| "base_offset (Index b n es) = b"

primrec num_entries :: "chunk \<Rightarrow> nat" where
  "num_entries (Leaf b n d) = n"
| "num_entries (Index b n es) = n"

definition zero :: "nat \<Rightarrow> bool" where
  "zero b \<longleftrightarrow> b = 2 ^ 64 - 1"

definition chunk_empty :: "chunk \<Rightarrow> bool" where
  "chunk_empty c \<longleftrightarrow> num_entries c = 0"

definition valid_range :: "nat \<Rightarrow> nat \<Rightarrow> nat \<Rightarrow> nat \<Rightarrow> bool" where
  "valid_range b start len chunk_size \<longleftrightarrow>
     zero b \<or> \<not> (start < b \<or> wadd start len > wadd b chunk_size)"

primrec chunk_new :: "geometry \<Rightarrow> nat \<Rightarrow> chunk" where
  "chunk_new (Leaf_geo S) b = Leaf b 0 (replicate S 0)"
| "chunk_new (Index_geo N g) b = Index b 0 (replicate N None)"

text \<open>
  What the allocator does in the course of a write: a write requests the entry of type \<open>g\<close> at an offset at
  most once, so that any outcomes of its requests are given by the exception, if any, for each of them.
\<close>

type_synonym refusals = "geometry \<Rightarrow> nat \<Rightarrow> chunk_error option"

definition grant_all :: refusals where
  "grant_all = (\<lambda>_ _. None)"

definition new_entry :: "refusals \<Rightarrow> geometry \<Rightarrow> nat \<Rightarrow> chunk_error + chunk" where
  "new_entry A g b = (case A g b of None \<Rightarrow> Inr (chunk_new g b) | Some e \<Rightarrow> Inl e)"

definition refuses :: "refusals \<Rightarrow> chunk_error \<Rightarrow> bool" where
  "refuses A e \<longleftrightarrow> (\<exists>g b. A g b = Some e)"

lemma new_entry_cases: "new_entry A g b = Inr (chunk_new g b) \<or> (\<exists>e. new_entry A g b = Inl e \<and> refuses A e)"
  by (cases "A g b") (auto simp: new_entry_def refuses_def)

lemma grant_all_refuses [simp]: "\<not> refuses grant_all e"
  by (simp add: refuses_def grant_all_def)

section \<open>Leaf operations\<close>

definition leaf_write :: "nat \<Rightarrow> u8 list \<Rightarrow> nat \<Rightarrow> nat \<Rightarrow> nat \<Rightarrow> u8 list \<Rightarrow> chunk_error option \<times> chunk" where
  "leaf_write S src at b n d =
     (if \<not> valid_range b at (length src) S then (Some Index_out_of_range, Leaf b n d)
      else
        let local_offset = wsub at b
        in if local_offset + length src > length d then (Some Wild_memory, Leaf b n d)
           else (None, Leaf b (max n (wadd local_offset (length src)))
                   (take local_offset d @ src @ drop (local_offset + length src) d)))"

definition leaf_read :: "nat \<Rightarrow> nat \<Rightarrow> nat \<Rightarrow> nat \<Rightarrow> u8 list \<Rightarrow> chunk_error + u8 list" where
  "leaf_read S len at b d =
     (if \<not> valid_range b at len S then Inl Index_out_of_range
      else if wsub at b + len > length d then Inl Wild_memory
      else Inr (take len (drop (wsub at b) d)))"

definition leaf_truncate :: "nat \<Rightarrow> nat \<Rightarrow> nat \<Rightarrow> nat \<Rightarrow> u8 list \<Rightarrow> chunk_error option \<times> chunk" where
  "leaf_truncate S at b n d =
     (if \<not> valid_range b at 0 S then (Some Index_out_of_range, Leaf b n d)
      else
        let local_offset = wsub at b
        in if local_offset \<ge> n then (None, Leaf b n d)
           else (None, Leaf b local_offset
                  (take local_offset d @ replicate (n - local_offset) 0 @ drop n d)))"

section \<open>Index operations\<close>

text \<open>
  The operations of the entry type are arguments; \<open>ES\<close> is \<^verbatim>\<open>ENTRY_SIZE\<close> and \<open>N\<close> is
  \<^verbatim>\<open>NUM_ENTRIES\<close>. The index is an \<^verbatim>\<open>unsigned\<close>.
\<close>

definition index_by_offset :: "nat \<Rightarrow> nat \<Rightarrow> nat \<Rightarrow> nat" where
  "index_by_offset ES b at = wsub at b div ES mod 2 ^ 32"

definition entry_for_writing ::
    "(nat \<Rightarrow> chunk_error + chunk) \<Rightarrow> nat \<Rightarrow> nat \<Rightarrow> nat \<Rightarrow> nat \<Rightarrow> nat \<times> chunk option list \<Rightarrow>
      chunk_error + chunk \<times> nat \<times> chunk option list" where
  "entry_for_writing new ES N b index = (\<lambda>(n, es).
     if index \<ge> N then Inl Index_out_of_range
     else case es ! index of
            Some e \<Rightarrow> Inr (e, n, es)
          | None \<Rightarrow>
              (case new (wadd b (index * ES)) of
                 Inl err \<Rightarrow> Inl err
               | Inr e \<Rightarrow> Inr (e, max n (index + 1), es[index := Some e])))"

definition curr_len :: "nat \<Rightarrow> nat \<Rightarrow> nat \<Rightarrow> nat \<Rightarrow> nat \<Rightarrow> nat" where
  "curr_len ES b at index len =
     (let local_seek_offset = wsub (wsub at b) (index * ES);
          capacity = wsub ES local_seek_offset
      in min len capacity)"

partial_function (option) write_loop ::
    "(nat \<Rightarrow> chunk_error + chunk) \<Rightarrow> (u8 list \<Rightarrow> nat \<Rightarrow> chunk \<Rightarrow> (chunk_error option \<times> chunk) option) \<Rightarrow>
      nat \<Rightarrow> nat \<Rightarrow> nat \<Rightarrow> u8 list \<Rightarrow> nat \<Rightarrow> nat \<times> chunk option list \<Rightarrow>
      (chunk_error option \<times> nat \<times> chunk option list) option" where
  "write_loop new wr ES N b src at st =
     (if src = [] then Some (None, st)
      else
        let index = index_by_offset ES b at
        in case entry_for_writing new ES N b index st of
             Inl e \<Rightarrow> Some (Some e, st)
           | Inr (entry, n, es) \<Rightarrow>
               let k = curr_len ES b at index (length src) in
               do {
                 (e, entry') \<leftarrow> wr (take k src) at entry;
                 let es' = es[index := Some entry'];
                 (case e of
                    Some err \<Rightarrow> Some (Some err, n, es')
                  | None \<Rightarrow> write_loop new wr ES N b (drop k src) (wadd at k) (n, es'))
               })"

definition index_write where
  "index_write new wr ES N src at b n es =
     (if \<not> valid_range b at (length src) (ES * N) then Some (Some Index_out_of_range, Index b n es)
      else do {
        (e, n', es') \<leftarrow> write_loop new wr ES N b src at (n, es);
        Some (e, Index b n' es')
      })"

text \<open>\<open>None\<close> stands for the static zero chunk, whose base offset is the marker that \<open>zero\<close> tests.\<close>

definition entry_for_reading :: "nat \<Rightarrow> nat \<Rightarrow> chunk option list \<Rightarrow> chunk_error + chunk option" where
  "entry_for_reading N index es = (if index \<ge> N then Inl Index_out_of_range else Inr (es ! index))"

definition read_func ::
    "(nat \<Rightarrow> nat \<Rightarrow> chunk \<Rightarrow> (chunk_error + u8 list) option) \<Rightarrow> nat \<Rightarrow> nat \<Rightarrow> chunk option \<Rightarrow>
      (chunk_error + u8 list) option" where
  "read_func rd k at entry =
     (case entry of
        None \<Rightarrow> Some (Inr (replicate k 0))
      | Some e \<Rightarrow> if zero (base_offset e) then Some (Inr (replicate k 0)) else rd k at e)"

partial_function (option) read_loop ::
    "(nat \<Rightarrow> nat \<Rightarrow> chunk \<Rightarrow> (chunk_error + u8 list) option) \<Rightarrow>
      nat \<Rightarrow> nat \<Rightarrow> nat \<Rightarrow> chunk option list \<Rightarrow> nat \<Rightarrow> nat \<Rightarrow> u8 list \<Rightarrow> (chunk_error + u8 list) option" where
  "read_loop rd ES N b es len at acc =
     (if len = 0 then Some (Inr acc)
      else
        let index = index_by_offset ES b at
        in case entry_for_reading N index es of
             Inl err \<Rightarrow> Some (Inl err)
           | Inr entry \<Rightarrow>
               let k = curr_len ES b at index len in
               do {
                 r \<leftarrow> read_func rd k at entry;
                 (case r of
                    Inl err \<Rightarrow> Some (Inl err)
                  | Inr xs \<Rightarrow> read_loop rd ES N b es (len - k) (wadd at k) (acc @ xs))
               })"

definition index_read where
  "index_read rd ES N len at b es =
     (if \<not> valid_range b at len (ES * N) then Some (Inl Index_out_of_range)
      else read_loop rd ES N b es len at [])"

definition destroy_entry :: "nat \<Rightarrow> nat \<Rightarrow> chunk option list \<Rightarrow> chunk option list" where
  "destroy_entry n i es = (if es ! i \<noteq> None \<and> i < n then es[i := None] else es)"

definition index_truncate where
  "index_truncate tr ES at b n es =
     (let ti = index_by_offset ES b at in
      if ti \<ge> n then (None, Index b n es)
      else
        let es1 = fold (destroy_entry n) [ti + 1..<n] es;
            (e, es2) = (case es1 ! ti of
                          None \<Rightarrow> (None, es1)
                        | Some c \<Rightarrow> (case tr at c of (e, c') \<Rightarrow> (e, es1[ti := Some c'])))
        in case e of
             Some err \<Rightarrow> (Some err, Index b n es2)
           | None \<Rightarrow>
               (case es2 ! ti of
                  Some c \<Rightarrow>
                    if chunk_empty c then (None, Index b ti (destroy_entry (ti + 1) ti es2))
                    else (None, Index b (ti + 1) es2)
                | None \<Rightarrow> (None, Index b (ti + 1) es2)))"

section \<open>Operations at any nesting\<close>

text \<open>A chunk that does not match the geometry cannot occur in the typed source.\<close>

primrec chunk_write :: "refusals \<Rightarrow> geometry \<Rightarrow> u8 list \<Rightarrow> nat \<Rightarrow> chunk \<Rightarrow> (chunk_error option \<times> chunk) option" where
  "chunk_write A (Leaf_geo S) src at c =
     (case c of Leaf b n d \<Rightarrow> Some (leaf_write S src at b n d) | Index b n es \<Rightarrow> None)"
| "chunk_write A (Index_geo N g) src at c =
     (case c of
        Index b n es \<Rightarrow> index_write (new_entry A g) (chunk_write A g) (geo_size g) N src at b n es
      | Leaf b n d \<Rightarrow> None)"

primrec chunk_read :: "geometry \<Rightarrow> nat \<Rightarrow> nat \<Rightarrow> chunk \<Rightarrow> (chunk_error + u8 list) option" where
  "chunk_read (Leaf_geo S) len at c =
     (case c of Leaf b n d \<Rightarrow> Some (leaf_read S len at b d) | Index b n es \<Rightarrow> None)"
| "chunk_read (Index_geo N g) len at c =
     (case c of
        Index b n es \<Rightarrow> index_read (chunk_read g) (geo_size g) N len at b es
      | Leaf b n d \<Rightarrow> None)"

primrec chunk_truncate :: "geometry \<Rightarrow> nat \<Rightarrow> chunk \<Rightarrow> chunk_error option \<times> chunk" where
  "chunk_truncate (Leaf_geo S) at c =
     (case c of Leaf b n d \<Rightarrow> leaf_truncate S at b n d | Index b n es \<Rightarrow> (Some Wild_memory, c))"
| "chunk_truncate (Index_geo N g) at c =
     (case c of
        Index b n es \<Rightarrow> index_truncate (chunk_truncate g) (geo_size g) at b n es
      | Leaf b n d \<Rightarrow> (Some Wild_memory, c))"

primrec used_size :: "geometry \<Rightarrow> chunk \<Rightarrow> nat" where
  "used_size (Leaf_geo S) c = num_entries c"
| "used_size (Index_geo N g) c =
     (case c of
        Index b n es \<Rightarrow>
          if n = 0 then 0
          else case es ! (n - 1) of
                 None \<Rightarrow> geo_size g * (n - 1)
               | Some last_entry \<Rightarrow> geo_size g * (n - 1) + used_size g last_entry
      | Leaf b n d \<Rightarrow> 0)"

section \<open>Content and well-formedness\<close>

text \<open>An index over entries with \<open>ES\<close> bytes, given the same notions for its entries.\<close>

definition index_ok :: "nat \<Rightarrow> (nat \<Rightarrow> chunk \<Rightarrow> bool) \<Rightarrow> nat \<Rightarrow> nat \<Rightarrow> nat \<Rightarrow> chunk option list \<Rightarrow> bool" where
  "index_ok ES ok N b n es \<longleftrightarrow> length es = N \<and> n \<le> N \<and> (\<forall>i < N. n \<le> i \<longrightarrow> es ! i = None) \<and>
     (\<forall>i < N. \<forall>e. es ! i = Some e \<longrightarrow> ok (b + i * ES) e)"

definition index_byte :: "nat \<Rightarrow> (chunk \<Rightarrow> nat \<Rightarrow> u8) \<Rightarrow> chunk option list \<Rightarrow> nat \<Rightarrow> u8" where
  "index_byte ES byte es i = (case es ! (i div ES) of None \<Rightarrow> 0 | Some e \<Rightarrow> byte e (i mod ES))"

definition index_used :: "nat \<Rightarrow> (chunk \<Rightarrow> nat) \<Rightarrow> nat \<Rightarrow> chunk option list \<Rightarrow> nat" where
  "index_used ES used n es =
     (if n = 0 then 0 else ES * (n - 1) + (case es ! (n - 1) of None \<Rightarrow> 0 | Some e \<Rightarrow> used e))"

primrec chunk_ok :: "geometry \<Rightarrow> nat \<Rightarrow> chunk \<Rightarrow> bool" where
  "chunk_ok (Leaf_geo S) b c \<longleftrightarrow>
     (\<exists>n d. c = Leaf b n d \<and> length d = S \<and> n \<le> S \<and> (\<forall>i < S. n \<le> i \<longrightarrow> d ! i = 0))"
| "chunk_ok (Index_geo N g) b c \<longleftrightarrow> (\<exists>n es. c = Index b n es \<and> index_ok (geo_size g) (chunk_ok g) N b n es)"

primrec byte_at :: "geometry \<Rightarrow> chunk \<Rightarrow> nat \<Rightarrow> u8" where
  "byte_at (Leaf_geo S) c i = (case c of Leaf b n d \<Rightarrow> d ! i | Index b n es \<Rightarrow> 0)"
| "byte_at (Index_geo N g) c i =
     (case c of Index b n es \<Rightarrow> index_byte (geo_size g) (byte_at g) es i | Leaf b n d \<Rightarrow> 0)"

primrec geo_ok :: "geometry \<Rightarrow> bool" where
  "geo_ok (Leaf_geo S) \<longleftrightarrow> 0 < S"
| "geo_ok (Index_geo N g) \<longleftrightarrow> 0 < N \<and> N < 2 ^ 32 \<and> geo_ok g"

lemma wsub_eq: "b \<le> a \<Longrightarrow> a < 2 ^ 64 \<Longrightarrow> wsub a b = a - b"
proof -
  assume "b \<le> a" "a < 2 ^ 64"
  then have "a + 2 ^ 64 - b = (a - b) + 2 ^ 64" "a - b < 2 ^ 64" by simp_all
  then show ?thesis unfolding wsub_def by (simp only: mod_add_self2 mod_less)
qed

lemma wadd_eq: "a + b < 2 ^ 64 \<Longrightarrow> wadd a b = a + b"
  by (simp add: wadd_def)

lemma div_mod_step:
  fixes m :: nat
  assumes "x mod m + j < m"
  shows "(x + j) div m = x div m" "(x + j) mod m = x mod m + j"
proof -
  show r: "(x + j) mod m = x mod m + j" using assms by (metis mod_add_left_eq mod_less)
  have "(x + j) div m * m + (x + j) mod m = x div m * m + x mod m + j" by simp
  then have "(x + j) div m * m = x div m * m" unfolding r by linarith
  then show "(x + j) div m = x div m" using assms by simp
qed

text \<open>The bytes of \<open>f\<close> with those from \<open>lo\<close> on replaced by \<open>src\<close>.\<close>

definition patched :: "nat \<Rightarrow> u8 list \<Rightarrow> (nat \<Rightarrow> u8) \<Rightarrow> nat \<Rightarrow> u8" where
  "patched lo src f i = (if lo \<le> i \<and> i < lo + length src then src ! (i - lo) else f i)"

lemma patched_append:
  "patched (lo + length xs) ys (patched lo xs f) = patched lo (xs @ ys) f"
  by (auto simp: patched_def fun_eq_iff nth_append)

lemma patched_Nil [simp]: "patched lo [] f = f"
  by (auto simp: patched_def fun_eq_iff)

section \<open>The contract of an entry type\<close>

locale chunk_level =
  fixes ES :: nat and ok :: "nat \<Rightarrow> chunk \<Rightarrow> bool" and byte :: "chunk \<Rightarrow> nat \<Rightarrow> u8" and used :: "chunk \<Rightarrow> nat"
    and new :: "nat \<Rightarrow> chunk" and alloc :: "nat \<Rightarrow> chunk_error + chunk" and refused :: "chunk_error \<Rightarrow> bool"
    and wr :: "u8 list \<Rightarrow> nat \<Rightarrow> chunk \<Rightarrow> (chunk_error option \<times> chunk) option"
    and rd :: "nat \<Rightarrow> nat \<Rightarrow> chunk \<Rightarrow> (chunk_error + u8 list) option"
    and tr :: "nat \<Rightarrow> chunk \<Rightarrow> chunk_error option \<times> chunk"
  assumes pos: "0 < ES"
    and new: "ok b (new b) \<and> used (new b) = 0 \<and> (\<forall>i < ES. byte (new b) i = 0)"
    and alloc: "alloc b = Inr (new b) \<or> (\<exists>e. alloc b = Inl e \<and> refused e)"
    and base: "ok b c \<Longrightarrow> base_offset c = b"
    and used_le: "ok b c \<Longrightarrow> used c \<le> ES"
    and zero_tail: "ok b c \<Longrightarrow> used c \<le> i \<Longrightarrow> i < ES \<Longrightarrow> byte c i = 0"
    and empty_used: "ok b c \<Longrightarrow> chunk_empty c \<Longrightarrow> used c = 0"
    and wr: "ok b c \<Longrightarrow> b + ES \<le> 2 ^ 63 \<Longrightarrow> b \<le> at \<Longrightarrow> at + length src \<le> b + ES \<Longrightarrow> src \<noteq> [] \<Longrightarrow>
      \<exists>e k c'. wr src at c = Some (e, c') \<and> ok b c' \<and> k \<le> length src \<and> (\<forall>x. e = Some x \<longrightarrow> refused x \<and> k < length src) \<and>
        (e = None \<longrightarrow> k = length src \<and> used c' = max (used c) (at - b + length src)) \<and>
        (\<forall>i < ES. byte c' i = patched (at - b) (take k src) (byte c) i)"
    and rd: "ok b c \<Longrightarrow> b + ES \<le> 2 ^ 63 \<Longrightarrow> b \<le> at \<Longrightarrow> at + len \<le> b + ES \<Longrightarrow>
      rd len at c = Some (Inr (map (byte c) [at - b..<at - b + len]))"
    and tr: "ok b c \<Longrightarrow> b + ES \<le> 2 ^ 63 \<Longrightarrow> b \<le> at \<Longrightarrow> at < b + ES \<Longrightarrow>
      \<exists>c'. tr at c = (None, c') \<and> ok b c' \<and> used c' \<le> min (used c) (at - b) \<and>
        (\<forall>i < ES. byte c' i = (if i < at - b then byte c i else 0))"
begin

lemma index_position:
  assumes "b \<le> at" "at < b + ES * N" "b + ES * N \<le> 2 ^ 63" "N < 2 ^ 32"
  defines "i \<equiv> (at - b) div ES" and "l \<equiv> (at - b) mod ES"
  shows "index_by_offset ES b at = i" "i < N" "at = b + i * ES + l" "l < ES"
    "curr_len ES b at i len = min len (ES - l)" "b + i * ES + ES \<le> b + ES * N"
proof -
  have lo: "wsub at b = at - b" using assms(1-3) by (intro wsub_eq) auto
  show i: "i < N" unfolding i_def using assms(1,2) pos by (simp add: div_less_iff_less_mult mult.commute)
  then show "index_by_offset ES b at = i"
    using assms(4) by (simp add: index_by_offset_def lo i_def)
  show l: "l < ES" unfolding l_def using pos by simp
  have d: "at - b = i * ES + l" unfolding i_def l_def by simp
  with assms(1) show "at = b + i * ES + l" by simp
  have "wsub (at - b) (i * ES) = l" using d assms(2,3) by (subst wsub_eq) auto
  moreover have "wsub ES l = ES - l"
  proof (rule wsub_eq)
    have "ES * 1 \<le> ES * N" using i by (intro mult_le_mono2) simp
    then have "ES \<le> 2 ^ 63" using assms(3) by linarith
    also have "\<dots> < 2 ^ 64" by simp
    finally show "ES < 2 ^ 64" .
  qed (use l in simp)
  ultimately show "curr_len ES b at i len = min len (ES - l)" by (simp add: curr_len_def lo)
  have "(i + 1) * ES \<le> N * ES" using i by (intro mult_le_mono1) simp
  then show "b + i * ES + ES \<le> b + ES * N" by (simp add: algebra_simps)
qed

text \<open>Putting an entry, new or changed, into an index.\<close>

lemma put_entry:
  assumes ix: "index_ok ES ok N b n es" and i: "i < N" and e': "ok (b + i * ES) e'"
    and e: "(case es ! i of None \<Rightarrow> u = 0 | Some e \<Rightarrow> u = used e)" "used e' = max u (l + k)" "l + k \<le> ES"
  defines "n' \<equiv> max n (i + 1)" and "es' \<equiv> es[i := Some e']"
  shows "index_ok ES ok N b n' es'" "index_used ES used n' es' = max (index_used ES used n es) (i * ES + l + k)"
proof -
  show "index_ok ES ok N b n' es'"
    using ix i e' by (auto simp: index_ok_def n'_def es'_def nth_list_update)
  have len: "length es = N" using ix by (simp add: index_ok_def)
  consider "n \<le> i" | "n = i + 1" | "i + 1 < n" by linarith
  then show "index_used ES used n' es' = max (index_used ES used n es) (i * ES + l + k)"
  proof cases
    case 1
    then have "es ! i = None" using ix i by (auto simp: index_ok_def)
    then have u: "u = 0" using e(1) by simp
    have "index_used ES used n es \<le> ES * n"
    proof (cases n)
      case (Suc m)
      have "used e \<le> ES" if "es ! m = Some e" for e
        using that ix Suc used_le [of "b + m * ES" e] by (auto simp: index_ok_def)
      then show ?thesis using Suc by (auto simp: index_used_def split: option.splits)
    qed (simp add: index_used_def)
    also have "\<dots> \<le> ES * i" using 1 by simp
    finally have le: "index_used ES used n es \<le> i * ES" by (simp add: mult.commute)
    have "n' = i + 1" using 1 by (simp add: n'_def)
    then have "index_used ES used n' es' = ES * i + (l + k)"
      using i len e u by (simp add: index_used_def es'_def)
    with le show ?thesis by (simp add: mult.commute)
  next
    case 2
    then show ?thesis
      using i len e by (auto simp: index_used_def es'_def n'_def mult.commute split: option.splits)
  next
    case 3
    then have "n' = n" by (simp add: n'_def)
    then have "index_used ES used n' es' = index_used ES used n es"
      using 3 by (simp add: index_used_def es'_def)
    moreover have "i * ES + l + k \<le> index_used ES used n es"
    proof -
      have "i * ES + l + k \<le> (i + 1) * ES" using e(3) by simp
      also have "\<dots> \<le> (n - 1) * ES" using 3 by (intro mult_le_mono1) simp
      also have "\<dots> \<le> index_used ES used n es" using 3 by (simp add: index_used_def mult.commute)
      finally show ?thesis .
    qed
    ultimately show ?thesis by simp
  qed
qed

text \<open>The bytes of an index after a change of one entry.\<close>

lemma entry_bytes:
  assumes len: "length es = N" "i < N" and l: "l + length xs \<le> ES"
    and e: "\<And>j. j < ES \<Longrightarrow> (case es ! i of None \<Rightarrow> 0 | Some x \<Rightarrow> byte x j) = f j" "\<And>j. j < ES \<Longrightarrow> byte e' j = patched l xs f j"
  shows "index_byte ES byte (es[i := Some e']) j = patched (i * ES + l) xs (index_byte ES byte es) j"
proof (cases "j div ES = i")
  case True
  then have j: "j = i * ES + j mod ES" by auto
  have jm: "j mod ES < ES" using pos by simp
  have "index_byte ES byte es j = f (j mod ES)" using True e(1) [OF jm] by (simp add: index_byte_def)
  moreover have "index_byte ES byte (es[i := Some e']) j = patched l xs f (j mod ES)"
    using True e(2) [OF jm] len by (simp add: index_byte_def)
  ultimately show ?thesis
    using j unfolding patched_def by (metis add.assoc add_diff_cancel_left nat_add_left_cancel_le nat_add_left_cancel_less)
next
  case False
  then have "\<not> (i * ES + l \<le> j \<and> j < i * ES + l + length xs)"
  proof (rule contrapos_nn)
    assume "i * ES + l \<le> j \<and> j < i * ES + l + length xs"
    then have "i * ES \<le> j \<and> j < (i + 1) * ES" using l by simp
    then show "j div ES = i" using pos by (metis div_nat_eqI Suc_eq_plus1 mult.commute)
  qed
  with False show ?thesis by (auto simp: patched_def index_byte_def)
qed

text \<open>
  One round of the loop ends the write with an exception that the allocator has raised, after a part of the
  bytes is written, or goes on with the next entry.
\<close>

lemma entry_write:
  assumes ix: "index_ok ES ok N b n es" and N: "N < 2 ^ 32" "b + ES * N \<le> 2 ^ 63"
    and at: "b \<le> at" "at < b + ES * N" and src: "src \<noteq> []"
  shows "\<exists>k n' es'. k \<le> length src \<and> index_ok ES ok N b n' es' \<and>
      (\<forall>j < ES * N. index_byte ES byte es' j = patched (at - b) (take k src) (index_byte ES byte es) j) \<and>
      ((\<exists>err. write_loop alloc wr ES N b src at (n, es) = Some (Some err, n', es') \<and> refused err \<and> k < length src) \<or>
       write_loop alloc wr ES N b src at (n, es) = write_loop alloc wr ES N b (drop k src) (at + k) (n', es') \<and>
       0 < k \<and> index_used ES used n' es' = max (index_used ES used n es) (at - b + k))"
proof -
  define i l where il: "i = (at - b) div ES" "l = (at - b) mod ES"
  define k where "k = min (length src) (ES - l)"
  note p = index_position [OF at N(2,1), folded il]
  have k: "0 < k" "l + k \<le> ES" "length (take k src) = k" "k \<le> length src" using p(4) src by (auto simp: k_def)
  have lo: "at - b = i * ES + l" using p(3) by simp
  have wb: "wadd b (i * ES) = b + i * ES" using p(6) N(2) by (intro wadd_eq) simp
  have b2: "b + i * ES + ES \<le> 2 ^ 63" using p(6) N(2) by simp
  have len: "length es = N" using ix by (simp add: index_ok_def)
  define n' where "n' = max n (i + 1)"
  have nn: "es ! i \<noteq> None \<Longrightarrow> n' = n" using ix p(2) by (force simp: index_ok_def n'_def)
  consider (refuse) err where "es ! i = None" "alloc (b + i * ES) = Inl err" "refused err"
    | (entry) e es0 where "entry_for_writing alloc ES N b i (n, es) = Inr (e, n', es0)" "ok (b + i * ES) e"
        "\<And>x. es0[i := x] = es[i := x]" "case es ! i of None \<Rightarrow> used e = 0 | Some x \<Rightarrow> used e = used x"
        "\<And>j. j < ES \<Longrightarrow> (case es ! i of None \<Rightarrow> 0 | Some x \<Rightarrow> byte x j) = byte e j"
  proof (cases "es ! i")
    case None
    then show ?thesis using alloc [of "b + i * ES"] p(2) wb new that
      by (auto simp: entry_for_writing_def n'_def)
  next
    case (Some e)
    then show ?thesis using ix p(2) nn that(2) [of e es] by (auto simp: entry_for_writing_def index_ok_def)
  qed
  then show ?thesis
  proof cases
    case refuse
    then have "write_loop alloc wr ES N b src at (n, es) = Some (Some err, n, es)"
      using src p(1,2) wb by (subst write_loop.simps) (simp add: entry_for_writing_def)
    with refuse ix src show ?thesis by (intro exI [of _ "0 :: nat"] exI [of _ n] exI [of _ es]) simp
  next
    case entry
    have "at - (b + i * ES) = l" using p(3) by simp
    with wr [OF entry(2) b2, of at "take k src"] p(3) k src
    obtain r m e' where e': "wr (take k src) at e = Some (r, e')" "ok (b + i * ES) e'" "m \<le> k"
        "\<forall>x. r = Some x \<longrightarrow> refused x \<and> m < k" "r = None \<longrightarrow> m = k \<and> used e' = max (used e) (l + k)"
        "\<forall>j < ES. byte e' j = patched l (take m (take k src)) (byte e) j"
      by (elim meta_impE exE conjE) (simp, simp, simp, simp only:)
    then have e6: "\<And>j. j < ES \<Longrightarrow> byte e' j = patched l (take m src) (byte e) j" by (simp add: min_absorb1)
    have bytes: "\<forall>j. index_byte ES byte (es[i := Some e']) j = patched (at - b) (take m src) (index_byte ES byte es) j"
      using entry_bytes [OF len p(2) _ entry(5) e6] e'(3) k unfolding lo by simp
    have ok': "index_ok ES ok N b n' (es[i := Some e'])"
      using ix p(2) e'(2) by (auto simp: index_ok_def n'_def nth_list_update)
    have "wadd at k = at + k" using at(2) N(2) k p(3,4,6) by (intro wadd_eq) simp
    then have loop: "write_loop alloc wr ES N b src at (n, es) = (case r of Some err \<Rightarrow> Some (Some err, n', es[i := Some e'])
        | None \<Rightarrow> write_loop alloc wr ES N b (drop k src) (at + k) (n', es[i := Some e']))"
      using src entry(1,3) e'(1) p(1,5) by (subst write_loop.simps) (simp add: k_def [symmetric] Let_def split: option.split)
    show ?thesis
    proof (cases r)
      case None
      then have "used e' = max (used e) (l + k)" "m = k" using e'(5) by auto
      with put_entry(2) [OF ix p(2) e'(2) entry(4) _ k(2), folded n'_def] None loop bytes ok' k lo show ?thesis
        by (intro exI [of _ k] exI [of _ n'] exI [of _ "es[i := Some e']"]) (simp add: algebra_simps)
    next
      case (Some err)
      with loop bytes ok' e'(3,4) k(4) show ?thesis
        by (intro exI [of _ m] exI [of _ n'] exI [of _ "es[i := Some e']"]) simp
    qed
  qed
qed

lemma patched_take:
  assumes "k \<le> length src"
  shows "patched (lo + k) (take m (drop k src)) (patched lo (take k src) f) = patched lo (take (k + m) src) f"
  using patched_append [of lo "take k src" "take m (drop k src)" f] assms by (simp add: min_absorb2 take_add)

lemma write_loop_spec:
  assumes "index_ok ES ok N b n es" and N: "N < 2 ^ 32" "b + ES * N \<le> 2 ^ 63"
    and "b \<le> at" "at + length src \<le> b + ES * N"
  shows "\<exists>e k n' es'. write_loop alloc wr ES N b src at (n, es) = Some (e, n', es') \<and>
      index_ok ES ok N b n' es' \<and> k \<le> length src \<and> (\<forall>x. e = Some x \<longrightarrow> refused x \<and> k < length src) \<and>
      (e = None \<longrightarrow> k = length src \<and>
        (src \<noteq> [] \<longrightarrow> index_used ES used n' es' = max (index_used ES used n es) (at - b + length src))) \<and>
      (\<forall>j < ES * N. index_byte ES byte es' j = patched (at - b) (take k src) (index_byte ES byte es) j)"
  using assms(1,4,5)
proof (induction "length src" arbitrary: src at n es rule: less_induct)
  case less
  show ?case
  proof (cases "src = []")
    case True
    with less.prems show ?thesis by (subst write_loop.simps) auto
  next
    case False
    have at: "at < b + ES * N" using False less.prems by (cases src) auto
    obtain k n1 es1 where k: "k \<le> length src" and ok1: "index_ok ES ok N b n1 es1"
      and b1: "\<forall>j < ES * N. index_byte ES byte es1 j = patched (at - b) (take k src) (index_byte ES byte es) j"
      and s: "(\<exists>err. write_loop alloc wr ES N b src at (n, es) = Some (Some err, n1, es1) \<and> refused err \<and> k < length src) \<or>
        write_loop alloc wr ES N b src at (n, es) = write_loop alloc wr ES N b (drop k src) (at + k) (n1, es1) \<and>
        0 < k \<and> index_used ES used n1 es1 = max (index_used ES used n es) (at - b + k)"
      using entry_write [OF less.prems(1) N less.prems(2) at False] by blast
    from s show ?thesis
    proof (elim disjE exE conjE)
      fix err
      assume "write_loop alloc wr ES N b src at (n, es) = Some (Some err, n1, es1)" "refused err" "k < length src"
      with k ok1 b1 show ?thesis by (intro exI [of _ "Some err"] exI [of _ k] exI [of _ n1] exI [of _ es1]) simp
    next
      assume go: "write_loop alloc wr ES N b src at (n, es) = write_loop alloc wr ES N b (drop k src) (at + k) (n1, es1)"
        "0 < k" "index_used ES used n1 es1 = max (index_used ES used n es) (at - b + k)"
      have "length (drop k src) < length src" using go(2) k False by simp
      from less.hyps [OF this ok1, of "at + k"] less.prems k obtain e m n2 es2 where
        t: "write_loop alloc wr ES N b (drop k src) (at + k) (n1, es1) = Some (e, n2, es2)" "index_ok ES ok N b n2 es2"
          "m \<le> length src - k" "\<forall>x. e = Some x \<longrightarrow> refused x \<and> m < length src - k" "e = None \<longrightarrow> m = length src - k \<and>
          (drop k src \<noteq> [] \<longrightarrow> index_used ES used n2 es2 = max (index_used ES used n1 es1) (at + k - b + (length src - k)))"
          "\<forall>j < ES * N. index_byte ES byte es2 j = patched (at + k - b) (take m (drop k src)) (index_byte ES byte es1) j"
        by auto
      have l: "at + k - b = (at - b) + k" using less.prems(2) by simp
      have "index_byte ES byte es2 j = patched (at - b) (take (k + m) src) (index_byte ES byte es) j" if "j < ES * N" for j
        unfolding patched_take [OF k, symmetric] using t(6) b1 that by (simp add: l patched_def)
      moreover have "index_used ES used n2 es2 = max (index_used ES used n es) (at - b + length src)" if "e = None"
      proof (cases "drop k src = []")
        case True
        with t(1) have "(n2, es2) = (n1, es1)" by (subst (asm) write_loop.simps) simp
        with True k go(3) show ?thesis by simp
      next
        case False
        with t(5) that k less.prems(2) show ?thesis unfolding go(3) by simp
      qed
      moreover have "\<forall>x. e = Some x \<longrightarrow> refused x \<and> k + m < length src" "k + m \<le> length src" "e = None \<longrightarrow> k + m = length src"
        using t(3-5) k by auto
      ultimately show ?thesis unfolding go(1) t(1) using t(2)
        by (intro exI [of _ e] exI [of _ "k + m"] exI [of _ n2] exI [of _ es2]) simp
    qed
  qed
qed

lemma read_loop_spec:
  assumes ix: "index_ok ES ok N b n es" and N: "N < 2 ^ 32" "b + ES * N \<le> 2 ^ 63"
    and "b \<le> at" "at + len \<le> b + ES * N"
  shows "read_loop rd ES N b es len at acc =
    Some (Inr (acc @ map (index_byte ES byte es) [at - b..<at - b + len]))"
  using assms(4,5)
proof (induction len arbitrary: at acc rule: less_induct)
  case (less len)
  show ?case
  proof (cases "len = 0")
    case True
    then show ?thesis by (subst read_loop.simps) simp
  next
    case False
    define i l k where ilk: "i = (at - b) div ES" "l = (at - b) mod ES" "k = min len (ES - l)"
    have at: "at < b + ES * N" using False less.prems by simp
    note p = index_position [OF less.prems(1) at N(2,1), folded ilk(1,2)]
    have k: "0 < k" "l + k \<le> ES" "k \<le> len" using p(4) False by (auto simp: ilk(3))
    have b2: "b + i * ES + ES \<le> 2 ^ 63" using p(6) N(2) by simp
    have same: "index_byte ES byte es (at - b + j) =
        (case es ! i of None \<Rightarrow> 0 | Some e \<Rightarrow> byte e (l + j))" if "j < k" for j
    proof -
      have "l + j < ES" using that k(2) by linarith
      from div_mod_step [OF this [unfolded ilk(2)]] show ?thesis by (simp add: index_byte_def ilk(1,2) split: option.split)
    qed
    have bytes: "read_func rd k at (es ! i) =
        Some (Inr (map (index_byte ES byte es) [at - b..<at - b + k]))"
    proof (cases "es ! i")
      case None
      then have "map (index_byte ES byte es) [at - b..<at - b + k] = replicate k 0"
        using same by (intro nth_equalityI) simp_all
      with None show ?thesis by (simp add: read_func_def)
    next
      case (Some e)
      then have oke: "ok (b + i * ES) e" using ix p(2) by (auto simp: index_ok_def)
      then have nz: "\<not> zero (base_offset e)" using base b2 by (auto simp: zero_def)
      moreover have "at - (b + i * ES) = l" using p(3) by linarith
      ultimately have "rd k at e = Some (Inr (map (byte e) [l..<l + k]))"
        using rd [OF oke b2, of at k] p(3) k(2) by auto
      moreover have "map (byte e) [l..<l + k] = map (index_byte ES byte es) [at - b..<at - b + k]"
        using same Some by (intro nth_equalityI) simp_all
      ultimately show ?thesis using Some nz by (simp add: read_func_def)
    qed
    have "wadd at k = at + k" using less.prems N(2) k(3) by (intro wadd_eq) simp
    then have "read_loop rd ES N b es len at acc = read_loop rd ES N b es (len - k) (at + k)
        (acc @ map (index_byte ES byte es) [at - b..<at - b + k])"
      using False bytes p(1,2,5) by (subst read_loop.simps) (simp add: Let_def entry_for_reading_def ilk(3) [symmetric])
    also have "\<dots> = Some (Inr (acc @ map (index_byte ES byte es) [at - b..<at - b + k] @
        map (index_byte ES byte es) [at + k - b..<at + k - b + (len - k)]))"
      using less.IH [of "len - k" "at + k"] k less.prems by simp
    also have "map (index_byte ES byte es) [at - b..<at - b + k] @
        map (index_byte ES byte es) [at + k - b..<at + k - b + (len - k)] =
        map (index_byte ES byte es) [at - b..<at - b + len]"
    proof -
      have "at + k - b = at - b + k" using less.prems(1) by simp
      moreover have "at - b + len = at - b + k + (len - k)" using k(3) by simp
      ultimately show ?thesis by (simp only: upt_add_eq_append [OF le_add1] map_append)
    qed
    finally show ?thesis by simp
  qed
qed

lemma destroy_entries:
  "length (fold (destroy_entry n) is es) = length es \<and>
    (\<forall>j < length es. (\<forall>i \<in> set is. i < n) \<longrightarrow>
      fold (destroy_entry n) is es ! j = (if j \<in> set is then None else es ! j))"
proof (induction "is" arbitrary: es)
  case (Cons i "is")
  have len: "length (destroy_entry n i es) = length es" by (simp add: destroy_entry_def)
  have "i < n \<Longrightarrow> j < length es \<Longrightarrow> destroy_entry n i es ! j = (if j = i then None else es ! j)" for j
    by (auto simp: destroy_entry_def)
  with Cons [of "destroy_entry n i es"] len show ?case by auto
qed simp

text \<open>Cutting an index at entry \<open>t\<close> with a shortened or removed entry there.\<close>

lemma cut_index_ok:
  assumes ix: "index_ok ES ok N b n es" and t: "t < n"
    and es': "length es' = N" "\<forall>i < N. i < t \<longrightarrow> es' ! i = es ! i" "\<forall>i < N. t < i \<longrightarrow> es' ! i = None"
    and e: "\<And>x. es' ! t = Some x \<Longrightarrow> ok (b + t * ES) x"
    and n': "n' = t + 1 \<or> n' = t \<and> es' ! t = None"
  shows "index_ok ES ok N b n' es'"
  unfolding index_ok_def
proof (intro conjI allI impI)
  show "length es' = N" "n' \<le> N" using es' n' t ix by (auto simp: index_ok_def)
  fix i
  assume "i < N"
  show "es' ! i = None" if "n' \<le> i" using that n' es'(3) \<open>i < N\<close> by (cases "i = t") auto
  fix x
  assume x: "es' ! i = Some x"
  consider "i < t" | "i = t" | "t < i" by linarith
  then show "ok (b + i * ES) x"
    using x es'(2,3) ix \<open>i < N\<close> e by cases (auto simp: index_ok_def)
qed

lemma cut_index_byte:
  assumes l: "l < ES" and es': "\<forall>i < N. i < t \<longrightarrow> es' ! i = es ! i" "\<forall>i < N. t < i \<longrightarrow> es' ! i = None"
    and e: "\<And>i. i < ES \<Longrightarrow> (case es' ! t of None \<Rightarrow> 0 | Some x \<Rightarrow> byte x i) =
      (if i < l then (case es ! t of None \<Rightarrow> 0 | Some x \<Rightarrow> byte x i) else 0)"
    and j: "j < ES * N"
  shows "index_byte ES byte es' j = (if j < t * ES + l then index_byte ES byte es j else 0)"
proof -
  let ?i = "j div ES" let ?m = "j mod ES"
  have i: "?i < N" using j by (simp add: less_mult_imp_div_less mult.commute)
  have m: "?m < ES" using pos by simp
  have jj: "j = ?i * ES + ?m" by simp
  consider "?i < t" | "?i = t" | "t < ?i" by linarith
  then show ?thesis
  proof cases
    case 1
    then have "Suc ?i * ES \<le> t * ES" by (intro mult_le_mono1) simp
    then have "j < t * ES + l" using jj m unfolding mult_Suc by linarith
    then show ?thesis using 1 es'(1) i by (simp add: index_byte_def)
  next
    case 2
    then have "j < t * ES + l \<longleftrightarrow> ?m < l" using jj by (metis nat_add_left_cancel_less)
    then show ?thesis using 2 e [OF m] by (auto simp: index_byte_def)
  next
    case 3
    then have "Suc t * ES \<le> ?i * ES" by (intro mult_le_mono1) simp
    then have "\<not> j < t * ES + l" using jj l unfolding mult_Suc by linarith
    then show ?thesis using 3 es'(2) i by (simp add: index_byte_def)
  qed
qed

lemma index_used_le:
  assumes ix: "index_ok ES ok N b n es"
  shows "index_used ES used n es \<le> n * ES"
proof (cases n)
  case (Suc m)
  have "used x \<le> ES" if "es ! m = Some x" for x
    using that ix used_le [of "b + m * ES" x] Suc by (auto simp: index_ok_def)
  then show ?thesis using Suc by (auto simp: index_used_def mult.commute split: option.splits)
qed (simp add: index_used_def)

lemma index_used_ge:
  assumes "t < n"
  shows "t * ES \<le> index_used ES used n es"
proof -
  have "t * ES \<le> (n - 1) * ES" using assms by (intro mult_le_mono1) simp
  also have "\<dots> \<le> index_used ES used n es" using assms by (simp add: index_used_def mult.commute)
  finally show ?thesis .
qed

lemma cut_index_used:
  assumes t: "t < n" and l: "l < ES" and ok': "index_ok ES ok N b n' es'"
    and e: "\<And>x. es' ! t = Some x \<Longrightarrow> \<exists>y. es ! t = Some y \<and> used x \<le> min (used y) l"
    and n': "n' = t + 1 \<or> n' = t"
  shows "index_used ES used n' es' \<le> min (index_used ES used n es) (t * ES + l)"
proof (cases "n' = t + 1")
  case True
  note lower = index_used_ge [OF t, of es]
  from True have u: "index_used ES used n' es' = t * ES + (case es' ! t of None \<Rightarrow> 0 | Some x \<Rightarrow> used x)"
    by (simp add: index_used_def mult.commute)
  show ?thesis
  proof (cases "es' ! t")
    case None
    with u lower show ?thesis by simp
  next
    case (Some x)
    with e obtain y where y: "es ! t = Some y" "used x \<le> min (used y) l" by blast
    have "t * ES + used x \<le> index_used ES used n es"
    proof (cases "n = t + 1")
      case True
      with y show ?thesis by (simp add: index_used_def mult.commute)
    next
      case False
      with t have "Suc t * ES \<le> index_used ES used n es" by (intro index_used_ge) simp
      then show ?thesis using y(2) l unfolding mult_Suc by simp
    qed
    with u Some y show ?thesis by simp
  qed
next
  case False
  with n' index_used_le [OF ok'] index_used_ge [OF t, of es] show ?thesis by simp
qed

lemma cut_index:
  assumes ix: "index_ok ES ok N b n es" and t: "t < n" and l: "l < ES"
    and es': "length es' = N" "\<forall>i < N. i < t \<longrightarrow> es' ! i = es ! i" "\<forall>i < N. t < i \<longrightarrow> es' ! i = None"
    and e: "case es ! t of
        None \<Rightarrow> es' ! t = None
      | Some e \<Rightarrow> (\<exists>e'. ok (b + t * ES) e' \<and> used e' \<le> min (used e) l \<and>
          (\<forall>i < ES. byte e' i = (if i < l then byte e i else 0)) \<and>
          (es' ! t = Some e' \<or> used e' = 0 \<and> es' ! t = None))"
    and n': "n' = t + 1 \<or> n' = t \<and> es' ! t = None"
  shows "index_ok ES ok N b n' es'" "index_used ES used n' es' \<le> min (index_used ES used n es) (t * ES + l)"
    "\<And>j. j < ES * N \<Longrightarrow>
      index_byte ES byte es' j = (if j < t * ES + l then index_byte ES byte es j else 0)"
proof -
  show ok': "index_ok ES ok N b n' es'"
    by (rule cut_index_ok [OF ix t es' _ n']) (use e in \<open>auto split: option.splits\<close>)
  show "index_used ES used n' es' \<le> min (index_used ES used n es) (t * ES + l)"
    by (rule cut_index_used [OF t l ok']) (use e n' in \<open>auto split: option.splits\<close>)
  have "(case es' ! t of None \<Rightarrow> 0 | Some x \<Rightarrow> byte x i) =
      (if i < l then (case es ! t of None \<Rightarrow> 0 | Some x \<Rightarrow> byte x i) else 0)" if "i < ES" for i
    using e that zero_tail [of "b + t * ES"] by (auto split: option.splits)
  then show "index_byte ES byte es' j = (if j < t * ES + l then index_byte ES byte es j else 0)"
    if "j < ES * N" for j using cut_index_byte [OF l es'(2,3)] that by blast
qed

lemma index_beyond:
  assumes ix: "index_ok ES ok N b n es" and t: "n \<le> t"
  shows "index_used ES used n es \<le> t * ES" "\<And>j. j < ES * N \<Longrightarrow> t * ES \<le> j \<Longrightarrow> index_byte ES byte es j = 0"
proof -
  have "n * ES \<le> t * ES" using t by (intro mult_le_mono1) simp
  with index_used_le [OF ix] show "index_used ES used n es \<le> t * ES" by (rule le_trans)
  fix j
  assume j: "j < ES * N" "t * ES \<le> j"
  have "t \<le> j div ES" using j(2) pos by (simp add: less_eq_div_iff_mult_less_eq)
  moreover have "j div ES < N" using j(1) by (simp add: less_mult_imp_div_less mult.commute)
  ultimately have "es ! (j div ES) = None" using ix t by (auto simp: index_ok_def)
  then show "index_byte ES byte es j = 0" by (simp add: index_byte_def)
qed

lemma cut_entries:
  assumes ix: "index_ok ES ok N b n es" and t: "t < n"
  defines "es1 \<equiv> fold (destroy_entry n) [Suc t..<n] es"
  shows "length es1 = N" "\<And>j. j < N \<Longrightarrow> t < j \<Longrightarrow> es1 ! j = None" "\<And>j. j \<le> t \<Longrightarrow> es1 ! j = es ! j"
proof -
  have len: "length es = N" "n \<le> N" using ix by (auto simp: index_ok_def)
  have e1: "length es1 = N" "\<And>j. j < N \<Longrightarrow> es1 ! j = (if t < j \<and> j < n then None else es ! j)"
    using destroy_entries [of n "[Suc t..<n]" es] len by (auto simp: es1_def)
  show "length es1 = N" by (rule e1(1))
  show "es1 ! j = None" if "j < N" "t < j" for j using e1(2) [OF that(1)] that ix by (auto simp: index_ok_def)
  show "es1 ! j = es ! j" if "j \<le> t" for j using e1(2) [of j] that t len by simp
qed

lemma index_truncate_spec:
  assumes ix: "index_ok ES ok N b n es" and N: "N < 2 ^ 32" "b + ES * N \<le> 2 ^ 63"
    and at: "b \<le> at" "at < b + ES * N"
  shows "\<exists>n' es'. index_truncate tr ES at b n es = (None, Index b n' es') \<and> index_ok ES ok N b n' es' \<and>
    index_used ES used n' es' \<le> min (index_used ES used n es) (at - b) \<and>
    (\<forall>j < ES * N. index_byte ES byte es' j = (if j < at - b then index_byte ES byte es j else 0))"
proof -
  define t l where tl: "t = (at - b) div ES" "l = (at - b) mod ES"
  note p = index_position [OF at N(2,1), folded tl]
  have lo: "at - b = t * ES + l" by (simp add: tl)
  show ?thesis
  proof (cases "t < n")
    case False
    then show ?thesis
      using index_beyond [OF ix, of t] ix p(1) unfolding lo by (auto simp: index_truncate_def)
  next
    case True
    define es1 where "es1 = fold (destroy_entry n) [Suc t..<n] es"
    note e1 = cut_entries [OF ix True, folded es1_def] and cut = cut_index [OF ix True p(4)]
    have c: "length (es1[t := v]) = N" "\<forall>i < N. i < t \<longrightarrow> es1[t := v] ! i = es ! i"
      "\<forall>i < N. t < i \<longrightarrow> es1[t := v] ! i = None" "es1[t := v] ! t = v" for v
      using e1 p(2) by auto
    show ?thesis
    proof (cases "es ! t")
      case None
      then have r: "index_truncate tr ES at b n es = (None, Index b (t + 1) (es1[t := None]))"
        using True p(1,2) e1(3) [of t] list_update_id [of es1 t]
        by (simp add: index_truncate_def Let_def es1_def [symmetric])
      show ?thesis using cut [OF c(1-3), of None "t + 1"] None c(4) r unfolding lo by auto
    next
      case (Some x)
      have okx: "ok (b + t * ES) x" using ix p(2) Some by (auto simp: index_ok_def)
      have "at - (b + t * ES) = l" "b + t * ES + ES \<le> 2 ^ 63" using p(3,6) N(2) by simp_all
      with tr [OF okx, of at] p(3,4) obtain x' where
        x': "tr at x = (None, x')" "ok (b + t * ES) x'" "used x' \<le> min (used x) l"
          "\<forall>i < ES. byte x' i = (if i < l then byte x i else 0)" by auto
      have r: "index_truncate tr ES at b n es = (if chunk_empty x' then (None, Index b t (es1[t := None]))
          else (None, Index b (t + 1) (es1[t := Some x'])))"
        using True p(1,2) e1(3) [of t] Some x'(1) e1(1)
        by (simp add: index_truncate_def Let_def es1_def [symmetric] destroy_entry_def)
      have e: "case es ! t of
          None \<Rightarrow> es1[t := v] ! t = None
        | Some e \<Rightarrow> (\<exists>e'. ok (b + t * ES) e' \<and> used e' \<le> min (used e) l \<and>
            (\<forall>i < ES. byte e' i = (if i < l then byte e i else 0)) \<and>
            (es1[t := v] ! t = Some e' \<or> used e' = 0 \<and> es1[t := v] ! t = None))"
        if "v = Some x' \<or> used x' = 0 \<and> v = None" for v
        using Some x'(2-4) that c(4) [of v] by (simp, intro exI [of _ x']) auto
      have "used x' = 0" if "chunk_empty x'" using that empty_used x'(2) by blast
      then show ?thesis
        using cut [OF c(1-3) e, of None t] cut [OF c(1-3) e, of "Some x'" "t + 1"] c(4) r unfolding lo
        by (cases "chunk_empty x'") auto
    qed
  qed
qed

lemma index_used_bound:
  assumes "index_ok ES ok N b n es"
  shows "index_used ES used n es \<le> ES * N"
    "index_used ES used n es \<le> j \<Longrightarrow> j < ES * N \<Longrightarrow> index_byte ES byte es j = 0"
proof -
  have N: "length es = N" "n \<le> N" using assms by (auto simp: index_ok_def)
  have ue: "used x \<le> ES" if "es ! m = Some x" "m < N" for m x
    using that assms used_le [of "b + m * ES" x] by (auto simp: index_ok_def)
  have "index_used ES used n es \<le> ES * n"
    using ue [of "n - 1"] N by (cases n) (auto simp: index_used_def split: option.splits)
  also have "\<dots> \<le> ES * N" using N by simp
  finally show "index_used ES used n es \<le> ES * N" .
  assume j: "index_used ES used n es \<le> j" "j < ES * N"
  let ?i = "j div ES" let ?m = "j mod ES"
  have i: "?i < N" using j(2) by (simp add: less_mult_imp_div_less mult.commute)
  show "index_byte ES byte es j = 0"
  proof (cases "es ! ?i")
    case (Some x)
    then have "?i < n" using assms i by (force simp: index_ok_def)
    have m: "?m < ES" using pos by simp
    have "\<not> ?i + 1 < n"
    proof
      assume "?i + 1 < n"
      then have "ES * Suc ?i \<le> ES * (n - 1)" by (intro mult_le_mono2) simp
      also have "\<dots> \<le> index_used ES used n es" using \<open>?i < n\<close> by (simp add: index_used_def)
      finally have "ES * Suc ?i \<le> j" using j(1) by simp
      moreover have "j = ES * ?i + ?m" by simp
      ultimately show False using m unfolding mult_Suc_right by linarith
    qed
    with \<open>?i < n\<close> have "n = ?i + 1" by simp
    then have "index_used ES used n es = ES * ?i + used x" using Some by (simp add: index_used_def)
    moreover have "j = ES * ?i + ?m" by simp
    ultimately have "used x \<le> ?m" using j(1) by linarith
    moreover have "ok (b + ?i * ES) x" using assms Some i by (auto simp: index_ok_def)
    ultimately have "byte x ?m = 0" using zero_tail m by blast
    with Some show ?thesis by (simp add: index_byte_def)
  qed (simp add: index_byte_def)
qed

end

section \<open>Every nesting meets the contract\<close>

lemma valid_rangeI:
  assumes "b + sz \<le> 2 ^ 63" "b \<le> at" "at + len \<le> b + sz"
  shows "valid_range b at len sz"
  using assms by (simp add: valid_range_def wadd_eq)

lemma leaf_level:
  assumes "0 < S"
  shows "chunk_level S (chunk_ok (Leaf_geo S)) (byte_at (Leaf_geo S)) (used_size (Leaf_geo S))
    (chunk_new (Leaf_geo S)) (new_entry A (Leaf_geo S)) (refuses A) (chunk_write A (Leaf_geo S)) (chunk_read (Leaf_geo S)) (chunk_truncate (Leaf_geo S))"
proof
  show "0 < S" by fact
  fix b c at len i and src :: "u8 list"
  show "chunk_ok (Leaf_geo S) b (chunk_new (Leaf_geo S) b) \<and> used_size (Leaf_geo S) (chunk_new (Leaf_geo S) b) = 0 \<and>
      (\<forall>i < S. byte_at (Leaf_geo S) (chunk_new (Leaf_geo S) b) i = 0)" by simp
  show "new_entry A (Leaf_geo S) b = Inr (chunk_new (Leaf_geo S) b) \<or> (\<exists>e. new_entry A (Leaf_geo S) b = Inl e \<and> refuses A e)"
    by (rule new_entry_cases)
  assume "chunk_ok (Leaf_geo S) b c"
  then obtain n d where c: "c = Leaf b n d" "length d = S" "n \<le> S" "\<forall>i < S. n \<le> i \<longrightarrow> d ! i = 0" by auto
  show "base_offset c = b" using c by simp
  show "used_size (Leaf_geo S) c \<le> S" using c by simp
  show "used_size (Leaf_geo S) c \<le> i \<Longrightarrow> i < S \<Longrightarrow> byte_at (Leaf_geo S) c i = 0" using c by simp
  show "chunk_empty c \<Longrightarrow> used_size (Leaf_geo S) c = 0" by (simp add: chunk_empty_def)
  assume b: "b + S \<le> 2 ^ 63" and at: "b \<le> at"
  have w: "wsub at b = at - b" if "at \<le> b + S" using that b at by (intro wsub_eq) auto
  {
    assume le: "at + length src \<le> b + S" and ne: "src \<noteq> []"
    let ?l = "at - b" let ?d = "take ?l d @ src @ drop (?l + length src) d"
    have le': "at \<le> b + S" "?l + length src \<le> S" using le at by auto
    have "wadd ?l (length src) = ?l + length src" using le' b by (intro wadd_eq) simp
    then have "chunk_write A (Leaf_geo S) src at c = Some (None, Leaf b (max n (?l + length src)) ?d)"
      using le' c valid_rangeI [OF b at le] by (simp add: leaf_write_def w Let_def)
    moreover have "?d ! i = patched ?l src (\<lambda>i. d ! i) i" if "i < S" for i
      using that le' c(2) by (auto simp: patched_def nth_append)
    moreover have "length ?d = S" using le' c(2) by simp
    ultimately show "\<exists>e k c'. chunk_write A (Leaf_geo S) src at c = Some (e, c') \<and> chunk_ok (Leaf_geo S) b c' \<and>
        k \<le> length src \<and> (\<forall>x. e = Some x \<longrightarrow> refuses A x \<and> k < length src) \<and>
        (e = None \<longrightarrow> k = length src \<and> used_size (Leaf_geo S) c' = max (used_size (Leaf_geo S) c) (at - b + length src)) \<and>
        (\<forall>i < S. byte_at (Leaf_geo S) c' i = patched (at - b) (take k src) (byte_at (Leaf_geo S) c) i)"
      using c le' by (intro exI [of _ None] exI [of _ "length src"] exI) (auto simp: patched_def)
  next
    assume le: "at + len \<le> b + S"
    then have le': "at \<le> b + S" "at - b + len \<le> S" using at by auto
    have "take len (drop (at - b) d) = map (\<lambda>i. d ! i) [at - b..<at - b + len]"
      using le' c(2) by (intro nth_equalityI) auto
    with le' c valid_rangeI [OF b at le]
    show "chunk_read (Leaf_geo S) len at c =
        Some (Inr (map (byte_at (Leaf_geo S) c) [at - b..<at - b + len]))"
      by (simp add: leaf_read_def w)
  next
    assume lt: "at < b + S"
    let ?l = "at - b"
    have v: "valid_range b at 0 S" using lt by (intro valid_rangeI [OF b at]) simp
    show "\<exists>c'. chunk_truncate (Leaf_geo S) at c = (None, c') \<and> chunk_ok (Leaf_geo S) b c' \<and>
        used_size (Leaf_geo S) c' \<le> min (used_size (Leaf_geo S) c) (at - b) \<and>
        (\<forall>i < S. byte_at (Leaf_geo S) c' i = (if i < at - b then byte_at (Leaf_geo S) c i else 0))"
    proof (cases "n \<le> ?l")
      case True
      with c v w lt show ?thesis by (auto simp: leaf_truncate_def)
    next
      case False
      let ?d = "take ?l d @ replicate (n - ?l) 0 @ drop n d"
      have "?d ! i = (if i < ?l then d ! i else 0)" if "i < S" for i
        using that c(2-4) False by (auto simp: nth_append)
      moreover have "length ?d = S" using c(2,3) False by simp
      moreover have "chunk_truncate (Leaf_geo S) at c = (None, Leaf b ?l ?d)"
        using c v w lt False by (simp add: leaf_truncate_def Let_def)
      ultimately show ?thesis using c lt at False by (intro exI [of _ "Leaf b ?l ?d"]) simp
    qed
  }
qed

lemma index_level:
  assumes "chunk_level ES ok byte used new al rf wr rd tr" and N: "0 < N" "N < 2 ^ 32"
    and g: "ES = geo_size g" "ok = chunk_ok g" "byte = byte_at g" "used = used_size g" "new = chunk_new g"
      "al = new_entry A g" "rf = refuses A" "wr = chunk_write A g" "rd = chunk_read g" "tr = chunk_truncate g"
  shows "chunk_level (geo_size (Index_geo N g)) (chunk_ok (Index_geo N g)) (byte_at (Index_geo N g))
    (used_size (Index_geo N g)) (chunk_new (Index_geo N g)) (new_entry A (Index_geo N g)) (refuses A) (chunk_write A (Index_geo N g))
    (chunk_read (Index_geo N g)) (chunk_truncate (Index_geo N g))"
proof -
  note lev = assms(1) [unfolded g]
  let ?ES = "geo_size g" let ?G = "Index_geo N g"
  have u: "used_size ?G (Index b n es) = index_used ?ES (used_size g) n es" for b n es
    by (simp add: index_used_def split: option.splits)
  show ?thesis
  proof
    show "0 < geo_size ?G" using chunk_level.pos [OF lev] N by simp
    fix b c at len i and src :: "u8 list"
    show "chunk_ok ?G b (chunk_new ?G b) \<and> used_size ?G (chunk_new ?G b) = 0 \<and>
        (\<forall>i < geo_size ?G. byte_at ?G (chunk_new ?G b) i = 0)"
      by (auto simp: index_ok_def index_byte_def less_mult_imp_div_less mult.commute)
    show "new_entry A ?G b = Inr (chunk_new ?G b) \<or> (\<exists>e. new_entry A ?G b = Inl e \<and> refuses A e)" by (rule new_entry_cases)
    assume "chunk_ok ?G b c"
    then obtain n es where c: "c = Index b n es" and ix: "index_ok ?ES (chunk_ok g) N b n es" by auto
    show "base_offset c = b" using c by simp
    show "used_size ?G c \<le> geo_size ?G"
      using chunk_level.index_used_bound(1) [OF lev ix] unfolding c u by simp
    show "used_size ?G c \<le> i \<Longrightarrow> i < geo_size ?G \<Longrightarrow> byte_at ?G c i = 0"
      using chunk_level.index_used_bound(2) [OF lev ix] unfolding c u by simp
    show "chunk_empty c \<Longrightarrow> used_size ?G c = 0" by (simp add: c chunk_empty_def)
    assume b: "b + geo_size ?G \<le> 2 ^ 63" and at: "b \<le> at"
    then have b': "b + ?ES * N \<le> 2 ^ 63" by simp
    {
      assume le: "at + length src \<le> b + geo_size ?G" and ne: "src \<noteq> []"
      then have le': "at + length src \<le> b + ?ES * N" by simp
      from chunk_level.write_loop_spec [OF lev ix N(2) b' at le'] ne obtain e k n' es' where
        w: "write_loop (new_entry A g) (chunk_write A g) ?ES N b src at (n, es) = Some (e, n', es')"
          "index_ok ?ES (chunk_ok g) N b n' es'" "k \<le> length src" "\<forall>x. e = Some x \<longrightarrow> refuses A x \<and> k < length src"
          "e = None \<longrightarrow> k = length src \<and> index_used ?ES (used_size g) n' es' =
            max (index_used ?ES (used_size g) n es) (at - b + length src)"
          "\<forall>j < ?ES * N. index_byte ?ES (byte_at g) es' j = patched (at - b) (take k src) (index_byte ?ES (byte_at g) es) j"
        by blast
      then have "chunk_write A ?G src at c = Some (e, Index b n' es')"
        using valid_rangeI [OF b at le] by (simp add: c index_write_def)
      with w(2-6) show "\<exists>e k c'. chunk_write A ?G src at c = Some (e, c') \<and> chunk_ok ?G b c' \<and> k \<le> length src \<and>
          (\<forall>x. e = Some x \<longrightarrow> refuses A x \<and> k < length src) \<and>
          (e = None \<longrightarrow> k = length src \<and> used_size ?G c' = max (used_size ?G c) (at - b + length src)) \<and>
          (\<forall>i < geo_size ?G. byte_at ?G c' i = patched (at - b) (take k src) (byte_at ?G c) i)"
        by (intro exI [of _ e] exI [of _ k] exI [of _ "Index b n' es'"]) (simp add: c u patched_def del: used_size.simps)
    next
      assume le: "at + len \<le> b + geo_size ?G"
      then have le': "at + len \<le> b + ?ES * N" by simp
      from chunk_level.read_loop_spec [OF lev ix N(2) b' at le'] valid_rangeI [OF b at le]
      show "chunk_read ?G len at c = Some (Inr (map (byte_at ?G c) [at - b..<at - b + len]))"
        by (simp add: c index_read_def)
    next
      assume lt: "at < b + geo_size ?G"
      then have lt': "at < b + ?ES * N" by simp
      from chunk_level.index_truncate_spec [OF lev ix N(2) b' at lt']
      show "\<exists>c'. chunk_truncate ?G at c = (None, c') \<and> chunk_ok ?G b c' \<and>
          used_size ?G c' \<le> min (used_size ?G c) (at - b) \<and>
          (\<forall>i < geo_size ?G. byte_at ?G c' i = (if i < at - b then byte_at ?G c i else 0))"
        unfolding c u by (auto simp: c u simp del: used_size.simps)
    }
  qed
qed

lemma geometry_level:
  "geo_ok g \<Longrightarrow> chunk_level (geo_size g) (chunk_ok g) (byte_at g) (used_size g) (chunk_new g)
    (new_entry A g) (refuses A) (chunk_write A g) (chunk_read g) (chunk_truncate g)"
proof (induction g)
  case (Leaf_geo S)
  then have "0 < S" by simp
  from leaf_level [OF this] show ?case by (simp only: geo_size.simps)
next
  case (Index_geo N g)
  then show ?case by (intro index_level) simp_all
qed

section \<open>Sequences of operations\<close>

datatype chunk_op = Write "u8 list" nat | Truncate nat

primrec chunk_run :: "geometry \<Rightarrow> chunk_op list \<Rightarrow> chunk \<Rightarrow> chunk option" where
  "chunk_run g [] c = Some c"
| "chunk_run g (x # xs) c = do {
     (e, c') \<leftarrow> (case x of Write src at \<Rightarrow> chunk_write grant_all g src at c | Truncate at \<Rightarrow> Some (chunk_truncate g at c));
     (if e = None then chunk_run g xs c' else None)
   }"

text \<open>The specification: a function from offsets to bytes.\<close>

primrec content_run :: "chunk_op list \<Rightarrow> (nat \<Rightarrow> u8) \<Rightarrow> nat \<Rightarrow> u8" where
  "content_run [] f = f"
| "content_run (x # xs) f = content_run xs
     (case x of Write src at \<Rightarrow> patched at src f | Truncate at \<Rightarrow> (\<lambda>i. if i < at then f i else 0))"

definition op_fits :: "geometry \<Rightarrow> chunk_op \<Rightarrow> bool" where
  "op_fits g x = (case x of Write src at \<Rightarrow> src \<noteq> [] \<and> at + length src \<le> geo_size g | Truncate at \<Rightarrow> at < geo_size g)"

lemma chunk_run_spec:
  assumes "geo_ok g" "geo_size g \<le> 2 ^ 63"
  shows "chunk_ok g 0 c \<Longrightarrow> (\<forall>i < geo_size g. byte_at g c i = f i) \<Longrightarrow> list_all (op_fits g) xs \<Longrightarrow>
    \<exists>c'. chunk_run g xs c = Some c' \<and> chunk_ok g 0 c' \<and> (\<forall>i < geo_size g. byte_at g c' i = content_run xs f i)"
proof (induction xs arbitrary: c f)
  case (Cons x xs)
  note lev = geometry_level [OF assms(1), of grant_all]
  have b: "0 + geo_size g \<le> 2 ^ 63" using assms(2) by simp
  show ?case
  proof (cases x)
    case (Write src at)
    with Cons.prems have "src \<noteq> []" "at + length src \<le> 0 + geo_size g" by (auto simp: op_fits_def)
    with chunk_level.wr [OF lev Cons.prems(1) b, of at src] obtain c' where
      c': "chunk_write grant_all g src at c = Some (None, c')" "chunk_ok g 0 c'"
        "\<forall>i < geo_size g. byte_at g c' i = patched at src (byte_at g c) i" by fastforce
    then have "\<forall>i < geo_size g. byte_at g c' i = patched at src f i"
      using Cons.prems(2) by (simp add: patched_def)
    from Cons.IH [OF c'(2) this] c' Write Cons.prems(3) show ?thesis by simp
  next
    case (Truncate at)
    with Cons.prems have "at < 0 + geo_size g" by (auto simp: op_fits_def)
    with chunk_level.tr [OF lev Cons.prems(1) b, of at] obtain c' where
      c': "chunk_truncate g at c = (None, c')" "chunk_ok g 0 c'"
        "\<forall>i < geo_size g. byte_at g c' i = (if i < at then byte_at g c i else 0)" by auto
    then have "\<forall>i < geo_size g. byte_at g c' i = (if i < at then f i else 0)"
      using Cons.prems(2) by simp
    from Cons.IH [OF c'(2) this] c' Truncate Cons.prems(3) show ?thesis by simp
  qed
qed simp

section \<open>Properties\<close>

text \<open>
  \<^bold>\<open>C24.\<close> For every nesting of chunk indices that addresses at most $2^{63}$ bytes, and every sequence
  of writes and truncations within its size, starting from a new chunk, with an allocator that grants all requests: all operations return without
  an exception or a stray memory access, and reading any range returns exactly the bytes last written
  there, zero where nothing was written since the last truncation below.
\<close>

theorem sparse_storage_refines:
  assumes "geo_ok g" "geo_size g \<le> 2 ^ 63" "list_all (op_fits g) xs" "at + len \<le> geo_size g"
  shows "\<exists>c. chunk_run g xs (chunk_new g 0) = Some c \<and>
    chunk_read g len at c = Some (Inr (map (content_run xs (\<lambda>_. 0)) [at..<at + len]))"
proof -
  note lev = geometry_level [OF assms(1), of grant_all]
  have n: "chunk_ok g 0 (chunk_new g 0)" "\<forall>i < geo_size g. byte_at g (chunk_new g 0) i = (\<lambda>_. 0) i"
    using chunk_level.new [OF lev, of 0] by auto
  from chunk_run_spec [OF assms(1,2) n assms(3)] obtain c where
    c: "chunk_run g xs (chunk_new g 0) = Some c" "chunk_ok g 0 c"
      "\<forall>i < geo_size g. byte_at g c i = content_run xs (\<lambda>_. 0) i" by blast
  have "chunk_read g len at c = Some (Inr (map (byte_at g c) [at - 0..<at - 0 + len]))"
    using assms(2,4) by (intro chunk_level.rd [OF lev c(2)]) simp_all
  moreover have "map (byte_at g c) [at..<at + len] = map (content_run xs (\<lambda>_. 0)) [at..<at + len]"
    using c(3) assms(4) by (intro map_cong) auto
  ultimately show ?thesis using c(1) by simp
qed

theorem sparse_storage_refines_witness:
  "\<exists>c. chunk_run (Index_geo 3 (Index_geo 2 (Leaf_geo 4))) [Write [1, 2, 3, 4, 5, 6] 6, Truncate 9]
      (chunk_new (Index_geo 3 (Index_geo 2 (Leaf_geo 4))) 0) = Some c \<and>
    chunk_read (Index_geo 3 (Index_geo 2 (Leaf_geo 4))) 6 5 c = Some (Inr [0, 1, 2, 3, 0, 0])"
proof -
  let ?g = "Index_geo 3 (Index_geo 2 (Leaf_geo 4))" let ?xs = "[Write [1, 2, 3, 4, 5, 6] 6, Truncate 9]"
  have "geo_ok ?g" "geo_size ?g \<le> 2 ^ 63" "list_all (op_fits ?g) ?xs" "5 + 6 \<le> geo_size ?g"
    by (simp_all add: op_fits_def)
  from sparse_storage_refines [OF this] show ?thesis
    by (simp add: patched_def upt_rec)
qed

end
