(* ===== verification/Ram_File.thy ===== *)
theory Ram_File
  imports Chunk
begin

text \<open>
  \<^verbatim>\<open>Vfs_ram::File\<close> of \<^verbatim>\<open>os/src/lib/vfs/ram_file_system.h\<close> with the parameters of
  \<^verbatim>\<open>os/include/ram_fs/param.h\<close>: a file of the RAM file system, kept in a three-level chunk index of
  8 GiB. The operations are defined for any geometry; \<open>ram_geo\<close> is the one of the source. An
  operation returns \<open>Inl\<close> for an exception that it does not catch. A write has the outcomes of its requests
  for memory as argument; it catches \<^verbatim>\<open>Out_of_memory\<close>, which is \<^verbatim>\<open>Out_of_ram\<close>, and no other exception.
\<close>

section \<open>Operations\<close>

definition num_level_0_entries :: nat where "num_level_0_entries = 128"
definition num_level_1_entries :: nat where "num_level_1_entries = num_level_0_entries"
definition num_level_2_entries :: nat where "num_level_2_entries = 128"
definition num_level_3_entries :: nat where "num_level_3_entries = 4096"

definition ram_geo :: geometry where
  "ram_geo = Index_geo num_level_0_entries (Index_geo num_level_1_entries
     (Index_geo num_level_2_entries (Leaf_geo num_level_3_entries)))"

record ram_file =
  rf_chunk :: chunk
  rf_length :: nat

definition file_new :: "geometry \<Rightarrow> ram_file" where
  "file_new g = \<lparr>rf_chunk = chunk_new g 0, rf_length = 0\<rparr>"

text \<open>The result is the bytes stored to the buffer; their number is the return value.\<close>

definition file_read :: "geometry \<Rightarrow> nat \<Rightarrow> nat \<Rightarrow> ram_file \<Rightarrow> (chunk_error + u8 list) option" where
  "file_read g n seek f =
     (let chunk_used_size = used_size g (rf_chunk f)
      in if seek \<ge> rf_length f then Some (Inr [])
         else
           let len = (if wadd seek n \<ge> rf_length f then rf_length f - min (rf_length f) seek else n);
               read_len = (if wadd seek len > chunk_used_size
                           then (if chunk_used_size \<ge> seek then chunk_used_size - seek else 0)
                           else len)
           in do {
             r \<leftarrow> chunk_read g read_len seek (rf_chunk f);
             Some (case r of
                     Inl e \<Rightarrow> Inl e
                   | Inr xs \<Rightarrow> Inr (if read_len < n then xs @ replicate (len - read_len) 0 else xs))
           })"

definition file_write ::
    "refusals \<Rightarrow> geometry \<Rightarrow> u8 list \<Rightarrow> nat \<Rightarrow> ram_file \<Rightarrow> (chunk_error + nat \<times> ram_file) option" where
  "file_write A g src seek f =
     (let at = (if seek = 2 ^ 64 - 1 then used_size g (rf_chunk f) else seek);
          len = (if wadd at (length src) \<ge> geo_size g then wadd (wsub (geo_size g) at) (length src)
                 else length src)
      in do {
        (e, c) \<leftarrow> chunk_write A g src at (rf_chunk f);
        Some (case e of
                Some err \<Rightarrow> if err = Out_of_ram then Inr (0, f\<lparr>rf_chunk := c\<rparr>) else Inl err
              | None \<Rightarrow> Inr (len, \<lparr>rf_chunk = c, rf_length = max (rf_length f) (wadd at len)\<rparr>))
      })"

definition file_truncate :: "geometry \<Rightarrow> nat \<Rightarrow> ram_file \<Rightarrow> chunk_error + ram_file" where
  "file_truncate g sz f =
     (if sz < used_size g (rf_chunk f)
      then case chunk_truncate g sz (rf_chunk f) of
             (Some err, c) \<Rightarrow> Inl err
           | (None, c) \<Rightarrow> Inr \<lparr>rf_chunk = c, rf_length = sz\<rparr>
      else Inr (f\<lparr>rf_length := sz\<rparr>))"

section \<open>Files as byte sequences\<close>

definition file_ok :: "geometry \<Rightarrow> ram_file \<Rightarrow> bool" where
  "file_ok g f \<longleftrightarrow> chunk_ok g 0 (rf_chunk f) \<and> rf_length f \<le> geo_size g"

text \<open>The content of the file.\<close>

definition file_bytes :: "geometry \<Rightarrow> ram_file \<Rightarrow> u8 list" where
  "file_bytes g f = map (byte_at g (rf_chunk f)) [0..<rf_length f]"

definition put_bytes :: "nat \<Rightarrow> u8 list \<Rightarrow> u8 list \<Rightarrow> u8 list" where
  "put_bytes at src xs =
     take at (xs @ replicate (at - length xs) 0) @ src @ drop (at + length src) xs"

definition resize :: "nat \<Rightarrow> u8 list \<Rightarrow> u8 list" where
  "resize n xs = take n xs @ replicate (n - length xs) 0"

lemma file_bytes_length [simp]: "length (file_bytes g f) = rf_length f"
  by (simp add: file_bytes_def)

lemma length_put_bytes [simp]: "length (put_bytes at src xs) = max (length xs) (at + length src)"
  by (auto simp: put_bytes_def)

lemma nth_put_bytes:
  assumes "i < max (length xs) (at + length src)"
  shows "put_bytes at src xs ! i =
    (if at \<le> i \<and> i < at + length src then src ! (i - at) else if i < length xs then xs ! i else 0)"
proof -
  have "length (take at (xs @ replicate (at - length xs) 0)) = at" by simp
  with assms show ?thesis by (auto simp: put_bytes_def nth_append)
qed

lemma ram_geo_ok: "geo_ok ram_geo" "geo_size ram_geo = 2 ^ 33"
  by (simp_all add: ram_geo_def num_level_0_entries_def num_level_1_entries_def num_level_2_entries_def
      num_level_3_entries_def)

interpretation ram: chunk_level "geo_size ram_geo" "chunk_ok ram_geo" "byte_at ram_geo" "used_size ram_geo"
  "chunk_new ram_geo" "new_entry A ram_geo" "refuses A" "chunk_write A ram_geo" "chunk_read ram_geo" "chunk_truncate ram_geo" for A
  by (rule geometry_level [OF ram_geo_ok(1)])

lemma file_new_ok: "file_ok ram_geo (file_new ram_geo)" "file_bytes ram_geo (file_new ram_geo) = []"
  using ram.new [of 0] by (auto simp: file_ok_def file_new_def file_bytes_def)

lemma file_read_spec:
  assumes ok: "file_ok ram_geo f" and "seek \<le> 2 ^ 33" "n < 2 ^ 63"
  shows "file_read ram_geo n seek f = Some (Inr (take n (drop seek (file_bytes ram_geo f))))"
proof (cases "rf_length f \<le> seek")
  case True
  then show ?thesis by (simp add: file_read_def)
next
  case False
  let ?c = "rf_chunk f" let ?u = "used_size ram_geo ?c" let ?L = "rf_length f"
  have c: "chunk_ok ram_geo 0 ?c" and L: "?L \<le> 2 ^ 33"
    using ok by (auto simp: file_ok_def ram_geo_ok)
  have u: "?u \<le> 2 ^ 33" using ram.used_le [OF c] by (simp add: ram_geo_ok)
  define len where "len = (if wadd seek n \<ge> ?L then ?L - min ?L seek else n)"
  have len: "len = min n (?L - seek)"
    using False assms(2,3) L by (auto simp: len_def wadd_eq)
  define rl where "rl = (if wadd seek len > ?u then (if ?u \<ge> seek then ?u - seek else 0) else len)"
  have rl: "rl = min len (?u - seek)"
    using False assms(2,3) L by (auto simp: rl_def wadd_eq len)
  have "chunk_read ram_geo rl seek ?c = Some (Inr (map (byte_at ram_geo ?c) [seek - 0..<seek - 0 + rl]))"
    using assms(2) u L by (intro ram.rd [OF c]) (auto simp: ram_geo_ok rl)
  then have e: "file_read ram_geo n seek f = Some (Inr (if rl < n
      then map (byte_at ram_geo ?c) [seek..<seek + rl] @ replicate (len - rl) 0
      else map (byte_at ram_geo ?c) [seek..<seek + rl]))"
    using False by (simp add: file_read_def Let_def len_def [symmetric] rl_def [symmetric])
  have z: "byte_at ram_geo ?c i = 0" if "?u \<le> i" "i < ?L" for i
    using ram.zero_tail [OF c that(1)] that(2) L by (simp add: ram_geo_ok)
  have t: "take n (drop seek (file_bytes ram_geo f)) = map (byte_at ram_geo ?c) [seek..<seek + len]"
    using False by (intro nth_equalityI) (auto simp: file_bytes_def len)
  have "map (byte_at ram_geo ?c) [seek..<seek + len] =
      map (byte_at ram_geo ?c) [seek..<seek + rl] @ replicate (len - rl) 0"
  proof (rule nth_equalityI)
    have le: "rl \<le> len" "rl < len \<Longrightarrow> ?u \<le> seek + rl" using rl by auto
    moreover have "seek + len \<le> ?L" using False by (auto simp: len)
    ultimately have le: "rl \<le> len" "seek + len \<le> ?L" "rl < len \<Longrightarrow> ?u \<le> seek + rl" by simp_all
    then show "length (map (byte_at ram_geo ?c) [seek..<seek + len]) =
        length (map (byte_at ram_geo ?c) [seek..<seek + rl] @ replicate (len - rl) 0)" by simp
    fix i
    assume "i < length (map (byte_at ram_geo ?c) [seek..<seek + len])"
    then show "map (byte_at ram_geo ?c) [seek..<seek + len] ! i =
        (map (byte_at ram_geo ?c) [seek..<seek + rl] @ replicate (len - rl) 0) ! i"
      using le by (auto simp: nth_append intro!: z)
  qed
  with e t show ?thesis using len by (auto simp: rl)
qed

lemma chunk_write_empty:
  assumes "chunk_ok ram_geo 0 c" "at \<le> 2 ^ 33"
  shows "chunk_write A ram_geo [] at c = Some (None, c)"
proof -
  obtain N g where g: "ram_geo = Index_geo N g" by (simp add: ram_geo_def)
  obtain n es where c: "c = Index 0 n es" using assms(1) by (auto simp: g)
  have "geo_size g * N = 2 ^ 33" using ram_geo_ok(2) by (simp add: g)
  then have "valid_range 0 at 0 (geo_size g * N)" using assms(2) by (intro valid_rangeI) simp_all
  then show ?thesis unfolding g c by (simp add: index_write_def) (subst write_loop.simps, simp)
qed

text \<open>
  A write stores all bytes, or throws what the allocator has thrown; if that was \<^verbatim>\<open>Out_of_ram\<close>, it
  returns 0 and has stored a part of the bytes.
\<close>

lemma file_write_spec:
  assumes ok: "file_ok ram_geo f" and at: "seek + length src < 2 ^ 33"
  shows "(\<exists>f'. file_write A ram_geo src seek f = Some (Inr (length src, f')) \<and> file_ok ram_geo f' \<and>
      rf_length f' = max (rf_length f) (seek + length src) \<and>
      (\<forall>i < 2 ^ 33. byte_at ram_geo (rf_chunk f') i = patched seek src (byte_at ram_geo (rf_chunk f)) i)) \<or>
    (\<exists>f' k. file_write A ram_geo src seek f = Some (Inr (0, f')) \<and> file_ok ram_geo f' \<and> refuses A Out_of_ram \<and>
      k < length src \<and> rf_length f' = rf_length f \<and>
      (\<forall>i < 2 ^ 33. byte_at ram_geo (rf_chunk f') i = patched seek (take k src) (byte_at ram_geo (rf_chunk f)) i)) \<or>
    (\<exists>e. file_write A ram_geo src seek f = Some (Inl e) \<and> refuses A e \<and> e \<noteq> Out_of_ram)"
proof -
  let ?c = "rf_chunk f" let ?L = "rf_length f"
  have c: "chunk_ok ram_geo 0 ?c" and L: "?L \<le> 2 ^ 33" using ok by (auto simp: file_ok_def ram_geo_ok)
  obtain e k c' where w: "chunk_write A ram_geo src seek ?c = Some (e, c')" "chunk_ok ram_geo 0 c'"
    "\<forall>x. e = Some x \<longrightarrow> refuses A x \<and> k < length src" "e = None \<longrightarrow> k = length src"
    "\<forall>i < 2 ^ 33. byte_at ram_geo c' i = patched seek (take k src) (byte_at ram_geo ?c) i"
  proof (cases "src = []")
    case True
    then show ?thesis using chunk_write_empty [OF c, of seek A] at c that [of None ?c 0] by simp
  next
    case False
    then show ?thesis using ram.wr [OF c, of seek src A] at that by (auto simp: ram_geo_ok)
  qed
  have s: "wadd seek (length src) = seek + length src" using at by (intro wadd_eq) simp
  have fw: "file_write A ram_geo src seek f = Some (case e of
      Some err \<Rightarrow> if err = Out_of_ram then Inr (0, f\<lparr>rf_chunk := c'\<rparr>) else Inl err
    | None \<Rightarrow> Inr (length src, \<lparr>rf_chunk = c', rf_length = max ?L (seek + length src)\<rparr>))"
    using at w(1) by (simp add: file_write_def s ram_geo_ok Let_def split: option.split)
  have ok': "file_ok ram_geo \<lparr>rf_chunk = c', rf_length = max ?L (seek + length src)\<rparr>" "file_ok ram_geo (f\<lparr>rf_chunk := c'\<rparr>)"
    using w(2) at L by (auto simp: file_ok_def ram_geo_ok)
  show ?thesis
  proof (cases e)
    case None
    then show ?thesis using fw ok'(1) w(4,5) by auto
  next
    case (Some err)
    then show ?thesis using fw ok'(2) w(3,5) by (cases "err = Out_of_ram") auto
  qed
qed

lemma file_truncate_spec:
  assumes ok: "file_ok ram_geo f" and sz: "sz \<le> 2 ^ 33"
  shows "\<exists>f'. file_truncate ram_geo sz f = Inr f' \<and> file_ok ram_geo f' \<and> rf_length f' = sz \<and>
    (\<forall>i < 2 ^ 33. byte_at ram_geo (rf_chunk f') i = (if i < sz then byte_at ram_geo (rf_chunk f) i else 0))"
proof -
  let ?c = "rf_chunk f"
  have c: "chunk_ok ram_geo 0 ?c" using ok by (auto simp: file_ok_def)
  show ?thesis
  proof (cases "sz < used_size ram_geo ?c")
    case True
    then have "sz < 2 ^ 33" using ram.used_le [OF c] by (simp add: ram_geo_ok)
    then obtain c' where c': "chunk_truncate ram_geo sz ?c = (None, c')" "chunk_ok ram_geo 0 c'"
      "\<forall>i < 2 ^ 33. byte_at ram_geo c' i = (if i < sz then byte_at ram_geo ?c i else 0)"
      using ram.tr [OF c, of sz] by (auto simp: ram_geo_ok)
    then show ?thesis using True sz by (simp add: file_truncate_def file_ok_def ram_geo_ok)
  next
    case False
    then have "byte_at ram_geo ?c i = 0" if "sz \<le> i" "i < 2 ^ 33" for i
      using ram.zero_tail [OF c, of i] that by (simp add: ram_geo_ok)
    with False c sz show ?thesis by (auto simp: file_truncate_def file_ok_def ram_geo_ok)
  qed
qed

section \<open>Sequences of operations\<close>

datatype file_op = File_read nat nat | File_write refusals "u8 list" nat | File_truncate nat
datatype file_result = Got "u8 list" | Count nat | Done

text \<open>The calls of a client in order; \<open>Inl\<close> if one of them throws.\<close>

fun file_run :: "geometry \<Rightarrow> file_op list \<Rightarrow> ram_file \<Rightarrow> (chunk_error + file_result list \<times> ram_file) option" where
  "file_run g [] f = Some (Inr ([], f))"
| "file_run g (File_read n seek # ops) f = do {
     r \<leftarrow> file_read g n seek f;
     case r of Inl e \<Rightarrow> Some (Inl e)
     | Inr xs \<Rightarrow> do {
         rs \<leftarrow> file_run g ops f;
         Some (map_sum id (apfst ((#) (Got xs))) rs)
       }
   }"
| "file_run g (File_write A src seek # ops) f = do {
     r \<leftarrow> file_write A g src seek f;
     case r of Inl e \<Rightarrow> Some (Inl e)
     | Inr (n, f') \<Rightarrow> do {
         rs \<leftarrow> file_run g ops f';
         Some (map_sum id (apfst ((#) (Count n))) rs)
       }
   }"
| "file_run g (File_truncate sz # ops) f =
     (case file_truncate g sz f of Inl e \<Rightarrow> Some (Inl e)
      | Inr f' \<Rightarrow> do {
          rs \<leftarrow> file_run g ops f';
          Some (map_sum id (apfst ((#) Done)) rs)
        })"

text \<open>
  The same calls on a plain byte sequence, if the allocator grants all requests.
\<close>

fun spec_run :: "file_op list \<Rightarrow> u8 list \<Rightarrow> file_result list \<times> u8 list" where
  "spec_run [] xs = ([], xs)"
| "spec_run (File_read n seek # ops) xs = apfst ((#) (Got (take n (drop seek xs)))) (spec_run ops xs)"
| "spec_run (File_write A src seek # ops) xs = apfst ((#) (Count (length src))) (spec_run ops (put_bytes seek src xs))"
| "spec_run (File_truncate sz # ops) xs = apfst ((#) Done) (spec_run ops (resize sz xs))"

text \<open>
  The calls on a store of bytes and a length, with any allocator. A write may run out of memory after it has
  stored the first \<open>k\<close> bytes; the length stays, so that the bytes behind it come to light once the file is
  extended.
\<close>

inductive store_run ::
    "file_op list \<Rightarrow> (nat \<Rightarrow> u8) \<times> nat \<Rightarrow> chunk_error + file_result list \<times> (nat \<Rightarrow> u8) \<times> nat \<Rightarrow> bool" where
  stop: "store_run [] (c, len) (Inr ([], c, len))"
| read: "store_run ops (c, len) r \<Longrightarrow>
    store_run (File_read n seek # ops) (c, len) (map_sum id (apfst ((#) (Got (map c [seek..<min len (seek + n)])))) r)"
| stored: "store_run ops (patched seek src c, max len (seek + length src)) r \<Longrightarrow>
    store_run (File_write A src seek # ops) (c, len) (map_sum id (apfst ((#) (Count (length src)))) r)"
| no_ram: "refuses A Out_of_ram \<Longrightarrow> k < length src \<Longrightarrow> store_run ops (patched seek (take k src) c, len) r \<Longrightarrow>
    store_run (File_write A src seek # ops) (c, len) (map_sum id (apfst ((#) (Count 0))) r)"
| throw: "refuses A e \<Longrightarrow> e \<noteq> Out_of_ram \<Longrightarrow> store_run (File_write A src seek # ops) (c, len) (Inl e)"
| truncate: "store_run ops (\<lambda>i. if i < sz then c i else 0, sz) r \<Longrightarrow>
    store_run (File_truncate sz # ops) (c, len) (map_sum id (apfst ((#) Done)) r)"

fun file_op_fits :: "file_op \<Rightarrow> bool" where
  "file_op_fits (File_read n seek) \<longleftrightarrow> seek \<le> 2 ^ 33 \<and> n < 2 ^ 63"
| "file_op_fits (File_write A src seek) \<longleftrightarrow> seek + length src < 2 ^ 33"
| "file_op_fits (File_truncate sz) \<longleftrightarrow> sz \<le> 2 ^ 33"

text \<open>The file holds the store \<open>c\<close>, which is zero behind the capacity.\<close>

definition file_holds :: "ram_file \<Rightarrow> (nat \<Rightarrow> u8) \<Rightarrow> nat \<Rightarrow> bool" where
  "file_holds f c len \<longleftrightarrow> file_ok ram_geo f \<and> rf_length f = len \<and> (\<forall>i < 2 ^ 33. byte_at ram_geo (rf_chunk f) i = c i)"

lemma file_holds_read:
  assumes h: "file_holds f c len" and s: "seek \<le> 2 ^ 33" "n < 2 ^ 63"
  shows "file_read ram_geo n seek f = Some (Inr (map c [seek..<min len (seek + n)]))"
proof -
  have len: "rf_length f = len" "len \<le> 2 ^ 33" "\<forall>i < 2 ^ 33. byte_at ram_geo (rf_chunk f) i = c i"
    using h by (auto simp: file_holds_def file_ok_def ram_geo_ok)
  have "take n (drop seek (file_bytes ram_geo f)) = map c [seek..<min len (seek + n)]"
    using len by (intro nth_equalityI) (auto simp: file_bytes_def)
  then show ?thesis using file_read_spec [OF _ s, of f] h by (simp add: file_holds_def)
qed

lemma file_new_holds: "file_holds (file_new ram_geo) (\<lambda>_. 0) 0"
  using ram.new [of 0] by (simp add: file_holds_def file_new_ok(1)) (simp add: file_new_def ram_geo_ok)

definition file_result_ok :: "chunk_error + file_result list \<times> ram_file \<Rightarrow> chunk_error + file_result list \<times> (nat \<Rightarrow> u8) \<times> nat \<Rightarrow> bool" where
  "file_result_ok x y \<longleftrightarrow> (case (x, y) of
      (Inl e, Inl e') \<Rightarrow> e = e'
    | (Inr (rs, f), Inr (rs', c, len)) \<Rightarrow> rs = rs' \<and> file_holds f c len
    | _ \<Rightarrow> False)"

lemma file_result_ok_map:
  "file_result_ok x y \<Longrightarrow> file_result_ok (map_sum id (apfst ((#) r)) x) (map_sum id (apfst ((#) r)) y)"
  by (cases x; cases y) (auto simp: file_result_ok_def)

lemma file_run_store:
  assumes "list_all file_op_fits ops" "file_holds f c len"
  shows "\<exists>x y. file_run ram_geo ops f = Some x \<and> store_run ops (c, len) y \<and> file_result_ok x y"
  using assms
proof (induction ops arbitrary: f c len)
  case Nil
  then show ?case using store_run.stop [of c len] by (auto simp: file_result_ok_def)
next
  case (Cons op ops)
  have fits: "list_all file_op_fits ops" using Cons.prems(1) by simp
  have go: "\<exists>x y. file_run ram_geo ops f' = Some x \<and> store_run ops (c', len') y \<and>
      file_result_ok (map_sum id (apfst ((#) r)) x) (map_sum id (apfst ((#) r)) y)" if "file_holds f' c' len'" for f' c' len' r
    using Cons.IH [OF fits that] file_result_ok_map by metis
  show ?case
  proof (cases op)
    case (File_read n seek)
    let ?r = "Got (map c [seek..<min len (seek + n)])"
    from go [OF Cons.prems(2), of ?r] obtain x y where "file_run ram_geo ops f = Some x" "store_run ops (c, len) y"
      "file_result_ok (map_sum id (apfst ((#) ?r)) x) (map_sum id (apfst ((#) ?r)) y)" by blast
    with File_read Cons.prems file_holds_read [OF Cons.prems(2), of seek n] store_run.read show ?thesis by fastforce
  next
    case (File_write A src seek)
    have h: "file_ok ram_geo f" "rf_length f = len" "\<forall>i < 2 ^ 33. byte_at ram_geo (rf_chunk f) i = c i" "seek + length src < 2 ^ 33"
      using Cons.prems File_write by (auto simp: file_holds_def)
    from file_write_spec [OF h(1,4), of A] show ?thesis
    proof (elim disjE exE conjE)
      fix f'
      assume f': "file_write A ram_geo src seek f = Some (Inr (length src, f'))" "file_ok ram_geo f'"
        "rf_length f' = max (rf_length f) (seek + length src)"
        "\<forall>i < 2 ^ 33. byte_at ram_geo (rf_chunk f') i = patched seek src (byte_at ram_geo (rf_chunk f)) i"
      then have "file_holds f' (patched seek src c) (max len (seek + length src))"
        using h by (simp add: file_holds_def patched_def)
      from go [OF this, of "Count (length src)"] f'(1) File_write store_run.stored show ?thesis by fastforce
    next
      fix f' k
      assume f': "file_write A ram_geo src seek f = Some (Inr (0, f'))" "file_ok ram_geo f'" "rf_length f' = rf_length f"
        and k: "refuses A Out_of_ram" "k < length src"
        and b: "\<forall>i < 2 ^ 33. byte_at ram_geo (rf_chunk f') i = patched seek (take k src) (byte_at ram_geo (rf_chunk f)) i"
      then have "file_holds f' (patched seek (take k src) c) len" using h by (simp add: file_holds_def patched_def)
      from go [OF this, of "Count 0"] f'(1) File_write store_run.no_ram [OF k] show ?thesis by fastforce
    next
      fix e
      assume "file_write A ram_geo src seek f = Some (Inl e)" "refuses A e" "e \<noteq> Out_of_ram"
      with File_write store_run.throw [of A e src seek ops c len] show ?thesis by (auto simp: file_result_ok_def)
    qed
  next
    case (File_truncate sz)
    with Cons.prems obtain f' where f': "file_truncate ram_geo sz f = Inr f'" "file_ok ram_geo f'" "rf_length f' = sz"
      "\<forall>i < 2 ^ 33. byte_at ram_geo (rf_chunk f') i = (if i < sz then byte_at ram_geo (rf_chunk f) i else 0)"
      using file_truncate_spec [of f sz] by (auto simp: file_holds_def)
    then have "file_holds f' (\<lambda>i. if i < sz then c i else 0) sz" using Cons.prems by (simp add: file_holds_def)
    from go [OF this, of Done] f'(1) File_truncate store_run.truncate show ?thesis by fastforce
  qed
qed

text \<open>With an allocator that grants all requests, the store is a list of bytes, with zeros behind its end.\<close>

fun file_op_granted :: "file_op \<Rightarrow> bool" where
  "file_op_granted (File_write A src seek) \<longleftrightarrow> A = grant_all"
| "file_op_granted _ \<longleftrightarrow> True"

definition list_holds :: "(nat \<Rightarrow> u8) \<Rightarrow> nat \<Rightarrow> u8 list \<Rightarrow> bool" where
  "list_holds c len xs \<longleftrightarrow> xs = map c [0..<len] \<and> (\<forall>i \<ge> len. c i = 0)"

lemma list_holds_put:
  assumes "list_holds c len xs"
  shows "list_holds (patched seek src c) (max len (seek + length src)) (put_bytes seek src xs)"
proof -
  have xs: "length xs = len" "\<forall>i < len. xs ! i = c i" "\<forall>i \<ge> len. c i = 0" using assms by (auto simp: list_holds_def)
  have "put_bytes seek src xs = map (patched seek src c) [0..<max len (seek + length src)]"
    using xs by (intro nth_equalityI) (auto simp: nth_put_bytes patched_def)
  then show ?thesis using xs(3) by (auto simp: list_holds_def patched_def)
qed

lemma list_holds_resize:
  "list_holds c len xs \<Longrightarrow> list_holds (\<lambda>i. if i < sz then c i else 0) sz (resize sz xs)"
  by (auto simp: list_holds_def resize_def nth_append intro!: nth_equalityI)

lemma store_run_list:
  assumes "store_run ops s y" "list_all file_op_granted ops" "list_holds (fst s) (snd s) xs"
  shows "\<exists>c len. y = Inr (fst (spec_run ops xs), c, len) \<and> list_holds c len (snd (spec_run ops xs))"
  using assms
proof (induction arbitrary: xs)
  case (read ops c len r n seek)
  have "map c [seek..<min len (seek + n)] = take n (drop seek xs)"
    using read.prems(2) by (intro nth_equalityI) (auto simp: list_holds_def min_def split: if_splits)
  with read show ?case by force
next
  case (stored ops seek src c len r A)
  then show ?case using list_holds_put [of c len xs seek src] by force
next
  case (truncate ops sz c r len)
  then show ?case using list_holds_resize [of c len xs sz] by force
qed auto

section \<open>Properties\<close>

text \<open>
  \<^bold>\<open>C23.\<close> With an allocator that grants all requests, a file of the RAM file system is a byte sequence: any
  sequence of reads from offsets up to 8 GiB, of writes that end below 8 GiB, empty ones included, and of
  truncations to at most 8 GiB, from the empty file on, throws nothing, terminates and returns exactly what the
  same calls on a plain list of bytes return, holes and extensions read as zero.
\<close>

theorem ram_file_refines:
  assumes "list_all file_op_fits ops" "list_all file_op_granted ops"
  shows "\<exists>f. file_run ram_geo ops (file_new ram_geo) = Some (Inr (fst (spec_run ops []), f)) \<and>
    file_bytes ram_geo f = snd (spec_run ops []) \<and> rf_length f = length (snd (spec_run ops []))"
proof -
  obtain x y where x: "file_run ram_geo ops (file_new ram_geo) = Some x" "store_run ops (\<lambda>_. 0, 0) y" "file_result_ok x y"
    using file_run_store [OF assms(1) file_new_holds] by blast
  obtain c len where y: "y = Inr (fst (spec_run ops []), c, len)" "list_holds c len (snd (spec_run ops []))"
    using store_run_list [OF x(2) assms(2), of "[]"] by (auto simp: list_holds_def)
  with x(3) obtain f where f: "x = Inr (fst (spec_run ops []), f)" "file_holds f c len"
    by (cases x) (auto simp: file_result_ok_def)
  then have "file_bytes ram_geo f = map c [0..<len]" by (auto simp: file_holds_def file_bytes_def file_ok_def ram_geo_ok)
  then show ?thesis using x(1) f y(2) by (auto simp: list_holds_def file_holds_def)
qed

theorem ram_file_refines_witness:
  "\<exists>f. file_run ram_geo [File_write grant_all [1, 2] 4095, File_truncate 4098, File_read 10 4094] (file_new ram_geo) =
     Some (Inr ([Count 2, Done, Got [0, 1, 2, 0]], f))"
proof -
  let ?ops = "[File_write grant_all [1, 2] 4095, File_truncate 4098, File_read 10 4094]"
  have z: "take 4095 (replicate 4095 (0::u8)) = replicate 4095 0" by simp
  have d: "drop 4094 (replicate 4095 (0::u8)) = [0]" by (simp add: numeral_eq_Suc)
  have "fst (spec_run ?ops []) = [Count 2, Done, Got [0, 1, 2, 0]]"
    by (simp add: put_bytes_def resize_def z d)
  then show ?thesis using ram_file_refines [of ?ops] by auto
qed




text \<open>
  \<^bold>\<open>C25.\<close> A write that ends at or beyond the capacity of the index does not report the number of
  bytes written: for a successful write (the allocator grants the memory) of \<open>n\<close> bytes that ends exactly at the capacity the call
  returns twice \<open>n\<close>, and the length of the file becomes the capacity plus \<open>n\<close>.
\<close>

theorem write_at_capacity:
  assumes "file_ok ram_geo f" "seek + length src = 2 ^ 33" "src \<noteq> []"
  shows "\<exists>f'. file_write grant_all ram_geo src seek f = Some (Inr (2 * length src, f')) \<and>
    rf_length f' = 2 ^ 33 + length src"
proof -
  let ?c = "rf_chunk f"
  have c: "chunk_ok ram_geo 0 ?c" and L: "rf_length f \<le> 2 ^ 33"
    using assms(1) by (auto simp: file_ok_def ram_geo_ok)
  obtain c' where c': "chunk_write grant_all ram_geo src seek ?c = Some (None, c')"
    using ram.wr [OF c, of seek src grant_all] assms(2,3) by (auto simp: ram_geo_ok)
  have s: "seek = 2 ^ 33 - length src" and le: "length src \<le> 2 ^ 33" using assms(2) by simp_all
  have "wadd seek (length src) = 2 ^ 33" "wsub (2 ^ 33) seek = length src"
    using assms(2) s le by (simp_all add: wadd_def wsub_eq)
  moreover have "wadd (length src) (length src) = 2 * length src"
    "wadd seek (2 * length src) = 2 ^ 33 + length src" using s le by (simp_all add: wadd_def)
  moreover have "seek \<noteq> 2 ^ 64 - 1" using s by simp
  ultimately show ?thesis using c' L by (simp add: file_write_def ram_geo_ok Let_def)
qed

theorem write_at_capacity_witness:
  "\<exists>f'. file_write grant_all ram_geo [7, 9] (2 ^ 33 - 2) (file_new ram_geo) = Some (Inr (4, f')) \<and>
    rf_length f' = 2 ^ 33 + 2"
  using write_at_capacity [OF file_new_ok(1), of "2 ^ 33 - 2" "[7, 9]"] by simp

end
