(* ===== verification/Fifo.thy ===== *)
theory Fifo
  imports Linked_List
begin

text \<open>
  \<^verbatim>\<open>base/include/util/fifo.h\<close>: the intrusive queue by which the kernel orders IPC senders, signal
  handlers and pending signals. The model keeps the pointers: the \<^verbatim>\<open>_next\<close> pointer and the
  \<^verbatim>\<open>_enqueued\<close> flag of every element, shared by all queues, and the \<^verbatim>\<open>_head\<close> and \<^verbatim>\<open>_tail\<close> of a
  queue. Dereferencing a null pointer is \<open>None\<close>. The locale \<open>fifo_spec\<close> is the contract on which the
  kernel objects rest; its interpretation shows that the pointer code meets it.
\<close>

section \<open>Operations\<close>

record 'i fmem =
  fnext :: "'i \<Rightarrow> 'i option"
  fenq :: "'i \<Rightarrow> bool"

record 'i fifo =
  f_head :: "'i option"
  f_tail :: "'i option"

definition fifo_init :: "'i fifo" where
  "fifo_init = \<lparr>f_head = None, f_tail = None\<rparr>"

definition fifo_empty :: "'i fifo \<Rightarrow> bool" where
  "fifo_empty l \<longleftrightarrow> f_tail l = None"

definition release :: "'i \<Rightarrow> 'i fmem \<Rightarrow> 'i fmem" where
  "release i m = m\<lparr>fnext := (fnext m)(i := None), fenq := (fenq m)(i := False)\<rparr>"

definition fifo_remove :: "'i \<Rightarrow> 'i fmem \<times> 'i fifo \<Rightarrow> ('i fmem \<times> 'i fifo) option" where
  "fifo_remove qe = (\<lambda>(m, l).
     if fifo_empty l then Some (m, l)
     else if Some qe = f_head l
     then let h = fnext m qe
          in Some (release qe m, \<lparr>f_head = h, f_tail = if h = None then None else f_tail l\<rparr>)
     else do {
       h \<leftarrow> f_head l;
       r \<leftarrow> find_prev (fnext m) qe h;
       (case r of
          None \<Rightarrow> Some (m, l)
        | Some e \<Rightarrow> do {
            n \<leftarrow> fnext m e;
            let m1 = m\<lparr>fnext := (fnext m)(e := fnext m n)\<rparr>;
            Some (release qe m1, if fnext m1 e = None then l\<lparr>f_tail := Some e\<rparr> else l)
          })
     })"

definition fifo_enqueue :: "'i \<Rightarrow> 'i fmem \<times> 'i fifo \<Rightarrow> ('i fmem \<times> 'i fifo) option" where
  "fifo_enqueue e = (\<lambda>(m, l).
     let m1 = m\<lparr>fnext := (fnext m)(e := None), fenq := (fenq m)(e := True)\<rparr>
     in if fifo_empty l then Some (m1, \<lparr>f_head = Some e, f_tail = Some e\<rparr>)
        else do {
          t \<leftarrow> f_tail l;
          Some (m1\<lparr>fnext := (fnext m1)(t := Some e)\<rparr>, l\<lparr>f_tail := Some e\<rparr>)
        })"

text \<open>The removed head, on which the source calls its argument, is the first part of the result.\<close>

definition fifo_dequeue :: "'i fmem \<times> 'i fifo \<Rightarrow> ('i option \<times> 'i fmem \<times> 'i fifo) option" where
  "fifo_dequeue = (\<lambda>(m, l). do {
     l1 \<leftarrow> (if f_head l = f_tail l then Some fifo_init
            else do { h \<leftarrow> f_head l; Some (l\<lparr>f_head := fnext m h\<rparr>) });
     Some (case f_head l of
             None \<Rightarrow> (None, m, l1)
           | Some h \<Rightarrow> (Some h, release h m, l1))
   })"

text \<open>
  \<^verbatim>\<open>for_each\<close> on a client state \<open>s\<close> from which \<open>nx\<close> reads the pointers: the next pointer is
  taken before the function is called.
\<close>

partial_function (option) fifo_for_each ::
    "('s \<Rightarrow> 'i \<Rightarrow> 'i option) \<Rightarrow> ('i \<Rightarrow> 's \<Rightarrow> 's option) \<Rightarrow> 'i option \<Rightarrow> 's \<Rightarrow> 's option" where
  "fifo_for_each nx f p s = (case p of
     None \<Rightarrow> Some s
   | Some i \<Rightarrow> let n = nx s i in do { s1 \<leftarrow> f i s; fifo_for_each nx f n s1 })"

partial_function (option) fifo_dequeue_all :: "'i fmem \<times> 'i fifo \<Rightarrow> ('i list \<times> 'i fmem \<times> 'i fifo) option" where
  "fifo_dequeue_all s = (case f_head (snd s) of
     None \<Rightarrow> Some ([], s)
   | Some h \<Rightarrow> do {
       (r, s1) \<leftarrow> fifo_dequeue s;
       (is, s2) \<leftarrow> fifo_dequeue_all s1;
       Some ((case r of None \<Rightarrow> is | Some i \<Rightarrow> i # is), s2)
     })"

section \<open>The queue that the pointers represent\<close>

definition fifo_rep :: "'i fmem \<times> 'i fifo \<Rightarrow> 'i list \<Rightarrow> bool" where
  "fifo_rep = (\<lambda>(m, l) xs. lseg (fnext m) (f_head l) xs None \<and> distinct xs \<and>
     f_tail l = (if xs = [] then None else Some (last xs)) \<and> (\<forall>x \<in> set xs. fenq m x))"

definition fsame :: "'i set \<Rightarrow> 'i fmem \<Rightarrow> 'i fmem \<Rightarrow> bool" where
  "fsame A m m' \<longleftrightarrow> (\<forall>x. x \<notin> A \<longrightarrow> fnext m' x = fnext m x \<and> fenq m' x = fenq m x)"

lemma fifo_repD:
  assumes "fifo_rep (m, l) xs"
  shows "lseg (fnext m) (f_head l) xs None" "distinct xs" "f_tail l = (if xs = [] then None else Some (last xs))"
    "f_head l = (case xs of [] \<Rightarrow> None | x # _ \<Rightarrow> Some x)" "\<forall>x \<in> set xs. fenq m x"
  using assms by (auto simp: fifo_rep_def dest: lseg_hd)

lemma fifo_rep_frame:
  assumes "fifo_rep (m, l) xs" "fsame A m m'" "A \<inter> set xs = {}"
  shows "fifo_rep (m', l) xs"
proof -
  have "lseg (fnext m') (f_head l) xs None = lseg (fnext m) (f_head l) xs None"
    using assms(2,3) by (intro lseg_cong) (auto simp: fsame_def)
  with assms show ?thesis by (auto simp: fifo_rep_def fsame_def)
qed

lemma release_simps [simp]:
  "fnext (release i m) = (fnext m)(i := None)" "fenq (release i m) = (fenq m)(i := False)"
  by (simp_all add: release_def)

lemma fifo_init_rep [simp]: "fifo_rep (m, fifo_init) []"
  by (simp add: fifo_rep_def fifo_init_def)

lemma fifo_enqueue_rep:
  assumes rep: "fifo_rep (m, l) xs" and e: "e \<notin> set xs"
  shows "\<exists>m' l'. fifo_enqueue e (m, l) = Some (m', l') \<and> fifo_rep (m', l') (xs @ [e]) \<and> fenq m' e \<and>
    fsame (insert e (set xs)) m m'"
proof (cases xs rule: rev_cases)
  case Nil
  with rep show ?thesis by (auto simp: fifo_rep_def fifo_enqueue_def fifo_empty_def fsame_def)
next
  case (snoc ys y)
  with rep e show ?thesis by (auto simp: fifo_rep_def fifo_enqueue_def fifo_empty_def fsame_def)
qed

lemma fifo_dequeue_Nil:
  assumes "fifo_rep (m, l) []"
  shows "fifo_dequeue (m, l) = Some (None, m, fifo_init)"
  using assms by (simp add: fifo_rep_def fifo_dequeue_def fifo_init_def)

lemma fifo_dequeue_rep:
  assumes rep: "fifo_rep (m, l) (x # xs)"
  shows "\<exists>m' l'. fifo_dequeue (m, l) = Some (Some x, m', l') \<and> fifo_rep (m', l') xs \<and> \<not> fenq m' x \<and>
    fsame {x} m m'"
proof (cases xs)
  case Nil
  with rep show ?thesis by (auto simp: fifo_rep_def fifo_dequeue_def fifo_init_def fsame_def)
next
  case (Cons y ys)
  with rep have "f_head l \<noteq> f_tail l" by (auto simp: fifo_rep_def)
  with rep Cons show ?thesis by (auto simp: fifo_rep_def fifo_dequeue_def fsame_def)
qed

lemma fifo_remove_other:
  assumes rep: "fifo_rep (m, l) xs" and e: "e \<notin> set xs"
  shows "fifo_remove e (m, l) = Some (m, l)"
proof (cases xs)
  case Nil
  with rep show ?thesis by (auto simp: fifo_rep_def fifo_remove_def fifo_empty_def)
next
  case (Cons f fs)
  then have "f_head l = Some f" "f_tail l \<noteq> None" using fifo_repD [OF rep] by auto
  moreover have "find_prev (fnext m) e f = Some None"
    using fifo_repD(1) [OF rep] e Cons by (intro find_prev_miss) auto
  ultimately show ?thesis using e Cons by (auto simp: fifo_remove_def fifo_empty_def)
qed

lemma fifo_remove_rep:
  assumes rep: "fifo_rep (m, l) xs" and e: "e \<in> set xs"
  shows "\<exists>m' l'. fifo_remove e (m, l) = Some (m', l') \<and> fifo_rep (m', l') (remove1 e xs) \<and> \<not> fenq m' e \<and>
    fsame (set xs) m m' \<and> (\<forall>x. x \<noteq> e \<longrightarrow> fenq m' x = fenq m x)"
proof -
  note r = fifo_repD [OF rep]
  have ne: "\<not> fifo_empty l" using r(3) e by (auto simp: fifo_empty_def)
  obtain f fs where f: "xs = f # fs" using e by (cases xs) auto
  show ?thesis
  proof (cases "e = f")
    case True
    with ne r(4) f have "fifo_remove e (m, l) = Some (release e m,
        \<lparr>f_head = fnext m e, f_tail = if fnext m e = None then None else f_tail l\<rparr>)"
      by (simp add: fifo_remove_def Let_def)
    moreover have "fnext m e = (case fs of [] \<Rightarrow> None | x # _ \<Rightarrow> Some x)"
      using r(1) f True by (auto dest: lseg_hd)
    ultimately show ?thesis using rep f True by (cases fs) (auto simp: fifo_rep_def fsame_def)
  next
    case False
    with e f have "e \<in> set fs" by simp
    then obtain us zs where fs: "fs = us @ e # zs" by (meson split_list)
    obtain ys a where ya: "f # us = ys @ [a]" by (metis list.simps(3) rev_exhaust)
    with fs f have xs: "xs = ys @ a # e # zs" by simp
    have h: "f_head l = Some f" using r(4) f by simp
    have p: "find_prev (fnext m) e f = Some (Some a)"
      using r(1,2) False unfolding h xs by (intro find_prev_hit)
    have n: "fnext m a = Some e" using r(1) xs by auto
    have ae: "a \<noteq> e" using r(2) xs by simp
    let ?m = "m\<lparr>fnext := (fnext m)(a := fnext m e)\<rparr>"
    let ?l = "if fnext m e = None then l\<lparr>f_tail := Some a\<rparr> else l"
    have "fifo_remove e (m, l) = Some (release e ?m, ?l)"
      using ne h False p n by (simp add: fifo_remove_def Let_def)
    moreover have "fnext m e = (case zs of [] \<Rightarrow> None | x # _ \<Rightarrow> Some x)"
      using r(1) xs by (auto dest: lseg_hd)
    moreover have "remove1 e xs = ys @ a # zs" using r(2) xs by (auto simp: remove1_append)
    ultimately show ?thesis using r xs ae
      by (cases zs) (auto simp: fifo_rep_def fsame_def)
  qed
qed

lemma fifo_dequeue_all_rep:
  assumes "fifo_rep (m, l) xs"
  shows "\<exists>m' l'. fifo_dequeue_all (m, l) = Some (xs, m', l') \<and> fifo_rep (m', l') [] \<and>
    (\<forall>x \<in> set xs. \<not> fenq m' x) \<and> fsame (set xs) m m'"
  using assms
proof (induction xs arbitrary: m l)
  case Nil
  then show ?case using fifo_repD(4) [OF Nil] by (subst fifo_dequeue_all.simps) (auto simp: fsame_def)
next
  case (Cons x xs)
  obtain m1 l1 where 1: "fifo_dequeue (m, l) = Some (Some x, m1, l1)" "fifo_rep (m1, l1) xs" "\<not> fenq m1 x"
    "fsame {x} m m1" using fifo_dequeue_rep [OF Cons.prems] by blast
  obtain m2 l2 where 2: "fifo_dequeue_all (m1, l1) = Some (xs, m2, l2)" "fifo_rep (m2, l2) []"
    "\<forall>x \<in> set xs. \<not> fenq m2 x" "fsame (set xs) m1 m2" using Cons.IH [OF 1(2)] by blast
  have "x \<notin> set xs" using fifo_repD(2) [OF Cons.prems] by simp
  with 1 2 fifo_repD(4) [OF Cons.prems] show ?case
    by (subst fifo_dequeue_all.simps) (auto simp: fsame_def)
qed

section \<open>The contract\<close>

text \<open>
  A family of queues over the same elements: \<open>X q\<close> is the content of queue \<open>q\<close>, no element is in two
  queues, and the flag of an element tells whether it is in one.
\<close>

definition queue_pool ::
    "('m \<times> 'l \<Rightarrow> 'i list \<Rightarrow> bool) \<Rightarrow> ('m \<Rightarrow> 'i \<Rightarrow> bool) \<Rightarrow> 'm \<Rightarrow> ('q \<Rightarrow> 'l) \<Rightarrow> ('q \<Rightarrow> 'i list) \<Rightarrow> bool" where
  "queue_pool rep flag m L X \<longleftrightarrow> (\<forall>q. rep (m, L q) (X q)) \<and>
     (\<forall>p q. p \<noteq> q \<longrightarrow> set (X p) \<inter> set (X q) = {}) \<and> (\<forall>i. flag m i \<longleftrightarrow> (\<exists>q. i \<in> set (X q)))"

locale fifo_spec =
  fixes rep :: "'m \<times> 'l \<Rightarrow> 'i list \<Rightarrow> bool" and flag :: "'m \<Rightarrow> 'i \<Rightarrow> bool" and init :: 'l
    and enqueue :: "'i \<Rightarrow> 'm \<times> 'l \<Rightarrow> ('m \<times> 'l) option"
    and remove :: "'i \<Rightarrow> 'm \<times> 'l \<Rightarrow> ('m \<times> 'l) option"
    and dequeue :: "'m \<times> 'l \<Rightarrow> ('i option \<times> 'm \<times> 'l) option"
  assumes rep_init: "rep (m, init) []"
    and rep_distinct: "rep (m, l) xs \<Longrightarrow> distinct xs"
    and enqueue: "rep (m, l) xs \<Longrightarrow> e \<notin> set xs \<Longrightarrow> \<exists>m' l'. enqueue e (m, l) = Some (m', l') \<and>
      rep (m', l') (xs @ [e]) \<and> (\<forall>x. flag m' x \<longleftrightarrow> x = e \<or> flag m x) \<and>
      (\<forall>k ys. rep (m, k) ys \<and> e \<notin> set ys \<and> set xs \<inter> set ys = {} \<longrightarrow> rep (m', k) ys)"
    and dequeue_empty: "rep (m, l) [] \<Longrightarrow> \<exists>l'. dequeue (m, l) = Some (None, m, l') \<and> rep (m, l') []"
    and dequeue: "rep (m, l) (x # xs) \<Longrightarrow> \<exists>m' l'. dequeue (m, l) = Some (Some x, m', l') \<and>
      rep (m', l') xs \<and> (\<forall>y. flag m' y \<longleftrightarrow> y \<noteq> x \<and> flag m y) \<and>
      (\<forall>k ys. rep (m, k) ys \<and> set (x # xs) \<inter> set ys = {} \<longrightarrow> rep (m', k) ys)"
    and remove_other: "rep (m, l) xs \<Longrightarrow> e \<notin> set xs \<Longrightarrow> remove e (m, l) = Some (m, l)"
    and remove: "rep (m, l) xs \<Longrightarrow> e \<in> set xs \<Longrightarrow> \<exists>m' l'. remove e (m, l) = Some (m', l') \<and>
      rep (m', l') (remove1 e xs) \<and> (\<forall>y. flag m' y \<longleftrightarrow> y \<noteq> e \<and> flag m y) \<and>
      (\<forall>k ys. rep (m, k) ys \<and> set xs \<inter> set ys = {} \<longrightarrow> rep (m', k) ys)"
begin

lemma pool_init: "(\<And>i. \<not> flag m i) \<Longrightarrow> queue_pool rep flag m (\<lambda>_. init) (\<lambda>_. [])"
  by (simp add: queue_pool_def rep_init)

text \<open>What one queue becomes while the others keep their content.\<close>

lemma pool_update:
  fixes X :: "'q \<Rightarrow> 'i list"
  assumes p: "queue_pool rep flag m L X" and r: "rep (m', l') ys"
    and frame: "\<forall>k zs. rep (m, k) zs \<and> set (X q) \<inter> set zs = {} \<and> set ys \<inter> set zs = {} \<longrightarrow> rep (m', k) zs"
    and ys: "\<forall>p. p \<noteq> q \<longrightarrow> set ys \<inter> set (X p) = {}"
    and fl: "\<forall>i. flag m' i \<longleftrightarrow> i \<in> set ys \<or> (i \<notin> set (X q) \<and> flag m i)"
  shows "queue_pool rep flag m' (L(q := l')) (X(q := ys))"
  unfolding queue_pool_def
proof (intro conjI allI impI)
  fix p
  have "rep (m', L p) (X p)" if "p \<noteq> q"
  proof -
    have "rep (m, L p) (X p)" "set (X q) \<inter> set (X p) = {}" "set ys \<inter> set (X p) = {}"
      using p ys that unfolding queue_pool_def by (blast, metis, blast)
    with frame show ?thesis by blast
  qed
  with r show "rep (m', (L(q := l')) p) ((X(q := ys)) p)" by simp
next
  fix p p' :: 'q
  assume "p \<noteq> p'"
  then show "set ((X(q := ys)) p) \<inter> set ((X(q := ys)) p') = {}"
    using p ys unfolding queue_pool_def by (cases "p = q"; cases "p' = q") (auto simp: disjoint_iff)
next
  fix i
  have "flag m i \<longleftrightarrow> (\<exists>q. i \<in> set (X q))" using p unfolding queue_pool_def by blast
  moreover have "i \<notin> set (X p)" if "i \<in> set (X q)" "p \<noteq> q" for p
    using p that unfolding queue_pool_def by blast
  ultimately show "flag m' i \<longleftrightarrow> (\<exists>p. i \<in> set ((X(q := ys)) p))" using fl by (auto split: if_splits)
qed

lemma pool_enqueue:
  assumes p: "queue_pool rep flag m L X" and new: "\<not> flag m e"
  shows "\<exists>m' l'. enqueue e (m, L q) = Some (m', l') \<and> queue_pool rep flag m' (L(q := l')) (X(q := X q @ [e]))"
proof -
  have r: "rep (m, L q) (X q)" and e: "\<And>p. e \<notin> set (X p)" using p new by (auto simp: queue_pool_def)
  obtain m' l' where m': "enqueue e (m, L q) = Some (m', l')" "rep (m', l') (X q @ [e])"
    "\<forall>x. flag m' x \<longleftrightarrow> x = e \<or> flag m x"
    "\<forall>k ys. rep (m, k) ys \<and> e \<notin> set ys \<and> set (X q) \<inter> set ys = {} \<longrightarrow> rep (m', k) ys"
    using enqueue [OF r e] by blast
  have "queue_pool rep flag m' (L(q := l')) (X(q := X q @ [e]))"
    using p m' e by (intro pool_update [OF p m'(2)]) (auto simp: queue_pool_def)
  with m' show ?thesis by blast
qed

lemma pool_dequeue:
  assumes p: "queue_pool rep flag m L X"
  shows "\<exists>m' l'. dequeue (m, L q) = Some (case X q of [] \<Rightarrow> None | x # _ \<Rightarrow> Some x, m', l') \<and>
    queue_pool rep flag m' (L(q := l')) (X(q := tl (X q)))"
proof (cases "X q")
  case Nil
  with p have "rep (m, L q) []" by (metis queue_pool_def)
  then obtain l' where l': "dequeue (m, L q) = Some (None, m, l')" "rep (m, l') []" using dequeue_empty by blast
  have "queue_pool rep flag m (L(q := l')) (X(q := []))"
    using Nil by (intro pool_update [OF p l'(2)]) auto
  with l' Nil show ?thesis by auto
next
  case (Cons x xs)
  with p have r: "rep (m, L q) (x # xs)" by (metis queue_pool_def)
  obtain m' l' where m': "dequeue (m, L q) = Some (Some x, m', l')" "rep (m', l') xs"
    "\<forall>y. flag m' y \<longleftrightarrow> y \<noteq> x \<and> flag m y"
    "\<forall>k ys. rep (m, k) ys \<and> set (x # xs) \<inter> set ys = {} \<longrightarrow> rep (m', k) ys"
    using dequeue [OF r] by blast
  have d: "x \<notin> set xs" using rep_distinct [OF r] by simp
  have f: "flag m y" if "y \<in> set xs" for y using p that Cons unfolding queue_pool_def by (metis list.set_intros(2))
  have dis: "\<forall>p. p \<noteq> q \<longrightarrow> set xs \<inter> set (X p) = {}" using p Cons unfolding queue_pool_def by fastforce
  have "queue_pool rep flag m' (L(q := l')) (X(q := xs))"
    using m'(3,4) Cons dis d f by (intro pool_update [OF p m'(2)]) auto
  with m' Cons show ?thesis by auto
qed

lemma pool_remove:
  assumes p: "queue_pool rep flag m L X"
  shows "\<exists>m' l'. remove e (m, L q) = Some (m', l') \<and> queue_pool rep flag m' (L(q := l')) (X(q := remove1 e (X q)))"
proof (cases "e \<in> set (X q)")
  case False
  with p have "remove e (m, L q) = Some (m, L q)" by (intro remove_other) (auto simp: queue_pool_def)
  moreover from False have "X(q := remove1 e (X q)) = X" by (simp add: remove1_idem)
  ultimately show ?thesis using p by simp
next
  case True
  have r: "rep (m, L q) (X q)" using p by (simp add: queue_pool_def)
  obtain m' l' where m': "remove e (m, L q) = Some (m', l')" "rep (m', l') (remove1 e (X q))"
    "\<forall>y. flag m' y \<longleftrightarrow> y \<noteq> e \<and> flag m y"
    "\<forall>k ys. rep (m, k) ys \<and> set (X q) \<inter> set ys = {} \<longrightarrow> rep (m', k) ys"
    using remove [OF r True] by blast
  have s: "set (remove1 e (X q)) = set (X q) - {e}" using rep_distinct [OF r] by simp
  have f: "flag m y" if "y \<in> set (X q)" for y using p that unfolding queue_pool_def by blast
  have dis: "\<forall>p. p \<noteq> q \<longrightarrow> set (X q) \<inter> set (X p) = {}" using p unfolding queue_pool_def by metis
  have "queue_pool rep flag m' (L(q := l')) (X(q := remove1 e (X q)))"
    using m'(3,4) s dis f True by (intro pool_update [OF p m'(2)]) auto
  with m' show ?thesis by blast
qed

end

interpretation fq: fifo_spec fifo_rep fenq fifo_init fifo_enqueue fifo_remove fifo_dequeue
proof
  fix m :: "'a fmem" and l xs x e
  show "fifo_rep (m, fifo_init) []" by simp
  show "fifo_rep (m, l) [] \<Longrightarrow> \<exists>l'. fifo_dequeue (m, l) = Some (None, m, l') \<and> fifo_rep (m, l') []"
    using fifo_dequeue_Nil fifo_init_rep by blast
  {
    assume r: "fifo_rep (m, l) xs"
    show "distinct xs" by (rule fifo_repD(2) [OF r])
    show "fifo_remove e (m, l) = Some (m, l)" if "e \<notin> set xs" by (rule fifo_remove_other [OF r that])
    show "\<exists>m' l'. fifo_enqueue e (m, l) = Some (m', l') \<and> fifo_rep (m', l') (xs @ [e]) \<and>
        (\<forall>x. fenq m' x \<longleftrightarrow> x = e \<or> fenq m x) \<and>
        (\<forall>k ys. fifo_rep (m, k) ys \<and> e \<notin> set ys \<and> set xs \<inter> set ys = {} \<longrightarrow> fifo_rep (m', k) ys)"
      if ne: "e \<notin> set xs"
    proof -
      obtain m' l' where m': "fifo_enqueue e (m, l) = Some (m', l')" "fifo_rep (m', l') (xs @ [e])"
        "fsame (insert e (set xs)) m m'" using fifo_enqueue_rep [OF r ne] by blast
      have "fenq m' x \<longleftrightarrow> x = e \<or> fenq m x" for x
        using fifo_repD(5) [OF m'(2)] fifo_repD(5) [OF r] m'(3) by (cases "x \<in> insert e (set xs)") (auto simp: fsame_def)
      moreover have "fifo_rep (m', k) ys" if "fifo_rep (m, k) ys" "e \<notin> set ys" "set xs \<inter> set ys = {}" for k ys
        using fifo_rep_frame [OF that(1) m'(3)] that(2,3) by auto
      ultimately show ?thesis using m' by blast
    qed
    show "\<exists>m' l'. fifo_remove e (m, l) = Some (m', l') \<and> fifo_rep (m', l') (remove1 e xs) \<and>
        (\<forall>y. fenq m' y \<longleftrightarrow> y \<noteq> e \<and> fenq m y) \<and>
        (\<forall>k ys. fifo_rep (m, k) ys \<and> set xs \<inter> set ys = {} \<longrightarrow> fifo_rep (m', k) ys)" if el: "e \<in> set xs"
    proof -
      obtain m' l' where m': "fifo_remove e (m, l) = Some (m', l')" "fifo_rep (m', l') (remove1 e xs)"
        "\<not> fenq m' e" "fsame (set xs) m m'" "\<forall>x. x \<noteq> e \<longrightarrow> fenq m' x = fenq m x"
        using fifo_remove_rep [OF r el] by blast
      moreover have "\<forall>y. fenq m' y \<longleftrightarrow> y \<noteq> e \<and> fenq m y" using m'(3,5) by metis
      ultimately show ?thesis using fifo_rep_frame [OF _ m'(4)] by blast
    qed
  }
  assume r: "fifo_rep (m, l) (x # xs)"
  obtain m' l' where m': "fifo_dequeue (m, l) = Some (Some x, m', l')" "fifo_rep (m', l') xs" "\<not> fenq m' x"
    "fsame {x} m m'" using fifo_dequeue_rep [OF r] by blast
  moreover have "\<forall>y. fenq m' y \<longleftrightarrow> y \<noteq> x \<and> fenq m y" using m'(3,4) by (metis fsame_def singletonD)
  moreover have "fifo_rep (m', k) ys" if "fifo_rep (m, k) ys" "set (x # xs) \<inter> set ys = {}" for k ys
    using fifo_rep_frame [OF that(1) m'(4)] that(2) by auto
  ultimately show "\<exists>m' l'. fifo_dequeue (m, l) = Some (Some x, m', l') \<and> fifo_rep (m', l') xs \<and>
      (\<forall>y. fenq m' y \<longleftrightarrow> y \<noteq> x \<and> fenq m y) \<and>
      (\<forall>k ys. fifo_rep (m, k) ys \<and> set (x # xs) \<inter> set ys = {} \<longrightarrow> fifo_rep (m', k) ys)" by blast
qed

section \<open>Sequences of operations\<close>

datatype ('q, 'i) fifo_op = Enqueue 'q 'i | Remove 'q 'i | Dequeue 'q

fun fifo_run :: "('q, 'i) fifo_op list \<Rightarrow> 'i fmem \<times> ('q \<Rightarrow> 'i fifo) \<Rightarrow>
    ('i option list \<times> 'i fmem \<times> ('q \<Rightarrow> 'i fifo)) option" where
  "fifo_run [] s = Some ([], s)"
| "fifo_run (Enqueue q i # ops) (m, L) = do {
     (m', l') \<leftarrow> fifo_enqueue i (m, L q);
     fifo_run ops (m', L(q := l'))
   }"
| "fifo_run (Remove q i # ops) (m, L) = do {
     (m', l') \<leftarrow> fifo_remove i (m, L q);
     fifo_run ops (m', L(q := l'))
   }"
| "fifo_run (Dequeue q # ops) (m, L) = do {
     (r, m', l') \<leftarrow> fifo_dequeue (m, L q);
     (rs, s) \<leftarrow> fifo_run ops (m', L(q := l'));
     Some (r # rs, s)
   }"

text \<open>The same operations on lists; \<open>None\<close> if an element is enqueued that is in a queue already.\<close>

fun queues_run :: "('q, 'i) fifo_op list \<Rightarrow> ('q \<Rightarrow> 'i list) \<Rightarrow> ('i option list \<times> ('q \<Rightarrow> 'i list)) option" where
  "queues_run [] X = Some ([], X)"
| "queues_run (Enqueue q i # ops) X =
     (if \<exists>p. i \<in> set (X p) then None else queues_run ops (X(q := X q @ [i])))"
| "queues_run (Remove q i # ops) X = queues_run ops (X(q := remove1 i (X q)))"
| "queues_run (Dequeue q # ops) X =
     map_option (apfst ((#) (case X q of [] \<Rightarrow> None | x # _ \<Rightarrow> Some x))) (queues_run ops (X(q := tl (X q))))"

abbreviation fifo_pool where
  "fifo_pool \<equiv> queue_pool fifo_rep fenq"

lemma fifo_run_pool:
  assumes "fifo_pool m L X" "queues_run ops X = Some (rs, Y)"
  shows "\<exists>m' L'. fifo_run ops (m, L) = Some (rs, m', L') \<and> fifo_pool m' L' Y"
  using assms
proof (induction ops arbitrary: m L X rs)
  case Nil
  then show ?case by simp
next
  case (Cons op ops)
  show ?case
  proof (cases op)
    case (Enqueue q i)
    with Cons.prems have "\<not> fenq m i" by (auto simp: queue_pool_def split: if_splits)
    from fq.pool_enqueue [OF Cons.prems(1) this, of q] obtain m' l' where
      "fifo_enqueue i (m, L q) = Some (m', l')" "fifo_pool m' (L(q := l')) (X(q := X q @ [i]))" by blast
    with Enqueue Cons.prems Cons.IH show ?thesis by (auto split: if_splits)
  next
    case (Remove q i)
    from fq.pool_remove [OF Cons.prems(1), of i q] Remove Cons.prems(2) Cons.IH show ?thesis by fastforce
  next
    case (Dequeue q)
    from fq.pool_dequeue [OF Cons.prems(1), of q] obtain m' l' where
      d: "fifo_dequeue (m, L q) = Some (case X q of [] \<Rightarrow> None | x # _ \<Rightarrow> Some x, m', l')"
        "fifo_pool m' (L(q := l')) (X(q := tl (X q)))" by blast
    from Cons.prems(2) Dequeue obtain rs' where
      rs': "queues_run ops (X(q := tl (X q))) = Some (rs', Y)" "rs = (case X q of [] \<Rightarrow> None | x # _ \<Rightarrow> Some x) # rs'" by auto
    from Cons.IH [OF d(2) rs'(1)] obtain m2 L2 where
      "fifo_run ops (m', L(q := l')) = Some (rs', m2, L2)" "fifo_pool m2 L2 Y" by blast
    with d(1) rs'(2) Dequeue show ?thesis by simp
  qed
qed

text \<open>Walking a queue visits its elements from the oldest to the newest.\<close>

lemma fifo_for_each_collect:
  assumes "lseg (fnext m) p xs None"
  shows "fifo_for_each (\<lambda>s. fnext (fst s)) (\<lambda>i (m, acc). Some (m, acc @ [i])) p (m, acc) = Some (m, acc @ xs)"
  using assms
proof (induction xs arbitrary: p acc)
  case Nil
  then show ?case by (subst fifo_for_each.simps) simp
next
  case (Cons x xs)
  then show ?case by (subst fifo_for_each.simps) simp
qed

section \<open>Properties\<close>

text \<open>
  \<^bold>\<open>C30.\<close> Any sequence of queue operations, on any number of queues that share their elements, in
  which no element is enqueued twice at a time, runs on the pointers without dereferencing a null
  pointer, ends, and gives the results of the same operations on lists; afterwards each queue is
  walked in the order of its list.
\<close>

theorem fifos_refine:
  assumes "\<forall>i. \<not> fenq m i" "queues_run ops (\<lambda>_. []) = Some (rs, X)"
  shows "\<exists>m' L. fifo_run ops (m, \<lambda>_. fifo_init) = Some (rs, m', L) \<and>
    (\<forall>q. fifo_for_each (\<lambda>s. fnext (fst s)) (\<lambda>i (m, acc). Some (m, acc @ [i])) (f_head (L q)) (m', []) = Some (m', X q)) \<and>
    (\<forall>i. fenq m' i \<longleftrightarrow> (\<exists>q. i \<in> set (X q)))"
proof -
  have "fifo_pool m (\<lambda>_. fifo_init) (\<lambda>_. [])" using assms(1) by (intro fq.pool_init) simp
  from fifo_run_pool [OF this assms(2)] obtain m' L where
    r: "fifo_run ops (m, \<lambda>_. fifo_init) = Some (rs, m', L)" and p: "fifo_pool m' L X" by blast
  from p have "lseg (fnext m') (f_head (L q)) (X q) None" for q
    using fifo_repD(1) by (metis queue_pool_def)
  note fifo_for_each_collect [OF this, of _ "[]", simplified]
  with r p show ?thesis by (auto simp: queue_pool_def)
qed

theorem fifos_refine_witness:
  "\<exists>m' L. fifo_run [Enqueue True 1, Enqueue True 2, Enqueue False 3, Enqueue True 4, Remove True 2, Dequeue True,
      Dequeue False, Dequeue False]
      (\<lparr>fnext = \<lambda>_. None, fenq = \<lambda>_. False\<rparr>, \<lambda>_. fifo_init) = Some ([Some (1 :: nat), Some 3, None], m', L) \<and>
    fenq m' 4"
  using fifos_refine [of "\<lparr>fnext = \<lambda>_. None, fenq = \<lambda>_. False\<rparr>" "[Enqueue True (1 :: nat), Enqueue True 2,
    Enqueue False 3, Enqueue True 4, Remove True 2, Dequeue True, Dequeue False, Dequeue False]"]
  by (force split: if_splits)

end
