(* ===== verification/Kernel_Thread.thy ===== *)
theory Kernel_Thread
  imports Fifo
begin

text \<open>
  The execution state of kernel threads, from \<^verbatim>\<open>base-hw/src/core/kernel/thread.h\<close>,
  \<^verbatim>\<open>thread.cc\<close>, \<^verbatim>\<open>cpu.cc\<close> and the data of \<^verbatim>\<open>ipc_node.h\<close>: thread states, the activation of
  CPU shares along helping relationships, and the callbacks by which IPC nodes and signals block and
  wake threads. A thread and its IPC node have the same identifier. The result \<open>None\<close> of an operation
  stands for an assertion of the kernel that fails, for the use of a destructed object, for the second
  enqueueing of a queue element, and for a recursion that does not end. The queue of an IPC node is the
  list of its elements, which theory \<open>Fifo\<close> justifies as long as no element is enqueued twice; the flag
  \<open>queued\<close> is the \<^verbatim>\<open>_enqueued\<close> flag of the node's own queue element.
\<close>

section \<open>State\<close>

type_synonym tid = nat

datatype in_state = In_READY | In_WAIT | In_REPLY | In_REPLY_NO_SENDER | In_DESTRUCT

datatype out_state = Out_READY | Out_SEND | Out_SEND_HELPING | Out_DESTRUCT

record ipc_node =
  in_state :: in_state
  in_queue :: "tid list"
  out_state :: out_state
  out_node :: "tid option"
  queued :: bool

definition ipc_node_init :: ipc_node where
  "ipc_node_init = \<lparr>in_state = In_READY, in_queue = [], out_state = Out_READY, out_node = None, queued = False\<rparr>"

datatype thread_state = ACTIVE | AWAITS_START | AWAITS_IPC | AWAITS_RESTART | AWAITS_SIGNAL
  | AWAITS_SIGNAL_CONTEXT_KILL | DEAD

record kthread =
  t_state :: thread_state
  t_paused :: bool
  t_ready :: bool
  t_cpu :: "nat option"
  t_arg0 :: int
  t_utcb :: "nat list"

definition kthread_init :: kthread where
  "kthread_init = \<lparr>t_state = AWAITS_START, t_paused = False, t_ready = False, t_cpu = None, t_arg0 = 0, t_utcb = []\<rparr>"

record kernel =
  alive :: "tid \<Rightarrow> bool"
  node :: "tid \<Rightarrow> ipc_node"
  thr :: "tid \<Rightarrow> kthread"
  executing :: nat

definition node_upd :: "tid \<Rightarrow> (ipc_node \<Rightarrow> ipc_node) \<Rightarrow> 'a kernel_scheme \<Rightarrow> 'a kernel_scheme" where
  "node_upd i f s = s\<lparr>node := (node s)(i := f (node s i))\<rparr>"

definition thr_upd :: "tid \<Rightarrow> (kthread \<Rightarrow> kthread) \<Rightarrow> 'a kernel_scheme \<Rightarrow> 'a kernel_scheme" where
  "thr_upd i f s = s\<lparr>thr := (thr s)(i := f (thr s i))\<rparr>"

definition sending :: "ipc_node \<Rightarrow> bool" where
  "sending n \<longleftrightarrow> out_state n = Out_SEND_HELPING \<or> out_state n = Out_SEND"

definition waiting :: "ipc_node \<Rightarrow> bool" where
  "waiting n \<longleftrightarrow> in_state n = In_WAIT"

definition helping :: "ipc_node \<Rightarrow> bool" where
  "helping n \<longleftrightarrow> out_state n = Out_SEND_HELPING \<and> out_node n \<noteq> None"

section \<open>CPU shares\<close>

definition activate_own_share :: "tid \<Rightarrow> 'a kernel_scheme \<Rightarrow> 'a kernel_scheme option" where
  "activate_own_share i s =
     (if alive s i \<and> \<not> t_ready (thr s i) then Some (thr_upd i (\<lambda>t. t\<lparr>t_ready := True\<rparr>) s) else None)"

definition deactivate_own_share :: "tid \<Rightarrow> 'a kernel_scheme \<Rightarrow> 'a kernel_scheme option" where
  "deactivate_own_share i s =
     (if alive s i \<and> t_cpu (thr s i) = Some (executing s) \<and> t_ready (thr s i)
      then Some (thr_upd i (\<lambda>t. t\<lparr>t_ready := False\<rparr>) s) else None)"

text \<open>The nodes on whose threads \<^verbatim>\<open>for_each_helper\<close> calls its argument.\<close>

definition helpers :: "'a kernel_scheme \<Rightarrow> tid \<Rightarrow> tid list" where
  "helpers s i = filter (\<lambda>h. helping (node s h)) (in_queue (node s i))"

text \<open>
  The recursion of \<^verbatim>\<open>_activate_used_shares\<close> and \<^verbatim>\<open>_deactivate_used_shares\<close> over the helpers, in
  depth-first order, with the calls that are still to be made as a stack.
\<close>

partial_function (option) used_shares ::
    "(tid \<Rightarrow> 'a kernel_scheme \<Rightarrow> 'a kernel_scheme option) \<Rightarrow> tid list \<Rightarrow> 'a kernel_scheme \<Rightarrow> 'a kernel_scheme option" where
  "used_shares own ts s = (case ts of
     [] \<Rightarrow> Some s
   | i # is \<Rightarrow> do { s1 \<leftarrow> own i s; used_shares own (helpers s1 i @ is) s1 })"

definition activate_used_shares :: "tid \<Rightarrow> 'a kernel_scheme \<Rightarrow> 'a kernel_scheme option" where
  "activate_used_shares i = used_shares activate_own_share [i]"

definition deactivate_used_shares :: "tid \<Rightarrow> 'a kernel_scheme \<Rightarrow> 'a kernel_scheme option" where
  "deactivate_used_shares i = used_shares deactivate_own_share [i]"

text \<open>\<^verbatim>\<open>Ipc_node::helping_destination\<close>: the thread that runs on the CPU share of a thread.\<close>

partial_function (option) helping_destination :: "'a kernel_scheme \<Rightarrow> tid \<Rightarrow> tid option" where
  "helping_destination s i =
     (if helping (node s i) then do { d \<leftarrow> out_node (node s i); helping_destination s d } else Some i)"

section \<open>Blocking and waking\<close>

definition set_state :: "thread_state \<Rightarrow> tid \<Rightarrow> 'a kernel_scheme \<Rightarrow> 'a kernel_scheme" where
  "set_state st i = thr_upd i (\<lambda>t. t\<lparr>t_state := st\<rparr>)"

definition user_arg_0 :: "int \<Rightarrow> tid \<Rightarrow> 'a kernel_scheme \<Rightarrow> 'a kernel_scheme" where
  "user_arg_0 v i = thr_upd i (\<lambda>t. t\<lparr>t_arg0 := v\<rparr>)"

definition become_active :: "tid \<Rightarrow> 'a kernel_scheme \<Rightarrow> 'a kernel_scheme option" where
  "become_active i s = do {
     s1 \<leftarrow> (if t_state (thr s i) \<noteq> ACTIVE \<and> \<not> t_paused (thr s i) then activate_used_shares i s else Some s);
     Some (set_state ACTIVE i s1)
   }"

definition become_inactive :: "thread_state \<Rightarrow> tid \<Rightarrow> 'a kernel_scheme \<Rightarrow> 'a kernel_scheme option" where
  "become_inactive st i s = do {
     s1 \<leftarrow> (if t_state (thr s i) = ACTIVE \<and> \<not> t_paused (thr s i) then deactivate_used_shares i s else Some s);
     Some (set_state st i s1)
   }"

definition die :: "tid \<Rightarrow> 'a kernel_scheme \<Rightarrow> 'a kernel_scheme option" where
  "die = become_inactive DEAD"

definition ipc_send_request_done :: "int \<Rightarrow> tid \<Rightarrow> 'a kernel_scheme \<Rightarrow> 'a kernel_scheme option" where
  "ipc_send_request_done v i s =
     (if t_state (thr s i) \<noteq> AWAITS_IPC then None
      else let s1 = set_state ACTIVE i (user_arg_0 v i s)
           in if \<not> t_ready (thr s1 i) then activate_used_shares i s1 else Some s1)"

definition ipc_send_request_succeeded :: "tid \<Rightarrow> 'a kernel_scheme \<Rightarrow> 'a kernel_scheme option" where
  "ipc_send_request_succeeded = ipc_send_request_done 0"

definition ipc_send_request_failed :: "tid \<Rightarrow> 'a kernel_scheme \<Rightarrow> 'a kernel_scheme option" where
  "ipc_send_request_failed = ipc_send_request_done (- 1)"

definition ipc_await_request_succeeded :: "tid \<Rightarrow> 'a kernel_scheme \<Rightarrow> 'a kernel_scheme option" where
  "ipc_await_request_succeeded i s =
     (if t_state (thr s i) \<noteq> AWAITS_IPC then None else become_active i (user_arg_0 0 i s))"

definition ipc_await_request_failed :: "tid \<Rightarrow> 'a kernel_scheme \<Rightarrow> 'a kernel_scheme option" where
  "ipc_await_request_failed i s =
     (if t_state (thr s i) \<noteq> AWAITS_IPC then None else become_active i (user_arg_0 (- 1) i s))"

text \<open>
  The payload of a message. The identifier of the destination's capability, which the source sets after the
  payload, and the translation of capabilities are not part of the model.
\<close>

definition ipc_copy_msg :: "tid \<Rightarrow> tid \<Rightarrow> 'a kernel_scheme \<Rightarrow> 'a kernel_scheme" where
  "ipc_copy_msg i sender s = thr_upd i (\<lambda>t. t\<lparr>t_utcb := t_utcb (thr s sender)\<rparr>) s"

section \<open>The invariant\<close>

text \<open>The thread that \<open>h\<close> helps, the helping relation, and the threads that help \<open>i\<close> directly or not.\<close>

definition helps :: "'a kernel_scheme \<Rightarrow> tid \<Rightarrow> tid option" where
  "helps s h = (if alive s h \<and> helping (node s h) then out_node (node s h) else None)"

definition help_rel :: "'a kernel_scheme \<Rightarrow> (tid \<times> tid) set" where
  "help_rel s = {(h, d). helps s h = Some d}"

definition helping_tree :: "'a kernel_scheme \<Rightarrow> tid \<Rightarrow> tid set" where
  "helping_tree s i = {j. (j, i) \<in> (help_rel s)\<^sup>*}"

definition runnable :: "kthread \<Rightarrow> bool" where
  "runnable t \<longleftrightarrow> t_state t = ACTIVE \<and> \<not> t_paused t"

text \<open>The links between the nodes: queues and targets agree, and helping has no cycle.\<close>

definition links :: "'a kernel_scheme \<Rightarrow> bool" where
  "links s \<longleftrightarrow> finite {i. alive s i} \<and>
     (\<forall>i. alive s i \<longrightarrow> distinct (in_queue (node s i)) \<and>
        (\<forall>h \<in> set (in_queue (node s i)). alive s h \<and> out_node (node s h) = Some i) \<and>
        (\<forall>d. out_node (node s i) = Some d \<longrightarrow> d \<noteq> i \<and> alive s d \<and> i \<in> set (in_queue (node s d))) \<and>
        (queued (node s i) \<longleftrightarrow> out_node (node s i) \<noteq> None)) \<and>
     (\<forall>h d. helps s h = Some d \<longrightarrow> t_cpu (thr s h) = t_cpu (thr s d) \<and> t_cpu (thr s h) \<noteq> None) \<and>
     acyclic (help_rel s)"

text \<open>
  A thread whose share is ready is runnable or helps a thread whose share is ready, and conversely;
  it awaits IPC exactly as long as its node sends or waits.
\<close>

definition node_ok :: "ipc_node \<Rightarrow> kthread \<Rightarrow> bool" where
  "node_ok n t \<longleftrightarrow> (out_node n \<noteq> None \<longleftrightarrow> sending n) \<and> out_state n \<noteq> Out_DESTRUCT \<and> in_state n \<noteq> In_DESTRUCT \<and>
     (waiting n \<longrightarrow> in_queue n = [] \<and> \<not> sending n) \<and> (in_state n = In_REPLY \<longrightarrow> in_queue n \<noteq> []) \<and>
     (t_state t = AWAITS_IPC \<longleftrightarrow> sending n \<or> waiting n) \<and> (t_paused t \<longrightarrow> \<not> sending n) \<and>
     (t_state t = AWAITS_START \<longleftrightarrow> t_cpu t = None)"

definition share_ok :: "'a kernel_scheme \<Rightarrow> tid \<Rightarrow> bool" where
  "share_ok s i \<longleftrightarrow> (case helps s i of
     None \<Rightarrow> t_ready (thr s i) = runnable (thr s i)
   | Some d \<Rightarrow> t_ready (thr s i) = t_ready (thr s d))"

text \<open>The invariant of all threads but those of the set \<open>X\<close>, which an operation is about to update.\<close>

definition kinv :: "tid set \<Rightarrow> 'a kernel_scheme \<Rightarrow> bool" where
  "kinv X s \<longleftrightarrow> links s \<and> (\<forall>i. alive s i \<and> i \<notin> X \<longrightarrow> node_ok (node s i) (thr s i) \<and> share_ok s i)"

definition set_ready :: "bool \<Rightarrow> tid set \<Rightarrow> 'a kernel_scheme \<Rightarrow> 'a kernel_scheme" where
  "set_ready v A s = s\<lparr>thr := \<lambda>i. if i \<in> A then (thr s i)\<lparr>t_ready := v\<rparr> else thr s i\<rparr>"

section \<open>Facts on updates\<close>

lemma upd_sel [simp]:
  "alive (node_upd i f s) = alive s" "thr (node_upd i f s) = thr s"
  "node (node_upd i f s) = (node s)(i := f (node s i))" "executing (node_upd i f s) = executing s"
  "alive (thr_upd i g s) = alive s" "node (thr_upd i g s) = node s"
  "thr (thr_upd i g s) = (thr s)(i := g (thr s i))" "executing (thr_upd i g s) = executing s"
  by (simp_all add: node_upd_def thr_upd_def)

lemma set_ready_sel [simp]:
  "alive (set_ready v A s) = alive s" "node (set_ready v A s) = node s" "executing (set_ready v A s) = executing s"
  "thr (set_ready v A s) i = (if i \<in> A then (thr s i)\<lparr>t_ready := v\<rparr> else thr s i)"
  by (simp_all add: set_ready_def)

lemma set_ready_empty [simp]: "set_ready v {} s = s"
  by (simp add: set_ready_def)

lemma set_ready_Un: "set_ready v A (set_ready v B s) = set_ready v (A \<union> B) s"
  by (cases s) (auto simp: set_ready_def fun_eq_iff)

lemma own_share_eq: "thr_upd i (\<lambda>t. t\<lparr>t_ready := v\<rparr>) s = set_ready v {i} s"
  by (auto simp: set_ready_def thr_upd_def fun_eq_iff)

lemma helps_cong: "alive s' = alive s \<Longrightarrow> node s' = node s \<Longrightarrow> helps s' = helps s"
  by (simp add: helps_def fun_eq_iff)

lemma helps_frame [simp]: "helps (thr_upd i g s) = helps s" "helps (set_ready v A s) = helps s"
  by (rule helps_cong; simp)+

lemma tree_frame [simp]:
  "help_rel (thr_upd i g s) = help_rel s" "help_rel (set_ready v A s) = help_rel s"
  "helping_tree (thr_upd i g s) = helping_tree s" "helping_tree (set_ready v A s) = helping_tree s"
  by (simp_all add: help_rel_def helping_tree_def fun_eq_iff)

lemma helpers_frame [simp]: "helpers (thr_upd i g s) = helpers s" "helpers (set_ready v A s) = helpers s"
  by (simp_all add: helpers_def fun_eq_iff)

lemma in_tree_self [simp]: "i \<in> helping_tree s i"
  by (simp add: helping_tree_def)

section \<open>Helping trees\<close>

lemma set_ready_keeps:
  "t_cpu (thr (set_ready v A s) i) = t_cpu (thr s i)" "t_state (thr (set_ready v A s) i) = t_state (thr s i)"
  "t_paused (thr (set_ready v A s) i) = t_paused (thr s i)" "t_utcb (thr (set_ready v A s) i) = t_utcb (thr s i)"
  "t_arg0 (thr (set_ready v A s) i) = t_arg0 (thr s i)" "runnable (thr (set_ready v A s) i) = runnable (thr s i)"
  "t_ready (thr (set_ready v A s) i) = (if i \<in> A then v else t_ready (thr s i))"
  by (simp_all add: runnable_def)

lemma links_set_ready: "links (set_ready v A s) = links s"
  unfolding links_def set_ready_keeps set_ready_sel(1,2) helps_frame tree_frame ..

lemma linksD:
  assumes "links s"
  shows "finite {i. alive s i}"
    and "alive s i \<Longrightarrow> distinct (in_queue (node s i))"
    and "alive s i \<Longrightarrow> h \<in> set (in_queue (node s i)) \<Longrightarrow> alive s h \<and> out_node (node s h) = Some i"
    and "alive s i \<Longrightarrow> out_node (node s i) = Some d \<Longrightarrow> d \<noteq> i \<and> alive s d \<and> i \<in> set (in_queue (node s d))"
    and "alive s i \<Longrightarrow> queued (node s i) \<longleftrightarrow> out_node (node s i) \<noteq> None"
    and "helps s h = Some d \<Longrightarrow> t_cpu (thr s h) = t_cpu (thr s d) \<and> t_cpu (thr s h) \<noteq> None"
    and "acyclic (help_rel s)"
  using assms unfolding links_def by blast+

lemma helps_Some: "helps s h = Some d \<longleftrightarrow> alive s h \<and> helping (node s h) \<and> out_node (node s h) = Some d"
  by (auto simp: helps_def)

lemma set_helpers:
  assumes "links s" "alive s i"
  shows "set (helpers s i) = {h. helps s h = Some i}"
  using linksD(3) [OF assms] linksD(4) [OF assms(1), of _ i] by (auto simp: helpers_def helps_Some)

lemma tree_step: "helps s h = Some i \<Longrightarrow> j \<in> helping_tree s h \<Longrightarrow> j \<in> helping_tree s i"
  by (auto simp: helping_tree_def help_rel_def intro: rtrancl_into_rtrancl)

lemma tree_unfold: "helping_tree s i = insert i (\<Union>h \<in> {h. helps s h = Some i}. helping_tree s h)"
  by (auto simp: helping_tree_def help_rel_def elim: rtranclE intro: rtrancl_into_rtrancl)

lemma tree_up: "j \<in> helping_tree s i \<Longrightarrow> j \<noteq> i \<Longrightarrow> \<exists>d. helps s j = Some d \<and> d \<in> helping_tree s i"
  by (auto simp: helping_tree_def help_rel_def elim: converse_rtranclE)

lemma tree_down: "helps s j = Some d \<Longrightarrow> d \<in> helping_tree s i \<Longrightarrow> j \<in> helping_tree s i"
  by (auto simp: helping_tree_def help_rel_def intro: converse_rtrancl_into_rtrancl)

lemma no_cycle:
  assumes "links s" "helps s h = Some i"
  shows "i \<notin> helping_tree s h"
proof
  assume "i \<in> helping_tree s h"
  then have "(i, h) \<in> (help_rel s)\<^sup>*" "(h, i) \<in> help_rel s" using assms(2) by (auto simp: helping_tree_def help_rel_def)
  then have "(h, h) \<in> (help_rel s)\<^sup>+" by (rule rtrancl_into_trancl2 [rotated])
  with linksD(7) [OF assms(1)] show False by (auto simp: acyclic_def)
qed

lemma tree_alive: "links s \<Longrightarrow> alive s i \<Longrightarrow> j \<in> helping_tree s i \<Longrightarrow> alive s j"
  by (metis helps_Some tree_up)

lemma finite_tree: "links s \<Longrightarrow> alive s i \<Longrightarrow> finite (helping_tree s i)"
  by (rule finite_subset [OF _ linksD(1)]) (auto intro: tree_alive)

text \<open>The stack of the recursion holds the roots of disjoint trees.\<close>

definition forest :: "'a kernel_scheme \<Rightarrow> tid list \<Rightarrow> bool" where
  "forest s ts \<longleftrightarrow> distinct ts \<and> (\<forall>i \<in> set ts. alive s i) \<and> (\<forall>i \<in> set ts. \<forall>j \<in> set ts. i \<noteq> j \<longrightarrow> i \<notin> helping_tree s j)"

lemma forest_step:
  assumes l: "links s" and f: "forest s (i # us)"
  shows "forest s (helpers s i @ us)"
    "(\<Union>j \<in> set (helpers s i @ us). helping_tree s j) = (\<Union>j \<in> set (i # us). helping_tree s j) - {i}"
proof -
  have i: "alive s i" using f by (simp add: forest_def)
  note h = set_helpers [OF l i]
  have sub: "helping_tree s k \<subseteq> helping_tree s i" if "helps s k = Some i" for k
    using tree_step that by blast
  have hh: "k \<notin> helping_tree s k'" if "helps s k = Some i" "helps s k' = Some i" "k \<noteq> k'" for k k'
    using tree_up [of k s k'] that no_cycle [OF l that(2)] by auto
  have hj: "k \<notin> helping_tree s j" "k \<noteq> j" "j \<notin> helping_tree s k" if "helps s k = Some i" "j \<in> set us" for k j
  proof -
    have ij: "i \<noteq> j" "i \<notin> helping_tree s j" "j \<notin> helping_tree s i" using f that(2) by (auto simp: forest_def)
    from ij(3) sub [OF that(1)] show "j \<notin> helping_tree s k" by blast
    from ij(3) tree_down [OF that(1)] show ne: "k \<noteq> j" by auto
    from tree_up [of k s j] ne ij(2) that(1) show "k \<notin> helping_tree s j" by auto
  qed
  have "distinct (helpers s i)" using linksD(2) [OF l i] by (simp add: helpers_def)
  moreover have "set (helpers s i) \<inter> set us = {}" unfolding h using hj(2) by auto
  ultimately have "distinct (helpers s i @ us)" using f by (simp add: forest_def)
  moreover have "alive s j" if "j \<in> set (helpers s i @ us)" for j
    using that f unfolding set_append h by (auto simp: helps_Some forest_def)
  moreover have "k \<notin> helping_tree s j" if "k \<in> set (helpers s i @ us)" "j \<in> set (helpers s i @ us)" "k \<noteq> j" for k j
    using that hh hj(1,3) f unfolding set_append h by (auto simp: forest_def)
  ultimately show "forest s (helpers s i @ us)" unfolding forest_def by blast
  have "i \<notin> helping_tree s k" if "helps s k = Some i" for k using no_cycle [OF l that] .
  moreover have "i \<notin> helping_tree s j" if "j \<in> set us" for j using f that by (auto simp: forest_def)
  ultimately show "(\<Union>j \<in> set (helpers s i @ us). helping_tree s j) = (\<Union>j \<in> set (i # us). helping_tree s j) - {i}"
    unfolding set_append h using tree_unfold [of s i] by auto
qed

text \<open>Activating or deactivating the used shares of a thread sets exactly the shares of its tree.\<close>

lemma used_shares_forest:
  assumes l: "links s"
    and own: "\<And>s' j. j \<in> (\<Union>i \<in> set ts. helping_tree s i) \<Longrightarrow> alive s' = alive s \<Longrightarrow> executing s' = executing s \<Longrightarrow>
      thr s' j = thr s j \<Longrightarrow> own j s' = Some (set_ready v {j} s')"
    and f: "forest s ts"
  shows "used_shares own ts s = Some (set_ready v (\<Union>i \<in> set ts. helping_tree s i) s)"
  using assms
proof (induction "card (\<Union>i \<in> set ts. helping_tree s i)" arbitrary: ts s rule: less_induct)
  case less
  show ?case
  proof (cases ts)
    case Nil
    then show ?thesis by (subst used_shares.simps) simp
  next
    case (Cons i us)
    let ?T = "\<lambda>ts. \<Union>i \<in> set ts. helping_tree s i"
    let ?s = "set_ready v {i} s" let ?ts = "helpers s i @ us"
    note fs = forest_step [OF less.prems(1) less.prems(3) [unfolded Cons]]
    have al: "alive s j" if "j \<in> set ts" for j using less.prems(3) that by (simp add: forest_def)
    have fin: "finite (?T ts)" using finite_tree [OF less.prems(1) al] by simp
    have i: "i \<in> ?T ts" using Cons by auto
    have Tts: "?T ?ts = ?T ts - {i}" using fs(2) unfolding Cons .
    have fr: "helping_tree ?s = helping_tree s" by simp
    have "card (?T ?ts) < card (?T ts)" unfolding Tts by (rule card_Diff1_less [OF fin i])
    moreover have "links ?s" using less.prems(1) by (simp only: links_set_ready)
    moreover have "forest ?s ?ts" using fs(1) unfolding forest_def fr by simp
    moreover have "own j s' = Some (set_ready v {j} s')"
      if j: "j \<in> ?T ?ts" and s': "alive s' = alive ?s" "executing s' = executing ?s" "thr s' j = thr ?s j" for s' j
    proof -
      have "j \<in> ?T ts" "j \<noteq> i" using j unfolding Tts by blast+
      then show ?thesis using s' by (intro less.prems(2)) simp_all
    qed
    ultimately have "used_shares own ?ts ?s = Some (set_ready v (?T ?ts) ?s)"
      using less.hyps [where ts = ?ts and s = ?s, unfolded fr] by blast
    moreover have "own i s = Some ?s" by (rule less.prems(2) [OF i refl refl refl])
    moreover have "helpers ?s i = helpers s i" by simp
    ultimately have "used_shares own ts s = Some (set_ready v (?T ?ts) ?s)"
      unfolding Cons by (subst used_shares.simps) (simp only: list.case bind.bind_lunit)
    moreover have "?T ?ts \<union> {i} = ?T ts" using Tts i by blast
    ultimately show ?thesis by (simp only: set_ready_Un)
  qed
qed

section \<open>Shares under the invariant\<close>

lemma kinvD:
  assumes "kinv X s"
  shows "links s" "alive s i \<Longrightarrow> i \<notin> X \<Longrightarrow> node_ok (node s i) (thr s i)" "alive s i \<Longrightarrow> i \<notin> X \<Longrightarrow> share_ok s i"
  using assms by (auto simp: kinv_def)

lemma kinv_mono: "kinv X s \<Longrightarrow> X \<subseteq> Y \<Longrightarrow> kinv Y s"
  by (auto simp: kinv_def)

lemma kinv_drop:
  "kinv (insert r X) s \<Longrightarrow> (alive s r \<Longrightarrow> node_ok (node s r) (thr s r) \<and> share_ok s r) \<Longrightarrow> kinv X s"
  by (auto simp: kinv_def)

text \<open>Only \<open>r\<close> itself may be under update and help at the same time.\<close>

definition quiet :: "tid set \<Rightarrow> tid \<Rightarrow> 'a kernel_scheme \<Rightarrow> bool" where
  "quiet X r s \<longleftrightarrow> (\<forall>x \<in> X. x \<noteq> r \<longrightarrow> helps s x = None)"

lemma quiet_empty [simp]: "quiet {} r s" "quiet {r} r s"
  by (simp_all add: quiet_def)

lemma quiet_frame [simp]: "quiet X r (thr_upd i g s) = quiet X r s" "quiet X r (set_ready v A s) = quiet X r s"
  by (simp_all add: quiet_def)

lemma tree_ready:
  assumes k: "kinv X s" "quiet X r s" and j: "j \<in> helping_tree s r"
  shows "t_ready (thr s j) = t_ready (thr s r) \<and> t_cpu (thr s j) = t_cpu (thr s r)"
proof -
  have "(j, r) \<in> (help_rel s)\<^sup>*" using j by (simp add: helping_tree_def)
  then show ?thesis
  proof (induction rule: converse_rtrancl_induct)
    case (step y z)
    then have h: "helps s y = Some z" by (simp add: help_rel_def)
    have "y \<noteq> r" using no_cycle [OF kinvD(1) [OF k(1)], of r z] h step.hyps(2) by (auto simp: helping_tree_def)
    with h k(2) have "y \<notin> X" by (auto simp: quiet_def)
    then have "share_ok s y" using k(1) h by (auto simp: helps_Some intro: kinvD(3))
    with h step.IH linksD(6) [OF kinvD(1) [OF k(1)] h] show ?case by (simp add: share_ok_def)
  qed simp
qed

lemma activate_tree:
  assumes k: "kinv X s" "quiet X r s" and r: "alive s r" "\<not> t_ready (thr s r)"
  shows "activate_used_shares r s = Some (set_ready True (helping_tree s r) s)"
proof -
  have l: "links s" by (rule kinvD(1) [OF k(1)])
  have "used_shares activate_own_share [r] s = Some (set_ready True (\<Union>i \<in> set [r]. helping_tree s i) s)"
  proof (rule used_shares_forest [OF l])
    show "forest s [r]" using r by (simp add: forest_def)
    fix s' :: "'a kernel_scheme" and j
    assume "j \<in> (\<Union>i \<in> set [r]. helping_tree s i)" "alive s' = alive s" "thr s' j = thr s j"
    then show "activate_own_share j s' = Some (set_ready True {j} s')"
      using tree_ready [OF k, of j] tree_alive [OF l r(1), of j] r(2)
      by (simp add: activate_own_share_def own_share_eq)
  qed
  then show ?thesis by (simp add: activate_used_shares_def)
qed

lemma deactivate_tree:
  assumes k: "kinv X s" "quiet X r s" and r: "alive s r" "t_ready (thr s r)" "t_cpu (thr s r) = Some (executing s)"
  shows "deactivate_used_shares r s = Some (set_ready False (helping_tree s r) s)"
proof -
  have l: "links s" by (rule kinvD(1) [OF k(1)])
  have "used_shares deactivate_own_share [r] s = Some (set_ready False (\<Union>i \<in> set [r]. helping_tree s i) s)"
  proof (rule used_shares_forest [OF l])
    show "forest s [r]" using r by (simp add: forest_def)
    fix s' :: "'a kernel_scheme" and j
    assume "j \<in> (\<Union>i \<in> set [r]. helping_tree s i)" "alive s' = alive s" "executing s' = executing s" "thr s' j = thr s j"
    then show "deactivate_own_share j s' = Some (set_ready False {j} s')"
      using tree_ready [OF k, of j] tree_alive [OF l r(1), of j] r(2,3)
      by (simp add: deactivate_own_share_def own_share_eq)
  qed
  then show ?thesis by (simp add: deactivate_used_shares_def)
qed

lemma kinv_set_ready:
  assumes k: "kinv (insert r X) s"
  shows "kinv (insert r X) (set_ready v (helping_tree s r) s)"
  unfolding kinv_def set_ready_sel(1,2)
proof (intro conjI allI impI)
  let ?s = "set_ready v (helping_tree s r) s"
  show "links ?s" using kinvD(1) [OF k] by (simp only: links_set_ready)
  fix i
  assume i: "alive s i \<and> i \<notin> insert r X"
  then have ok: "node_ok (node s i) (thr s i)" "share_ok s i" using kinvD [OF k] by blast+
  then show "node_ok (node s i) (thr ?s i)" by (simp add: node_ok_def)
  show "share_ok ?s i"
  proof (cases "helps s i")
    case None
    then have "i \<notin> helping_tree s r" using tree_up [of i s r] i by auto
    with ok(2) None show ?thesis by (simp add: share_ok_def)
  next
    case (Some d)
    then have "i \<in> helping_tree s r \<longleftrightarrow> d \<in> helping_tree s r"
      using tree_up [of i s r] tree_down [OF Some, of r] i by auto
    with ok(2) Some show ?thesis by (simp add: share_ok_def)
  qed
qed

lemma kinv_thr_upd:
  assumes k: "kinv X s" and g: "t_ready (g (thr s r)) = t_ready (thr s r)" "t_cpu (g (thr s r)) = t_cpu (thr s r)"
    and same: "r \<notin> X \<Longrightarrow> t_state (g (thr s r)) = t_state (thr s r) \<and> t_paused (g (thr s r)) = t_paused (thr s r)"
  shows "kinv X (thr_upd r g s)"
proof -
  have cpu: "t_cpu (((thr s)(r := g (thr s r))) i) = t_cpu (thr s i)" "t_ready (((thr s)(r := g (thr s r))) i) = t_ready (thr s i)" for i
    using g by simp_all
  have "links (thr_upd r g s) = links s" unfolding links_def upd_sel helps_frame tree_frame cpu ..
  moreover have "node_ok (node s i) (thr (thr_upd r g s) i) \<and> share_ok (thr_upd r g s) i" if "alive s i" "i \<notin> X" for i
  proof -
    have "node_ok (node s i) (thr s i)" "share_ok s i" using kinvD [OF k] that by blast+
    moreover have st: "t_state (thr (thr_upd r g s) i) = t_state (thr s i)" "t_paused (thr (thr_upd r g s) i) = t_paused (thr s i)"
      using same that(2) by auto
    ultimately show ?thesis
      unfolding node_ok_def share_ok_def runnable_def upd_sel helps_frame cpu using st by (simp split: option.splits)
  qed
  ultimately show ?thesis using k by (auto simp: kinv_def)
qed

text \<open>Waking: a root that is not runnable yet, with its node idle, becomes active with its tree.\<close>

lemma become_active_kinv:
  assumes k: "kinv (insert r X) s" and q: "quiet X r s" and r: "alive s r" "r \<notin> X" "helps s r = None" "\<not> t_ready (thr s r)"
    "t_state (thr s r) \<noteq> ACTIVE" and ok: "node_ok (node s r) ((thr s r)\<lparr>t_state := ACTIVE\<rparr>)"
  shows "\<exists>s'. become_active r s = Some s' \<and> kinv X s' \<and>
    s' = set_state ACTIVE r (if t_paused (thr s r) then s else set_ready True (helping_tree s r) s)"
proof -
  let ?s = "if t_paused (thr s r) then s else set_ready True (helping_tree s r) s"
  have "become_active r s = Some (set_state ACTIVE r ?s)"
    using activate_tree [OF k _ r(1,4)] q r(5) by (simp add: become_active_def quiet_def)
  moreover have k1: "kinv (insert r X) ?s" using k kinv_set_ready [OF k] by simp
  then have "kinv (insert r X) (set_state ACTIVE r ?s)"
    unfolding set_state_def by (rule kinv_thr_upd) simp_all
  then have "kinv X (set_state ACTIVE r ?s)"
    by (rule kinv_drop) (use ok r in \<open>auto simp: set_state_def share_ok_def runnable_def node_ok_def\<close>)
  ultimately show ?thesis by blast
qed

lemma request_done_kinv:
  assumes k: "kinv (insert r X) s" and q: "quiet X r s" and r: "alive s r" "helps s r = None"
    "t_state (thr s r) = AWAITS_IPC" "\<not> t_paused (thr s r)"
  shows "\<exists>s'. ipc_send_request_done v r s = Some s' \<and> kinv (insert r X) s' \<and> share_ok s' r \<and>
    s' = set_ready True (if t_ready (thr s r) then {} else helping_tree s r) (set_state ACTIVE r (user_arg_0 v r s))"
proof -
  let ?s = "set_state ACTIVE r (user_arg_0 v r s)"
  have k1: "kinv (insert r X) ?s" unfolding set_state_def user_arg_0_def
    by (intro kinv_thr_upd k) simp_all
  have fr: "helping_tree ?s = helping_tree s" "quiet (insert r X) r ?s" "alive ?s r" "helps ?s r = None"
      "t_ready (thr ?s r) = t_ready (thr s r)" "t_state (thr ?s r) = ACTIVE" "t_paused (thr ?s r) = t_paused (thr s r)"
    using q r by (auto simp: set_state_def user_arg_0_def quiet_def)
  let ?s' = "set_ready True (if t_ready (thr s r) then {} else helping_tree s r) ?s"
  have "ipc_send_request_done v r s = Some ?s'"
    using r(3) activate_tree [OF k1 fr(2,3)] fr by (simp add: ipc_send_request_done_def Let_def)
  moreover have "kinv (insert r X) ?s'" using k1 kinv_set_ready [OF k1, of True] fr(1) by simp
  moreover have "share_ok ?s' r" using fr r by (auto simp: share_ok_def runnable_def)
  ultimately show ?thesis by blast
qed

text \<open>Blocking: a running thread leaves the active state, and its tree loses the CPU.\<close>

lemma become_inactive_kinv:
  assumes k: "kinv (insert r X) s" and q: "quiet X r s" and r: "alive s r" "r \<notin> X" "helps s r = None" "t_ready (thr s r)"
    "t_cpu (thr s r) = Some (executing s)" "runnable (thr s r)" "st \<noteq> ACTIVE"
    and ok: "node_ok (node s r) ((thr s r)\<lparr>t_state := st\<rparr>)"
  shows "\<exists>s'. become_inactive st r s = Some s' \<and> kinv X s' \<and>
    s' = set_state st r (set_ready False (helping_tree s r) s)"
proof -
  let ?s = "set_ready False (helping_tree s r) s"
  have "become_inactive st r s = Some (set_state st r ?s)"
    using deactivate_tree [OF k _ r(1,4,5)] q r(6) by (simp add: become_inactive_def quiet_def runnable_def)
  moreover have "kinv (insert r X) ?s" by (rule kinv_set_ready [OF k])
  then have "kinv (insert r X) (set_state st r ?s)"
    unfolding set_state_def by (rule kinv_thr_upd) simp_all
  then have "kinv X (set_state st r ?s)"
    by (rule kinv_drop) (use ok r in \<open>auto simp: set_state_def share_ok_def runnable_def node_ok_def\<close>)
  ultimately show ?thesis by blast
qed

section \<open>Updates of nodes\<close>

text \<open>An update that leaves the links alone and does not start to help.\<close>

lemma kinv_node_upd:
  assumes k: "kinv X s" and r: "r \<in> X"
    and f: "in_queue (f (node s r)) = in_queue (node s r)" "out_node (f (node s r)) = out_node (node s r)"
      "queued (f (node s r)) = queued (node s r)" "helping (f (node s r)) \<longrightarrow> helping (node s r)"
  shows "kinv X (node_upd r f s)" "i \<noteq> r \<Longrightarrow> helps (node_upd r f s) i = helps s i"
proof -
  let ?s = "node_upd r f s"
  have h: "helps ?s i = helps s i" if "i \<noteq> r" for i using that by (simp add: helps_def)
  then show "i \<noteq> r \<Longrightarrow> helps ?s i = helps s i" .
  have sub: "helps ?s i = Some d \<Longrightarrow> helps s i = Some d" for i d
    using f(2,4) by (auto simp: helps_Some split: if_splits)
  have n: "in_queue (node ?s i) = in_queue (node s i)" "out_node (node ?s i) = out_node (node s i)"
    "queued (node ?s i) = queued (node s i)" for i
    using f(1-3) by auto
  have "help_rel ?s \<subseteq> help_rel s" using sub by (auto simp: help_rel_def)
  then have "acyclic (help_rel ?s)" using linksD(7) [OF kinvD(1) [OF k]] acyclic_subset by blast
  then have "links ?s"
    using kinvD(1) [OF k] sub unfolding links_def n upd_sel(1,2) by blast
  moreover have "node_ok (node ?s i) (thr ?s i) \<and> share_ok ?s i" if i: "alive s i" "i \<notin> X" for i
  proof -
    have "i \<noteq> r" using i(2) r by auto
    with kinvD(2,3) [OF k i] h show ?thesis by (simp add: share_ok_def cong: option.case_cong)
  qed
  ultimately show "kinv X ?s" by (auto simp: kinv_def)
qed

definition link :: "tid \<Rightarrow> tid \<Rightarrow> out_state \<Rightarrow> 'a kernel_scheme \<Rightarrow> 'a kernel_scheme" where
  "link c d out s = node_upd c (\<lambda>n. n\<lparr>queued := True, out_node := Some d, out_state := out\<rparr>)
     (node_upd d (\<lambda>n. n\<lparr>in_queue := in_queue n @ [c]\<rparr>) s)"

definition unlink :: "tid \<Rightarrow> tid \<Rightarrow> 'a kernel_scheme \<Rightarrow> 'a kernel_scheme" where
  "unlink h d s = node_upd h (\<lambda>n. n\<lparr>queued := False, out_node := None\<rparr>)
     (node_upd d (\<lambda>n. n\<lparr>in_queue := remove1 h (in_queue n)\<rparr>) s)"

lemma node_link:
  "d \<noteq> c \<Longrightarrow> node (link c d out s) i = (if i = c then (node s c)\<lparr>queued := True, out_node := Some d, out_state := out\<rparr>
     else if i = d then (node s d)\<lparr>in_queue := in_queue (node s d) @ [c]\<rparr> else node s i)"
  "alive (link c d out s) = alive s" "thr (link c d out s) = thr s" "executing (link c d out s) = executing s"
  by (simp_all add: link_def)

lemma helps_link:
  assumes "d \<noteq> c" "alive s c"
  shows "helps (link c d out s) = (helps s)(c := if out = Out_SEND_HELPING then Some d else None)"
proof (rule ext)
  fix i
  consider "i = c" | "i \<noteq> c" "i = d" | "i \<noteq> c" "i \<noteq> d" by blast
  then show "helps (link c d out s) i = ((helps s)(c := if out = Out_SEND_HELPING then Some d else None)) i"
    by cases (use assms in \<open>simp_all add: helps_def node_link helping_def\<close>)
qed

lemma link_links:
  assumes l: "links s" and c: "alive s c" "out_node (node s c) = None" and d: "alive s d" "d \<noteq> c"
    and hl: "out = Out_SEND_HELPING \<Longrightarrow>
      t_cpu (thr s c) = t_cpu (thr s d) \<and> t_cpu (thr s c) \<noteq> None \<and> d \<notin> helping_tree s c"
  shows "links (link c d out s)"
proof -
  let ?s = "link c d out s"
  have n: "alive ?s = alive s" "thr ?s = thr s" by (simp_all add: link_def)
  note h = helps_link [OF d(2) c(1), of out]
  have hc: "helps s c = None" using c by (simp add: helps_def)
  have cq: "c \<notin> set (in_queue (node s i))" if "alive s i" for i using linksD(3) [OF l that, of c] c(2) by auto
  have "acyclic (help_rel ?s)"
  proof (cases "out = Out_SEND_HELPING")
    case True
    have e: "help_rel ?s = insert (c, d) (help_rel s)" unfolding help_rel_def h using hc True by (auto split: if_splits)
    have "(d, c) \<notin> (help_rel s)\<^sup>*" using hl [OF True] unfolding helping_tree_def by blast
    then show ?thesis unfolding e acyclic_insert using linksD(7) [OF l] by (rule conjI [rotated])
  next
    case False
    have "help_rel ?s = help_rel s" unfolding help_rel_def h using hc False by (auto split: if_splits)
    then show ?thesis using linksD(7) [OF l] by simp
  qed
  moreover have "\<forall>i e. helps ?s i = Some e \<longrightarrow> t_cpu (thr s i) = t_cpu (thr s e) \<and> t_cpu (thr s i) \<noteq> None"
  proof (intro allI impI)
    fix i e
    assume a: "helps ?s i = Some e"
    show "t_cpu (thr s i) = t_cpu (thr s e) \<and> t_cpu (thr s i) \<noteq> None"
    proof (cases "i = c")
      case True
      with a h have "out = Out_SEND_HELPING" "e = d" by (simp_all split: if_splits)
      with True hl show ?thesis by metis
    next
      case False
      with a h have "helps s i = Some e" by simp
      with linksD(6) [OF l] show ?thesis by blast
    qed
  qed
  moreover have "distinct (in_queue (node ?s i)) \<and>
      (\<forall>x \<in> set (in_queue (node ?s i)). alive s x \<and> out_node (node ?s x) = Some i) \<and>
      (\<forall>e. out_node (node ?s i) = Some e \<longrightarrow> e \<noteq> i \<and> alive s e \<and> i \<in> set (in_queue (node ?s e))) \<and>
      (queued (node ?s i) \<longleftrightarrow> out_node (node ?s i) \<noteq> None)" if i: "alive s i" for i
  proof -
    have q: "in_queue (node ?s i) = in_queue (node s i) @ (if i = d then [c] else [])"
      "out_node (node ?s i) = (if i = c then Some d else out_node (node s i))"
      "queued (node ?s i) = (i = c \<or> queued (node s i))" for i
      using d(2) by (simp_all add: node_link)
    have "distinct (in_queue (node ?s i))" using q(1) [of i] linksD(2) [OF l i] cq [OF i] by auto
    moreover have "alive s x \<and> out_node (node ?s x) = Some i" if "x \<in> set (in_queue (node ?s i))" for x
      using that q(1) [of i] q(2) [of x] linksD(3) [OF l i, of x] cq [OF i] c(1) by (auto split: if_splits)
    moreover have "e \<noteq> i \<and> alive s e \<and> i \<in> set (in_queue (node ?s e))" if "out_node (node ?s i) = Some e" for e
      using that q(1) [of e] q(2) [of i] linksD(4) [OF l i, of e] d by (auto split: if_splits)
    moreover have "queued (node ?s i) \<longleftrightarrow> out_node (node ?s i) \<noteq> None"
      using q(2,3) [of i] linksD(5) [OF l i] by simp
    ultimately show ?thesis by blast
  qed
  ultimately show "links ?s" using linksD(1) [OF l] unfolding links_def n by blast
qed

lemma unlink_links:
  assumes l: "links s" and h: "alive s h" "out_node (node s h) = Some d"
  shows "links (unlink h d s)" "helps (unlink h d s) = (helps s)(h := None)"
proof -
  let ?s = "unlink h d s"
  have n: "alive ?s = alive s" "thr ?s = thr s" by (simp_all add: unlink_def)
  have d: "alive s d" "d \<noteq> h" using linksD(4) [OF l h] by auto
  show hp: "helps ?s = (helps s)(h := None)" using d by (auto simp: helps_def unlink_def helping_def fun_eq_iff)
  have "help_rel ?s \<subseteq> help_rel s" by (auto simp: help_rel_def hp split: if_splits)
  then have "acyclic (help_rel ?s)" using linksD(7) [OF l] acyclic_subset by blast
  moreover have "\<forall>i e. helps ?s i = Some e \<longrightarrow> t_cpu (thr s i) = t_cpu (thr s e) \<and> t_cpu (thr s i) \<noteq> None"
    unfolding hp using linksD(6) [OF l] by (metis fun_upd_apply option.distinct(1))
  moreover have "distinct (in_queue (node ?s i)) \<and>
      (\<forall>x \<in> set (in_queue (node ?s i)). alive s x \<and> out_node (node ?s x) = Some i) \<and>
      (\<forall>e. out_node (node ?s i) = Some e \<longrightarrow> e \<noteq> i \<and> alive s e \<and> i \<in> set (in_queue (node ?s e))) \<and>
      (queued (node ?s i) \<longleftrightarrow> out_node (node ?s i) \<noteq> None)" if i: "alive s i" for i
  proof -
    have q: "in_queue (node ?s i) = (if i = d then remove1 h (in_queue (node s d)) else in_queue (node s i))"
      "out_node (node ?s i) = (if i = h then None else out_node (node s i))"
      "queued (node ?s i) = (i \<noteq> h \<and> queued (node s i))" for i
      using d(2) by (auto simp: unlink_def)
    have hq: "h \<notin> set (in_queue (node s i))" if "i \<noteq> d" using linksD(3) [OF l i, of h] h(2) that by auto
    have "set (in_queue (node ?s i)) = set (in_queue (node s i)) - {h}"
      using q(1) [of i] linksD(2) [OF l d(1)] hq by auto
    moreover have "distinct (in_queue (node ?s i))" using q(1) [of i] linksD(2) [OF l i] linksD(2) [OF l d(1)] by simp
    moreover have "i \<in> set (in_queue (node ?s e))" if "out_node (node s i) = Some e" "i \<noteq> h" for e
      using q(1) [of e] linksD(4) [OF l i that(1)] that(2) by auto
    ultimately show ?thesis using linksD(3-5) [OF l i] q(2,3) by auto
  qed
  ultimately show "links ?s" using linksD(1) [OF l] unfolding links_def n by blast
qed

lemma node_unlink:
  "d \<noteq> h \<Longrightarrow> node (unlink h d s) i = (if i = h then (node s h)\<lparr>queued := False, out_node := None\<rparr>
     else if i = d then (node s d)\<lparr>in_queue := remove1 h (in_queue (node s d))\<rparr> else node s i)"
  "alive (unlink h d s) = alive s" "thr (unlink h d s) = thr s" "executing (unlink h d s) = executing s"
  by (simp_all add: unlink_def)

lemma unlink_kinv:
  assumes k: "kinv X s" and h: "alive s h" "out_node (node s h) = Some d"
  shows "kinv (insert h (insert d X)) (unlink h d s)"
proof -
  note u = unlink_links [OF kinvD(1) [OF k] h]
  have "node_ok (node (unlink h d s) i) (thr (unlink h d s) i) \<and> share_ok (unlink h d s) i"
    if i: "alive s i" "i \<notin> insert h (insert d X)" for i
    using kinvD(2,3) [OF k i(1)] i(2) u(2) by (simp add: share_ok_def unlink_def cong: option.case_cong)
  with u(1) show ?thesis by (simp add: kinv_def unlink_def)
qed

end
