(* ===== verification/Ipc_Node.thy ===== *)
theory Ipc_Node
  imports Kernel_Thread
begin

text \<open>
  Synchronous IPC of the kernel: \<^verbatim>\<open>base-hw/src/core/kernel/ipc_node.cc\<close> and the kernel calls of
  \<^verbatim>\<open>thread.cc\<close> that use it or that start, stop, pause and destroy threads. A caller is the thread
  that executes on the CPU that entered the kernel. The capability lookup of a call is resolved to its
  result, and \<open>mem\<close> tells whether the slab for received capabilities has memory.
\<close>

section \<open>IPC nodes\<close>

definition receive_from :: "tid \<Rightarrow> tid \<Rightarrow> 'a kernel_scheme \<Rightarrow> 'a kernel_scheme" where
  "receive_from i sender s = node_upd i (\<lambda>n. n\<lparr>in_state := In_REPLY\<rparr>) (ipc_copy_msg i sender s)"

definition enqueue_item :: "tid \<Rightarrow> tid \<Rightarrow> 'a kernel_scheme \<Rightarrow> 'a kernel_scheme option" where
  "enqueue_item i d s =
     (if queued (node s i) then None
      else Some (node_upd i (\<lambda>n. n\<lparr>queued := True\<rparr>) (node_upd d (\<lambda>n. n\<lparr>in_queue := in_queue n @ [i]\<rparr>) s)))"

definition remove_item :: "tid \<Rightarrow> tid \<Rightarrow> 'a kernel_scheme \<Rightarrow> 'a kernel_scheme" where
  "remove_item i d s =
     (if i \<in> set (in_queue (node s d))
      then node_upd i (\<lambda>n. n\<lparr>queued := False\<rparr>) (node_upd d (\<lambda>n. n\<lparr>in_queue := remove1 i (in_queue n)\<rparr>) s)
      else s)"

text \<open>A receiver that processes the message of \<open>i\<close> shall not reply to it.\<close>

definition withdraw :: "tid \<Rightarrow> tid \<Rightarrow> 'a kernel_scheme \<Rightarrow> 'a kernel_scheme" where
  "withdraw i d s =
     (if in_state (node s d) = In_REPLY \<and> take 1 (in_queue (node s d)) = [i]
      then node_upd d (\<lambda>n. n\<lparr>in_state := In_REPLY_NO_SENDER\<rparr>) s else s)"

definition cancel_send :: "tid \<Rightarrow> 'a kernel_scheme \<Rightarrow> 'a kernel_scheme option" where
  "cancel_send i s = do {
     s1 \<leftarrow> (case out_node (node s i) of
              None \<Rightarrow> Some s
            | Some d \<Rightarrow>
                if \<not> alive s d then None
                else Some (node_upd i (\<lambda>n. n\<lparr>out_node := None\<rparr>) (remove_item i d (withdraw i d s))));
     (if sending (node s1 i)
      then do {
        s2 \<leftarrow> ipc_send_request_failed i s1;
        Some (node_upd i (\<lambda>n. n\<lparr>out_state := Out_READY\<rparr>) s2)
      }
      else Some s1)
   }"

definition ready_to_send :: "ipc_node \<Rightarrow> bool" where
  "ready_to_send n \<longleftrightarrow> out_state n = Out_READY \<and> \<not> waiting n"

definition send :: "tid \<Rightarrow> tid \<Rightarrow> bool \<Rightarrow> 'a kernel_scheme \<Rightarrow> 'a kernel_scheme option" where
  "send i d hlp s = do {
     s1 \<leftarrow> enqueue_item i d s;
     s2 \<leftarrow> (if waiting (node s1 d) then ipc_await_request_succeeded d (receive_from d i s1) else Some s1);
     Some (node_upd i (\<lambda>n. n\<lparr>out_node := Some d, out_state := if hlp then Out_SEND_HELPING else Out_SEND\<rparr>) s2)
   }"

definition ready_to_wait :: "ipc_node \<Rightarrow> bool" where
  "ready_to_wait n \<longleftrightarrow> in_state n = In_READY"

definition wait :: "tid \<Rightarrow> 'a kernel_scheme \<Rightarrow> 'a kernel_scheme option" where
  "wait i s =
     (let s1 = node_upd i (\<lambda>n. n\<lparr>in_state := In_WAIT\<rparr>) s
      in case in_queue (node s1 i) of
           [] \<Rightarrow> Some s1
         | h # _ \<Rightarrow> if alive s1 h then Some (receive_from i h s1) else None)"

definition reply :: "tid \<Rightarrow> 'a kernel_scheme \<Rightarrow> 'a kernel_scheme option" where
  "reply i s = do {
     s1 \<leftarrow> (if in_state (node s i) = In_REPLY
            then case in_queue (node s i) of
                   [] \<Rightarrow> Some s
                 | h # _ \<Rightarrow>
                     if \<not> alive s h then None
                     else
                       let s1 = ipc_copy_msg h i (remove_item h i s);
                           s2 = node_upd h (\<lambda>n. n\<lparr>out_node := None, out_state := Out_READY\<rparr>) s1
                       in ipc_send_request_succeeded h s2
            else Some s);
     Some (node_upd i (\<lambda>n. n\<lparr>in_state := In_READY\<rparr>) s1)
   }"

definition cancel_waiting :: "tid \<Rightarrow> 'a kernel_scheme \<Rightarrow> 'a kernel_scheme option" where
  "cancel_waiting i s = do {
     s1 \<leftarrow> (if sending (node s i) then cancel_send i s else Some s);
     (if waiting (node s1 i)
      then ipc_await_request_failed i (node_upd i (\<lambda>n. n\<lparr>in_state := In_READY\<rparr>) s1)
      else Some s1)
   }"

primrec cancel_senders :: "tid list \<Rightarrow> 'a kernel_scheme \<Rightarrow> 'a kernel_scheme option" where
  "cancel_senders [] s = Some s"
| "cancel_senders (h # hs) s = (if \<not> alive s h then None else do { s1 \<leftarrow> cancel_send h s; cancel_senders hs s1 })"

definition destruct_node :: "tid \<Rightarrow> 'a kernel_scheme \<Rightarrow> 'a kernel_scheme option" where
  "destruct_node i s = do {
     s1 \<leftarrow> cancel_send i (node_upd i (\<lambda>n. n\<lparr>in_state := In_DESTRUCT, out_state := Out_DESTRUCT\<rparr>) s);
     cancel_senders (in_queue (node s1 i)) s1
   }"

section \<open>Kernel calls\<close>

definition call_send_request_msg :: "bool \<Rightarrow> tid \<Rightarrow> tid option \<Rightarrow> 'a kernel_scheme \<Rightarrow> 'a kernel_scheme option" where
  "call_send_request_msg mem c dst s =
     (case dst of
        None \<Rightarrow> become_inactive DEAD c s
      | Some d \<Rightarrow>
          if \<not> alive s d then None
          else
            let hlp = (t_cpu (thr s d) = t_cpu (thr s c))
            in if ready_to_send (node s c) \<and> \<not> mem then Some (user_arg_0 (- 2) c s)
               else do {
                 s1 \<leftarrow> (if ready_to_send (node s c) then send c d hlp s else Some s);
                 let s2 = set_state AWAITS_IPC c s1;
                 (if \<not> hlp \<or> \<not> t_ready (thr s2 d) then deactivate_used_shares c s2 else Some s2)
               })"

definition call_await_request_msg :: "bool \<Rightarrow> tid \<Rightarrow> 'a kernel_scheme \<Rightarrow> 'a kernel_scheme option" where
  "call_await_request_msg mem c s =
     (if ready_to_wait (node s c)
      then if \<not> mem then Some (user_arg_0 (- 2) c s)
           else do {
             s1 \<leftarrow> wait c s;
             (if waiting (node s1 c) then become_inactive AWAITS_IPC c s1 else Some (user_arg_0 0 c s1))
           }
      else become_inactive DEAD c s)"

definition call_send_reply_msg :: "bool \<Rightarrow> bool \<Rightarrow> tid \<Rightarrow> 'a kernel_scheme \<Rightarrow> 'a kernel_scheme option" where
  "call_send_reply_msg mem await_request_msg c s = do {
     s1 \<leftarrow> reply c s;
     (if await_request_msg then call_await_request_msg mem c s1 else Some (user_arg_0 0 c s1))
   }"

definition call_stop_thread :: "tid \<Rightarrow> 'a kernel_scheme \<Rightarrow> 'a kernel_scheme option" where
  "call_stop_thread c s = (if t_state (thr s c) = ACTIVE then become_inactive AWAITS_RESTART c s else None)"

definition restart :: "tid \<Rightarrow> 'a kernel_scheme \<Rightarrow> (bool \<times> 'a kernel_scheme) option" where
  "restart t s =
     (if \<not> (t_state (thr s t) = ACTIVE \<or> t_state (thr s t) = AWAITS_RESTART) then None
      else if t_state (thr s t) \<noteq> AWAITS_RESTART then Some (False, s)
      else do { s1 \<leftarrow> become_active t s; Some (True, s1) })"

text \<open>The argument \<open>allowed\<close> is false for a user thread that names a thread of another protection domain.\<close>

definition call_restart_thread :: "bool \<Rightarrow> tid \<Rightarrow> tid option \<Rightarrow> 'a kernel_scheme \<Rightarrow> 'a kernel_scheme option" where
  "call_restart_thread allowed c dst s =
     (case dst of
        None \<Rightarrow> Some s
      | Some t \<Rightarrow>
          if \<not> alive s t then None
          else if \<not> allowed then die c s
          else do { (r, s1) \<leftarrow> restart t s; Some (user_arg_0 (if r then 1 else 0) c s1) })"

definition call_pause_thread :: "tid \<Rightarrow> 'a kernel_scheme \<Rightarrow> 'a kernel_scheme option" where
  "call_pause_thread t s = do {
     s1 \<leftarrow> (if t_state (thr s t) = ACTIVE \<and> \<not> t_paused (thr s t) then deactivate_used_shares t s else Some s);
     Some (thr_upd t (\<lambda>x. x\<lparr>t_paused := True\<rparr>) s1)
   }"

definition call_resume_thread :: "tid \<Rightarrow> 'a kernel_scheme \<Rightarrow> 'a kernel_scheme option" where
  "call_resume_thread t s = do {
     s1 \<leftarrow> (if t_state (thr s t) = ACTIVE \<and> t_paused (thr s t) then activate_used_shares t s else Some s);
     Some (thr_upd t (\<lambda>x. x\<lparr>t_paused := False\<rparr>) s1)
   }"

definition call_start_thread :: "tid \<Rightarrow> tid \<Rightarrow> nat \<Rightarrow> 'a kernel_scheme \<Rightarrow> 'a kernel_scheme option" where
  "call_start_thread c t cpu s =
     (if t_state (thr s t) \<noteq> AWAITS_START \<or> t_ready (thr s t) then None
      else become_active t (ipc_copy_msg t c (thr_upd t (\<lambda>x. x\<lparr>t_cpu := Some cpu\<rparr>) (user_arg_0 0 c s))))"

text \<open>An MMU fault of a user thread; the signal to the pager is part of theory \<open>Signal_Receiver\<close>.\<close>

definition mmu_exception :: "tid \<Rightarrow> 'a kernel_scheme \<Rightarrow> 'a kernel_scheme option" where
  "mmu_exception c = become_inactive AWAITS_RESTART c"

definition new_thread :: "tid \<Rightarrow> 'a kernel_scheme \<Rightarrow> 'a kernel_scheme option" where
  "new_thread t s =
     (if alive s t then None
      else Some (s\<lparr>alive := (alive s)(t := True), node := (node s)(t := ipc_node_init), thr := (thr s)(t := kthread_init)\<rparr>))"

definition delete_thread :: "tid \<Rightarrow> 'a kernel_scheme \<Rightarrow> 'a kernel_scheme option" where
  "delete_thread t s =
     (if \<not> alive s t then None
      else do { s1 \<leftarrow> destruct_node t s; Some (s1\<lparr>alive := (alive s1)(t := False)\<rparr>) })"

section \<open>Cancelling a request\<close>

lemma remove_item_unlink:
  assumes "links s" "alive s i" "out_node (node s i) = Some d"
  shows "node_upd i (\<lambda>n. n\<lparr>out_node := None\<rparr>) (remove_item i d s) = unlink i d s"
proof -
  have "i \<in> set (in_queue (node s d))" "d \<noteq> i" using linksD(4) [OF assms] by auto
  then show ?thesis by (simp add: remove_item_def unlink_def node_upd_def)
qed

lemma withdraw_sel [simp]:
  "alive (withdraw i d s) = alive s" "thr (withdraw i d s) = thr s" "executing (withdraw i d s) = executing s"
  "in_queue (node (withdraw i d s) j) = in_queue (node s j)" "out_node (node (withdraw i d s) j) = out_node (node s j)"
  "out_state (node (withdraw i d s) j) = out_state (node s j)" "queued (node (withdraw i d s) j) = queued (node s j)"
  "j \<noteq> d \<Longrightarrow> node (withdraw i d s) j = node s j" "helps (withdraw i d s) = helps s"
  by (auto simp: withdraw_def helps_def helping_def fun_eq_iff)

lemma withdraw_kinv: "kinv X s \<Longrightarrow> d \<in> X \<Longrightarrow> kinv X (withdraw i d s)"
  by (auto simp: withdraw_def helping_def intro!: kinv_node_upd(1))

lemma share_ok_cong:
  "helps s' i = helps s i \<Longrightarrow> (\<And>j. t_ready (thr s' j) = t_ready (thr s j)) \<Longrightarrow> runnable (thr s' i) = runnable (thr s i) \<Longrightarrow>
    share_ok s' i = share_ok s i"
  by (simp add: share_ok_def cong: option.case_cong)

lemma withdraw_unlink_kinv:
  assumes k: "kinv X s" and i: "alive s i" "out_node (node s i) = Some d"
  shows "kinv (insert i X) (unlink i d (withdraw i d s))"
    "helps (unlink i d (withdraw i d s)) = (helps s)(i := None)"
proof -
  let ?w = "withdraw i d s" let ?s = "unlink i d ?w"
  have kw: "kinv (insert d X) ?w" using kinv_mono [OF k, of "insert d X"] by (intro withdraw_kinv) auto
  have iw: "alive ?w i" "out_node (node ?w i) = Some d" using i by simp_all
  show hp: "helps ?s = (helps s)(i := None)" using unlink_links(2) [OF kinvD(1) [OF kw] iw] by simp
  have d: "d \<noteq> i" "alive s d" "i \<in> set (in_queue (node s d))" using linksD(4) [OF kinvD(1) [OF k] i] by auto
  have "kinv (insert i (insert d (insert d X))) ?s" by (rule unlink_kinv [OF kw iw])
  then have ks: "kinv (insert d (insert i X)) ?s" by (simp add: insert_commute)
  show "kinv (insert i X) ?s"
  proof (cases "d \<in> insert i X")
    case True
    with ks show ?thesis by (simp add: insert_absorb)
  next
    case False
    then have ok: "node_ok (node s d) (thr s d)" "share_ok s d" using kinvD(2,3) [OF k d(2)] by auto
    have "share_ok ?s d" using ok(2) d(1) hp by (subst share_ok_cong [of _ _ s]) (simp_all add: node_unlink)
    moreover have "node_ok (node ?s d) (thr ?s d)"
    proof (cases "in_state (node s d) = In_REPLY \<and> take 1 (in_queue (node s d)) = [i]")
      case True
      with ok(1) d show ?thesis by (auto simp: node_unlink withdraw_def node_ok_def sending_def waiting_def)
    next
      case False
      have "remove1 i (in_queue (node s d)) \<noteq> []" if "in_state (node s d) = In_REPLY"
        using False that d(3) by (cases "in_queue (node s d)") (auto split: if_splits)
      with False ok(1) d show ?thesis by (auto simp: node_unlink withdraw_def node_ok_def sending_def waiting_def)
    qed
    ultimately show ?thesis using ks by (intro kinv_drop [OF ks]) simp
  qed
qed

lemma cancel_send_kinv:
  assumes k: "kinv X s" and i: "alive s i" "i \<notin> X" "sending (node s i)" and q: "\<forall>x \<in> X. helps s x = None"
  shows "\<exists>s' d. out_node (node s i) = Some d \<and> cancel_send i s = Some s' \<and> kinv X s' \<and> alive s' = alive s \<and> executing s' = executing s \<and>
    (\<forall>x \<in> X. helps s' x = None) \<and> (\<forall>j. j \<noteq> i \<and> j \<noteq> d \<longrightarrow> node s' j = node s j) \<and>
    node s' i = (node s i)\<lparr>queued := False, out_node := None, out_state := Out_READY\<rparr> \<and>
    node s' d = (node (withdraw i d s) d)\<lparr>in_queue := remove1 i (in_queue (node s d))\<rparr> \<and>
    t_state (thr s' i) = ACTIVE \<and> t_arg0 (thr s' i) = - 1 \<and>
    (\<forall>j. j \<noteq> i \<longrightarrow> t_state (thr s' j) = t_state (thr s j) \<and> t_utcb (thr s' j) = t_utcb (thr s j))"
proof -
  have ok: "node_ok (node s i) (thr s i)" using kinvD(2) [OF k i(1,2)] .
  then obtain d where d: "out_node (node s i) = Some d" using i(3) by (auto simp: node_ok_def)
  note l = kinvD(1) [OF k]
  have d2: "d \<noteq> i" "alive s d" using linksD(4) [OF l i(1) d] by auto
  let ?w = "withdraw i d s" let ?u = "unlink i d ?w"
  note ku = withdraw_unlink_kinv [OF k i(1) d]
  have lw: "links ?w" using withdraw_kinv [OF kinv_mono [OF k, of "insert d X"], of d i] kinvD(1) by blast
  have ru: "node_upd i (\<lambda>n. n\<lparr>out_node := None\<rparr>) (remove_item i d ?w) = ?u"
    by (rule remove_item_unlink [OF lw]) (use i d in simp_all)
  have nu: "node ?u i = (node s i)\<lparr>queued := False, out_node := None\<rparr>" "alive ?u = alive s" "thr ?u = thr s"
    "executing ?u = executing s" "node ?u d = (node ?w d)\<lparr>in_queue := remove1 i (in_queue (node s d))\<rparr>"
    "\<And>j. j \<noteq> i \<Longrightarrow> j \<noteq> d \<Longrightarrow> node ?u j = node s j"
    using d2(1) by (simp_all add: node_unlink)
  have st: "t_state (thr s i) = AWAITS_IPC" "\<not> t_paused (thr s i)" using ok i(3) by (auto simp: node_ok_def)
  have qu: "quiet X i ?u" using q ku(2) by (auto simp: quiet_def)
  obtain s2 where s2: "ipc_send_request_failed i ?u = Some s2" "kinv (insert i X) s2" "share_ok s2 i"
    "s2 = set_ready True (if t_ready (thr ?u i) then {} else helping_tree ?u i) (set_state ACTIVE i (user_arg_0 (- 1) i ?u))"
    using request_done_kinv [OF ku(1) qu, of "- 1"] i(1) st ku(2) nu
    unfolding ipc_send_request_failed_def by auto
  let ?s = "node_upd i (\<lambda>n. n\<lparr>out_state := Out_READY\<rparr>) s2"
  have n2: "node s2 = node ?u" "alive s2 = alive s" "executing s2 = executing s" "helps s2 = (helps s)(i := None)"
    using s2(4) nu ku(2) by (simp_all add: set_state_def user_arg_0_def)
  have c: "cancel_send i s = Some ?s"
    using d d2 s2(1) i(3) nu(1) by (simp add: cancel_send_def sending_def ru)
  have k2: "kinv (insert i X) ?s" by (rule kinv_node_upd(1) [OF s2(2)]) (simp_all add: helping_def)
  have h2: "helps ?s i = None" by (simp add: helps_def helping_def)
  have h3: "helps ?s j = helps s j" if "j \<noteq> i" for j
    using kinv_node_upd(2) [OF s2(2), of i "\<lambda>n. n\<lparr>out_state := Out_READY\<rparr>" j] that n2(4) by (simp add: helping_def)
  have "share_ok ?s i" using s2(3) h2 n2(4) by (subst share_ok_cong [of _ _ s2]) simp_all
  moreover have "node_ok (node ?s i) (thr ?s i)"
    using ok i(3) s2(4) nu by (auto simp: node_ok_def sending_def waiting_def set_state_def user_arg_0_def)
  ultimately have "kinv X ?s" by (intro kinv_drop [OF k2]) simp
  moreover have "\<forall>x \<in> X. helps ?s x = None" using q h3 i(2) by metis
  moreover have "t_state (thr ?s i) = ACTIVE" "t_arg0 (thr ?s i) = - 1"
    "\<forall>j. j \<noteq> i \<longrightarrow> t_state (thr ?s j) = t_state (thr s j) \<and> t_utcb (thr ?s j) = t_utcb (thr s j)"
    using s2(4) nu(3) by (simp_all add: set_state_def user_arg_0_def)
  ultimately show ?thesis using d c n2 nu d2(1) by (intro exI [of _ ?s] exI [of _ d]) simp
qed

section \<open>Calls keep the invariant\<close>

definition caller_ok :: "'a kernel_scheme \<Rightarrow> tid \<Rightarrow> bool" where
  "caller_ok s c \<longleftrightarrow> alive s c \<and> runnable (thr s c) \<and> t_cpu (thr s c) = Some (executing s)"

lemma caller_facts:
  assumes k: "kinv {} s" and c: "caller_ok s c"
  shows "helps s c = None" "t_ready (thr s c)" "out_node (node s c) = None" "out_state (node s c) = Out_READY"
    "\<not> sending (node s c)" "\<not> waiting (node s c)" "alive s c" "t_state (thr s c) = ACTIVE" "\<not> t_paused (thr s c)"
    "\<not> queued (node s c)"
proof -
  show a: "alive s c" "t_state (thr s c) = ACTIVE" "\<not> t_paused (thr s c)" using c by (auto simp: caller_ok_def runnable_def)
  have ok: "node_ok (node s c) (thr s c)" "share_ok s c" using kinvD(2,3) [OF k a(1)] by auto
  then show n: "out_node (node s c) = None" "out_state (node s c) = Out_READY" "\<not> sending (node s c)" "\<not> waiting (node s c)"
    using a(2) by (cases "out_state (node s c)"; auto simp: node_ok_def sending_def)+
  then show h: "helps s c = None" by (simp add: helps_def)
  with ok(2) c show "t_ready (thr s c)" by (simp add: share_ok_def caller_ok_def)
  show "\<not> queued (node s c)" using linksD(5) [OF kinvD(1) [OF k] a(1)] n(1) by simp
qed

lemma reply_kinv:
  assumes k: "kinv {} s" and c: "caller_ok s c"
  shows "\<exists>s'. reply c s = Some s' \<and> kinv {} s' \<and> caller_ok s' c \<and> in_state (node s' c) = In_READY \<and>
    t_utcb (thr s' c) = t_utcb (thr s c) \<and> executing s' = executing s \<and> alive s' = alive s \<and>
    (\<forall>j. t_paused (thr s' j) = t_paused (thr s j)) \<and>
    (if in_state (node s c) = In_REPLY
     then \<exists>h q. in_queue (node s c) = h # q \<and> h \<noteq> c \<and> in_queue (node s' c) = q \<and> out_node (node s' h) = None \<and>
       t_state (thr s' h) = ACTIVE \<and> t_arg0 (thr s' h) = 0 \<and> t_utcb (thr s' h) = t_utcb (thr s c) \<and>
       (\<forall>j. j \<noteq> h \<longrightarrow> t_state (thr s' j) = t_state (thr s j) \<and> t_utcb (thr s' j) = t_utcb (thr s j))
     else in_queue (node s' c) = in_queue (node s c) \<and> thr s' = thr s)"
proof (cases "in_state (node s c) = In_REPLY")
  case False
  note f = caller_facts [OF k c]
  let ?s = "node_upd c (\<lambda>n. n\<lparr>in_state := In_READY\<rparr>) s"
  have k1: "kinv {c} ?s" by (rule kinv_node_upd(1) [OF kinv_mono [OF k]]) (auto simp: helping_def)
  have ok: "node_ok (node s c) (thr s c)" "share_ok s c" using kinvD(2,3) [OF k f(7)] by auto
  have "helps ?s = helps s" by (auto simp: helps_def helping_def fun_eq_iff)
  then have "share_ok ?s c" using ok(2) by (subst share_ok_cong [of _ _ s]) simp_all
  with ok(1) f have "kinv {} ?s" by (intro kinv_drop [OF k1]) (auto simp: node_ok_def waiting_def sending_def)
  with False c show ?thesis by (intro exI [of _ ?s]) (simp add: reply_def caller_ok_def)
next
  case True
  note f = caller_facts [OF k c] and l = kinvD(1) [OF k]
  have okc: "node_ok (node s c) (thr s c)" using kinvD(2) [OF k f(7)] by auto
  then obtain h q where hq: "in_queue (node s c) = h # q" using True by (cases "in_queue (node s c)") (auto simp: node_ok_def)
  have h: "alive s h" "out_node (node s h) = Some c" using linksD(3) [OF l f(7), of h] hq by auto
  then have hc: "h \<noteq> c" using linksD(4) [OF l h] by auto
  have okh: "node_ok (node s h) (thr s h)" using kinvD(2) [OF k h(1)] by auto
  then have sh: "sending (node s h)" "t_state (thr s h) = AWAITS_IPC" "\<not> t_paused (thr s h)" "\<not> waiting (node s h)"
    using h(2) by (auto simp: node_ok_def)
  let ?u = "unlink h c s" let ?r = "node_upd h (\<lambda>n. n\<lparr>out_state := Out_READY\<rparr>) ?u" let ?m = "ipc_copy_msg h c ?r"
  note u = unlink_links [OF l h]
  have ku: "kinv {h, c} ?u" using unlink_kinv [OF k h] by simp
  have kr: "kinv {h, c} ?r" by (rule kinv_node_upd(1) [OF ku]) (simp_all add: helping_def)
  have km: "kinv (insert h {c}) ?m" unfolding ipc_copy_msg_def by (rule kinv_thr_upd [OF kr]) simp_all
  have hm: "helps ?m = (helps s)(h := None)"
  proof (rule ext)
    fix j
    have "helps ?m j = helps ?r j" by (simp add: ipc_copy_msg_def)
    also have "\<dots> = ((helps s)(h := None)) j"
      using kinv_node_upd(2) [OF ku, of h "\<lambda>n. n\<lparr>out_state := Out_READY\<rparr>" j] u(2)
      by (cases "j = h") (auto simp: helping_def helps_def)
    finally show "helps ?m j = ((helps s)(h := None)) j" .
  qed
  have nm: "node ?m h = (node s h)\<lparr>queued := False, out_node := None, out_state := Out_READY\<rparr>"
    "node ?m c = (node s c)\<lparr>in_queue := q\<rparr>" "alive ?m = alive s" "executing ?m = executing s"
    "thr ?m = (thr s)(h := (thr s h)\<lparr>t_utcb := t_utcb (thr s c)\<rparr>)"
    using hc hq by (simp_all add: ipc_copy_msg_def node_unlink)
  obtain s3 where s3: "ipc_send_request_succeeded h ?m = Some s3" "kinv (insert h {c}) s3" "share_ok s3 h"
    "s3 = set_ready True (if t_ready (thr ?m h) then {} else helping_tree ?m h) (set_state ACTIVE h (user_arg_0 0 h ?m))"
    using request_done_kinv [OF km, of 0] h(1) sh f(1) hm nm unfolding ipc_send_request_succeeded_def
    by (auto simp: quiet_def)
  have n3: "node s3 = node ?m" "alive s3 = alive s" "executing s3 = executing s" "helps s3 = helps ?m"
    using s3(4) nm by (simp_all add: set_state_def user_arg_0_def)
  have "node_ok (node s3 h) (thr s3 h)"
    using okh sh s3(4) nm by (auto simp: node_ok_def sending_def waiting_def set_state_def user_arg_0_def)
  then have k3: "kinv {c} s3" using s3(3) by (intro kinv_drop [OF s3(2)]) simp
  let ?s = "node_upd c (\<lambda>n. n\<lparr>in_state := In_READY\<rparr>) s3"
  have k4: "kinv {c} ?s" by (rule kinv_node_upd(1) [OF k3]) (simp_all add: helping_def)
  have tc: "t_state (thr s3 c) = ACTIVE" "\<not> t_paused (thr s3 c)" "t_ready (thr s3 c)" "t_cpu (thr s3 c) = t_cpu (thr s c)"
    using s3(4) nm f hc by (simp_all add: set_state_def user_arg_0_def)
  have "helps ?s c = None" using f by (simp add: helps_def helping_def n3 nm)
  with tc have "share_ok ?s c" by (simp add: share_ok_def runnable_def)
  moreover have "node_ok (node ?s c) (thr ?s c)"
    using okc f tc n3 nm by (auto simp: node_ok_def waiting_def sending_def)
  ultimately have k5: "kinv {} ?s" by (intro kinv_drop [OF k4]) simp
  have "node_upd h (\<lambda>n. n\<lparr>out_node := None, out_state := Out_READY\<rparr>) (ipc_copy_msg h c (remove_item h c s)) = ?m"
    using hq hc by (simp add: remove_item_def unlink_def ipc_copy_msg_def node_upd_def thr_upd_def)
  then have "reply c s = Some ?s" using True hq h(1) s3(1) by (simp add: reply_def Let_def)
  moreover have "caller_ok ?s c" using tc c n3 by (simp add: caller_ok_def runnable_def)
  moreover have "t_state (thr ?s h) = ACTIVE" "t_arg0 (thr ?s h) = 0" "t_utcb (thr ?s h) = t_utcb (thr s c)"
    "\<forall>j. j \<noteq> h \<longrightarrow> t_state (thr ?s j) = t_state (thr s j) \<and> t_utcb (thr ?s j) = t_utcb (thr s j)"
    "\<forall>j. t_paused (thr ?s j) = t_paused (thr s j)"
    using s3(4) nm(5) hc by (simp_all add: set_state_def user_arg_0_def)
  moreover have "in_queue (node ?s c) = q" "out_node (node ?s h) = None" "in_state (node ?s c) = In_READY"
    using n3(1) nm(1,2) hc by simp_all
  ultimately show ?thesis using True hq hc k5 n3(2,3) by (intro exI [of _ ?s]) auto
qed

lemma block_kinv:
  assumes k: "kinv {} s" and c: "caller_ok s c" and st: "st \<noteq> ACTIVE" "st \<noteq> AWAITS_IPC" "st \<noteq> AWAITS_START"
  shows "\<exists>s'. become_inactive st c s = Some s' \<and> kinv {} s'"
proof -
  note f = caller_facts [OF k c]
  have "node_ok (node s c) (thr s c)" using kinvD(2) [OF k f(7)] by simp
  then have "node_ok (node s c) ((thr s c)\<lparr>t_state := st\<rparr>)"
    using f st c by (auto simp: node_ok_def caller_ok_def)
  from become_inactive_kinv [where X = "{}", OF kinv_mono [OF k] _ f(7) _ f(1,2) _ _ st(1) this] c f show ?thesis
    by (auto simp: caller_ok_def)
qed

lemma user_arg_0_kinv [simp]: "kinv X s \<Longrightarrow> kinv X (user_arg_0 v i s)"
  unfolding user_arg_0_def by (rule kinv_thr_upd) simp_all

lemma await_kinv:
  assumes k: "kinv {} s" and c: "caller_ok s c"
  shows "\<exists>s'. call_await_request_msg mem c s = Some s' \<and> kinv {} s' \<and>
    (mem \<and> in_state (node s c) = In_READY \<longrightarrow> in_queue (node s' c) = in_queue (node s c) \<and>
      (case in_queue (node s c) of
         [] \<Rightarrow> in_state (node s' c) = In_WAIT \<and> t_state (thr s' c) = AWAITS_IPC
       | h # _ \<Rightarrow> in_state (node s' c) = In_REPLY \<and> caller_ok s' c \<and> t_arg0 (thr s' c) = 0 \<and>
           t_utcb (thr s' c) = t_utcb (thr s h) \<and> executing s' = executing s \<and> (\<forall>j. j \<noteq> c \<longrightarrow> node s' j = node s j \<and> thr s' j = thr s j)))"
proof (cases "in_state (node s c) = In_READY \<and> mem")
  case False
  show ?thesis
  proof (cases "in_state (node s c) = In_READY")
    case True
    with False k show ?thesis by (simp add: call_await_request_msg_def ready_to_wait_def)
  next
    case False
    with block_kinv [OF k c, of DEAD] show ?thesis by (simp add: call_await_request_msg_def ready_to_wait_def)
  qed
next
  case True
  note f = caller_facts [OF k c] and l = kinvD(1) [OF k]
  have ok: "node_ok (node s c) (thr s c)" using kinvD(2) [OF k f(7)] by simp
  let ?w = "node_upd c (\<lambda>n. n\<lparr>in_state := In_WAIT\<rparr>) s"
  have kw: "kinv {c} ?w" by (rule kinv_node_upd(1) [OF kinv_mono [OF k]]) (auto simp: helping_def)
  have hw: "helps ?w c = None" using f by (simp add: helps_def helping_def)
  show ?thesis
  proof (cases "in_queue (node s c)")
    case Nil
    have "node_ok (node ?w c) ((thr ?w c)\<lparr>t_state := AWAITS_IPC\<rparr>)"
      using ok f Nil c by (auto simp: node_ok_def waiting_def sending_def caller_ok_def)
    from become_inactive_kinv [OF kw _ _ _ hw _ _ _ _ this] c f
    obtain s' where s': "become_inactive AWAITS_IPC c ?w = Some s'" "kinv {} s'"
      "s' = set_state AWAITS_IPC c (set_ready False (helping_tree ?w c) ?w)"
      by (auto simp: caller_ok_def)
    then show ?thesis using True Nil
      by (auto simp: call_await_request_msg_def ready_to_wait_def wait_def waiting_def Let_def set_state_def)
  next
    case (Cons h q)
    then have h: "alive s h" "h \<noteq> c" using linksD(3) [OF l f(7), of h] linksD(4) [OF l, of h c] by auto
    let ?r = "receive_from c h ?w" let ?s = "user_arg_0 0 c ?r"
    have w: "wait c s = Some ?r" using Cons h by (simp add: wait_def Let_def)
    have "kinv {c} (ipc_copy_msg c h ?w)" unfolding ipc_copy_msg_def by (rule kinv_thr_upd [OF kw]) simp_all
    then have kr: "kinv {c} ?r" unfolding receive_from_def by (rule kinv_node_upd(1)) (auto simp: helping_def)
    have n: "node ?s c = (node s c)\<lparr>in_state := In_REPLY\<rparr>" "thr ?s c = (thr s c)\<lparr>t_utcb := t_utcb (thr s h), t_arg0 := 0\<rparr>"
      "alive ?s = alive s" "executing ?s = executing s" "\<forall>j. j \<noteq> c \<longrightarrow> node ?s j = node s j \<and> thr ?s j = thr s j"
      by (simp_all add: receive_from_def ipc_copy_msg_def user_arg_0_def)
    have "helps ?s c = None" using f by (simp add: helps_def helping_def n)
    with n f have "share_ok ?s c" by (simp add: share_ok_def runnable_def)
    moreover have "node_ok (node ?s c) (thr ?s c)" using ok f n Cons by (auto simp: node_ok_def waiting_def sending_def)
    ultimately have "kinv {} ?s" using user_arg_0_kinv [OF kr] by (intro kinv_drop [of c "{}"]) simp_all
    moreover have "call_await_request_msg mem c s = Some ?s"
      using True w n(1) by (simp add: call_await_request_msg_def ready_to_wait_def waiting_def receive_from_def)
    ultimately show ?thesis using Cons n c True
      by (intro exI [of _ ?s]) (simp add: caller_ok_def runnable_def)
  qed
qed

lemma await_others:
  assumes k: "kinv {} s" and c: "caller_ok s c" and r: "call_await_request_msg True c s = Some s'"
  shows "\<forall>j. j \<noteq> c \<longrightarrow> t_state (thr s' j) = t_state (thr s j) \<and> t_utcb (thr s' j) = t_utcb (thr s j)"
proof -
  note f = caller_facts [OF k c]
  have d: "deactivate_used_shares c s0 = Some s1 \<Longrightarrow> s1 = set_ready False (helping_tree s0 c) s0"
    if "kinv {c} s0" "alive s0 c" "t_ready (thr s0 c)" "t_cpu (thr s0 c) = Some (executing s0)" for s0 s1 :: "'a kernel_scheme"
    using deactivate_tree [OF that(1) _ that(2-4)] by simp
  have kw: "kinv {c} (node_upd c (\<lambda>n. n\<lparr>in_state := In_WAIT\<rparr>) s)" "kinv {c} s"
    by (rule kinv_node_upd(1) [OF kinv_mono [OF k]]; auto simp: helping_def) (rule kinv_mono [OF k], simp)
  show ?thesis
    using r d [OF kw(1)] d [OF kw(2)] f c
    by (auto simp: call_await_request_msg_def wait_def Let_def become_inactive_def set_state_def user_arg_0_def
        receive_from_def ipc_copy_msg_def caller_ok_def waiting_def Option.bind_eq_Some_conv split: if_splits list.splits)
qed

text \<open>
  Sending a request: the links as \<open>link\<close> makes them, and a receiver that waited is active with the
  message.
\<close>

definition wake_receiver :: "tid \<Rightarrow> tid \<Rightarrow> 'a kernel_scheme \<Rightarrow> 'a kernel_scheme" where
  "wake_receiver d c s =
     (if waiting (node s d)
      then node_upd d (\<lambda>n. n\<lparr>in_state := In_REPLY\<rparr>) (thr_upd d
        (\<lambda>t. let t1 = t\<lparr>t_utcb := t_utcb (thr s c), t_arg0 := 0\<rparr>
             in (if t_paused t then t1 else t1\<lparr>t_ready := True\<rparr>)\<lparr>t_state := ACTIVE\<rparr>) s)
      else s)"

lemma thr_commute:
  "t\<lparr>t_ready := v, t_utcb := u, t_arg0 := a, t_state := x\<rparr> = t\<lparr>t_utcb := u, t_arg0 := a, t_ready := v, t_state := x\<rparr>"
  by simp

lemma node_commute: "n\<lparr>in_queue := q, in_state := st\<rparr> = n\<lparr>in_state := st, in_queue := q\<rparr>"
  by simp

lemma send_eq:
  assumes k: "kinv {} s" and c: "caller_ok s c" and d: "alive s d" "d \<noteq> c"
  shows "send c d hlp s = Some (link c d (if hlp then Out_SEND_HELPING else Out_SEND) (wake_receiver d c s))"
proof -
  note f = caller_facts [OF k c]
  have ok: "node_ok (node s d) (thr s d)" "share_ok s d" using kinvD(2,3) [OF k d(1)] by auto
  let ?e = "node_upd c (\<lambda>n. n\<lparr>queued := True\<rparr>) (node_upd d (\<lambda>n. n\<lparr>in_queue := in_queue n @ [c]\<rparr>) s)"
  have e: "enqueue_item c d s = Some ?e" using f by (simp add: enqueue_item_def)
  show ?thesis
  proof (cases "waiting (node s d)")
    case False
    then show ?thesis using d(2) e by (simp add: send_def wake_receiver_def link_def waiting_def node_upd_def)
  next
    case True
    have q: "in_queue (node s d) = []" "\<not> sending (node s d)" "t_state (thr s d) = AWAITS_IPC" "helps s d = None"
      using ok(1) True by (auto simp: node_ok_def helps_def)
    then have nr: "\<not> t_ready (thr s d)" using ok(2) by (simp add: share_ok_def runnable_def)
    let ?r = "user_arg_0 0 d (receive_from d c ?e)"
    have he: "helpers ?r d = []" using q(1) d(2) f
      by (simp add: helpers_def receive_from_def ipc_copy_msg_def user_arg_0_def helping_def)
    have "activate_used_shares d ?r = Some (thr_upd d (\<lambda>t. t\<lparr>t_ready := True\<rparr>) ?r)"
    proof -
      have "activate_own_share d ?r = Some (thr_upd d (\<lambda>t. t\<lparr>t_ready := True\<rparr>) ?r)"
        using nr d by (simp add: activate_own_share_def receive_from_def ipc_copy_msg_def user_arg_0_def)
      moreover have "used_shares activate_own_share [] x = Some x" for x :: "'a kernel_scheme"
        by (subst used_shares.simps) simp
      ultimately show ?thesis unfolding activate_used_shares_def using he
        by (subst used_shares.simps) (simp add: own_share_eq)
    qed
    then have "become_active d ?r = Some (set_state ACTIVE d
        (if t_paused (thr s d) then ?r else thr_upd d (\<lambda>t. t\<lparr>t_ready := True\<rparr>) ?r))"
      using q(3) by (simp add: become_active_def receive_from_def ipc_copy_msg_def user_arg_0_def)
    then show ?thesis using True d(2) e q(3) nr
      by (auto simp: send_def wake_receiver_def link_def waiting_def ipc_await_request_succeeded_def
          receive_from_def ipc_copy_msg_def user_arg_0_def set_state_def node_upd_def thr_upd_def node_commute)
  qed
qed

lemma wake_receiver_kinv:
  assumes k: "kinv {} s" and d: "alive s d"
  shows "kinv {d} (wake_receiver d c s)" "helps (wake_receiver d c s) = helps s" "alive (wake_receiver d c s) = alive s"
    "executing (wake_receiver d c s) = executing s" "j \<noteq> d \<Longrightarrow> node (wake_receiver d c s) j = node s j"
    "j \<noteq> d \<Longrightarrow> thr (wake_receiver d c s) j = thr s j" "out_node (node (wake_receiver d c s) j) = out_node (node s j)"
    "t_cpu (thr (wake_receiver d c s) j) = t_cpu (thr s j)"
proof -
  show hp: "helps (wake_receiver d c s) = helps s" "alive (wake_receiver d c s) = alive s" "executing (wake_receiver d c s) = executing s"
    "j \<noteq> d \<Longrightarrow> node (wake_receiver d c s) j = node s j" "j \<noteq> d \<Longrightarrow> thr (wake_receiver d c s) j = thr s j"
    "out_node (node (wake_receiver d c s) j) = out_node (node s j)" "t_cpu (thr (wake_receiver d c s) j) = t_cpu (thr s j)"
    by (auto simp: wake_receiver_def Let_def helps_def helping_def fun_eq_iff)
  show "kinv {d} (wake_receiver d c s)"
  proof (cases "waiting (node s d)")
    case False
    then show ?thesis using kinv_mono [OF k, of "{d}"] by (simp add: wake_receiver_def)
  next
    case True
    have "in_queue (node s d) = []" using kinvD(2) [OF k d] True by (auto simp: node_ok_def)
    then have "helpers s d = []" by (simp add: helpers_def)
    then have t: "helping_tree s d = {d}" using tree_unfold [of s d] set_helpers [OF kinvD(1) [OF k] d] by simp
    let ?r = "if t_paused (thr s d) then s else set_ready True {d} s"
    have "kinv {d} ?r" using kinv_set_ready [of d "{}" s True] kinv_mono [OF k, of "{d}"] t by simp
    then have "kinv {d} (thr_upd d (\<lambda>t. t\<lparr>t_utcb := t_utcb (thr s c), t_arg0 := 0, t_state := ACTIVE\<rparr>) ?r)" (is "kinv _ ?t")
      by (rule kinv_thr_upd) simp_all
    then have "kinv {d} (node_upd d (\<lambda>n. n\<lparr>in_state := In_REPLY\<rparr>) ?t)"
      by (rule kinv_node_upd(1)) (auto simp: helping_def)
    moreover have "node_upd d (\<lambda>n. n\<lparr>in_state := In_REPLY\<rparr>) ?t = wake_receiver d c s"
      using True by (auto simp: wake_receiver_def own_share_eq [symmetric] Let_def thr_upd_def node_upd_def thr_commute)
    ultimately show ?thesis by simp
  qed
qed

lemma link_kinv:
  assumes k: "kinv {} s" and c: "caller_ok s c" and d: "alive s d" "d \<noteq> c" and out: "out = Out_SEND \<or> out = Out_SEND_HELPING"
    and hl: "out = Out_SEND_HELPING \<Longrightarrow> t_cpu (thr s c) = t_cpu (thr s d) \<and> d \<notin> helping_tree s c"
  shows "kinv {c} (link c d out (wake_receiver d c s))"
    "helps (link c d out (wake_receiver d c s)) = (helps s)(c := if out = Out_SEND_HELPING then Some d else None)"
proof -
  note f = caller_facts [OF k c] and w = wake_receiver_kinv [OF k d(1), of c]
  let ?w = "wake_receiver d c s" let ?s = "link c d out ?w"
  have cn: "c \<noteq> d" using d(2) by simp
  have tr: "helping_tree ?w = helping_tree s" by (simp add: helping_tree_def help_rel_def w(2) fun_eq_iff)
  have l: "links ?s"
    using f d hl c by (intro link_links [OF kinvD(1) [OF w(1)]]) (auto simp: w tr caller_ok_def)
  show h: "helps ?s = (helps s)(c := if out = Out_SEND_HELPING then Some d else None)"
    using helps_link [OF d(2), of ?w out] f(7) w(2,3) by simp
  have okd: "node_ok (node s d) (thr s d)" "share_ok s d" using kinvD(2,3) [OF k d(1)] by auto
  have "node_ok (node ?s i) (thr ?s i) \<and> share_ok ?s i" if i: "alive s i" "i \<noteq> c" for i
  proof (cases "i = d")
    case False
    then have "node_ok (node ?w i) (thr ?w i)" "share_ok ?w i" using kinvD(2,3) [OF w(1), of i] i w(3) by auto
    with False i h show ?thesis
      by (simp add: node_link(1) [OF d(2)] node_link(2-4) share_ok_def w(2) cong: option.case_cong)
  next
    case True
    show ?thesis
    proof (cases "waiting (node s d)")
      case False
      then have "?w = s" by (simp add: wake_receiver_def)
      with True i okd False h show ?thesis
        by (auto simp: node_link(1) [OF d(2)] node_link(2-4) share_ok_def node_ok_def waiting_def sending_def cong: option.case_cong)
    next
      case w: True
      then have q: "\<not> sending (node s d)" "helps s d = None" using okd(1) by (auto simp: node_ok_def helps_def)
      then have nr: "\<not> t_ready (thr s d)" using okd w by (simp add: share_ok_def runnable_def node_ok_def)
      have n: "node ?s d = (node s d)\<lparr>in_state := In_REPLY, in_queue := in_queue (node s d) @ [c]\<rparr>"
        using w d(2) by (simp add: node_link wake_receiver_def)
      have "node_ok (node ?s d) (thr ?s d)"
        unfolding n using okd(1) w q by (auto simp: node_link wake_receiver_def Let_def node_ok_def waiting_def sending_def)
      moreover have "share_ok ?s d" using h q(2) d(2) w nr
        by (simp add: share_ok_def node_link wake_receiver_def Let_def runnable_def)
      ultimately show ?thesis using True by simp
    qed
  qed
  with l show "kinv {c} ?s" by (simp add: kinv_def node_link w(3))
qed

text \<open>Helping chains that a request may not close: that of the receiver may not end at the caller.\<close>

definition send_ok :: "'a kernel_scheme \<Rightarrow> tid \<Rightarrow> tid \<Rightarrow> bool" where
  "send_ok s c d \<longleftrightarrow> alive s d \<and> (t_cpu (thr s d) = t_cpu (thr s c) \<longrightarrow> helping_destination s d \<noteq> Some c)"

lemma tree_destination:
  assumes "alive s c" "helps s c = None" "d \<in> helping_tree s c"
  shows "helping_destination s d = Some c"
proof -
  have "(d, c) \<in> (help_rel s)\<^sup>*" using assms(3) by (simp add: helping_tree_def)
  then show ?thesis
  proof (induction rule: converse_rtrancl_induct)
    case base
    have "\<not> helping (node s c)" using assms(1,2) by (auto simp: helps_def helping_def split: if_splits)
    then show ?case by (subst helping_destination.simps) simp
  next
    case (step y z)
    then have "helping (node s y)" "out_node (node s y) = Some z" by (auto simp: help_rel_def helps_Some)
    with step.IH show ?case by (subst helping_destination.simps) simp
  qed
qed

lemma call_send_kinv:
  assumes k: "kinv {} s" and c: "caller_ok s c" and d: "send_ok s c d"
  shows "\<exists>s'. call_send_request_msg True c (Some d) s = Some s' \<and> kinv {} s' \<and> executing s' = executing s \<and>
    alive s' = alive s \<and> (\<forall>j. t_paused (thr s' j) = t_paused (thr s j) \<and> t_cpu (thr s' j) = t_cpu (thr s j)) \<and>
    out_node (node s' c) = Some d \<and> t_state (thr s' c) = AWAITS_IPC \<and> t_utcb (thr s' c) = t_utcb (thr s c) \<and>
    in_queue (node s' d) = in_queue (node s d) @ [c] \<and>
    (if waiting (node s d) then in_state (node s' d) = In_REPLY \<and> t_state (thr s' d) = ACTIVE \<and> t_arg0 (thr s' d) = 0 \<and>
       t_utcb (thr s' d) = t_utcb (thr s c)
     else in_state (node s' d) = in_state (node s d) \<and> t_state (thr s' d) = t_state (thr s d) \<and> t_utcb (thr s' d) = t_utcb (thr s d))"
proof -
  note f = caller_facts [OF k c]
  have ntree: "d \<notin> helping_tree s c" if "t_cpu (thr s d) = t_cpu (thr s c)"
    using that d tree_destination [OF f(7,1), of d] by (auto simp: send_ok_def)
  then have d': "alive s d" "d \<noteq> c" using d by (auto simp: send_ok_def)
  define hlp where "hlp = (t_cpu (thr s d) = t_cpu (thr s c))"
  define out where "out = (if hlp then Out_SEND_HELPING else Out_SEND)"
  let ?l = "link c d out (wake_receiver d c s)" let ?a = "set_state AWAITS_IPC c ?l"
  note w = wake_receiver_kinv [OF k d'(1), of c]
  have kl: "kinv {c} ?l" "helps ?l = (helps s)(c := if hlp then Some d else None)"
  proof -
    have oc: "out = Out_SEND \<or> out = Out_SEND_HELPING" "out = Out_SEND_HELPING \<longleftrightarrow> hlp" by (simp_all add: out_def)
    have "t_cpu (thr s c) = t_cpu (thr s d) \<and> d \<notin> helping_tree s c" if "out = Out_SEND_HELPING"
      using that ntree unfolding oc(2) by (simp add: hlp_def)
    from link_kinv [OF k c d' oc(1) this] show "kinv {c} ?l" "helps ?l = (helps s)(c := if hlp then Some d else None)"
      unfolding oc(2) by simp_all
  qed
  have ka: "kinv {c} ?a" unfolding set_state_def by (rule kinv_thr_upd [OF kl(1)]) simp_all
  have n: "node ?a c = (node s c)\<lparr>queued := True, out_node := Some d, out_state := out\<rparr>"
    "thr ?a c = (thr s c)\<lparr>t_state := AWAITS_IPC\<rparr>" "alive ?a = alive s" "executing ?a = executing s"
    using d'(2) by (simp_all add: set_state_def node_link w)
  have ha: "helps ?a = (helps s)(c := if hlp then Some d else None)" using kl(2) by (simp add: set_state_def)
  have okc: "node_ok (node ?a c) (thr ?a c)"
    using kinvD(2) [OF k f(7)] f n c by (auto simp: node_ok_def sending_def waiting_def caller_ok_def out_def)
  let ?t = "helping_tree ?a c" let ?s = "if \<not> hlp \<or> \<not> t_ready (thr ?a d) then set_ready False ?t ?a else ?a"
  have dt: "d \<notin> ?t" if "hlp" using that ha no_cycle [OF kinvD(1) [OF ka], of c d] by simp
  have "deactivate_used_shares c ?a = Some (set_ready False ?t ?a)"
    using f c by (intro deactivate_tree [OF ka]) (simp_all add: n caller_ok_def)
  then have call: "call_send_request_msg True c (Some d) s = Some ?s"
    using d'(1) send_eq [OF k c d', of hlp] f
    by (simp add: call_send_request_msg_def ready_to_send_def Let_def hlp_def [symmetric] out_def [symmetric])
  have ks: "kinv {c} ?s" using ka kinv_set_ready [of c "{}" ?a False] by simp
  have "node_ok (node ?s c) (thr ?s c)" using okc by (simp add: node_ok_def)
  moreover have "share_ok ?s c"
    using ha f n dt by (auto simp: share_ok_def runnable_def)
  ultimately have "kinv {} ?s" by (intro kinv_drop [OF ks]) simp
  moreover have "in_queue (node ?s d) = in_queue (node s d) @ [c]"
    using d'(2) by (simp add: set_state_def node_link wake_receiver_def)
  moreover have "if waiting (node s d) then in_state (node ?s d) = In_REPLY \<and> t_state (thr ?s d) = ACTIVE \<and> t_arg0 (thr ?s d) = 0 \<and>
       t_utcb (thr ?s d) = t_utcb (thr s c)
     else in_state (node ?s d) = in_state (node s d) \<and> t_state (thr ?s d) = t_state (thr s d) \<and> t_utcb (thr ?s d) = t_utcb (thr s d)"
    using d'(2) by (simp add: set_state_def node_link wake_receiver_def Let_def)
  moreover have "out_node (node ?s c) = Some d" "t_state (thr ?s c) = AWAITS_IPC" "t_utcb (thr ?s c) = t_utcb (thr s c)"
    "executing ?s = executing s" "alive ?s = alive s" using n by simp_all
  moreover have "\<forall>j. t_paused (thr ?s j) = t_paused (thr s j) \<and> t_cpu (thr ?s j) = t_cpu (thr s j)"
    by (simp add: set_state_def node_link wake_receiver_def Let_def)
  ultimately show ?thesis using call by blast
qed

lemma not_sending_root: "kinv X s \<Longrightarrow> alive s t \<Longrightarrow> t \<notin> X \<Longrightarrow> \<not> sending (node s t) \<Longrightarrow> helps s t = None"
  using kinvD(2) [of X s t] by (auto simp: node_ok_def helps_def)

lemma pause_kinv:
  assumes k: "kinv {} s" and t: "alive s t" "\<not> sending (node s t)" "runnable (thr s t) \<Longrightarrow> t_cpu (thr s t) = Some (executing s)"
  shows "\<exists>s'. call_pause_thread t s = Some s' \<and> kinv {} s'"
proof -
  have ok: "node_ok (node s t) (thr s t)" "share_ok s t" using kinvD(2,3) [OF k t(1)] by auto
  have h: "helps s t = None" by (rule not_sending_root [OF k t(1) _ t(2)]) simp
  have rd: "t_ready (thr s t) = runnable (thr s t)" using ok(2) h by (simp add: share_ok_def)
  let ?r = "if runnable (thr s t) then set_ready False (helping_tree s t) s else s"
  let ?s = "thr_upd t (\<lambda>x. x\<lparr>t_paused := True\<rparr>) ?r"
  have kt: "kinv {t} s" by (rule kinv_mono [OF k]) simp
  have "call_pause_thread t s = Some ?s"
    using deactivate_tree [OF kt _ t(1)] rd t(3) by (auto simp: call_pause_thread_def runnable_def)
  moreover have "kinv {t} ?r" using kt kinv_set_ready [of t "{}" s False] by simp
  then have kp: "kinv {t} ?s" by (rule kinv_thr_upd) simp_all
  have "share_ok ?s t" using h rd by (simp add: share_ok_def runnable_def)
  moreover have "node_ok (node ?s t) (thr ?s t)" using ok(1) t(2) by (simp add: node_ok_def)
  ultimately show ?thesis using kinv_drop [OF kp] by blast
qed

lemma resume_kinv:
  assumes k: "kinv {} s" and t: "alive s t"
  shows "\<exists>s'. call_resume_thread t s = Some s' \<and> kinv {} s'"
proof -
  have ok: "node_ok (node s t) (thr s t)" "share_ok s t" using kinvD(2,3) [OF k t(1)] by auto
  have kt: "kinv {t} s" by (rule kinv_mono [OF k]) simp
  let ?f = "\<lambda>x. x\<lparr>t_paused := False\<rparr>"
  show ?thesis
  proof (cases "t_state (thr s t) = ACTIVE \<and> t_paused (thr s t)")
    case True
    have h: "helps s t = None" using True ok(1) by (intro not_sending_root [OF k t]) (auto simp: node_ok_def)
    then have "\<not> t_ready (thr s t)" using True ok(2) by (simp add: share_ok_def runnable_def)
    then have "call_resume_thread t s = Some (thr_upd t ?f (set_ready True (helping_tree s t) s))" (is "_ = Some ?s")
      using activate_tree [OF kt _ t] True by (simp add: call_resume_thread_def)
    moreover have ks: "kinv {t} ?s" by (rule kinv_thr_upd [OF kinv_set_ready [OF kt]]) simp_all
    have "share_ok ?s t" "node_ok (node ?s t) (thr ?s t)"
      using True h ok(1) by (simp_all add: share_ok_def runnable_def node_ok_def)
    with kinv_drop [OF ks] have "kinv {} ?s" by blast
    ultimately show ?thesis by blast
  next
    case False
    then have "call_resume_thread t s = Some (thr_upd t ?f s)" (is "_ = Some ?s") by (auto simp: call_resume_thread_def)
    moreover have ks: "kinv {t} ?s" by (rule kinv_thr_upd [OF kt]) simp_all
    have "runnable (thr ?s t) = runnable (thr s t)" using False by (auto simp: runnable_def)
    with ok(2) have "share_ok ?s t" by (subst share_ok_cong [of _ _ s]) simp_all
    moreover have "node_ok (node ?s t) (thr ?s t)" using ok(1) by (simp add: node_ok_def)
    ultimately show ?thesis using kinv_drop [OF ks] by blast
  qed
qed

lemma restart_kinv:
  assumes k: "kinv {} s" and t: "alive s t" "t_state (thr s t) = ACTIVE \<or> t_state (thr s t) = AWAITS_RESTART"
  shows "\<exists>r s'. restart t s = Some (r, s') \<and> kinv {} s' \<and> t_state (thr s' t) = ACTIVE \<and>
    (r \<longleftrightarrow> t_state (thr s t) = AWAITS_RESTART)"
proof (cases "t_state (thr s t) = AWAITS_RESTART")
  case False
  with t k show ?thesis by (intro exI [of _ False] exI [of _ s]) (simp add: restart_def)
next
  case True
  have ok: "node_ok (node s t) (thr s t)" "share_ok s t" using kinvD(2,3) [OF k t(1)] by auto
  have h: "helps s t = None" using True ok(1) by (intro not_sending_root [OF k t(1)]) (auto simp: node_ok_def)
  have "\<not> t_ready (thr s t)" using ok(2) h True by (simp add: share_ok_def runnable_def)
  moreover have "node_ok (node s t) ((thr s t)\<lparr>t_state := ACTIVE\<rparr>)" using ok(1) True by (auto simp: node_ok_def)
  ultimately obtain s' where s': "become_active t s = Some s'" "kinv {} s'"
    "s' = set_state ACTIVE t (if t_paused (thr s t) then s else set_ready True (helping_tree s t) s)"
    using become_active_kinv [where X = "{}", OF kinv_mono [OF k] _ t(1) _ h] True by auto
  moreover have "t_state (thr s' t) = ACTIVE" using s'(3) by (simp add: set_state_def)
  ultimately show ?thesis using True by (intro exI [of _ True] exI [of _ s']) (simp add: restart_def)
qed

lemma start_kinv:
  assumes k: "kinv {} s" and c: "caller_ok s c" and t: "alive s t" "t_state (thr s t) = AWAITS_START"
  shows "\<exists>s'. call_start_thread c t cpu s = Some s' \<and> kinv {} s'"
proof -
  have ok: "node_ok (node s t) (thr s t)" "share_ok s t" using kinvD(2,3) [OF k t(1)] by auto
  have h: "helps s t = None" using t(2) ok(1) by (intro not_sending_root [OF k t(1)]) (auto simp: node_ok_def)
  have cpu: "t_cpu (thr s t) = None" using ok(1) t(2) by (simp add: node_ok_def)
  have nr: "\<not> t_ready (thr s t)" using ok(2) h t(2) by (simp add: share_ok_def runnable_def)
  have nh: "helps s i \<noteq> Some t" for i using linksD(6) [OF kinvD(1) [OF k], of i t] cpu by auto
  let ?a = "user_arg_0 0 c s" let ?p = "thr_upd t (\<lambda>x. x\<lparr>t_cpu := Some cpu\<rparr>) ?a" let ?m = "ipc_copy_msg t c ?p"
  have kt: "kinv {t} ?a" by (rule user_arg_0_kinv [OF kinv_mono [OF k]]) simp
  have hh: "helps ?p = helps s" "help_rel ?p = help_rel s" by (simp_all add: user_arg_0_def)
  have tc: "c \<noteq> t" using c t(2) by (auto simp: caller_ok_def runnable_def)
  have al: "alive ?p = alive s" "node ?p = node s" by (simp_all add: user_arg_0_def)
  have tp: "t_ready (thr ?p i) = t_ready (thr s i)" "t_state (thr ?p i) = t_state (thr s i)" "t_paused (thr ?p i) = t_paused (thr s i)"
    "i \<noteq> t \<Longrightarrow> t_cpu (thr ?p i) = t_cpu (thr s i)" for i by (simp_all add: user_arg_0_def)
  have "links ?p"
  proof -
    have "t_cpu (thr ?p i) = t_cpu (thr ?p d) \<and> t_cpu (thr ?p i) \<noteq> None" if "helps s i = Some d" for i d
    proof -
      have "i \<noteq> t" "d \<noteq> t" using that nh h by auto
      then have "t_cpu (thr ?p i) = t_cpu (thr s i)" "t_cpu (thr ?p d) = t_cpu (thr s d)" using tp(4) by blast+
      with linksD(6) [OF kinvD(1) [OF k] that] show ?thesis by metis
    qed
    with kinvD(1) [OF k] show ?thesis unfolding links_def hh al by blast
  qed
  moreover have "node_ok (node ?p i) (thr ?p i) \<and> share_ok ?p i" if "alive s i" "i \<noteq> t" for i
    using kinvD(2,3) [OF k that(1)] share_ok_cong [of ?p i s] unfolding node_ok_def runnable_def al tp(1-3) tp(4) [OF that(2)] hh
    by blast
  ultimately have kp: "kinv {t} ?p" unfolding kinv_def al by blast
  have km: "kinv {t} ?m" unfolding ipc_copy_msg_def by (rule kinv_thr_upd [OF kp]) simp_all
  have "node_ok (node ?m t) ((thr ?m t)\<lparr>t_state := ACTIVE\<rparr>)"
    using ok(1) t(2) by (auto simp: node_ok_def ipc_copy_msg_def user_arg_0_def)
  from become_active_kinv [OF km _ _ _ _ _ _ this] t h nr tc
  have "\<exists>s'. become_active t ?m = Some s' \<and> kinv {} s'" by (auto simp: ipc_copy_msg_def user_arg_0_def)
  then show ?thesis using t(2) nr by (simp add: call_start_thread_def)
qed

text \<open>A new thread is linked with no other.\<close>

lemma new_thread_kinv:
  assumes k: "kinv {} s" and t: "\<not> alive s t"
  shows "\<exists>s'. new_thread t s = Some s' \<and> kinv {} s'"
proof -
  note l = kinvD(1) [OF k]
  let ?s = "s\<lparr>alive := (alive s)(t := True), node := (node s)(t := ipc_node_init), thr := (thr s)(t := kthread_init)\<rparr>"
  have nt: "helps s t = None" "helps s i \<noteq> Some t" for i
    using t linksD(4) [OF l, of i t] by (auto simp: helps_def)
  have h: "helps ?s = helps s"
    using t by (auto simp: helps_def helping_def ipc_node_init_def fun_eq_iff)
  have r: "help_rel ?s = help_rel s" by (simp add: help_rel_def h)
  have al: "alive ?s i \<longleftrightarrow> i = t \<or> alive s i" for i by simp
  have "finite {i. alive ?s i}" by (rule finite_subset [of _ "insert t {i. alive s i}"]) (use linksD(1) [OF l] in auto)
  moreover have "distinct (in_queue (node ?s i)) \<and>
      (\<forall>x \<in> set (in_queue (node ?s i)). alive ?s x \<and> out_node (node ?s x) = Some i) \<and>
      (\<forall>e. out_node (node ?s i) = Some e \<longrightarrow> e \<noteq> i \<and> alive ?s e \<and> i \<in> set (in_queue (node ?s e))) \<and>
      (queued (node ?s i) \<longleftrightarrow> out_node (node ?s i) \<noteq> None)" if i: "alive ?s i" for i
  proof (cases "i = t")
    case False
    then have i': "alive s i" using i by simp
    have "x \<noteq> t" if "x \<in> set (in_queue (node s i))" for x using linksD(3) [OF l i' that] t by auto
    moreover have "e \<noteq> t" if "out_node (node s i) = Some e" for e using linksD(4) [OF l i' that] t by auto
    ultimately show ?thesis using False linksD(2-5) [OF l i'] by auto
  qed (simp add: ipc_node_init_def)
  moreover have "t_cpu (thr ?s i) = t_cpu (thr ?s d) \<and> t_cpu (thr ?s i) \<noteq> None" if "helps s i = Some d" for i d
  proof -
    have "i \<noteq> t" "d \<noteq> t" using that nt by auto
    then have "thr ?s i = thr s i" "thr ?s d = thr s d" by simp_all
    with linksD(6) [OF l that] show ?thesis by metis
  qed
  ultimately have "links ?s" using linksD(7) [OF l] unfolding links_def h r by blast
  moreover have "node_ok (node ?s i) (thr ?s i) \<and> share_ok ?s i" if i: "alive ?s i" for i
  proof (cases "i = t")
    case True
    then show ?thesis using h nt(1)
      by (simp add: node_ok_def share_ok_def ipc_node_init_def kthread_init_def sending_def waiting_def runnable_def)
  next
    case False
    then have ok: "node_ok (node s i) (thr s i)" "share_ok s i" using i kinvD(2,3) [OF k] by auto
    have "d \<noteq> t" if "helps s i = Some d" for d using that nt(2) by auto
    with ok False h show ?thesis by (cases "helps s i") (auto simp: share_ok_def)
  qed
  ultimately have "kinv {} ?s" by (simp add: kinv_def)
  with t show ?thesis by (simp add: new_thread_def)
qed

text \<open>
  Destructing a node: its own request is withdrawn without a callback, then every sender in its queue
  is woken with an error.
\<close>

lemma cancel_senders_kinv:
  assumes "kinv {t} s" "alive s t" "out_node (node s t) = None" "in_state (node s t) = In_DESTRUCT"
    "out_state (node s t) = Out_DESTRUCT" "in_queue (node s t) = hs"
  shows "\<exists>s'. cancel_senders hs s = Some s' \<and> kinv {t} s' \<and> alive s' = alive s \<and> executing s' = executing s \<and>
    out_node (node s' t) = None \<and> in_queue (node s' t) = []"
  using assms
proof (induction hs arbitrary: s)
  case Nil
  then show ?case by simp
next
  case (Cons h hs)
  note l = kinvD(1) [OF Cons.prems(1)]
  have h: "alive s h" "out_node (node s h) = Some t" "h \<noteq> t"
    using linksD(3) [OF l Cons.prems(2), of h] Cons.prems(3,6) by auto
  have "sending (node s h)" using kinvD(2) [OF Cons.prems(1) h(1)] h(2,3) by (simp add: node_ok_def)
  moreover have "\<forall>x \<in> {t}. helps s x = None" using Cons.prems(3) by (simp add: helps_def)
  ultimately obtain s' where s': "cancel_send h s = Some s'" "kinv {t} s'" "alive s' = alive s" "executing s' = executing s"
    "node s' t = (node (withdraw h t s) t)\<lparr>in_queue := remove1 h (in_queue (node s t))\<rparr>"
    using cancel_send_kinv [OF Cons.prems(1) h(1)] h(2,3) by auto
  have "withdraw h t s = s" using Cons.prems(4) by (simp add: withdraw_def)
  then have "node s' t = (node s t)\<lparr>in_queue := hs\<rparr>" using s'(5) Cons.prems(6) by simp
  then have "\<exists>s''. cancel_senders hs s' = Some s'' \<and> kinv {t} s'' \<and> alive s'' = alive s' \<and> executing s'' = executing s' \<and>
      out_node (node s'' t) = None \<and> in_queue (node s'' t) = []"
    using Cons.prems s'(2,3) by (intro Cons.IH) simp_all
  with s' h(1) show ?case by auto
qed

lemma delete_thread_kinv:
  assumes k: "kinv {} s" and t: "alive s t"
  shows "\<exists>s'. delete_thread t s = Some s' \<and> kinv {} s' \<and> alive s' = (alive s)(t := False)"
proof -
  let ?d = "node_upd t (\<lambda>n. n\<lparr>in_state := In_DESTRUCT, out_state := Out_DESTRUCT\<rparr>) s"
  have kd: "kinv {t} ?d" by (rule kinv_node_upd(1) [OF kinv_mono [OF k]]) (auto simp: helping_def)
  obtain s1 where s1: "cancel_send t ?d = Some s1" "kinv {t} s1" "alive s1 = alive s"
    "out_node (node s1 t) = None" "in_state (node s1 t) = In_DESTRUCT" "out_state (node s1 t) = Out_DESTRUCT"
  proof (cases "out_node (node s t)")
    case None
    then show ?thesis using that [of ?d] kd by (simp add: cancel_send_def sending_def)
  next
    case (Some d)
    have o: "alive ?d t" "out_node (node ?d t) = Some d" using t Some by simp_all
    have d: "d \<noteq> t" "alive s d" using linksD(4) [OF kinvD(1) [OF k] t Some] by auto
    have lw: "links (withdraw t d ?d)" using withdraw_kinv [OF kinv_mono [OF kd, of "{t, d}"], of d t] kinvD(1) by blast
    have "node_upd t (\<lambda>n. n\<lparr>out_node := None\<rparr>) (remove_item t d (withdraw t d ?d)) = unlink t d (withdraw t d ?d)" (is "_ = ?u")
      by (rule remove_item_unlink [OF lw]) (use o in simp_all)
    moreover have n: "node ?u t = (node ?d t)\<lparr>queued := False, out_node := None\<rparr>" "alive ?u = alive s"
      using d(1) by (simp_all add: node_unlink)
    ultimately have "cancel_send t ?d = Some ?u" using o d by (simp add: cancel_send_def sending_def)
    moreover have "kinv {t} ?u" using withdraw_unlink_kinv(1) [OF kd o] by simp
    ultimately show ?thesis using that n by simp
  qed
  obtain s2 where s2: "cancel_senders (in_queue (node s1 t)) s1 = Some s2" "kinv {t} s2" "alive s2 = alive s"
    "out_node (node s2 t) = None" "in_queue (node s2 t) = []"
    using cancel_senders_kinv [OF s1(2) _ s1(4-6) refl] s1(3) t by auto
  let ?s = "s2\<lparr>alive := (alive s2)(t := False)\<rparr>"
  note l = kinvD(1) [OF s2(2)]
  have ht: "helps s2 t = None" using s2(4) by (simp add: helps_def)
  have nt: "helps s2 i \<noteq> Some t" for i
    using linksD(4) [OF l, of i t] s2(5) by (auto simp: helps_def split: if_splits)
  have h: "helps ?s = helps s2" using ht by (auto simp: helps_def fun_eq_iff)
  have r: "help_rel ?s = help_rel s2" by (simp add: help_rel_def h)
  have "finite {i. alive ?s i}" by (rule finite_subset [OF _ linksD(1) [OF l]]) auto
  moreover have "distinct (in_queue (node s2 i)) \<and>
      (\<forall>x \<in> set (in_queue (node s2 i)). alive ?s x \<and> out_node (node s2 x) = Some i) \<and>
      (\<forall>e. out_node (node s2 i) = Some e \<longrightarrow> e \<noteq> i \<and> alive ?s e \<and> i \<in> set (in_queue (node s2 e))) \<and>
      (queued (node s2 i) \<longleftrightarrow> out_node (node s2 i) \<noteq> None)" if i: "alive ?s i" for i
  proof -
    have i': "alive s2 i" "i \<noteq> t" using i by (auto split: if_splits)
    have "x \<noteq> t" if "x \<in> set (in_queue (node s2 i))" for x using linksD(3) [OF l i'(1) that] s2(4) by auto
    moreover have "e \<noteq> t" if "out_node (node s2 i) = Some e" for e using linksD(4) [OF l i'(1) that] s2(5) by auto
    ultimately show ?thesis using linksD(2-5) [OF l i'(1)] by auto
  qed
  moreover have n: "node ?s = node s2" "thr ?s = thr s2" by simp_all
  ultimately have "links ?s" using linksD(6,7) [OF l] unfolding links_def h r n by blast
  moreover have "node_ok (node ?s i) (thr ?s i) \<and> share_ok ?s i" if i: "alive ?s i" for i
    using kinvD(2,3) [OF s2(2), of i] i h share_ok_cong [of ?s i s2] by (simp split: if_splits)
  ultimately have "kinv {} ?s" unfolding kinv_def by blast
  then show ?thesis using t s1(1) s2(1,3) by (simp add: delete_thread_def destruct_node_def)
qed

section \<open>Sequences of kernel operations\<close>

datatype kop =
    Send bool tid "tid option"
  | Reply bool bool tid
  | Await bool tid
  | Stop tid
  | Restart bool tid "tid option"
  | Fault tid
  | Pause tid
  | Resume tid
  | Start tid tid nat
  | New_thread tid
  | Delete_thread tid
  | Set_utcb tid "nat list"
  | Enter_cpu nat

fun kexec :: "kop \<Rightarrow> 'a kernel_scheme \<Rightarrow> 'a kernel_scheme option" where
  "kexec (Send mem c dst) s = call_send_request_msg mem c dst s"
| "kexec (Reply mem aw c) s = call_send_reply_msg mem aw c s"
| "kexec (Await mem c) s = call_await_request_msg mem c s"
| "kexec (Stop c) s = call_stop_thread c s"
| "kexec (Restart allowed c dst) s = call_restart_thread allowed c dst s"
| "kexec (Fault c) s = mmu_exception c s"
| "kexec (Pause t) s = call_pause_thread t s"
| "kexec (Resume t) s = call_resume_thread t s"
| "kexec (Start c t cpu) s = call_start_thread c t cpu s"
| "kexec (New_thread t) s = new_thread t s"
| "kexec (Delete_thread t) s = delete_thread t s"
| "kexec (Set_utcb c m) s = Some (thr_upd c (\<lambda>t. t\<lparr>t_utcb := m\<rparr>) s)"
| "kexec (Enter_cpu cpu) s = Some (s\<lparr>executing := cpu\<rparr>)"

fun kop_ok :: "kop \<Rightarrow> 'a kernel_scheme \<Rightarrow> bool" where
  "kop_ok (Send mem c dst) s \<longleftrightarrow> caller_ok s c \<and> (\<forall>d. dst = Some d \<longrightarrow> send_ok s c d)"
| "kop_ok (Reply mem aw c) s \<longleftrightarrow> caller_ok s c"
| "kop_ok (Await mem c) s \<longleftrightarrow> caller_ok s c"
| "kop_ok (Stop c) s \<longleftrightarrow> caller_ok s c"
| "kop_ok (Restart allowed c dst) s \<longleftrightarrow> caller_ok s c \<and>
     (\<forall>t. dst = Some t \<longrightarrow> alive s t \<and> (t_state (thr s t) = ACTIVE \<or> t_state (thr s t) = AWAITS_RESTART))"
| "kop_ok (Fault c) s \<longleftrightarrow> caller_ok s c"
| "kop_ok (Pause t) s \<longleftrightarrow> alive s t \<and> \<not> sending (node s t) \<and> (runnable (thr s t) \<longrightarrow> t_cpu (thr s t) = Some (executing s))"
| "kop_ok (Resume t) s \<longleftrightarrow> alive s t"
| "kop_ok (Start c t cpu) s \<longleftrightarrow> caller_ok s c \<and> alive s t \<and> t_state (thr s t) = AWAITS_START"
| "kop_ok (New_thread t) s \<longleftrightarrow> \<not> alive s t"
| "kop_ok (Delete_thread t) s \<longleftrightarrow> alive s t"
| "kop_ok (Set_utcb c m) s \<longleftrightarrow> caller_ok s c"
| "kop_ok (Enter_cpu cpu) s \<longleftrightarrow> True"

lemma call_send_cases:
  assumes k: "kinv {} s" and c: "caller_ok s c" and d: "\<forall>d. dst = Some d \<longrightarrow> send_ok s c d"
  shows "\<exists>s'. call_send_request_msg mem c dst s = Some s' \<and> kinv {} s'"
proof (cases dst)
  case None
  then show ?thesis using block_kinv [OF k c, of DEAD] by (simp add: call_send_request_msg_def)
next
  case (Some e)
  note f = caller_facts [OF k c]
  show ?thesis
  proof (cases mem)
    case True
    then show ?thesis using call_send_kinv [OF k c, of e] d Some by auto
  next
    case False
    then show ?thesis using f d Some k
      by (auto simp: call_send_request_msg_def ready_to_send_def send_ok_def Let_def)
  qed
qed

lemma call_reply_cases:
  assumes k: "kinv {} s" and c: "caller_ok s c"
  shows "\<exists>s'. call_send_reply_msg mem aw c s = Some s' \<and> kinv {} s'"
proof -
  obtain s1 where s1: "reply c s = Some s1" "kinv {} s1" "caller_ok s1 c" using reply_kinv [OF k c] by blast
  then show ?thesis using await_kinv [OF s1(2,3), of mem] by (cases aw) (auto simp: call_send_reply_msg_def)
qed

lemma call_restart_cases:
  assumes k: "kinv {} s" and c: "caller_ok s c"
    and d: "\<forall>t. dst = Some t \<longrightarrow> alive s t \<and> (t_state (thr s t) = ACTIVE \<or> t_state (thr s t) = AWAITS_RESTART)"
  shows "\<exists>s'. call_restart_thread allowed c dst s = Some s' \<and> kinv {} s'"
proof (cases dst)
  case None
  then show ?thesis using k by (simp add: call_restart_thread_def)
next
  case (Some t)
  with d restart_kinv [OF k, of t] obtain r s' where "restart t s = Some (r, s')" "kinv {} s'" by auto
  with Some d block_kinv [OF k c, of DEAD] show ?thesis by (cases allowed) (auto simp: call_restart_thread_def die_def)
qed

lemma kexec_kinv:
  assumes k: "kinv {} s" and op: "kop_ok op s"
  shows "\<exists>s'. kexec op s = Some s' \<and> kinv {} s'"
proof (cases op)
  case (Send mem c dst)
  then show ?thesis using call_send_cases [OF k, of c dst mem] op by simp
next
  case (Reply mem aw c)
  then show ?thesis using call_reply_cases [OF k, of c] op by simp
next
  case (Await mem c)
  then show ?thesis using await_kinv [OF k, of c mem] op by auto
next
  case (Stop c)
  then show ?thesis using block_kinv [OF k, of c AWAITS_RESTART] op caller_facts(8) [OF k, of c] by (simp add: call_stop_thread_def)
next
  case (Restart allowed c dst)
  then show ?thesis using call_restart_cases [OF k, of c dst allowed] op by simp
next
  case (Fault c)
  then show ?thesis using block_kinv [OF k, of c AWAITS_RESTART] op by (simp add: mmu_exception_def)
next
  case (Pause t)
  then show ?thesis using pause_kinv [OF k, of t] op by simp
next
  case (Resume t)
  then show ?thesis using resume_kinv [OF k, of t] op by simp
next
  case (Start c t cpu)
  then show ?thesis using start_kinv [OF k, of c t cpu] op by simp
next
  case (New_thread t)
  then show ?thesis using new_thread_kinv [OF k, of t] op by simp
next
  case (Delete_thread t)
  then show ?thesis using delete_thread_kinv [OF k, of t] op by auto
next
  case (Set_utcb c m)
  then show ?thesis using kinv_thr_upd [OF k, of "\<lambda>t. t\<lparr>t_utcb := m\<rparr>" c] by simp
next
  case (Enter_cpu cpu)
  have e: "alive (s\<lparr>executing := cpu\<rparr>) = alive s" "node (s\<lparr>executing := cpu\<rparr>) = node s" "thr (s\<lparr>executing := cpu\<rparr>) = thr s"
    by simp_all
  have "helps (s\<lparr>executing := cpu\<rparr>) = helps s" by (rule helps_cong) simp_all
  then have "kinv {} (s\<lparr>executing := cpu\<rparr>) = kinv {} s"
    unfolding kinv_def links_def share_ok_def help_rel_def e by simp
  with Enter_cpu k show ?thesis by simp
qed

text \<open>The kernel after boot, with the core thread active on CPU 0.\<close>

definition empty_kernel :: kernel where
  "empty_kernel = \<lparr>alive = \<lambda>_. False, node = \<lambda>_. ipc_node_init, thr = \<lambda>_. kthread_init, executing = 0\<rparr>"

definition core_main_thread :: "tid \<Rightarrow> nat \<Rightarrow> 'a kernel_scheme \<Rightarrow> 'a kernel_scheme option" where
  "core_main_thread t cpu s = do {
     s1 \<leftarrow> new_thread t s;
     become_active t (thr_upd t (\<lambda>x. x\<lparr>t_cpu := Some cpu\<rparr>) s1)
   }"

inductive kreach :: "kernel \<Rightarrow> bool" where
  boot: "core_main_thread 0 0 empty_kernel = Some s \<Longrightarrow> kreach s"
| step: "kreach s \<Longrightarrow> kop_ok op s \<Longrightarrow> kexec op s = Some s' \<Longrightarrow> kreach s'"

lemma boot_eq:
  "core_main_thread 0 0 empty_kernel = Some \<lparr>alive = (\<lambda>_. False)(0 := True), node = \<lambda>_. ipc_node_init,
     thr = (\<lambda>_. kthread_init)(0 := kthread_init\<lparr>t_cpu := Some 0, t_ready := True, t_state := ACTIVE\<rparr>), executing = 0\<rparr>"
proof -
  have "used_shares own [] s = Some s" for own and s :: kernel by (subst used_shares.simps) simp
  then show ?thesis
    by (simp add: core_main_thread_def empty_kernel_def new_thread_def become_active_def activate_used_shares_def
        used_shares.simps [of _ "[0]"] activate_own_share_def helpers_def ipc_node_init_def kthread_init_def thr_upd_def set_state_def
        fun_upd_idem)
qed

lemma one_thread_kinv:
  assumes s: "alive s = (\<lambda>_. False)(0 := True)" "node s = (\<lambda>_. ipc_node_init)"
    "thr s = (\<lambda>_. kthread_init)(0 := kthread_init\<lparr>t_cpu := Some 0, t_ready := True, t_state := ACTIVE\<rparr>)"
  shows "kinv {} s"
proof -
  have h: "helps s = (\<lambda>_. None)" by (simp add: helps_def s ipc_node_init_def helping_def fun_eq_iff)
  then have "help_rel s = {}" by (simp add: help_rel_def)
  then have "links s" by (simp add: links_def h s ipc_node_init_def acyclic_def)
  then show ?thesis
    by (simp add: kinv_def s share_ok_def h node_ok_def ipc_node_init_def kthread_init_def sending_def waiting_def runnable_def)
qed

lemma boot_kinv: "core_main_thread 0 0 empty_kernel = Some s \<Longrightarrow> kinv {} s"
  by (rule one_thread_kinv) (auto simp: boot_eq fun_eq_iff)

lemma kreach_kinv: "kreach s \<Longrightarrow> kinv {} s"
proof (induction rule: kreach.induct)
  case (boot s)
  then show ?case by (rule boot_kinv)
next
  case (step s op s')
  then show ?case using kexec_kinv [OF step.IH step.hyps(2)] by auto
qed

text \<open>Every helping chain ends, and the share is ready exactly if the thread at its end is runnable.\<close>

lemma destination_kinv:
  assumes k: "kinv {} s" and "alive s i"
  shows "\<exists>r. helping_destination s i = Some r \<and> alive s r \<and> (t_ready (thr s i) \<longleftrightarrow> runnable (thr s r))"
proof -
  note l = kinvD(1) [OF k]
  have "help_rel s \<subseteq> {i. alive s i} \<times> {i. alive s i}"
    using linksD(4) [OF l] by (auto simp: help_rel_def helps_Some)
  then have "finite (help_rel s)" using linksD(1) [OF l] by (meson finite_SigmaI finite_subset)
  then have "wf ((help_rel s)\<inverse>)" using linksD(7) [OF l] by (rule finite_acyclic_wf_converse)
  then show ?thesis using assms(2)
  proof (induction i rule: wf_induct_rule)
    case (less i)
    have ok: "share_ok s i" using kinvD(3) [OF k less.prems] by simp
    show ?case
    proof (cases "helps s i")
      case None
      then have "\<not> helping (node s i)" using less.prems by (auto simp: helps_def helping_def split: if_splits)
      with ok None less.prems show ?thesis by (subst helping_destination.simps) (simp add: share_ok_def)
    next
      case (Some d)
      then have d: "helping (node s i)" "out_node (node s i) = Some d" "alive s d"
        using linksD(4) [OF l less.prems, of d] by (auto simp: helps_Some)
      have "(d, i) \<in> (help_rel s)\<inverse>" using Some by (simp add: help_rel_def)
      from less.IH [OF this d(3)] ok Some d show ?thesis by (subst helping_destination.simps) (auto simp: share_ok_def)
    qed
  qed
qed

section \<open>Properties\<close>

text \<open>
  \<^bold>\<open>C26.\<close> IPC and thread control are safe under the guards of \<open>kop_ok\<close>. From boot on, under any sequence of
  kernel calls by running threads, thread creations and destructions in which no request closes a cycle of
  helping threads on one CPU, no thread is paused while it awaits a reply or while it is runnable on another
  CPU, a thread is started only in state \<^verbatim>\<open>AWAITS_START\<close> and restarted only in state \<^verbatim>\<open>ACTIVE\<close> or \<^verbatim>\<open>AWAITS_RESTART\<close>: no
  assertion of the kernel fails, no destructed object is used, no queue element is enqueued twice, and every
  recursion ends. Every helping chain leads to a thread, and a CPU share is ready exactly if that thread is
  active and not paused. The guards on start and restart are assertions of the kernel itself: in any other
  state of the thread, the assertion fails.
\<close>

theorem kernel_ipc_safe:
  assumes "kreach s"
  shows "(kop_ok op s \<longrightarrow> (\<exists>s'. kexec op s = Some s' \<and> (\<forall>i. alive s' i \<longrightarrow>
      (\<exists>r. helping_destination s' i = Some r \<and> alive s' r \<and> (t_ready (thr s' i) \<longleftrightarrow> runnable (thr s' r)))))) \<and>
    (t_state (thr s t) \<noteq> AWAITS_START \<longrightarrow> kexec (Start c t cpu) s = None) \<and>
    (t_state (thr s t) \<noteq> ACTIVE \<and> t_state (thr s t) \<noteq> AWAITS_RESTART \<longrightarrow> kexec (Restart True c (Some t)) s = None)"
proof -
  have "\<exists>s'. kexec op s = Some s' \<and> kinv {} s'" if "kop_ok op s" using kexec_kinv [OF kreach_kinv [OF assms] that] by blast
  then show ?thesis using destination_kinv by (fastforce simp: call_start_thread_def call_restart_thread_def restart_def)
qed

text \<open>Evaluation of concrete runs.\<close>

fun krun :: "kop list \<Rightarrow> 'a kernel_scheme \<Rightarrow> 'a kernel_scheme option" where
  "krun [] s = Some s"
| "krun (op # ops) s = do { s1 \<leftarrow> kexec op s; krun ops s1 }"

fun krun_checked :: "kop list \<Rightarrow> 'a kernel_scheme \<Rightarrow> 'a kernel_scheme option" where
  "krun_checked [] s = Some s"
| "krun_checked (op # ops) s = (if kop_ok op s then do { s1 \<leftarrow> kexec op s; krun_checked ops s1 } else None)"

lemma krun_checked_reach: "kreach s \<Longrightarrow> krun_checked ops s = Some s' \<Longrightarrow> kreach s'"
proof (induction ops arbitrary: s)
  case (Cons op ops)
  then show ?case by (auto split: if_splits simp: Option.bind_eq_Some_conv intro: kreach.step)
qed simp

definition kboot :: kernel where
  "kboot = \<lparr>alive = (\<lambda>_. False)(0 := True), node = \<lambda>_. ipc_node_init,
     thr = (\<lambda>_. kthread_init)(0 := kthread_init\<lparr>t_cpu := Some 0, t_ready := True, t_state := ACTIVE\<rparr>), executing = 0\<rparr>"

lemma kreach_kboot: "kreach kboot"
  by (rule kreach.boot) (simp add: kboot_def boot_eq)

lemma used_shares_simps [simp]:
  "used_shares own [] s = Some s"
  "used_shares own (i # ts) s = do { s1 \<leftarrow> own i s; used_shares own (helpers s1 i @ ts) s1 }"
  by (subst used_shares.simps, simp)+

lemmas kernel_eval = kboot_def ipc_node_init_def kthread_init_def new_thread_def call_start_thread_def become_active_def
  become_inactive_def activate_used_shares_def deactivate_used_shares_def activate_own_share_def deactivate_own_share_def
  helpers_def set_state_def user_arg_0_def ipc_copy_msg_def thr_upd_def node_upd_def call_await_request_msg_def ready_to_wait_def
  wait_def waiting_def sending_def helping_def call_send_request_msg_def ready_to_send_def send_def enqueue_item_def
  receive_from_def ipc_await_request_succeeded_def caller_ok_def send_ok_def runnable_def call_pause_thread_def
  call_resume_thread_def call_send_reply_msg_def reply_def remove_item_def ipc_send_request_succeeded_def
  ipc_send_request_done_def call_restart_thread_def restart_def Let_def

lemma helping_destination_self [simp]: "\<not> helping (node s i) \<Longrightarrow> helping_destination s i = Some i"
  by (subst helping_destination.simps) simp

text \<open>A server that waits for requests, and a client that is about to call it.\<close>

lemma demo_server:
  "\<exists>s. kreach s \<and> caller_ok s 0 \<and> send_ok s 0 1 \<and> waiting (node s 1) \<and> \<not> t_paused (thr s 1) \<and>
     t_cpu (thr s 1) = Some (executing s) \<and> t_utcb (thr s 0) = [7]"
proof -
  obtain s where s: "krun_checked [New_thread 1, Start 0 1 0, Await True 1, Set_utcb 0 [7]] kboot = Some s"
    "alive s = (\<lambda>_. False)(0 := True, 1 := True)" "t_state (thr s 0) = ACTIVE" "\<not> t_paused (thr s 0)"
    "t_cpu (thr s 0) = Some 0" "executing s = 0" "\<not> helping (node s 1)" "waiting (node s 1)" "\<not> t_paused (thr s 1)"
    "t_cpu (thr s 1) = Some 0" "t_utcb (thr s 0) = [7]"
    by (simp add: kernel_eval cong: eval_cong)
  then show ?thesis using krun_checked_reach [OF kreach_kboot s(1)]
    by (intro exI [of _ s]) (simp add: caller_ok_def send_ok_def runnable_def)
qed

theorem kernel_ipc_safe_witness:
  "\<exists>s s'. kreach s \<and> waiting (node s 1) \<and> kexec (Send True 0 (Some 1)) s = Some s' \<and> (\<forall>i. alive s' i \<longrightarrow>
    (\<exists>r. helping_destination s' i = Some r \<and> alive s' r \<and> (t_ready (thr s' i) \<longleftrightarrow> runnable (thr s' r))))"
proof -
  obtain s where s: "kreach s" "caller_ok s 0" "send_ok s 0 1" "waiting (node s 1)" using demo_server by blast
  then show ?thesis using kernel_ipc_safe [OF s(1), of "Send True 0 (Some 1)" 0 0 0] by auto
qed

text \<open>
  \<^bold>\<open>C27.\<close> Request and reply carry the messages: a call to a server that waits on the same CPU makes the
  server active with exactly the message of the client, and the reply makes the client active again
  with exactly the message that the server wrote, the call having succeeded and the client's CPU share
  being ready.
\<close>

theorem request_reply_roundtrip:
  assumes "kreach s" "caller_ok s c" "send_ok s c d" "waiting (node s d)" "\<not> t_paused (thr s d)"
    "t_cpu (thr s d) = Some (executing s)"
  shows "\<exists>s1 s2. kexec (Send True c (Some d)) s = Some s1 \<and> caller_ok s1 d \<and> t_utcb (thr s1 d) = t_utcb (thr s c) \<and>
    t_state (thr s1 c) = AWAITS_IPC \<and> krun [Set_utcb d m, Reply True False d] s1 = Some s2 \<and>
    t_utcb (thr s2 c) = m \<and> t_arg0 (thr s2 c) = 0 \<and> runnable (thr s2 c) \<and> t_ready (thr s2 c)"
proof -
  have k: "kinv {} s" by (rule kreach_kinv [OF assms(1)])
  have cd: "c \<noteq> d" using caller_facts(6) [OF k assms(2)] assms(4) by auto
  have q: "in_queue (node s d) = []" using kinvD(2) [OF k, of d] assms(3,4) by (auto simp: node_ok_def send_ok_def)
  obtain s1 where s1: "call_send_request_msg True c (Some d) s = Some s1" "kinv {} s1" "executing s1 = executing s"
    "alive s1 = alive s" "\<forall>j. t_paused (thr s1 j) = t_paused (thr s j) \<and> t_cpu (thr s1 j) = t_cpu (thr s j)"
    "t_state (thr s1 c) = AWAITS_IPC" "in_queue (node s1 d) = [c]" "in_state (node s1 d) = In_REPLY"
    "t_state (thr s1 d) = ACTIVE" "t_utcb (thr s1 d) = t_utcb (thr s c)"
    using call_send_kinv [OF k assms(2,3)] assms(4) q by auto
  have c1: "caller_ok s1 d" using s1 assms(3,5,6) by (simp add: caller_ok_def runnable_def send_ok_def)
  let ?m = "thr_upd d (\<lambda>t. t\<lparr>t_utcb := m\<rparr>) s1"
  have km: "kinv {} ?m" by (rule kinv_thr_upd [OF s1(2)]) simp_all
  have cm: "caller_ok ?m d" using c1 by (simp add: caller_ok_def runnable_def)
  obtain s2 where s2: "reply d ?m = Some s2" "kinv {} s2" "caller_ok s2 d" "alive s2 = alive s1" "\<forall>j. t_paused (thr s2 j) = t_paused (thr s1 j)"
    "out_node (node s2 c) = None" "t_state (thr s2 c) = ACTIVE" "t_arg0 (thr s2 c) = 0" "t_utcb (thr s2 c) = m"
    using reply_kinv [OF km cm] s1(7,8) by (auto split: if_splits)
  let ?s = "user_arg_0 0 d s2"
  have "alive s2 c" using s2(4) s1(4) assms(2) by (simp add: caller_ok_def)
  then have "share_ok s2 c" using kinvD(3) [OF s2(2)] by simp
  moreover have "helps s2 c = None" using s2(6) by (simp add: helps_def)
  moreover have r: "runnable (thr s2 c)" using s2(5,7) s1(5) assms(2) by (simp add: caller_ok_def runnable_def)
  ultimately have "t_ready (thr s2 c)" by (simp add: share_ok_def)
  moreover have "krun [Set_utcb d m, Reply True False d] s1 = Some ?s" using s2(1) by (simp add: call_send_reply_msg_def)
  moreover have "thr ?s c = thr s2 c" using cd by (simp add: user_arg_0_def)
  ultimately show ?thesis using s1(1,6,10) c1 s2(8,9) r by (intro exI [of _ s1] exI [of _ ?s]) simp
qed

theorem request_reply_roundtrip_witness:
  "\<exists>(s :: kernel) s1 s2. kexec (Send True 0 (Some 1)) s = Some s1 \<and> t_utcb (thr s1 1) = [7] \<and>
    krun [Set_utcb 1 [8, 9], Reply True False 1] s1 = Some s2 \<and> t_utcb (thr s2 0) = [8, 9] \<and> t_ready (thr s2 0)"
proof -
  obtain s where s: "kreach s" "caller_ok s 0" "send_ok s 0 1" "waiting (node s 1)" "\<not> t_paused (thr s 1)"
    "t_cpu (thr s 1) = Some (executing s)" "t_utcb (thr s 0) = [7]" using demo_server by blast
  obtain s1 s2 where "kexec (Send True 0 (Some 1)) s = Some s1" "t_utcb (thr s1 1) = t_utcb (thr s 0)"
    "krun [Set_utcb 1 [8, 9], Reply True False 1] s1 = Some s2" "t_utcb (thr s2 0) = [8, 9]" "t_ready (thr s2 0)"
    using request_reply_roundtrip [OF s(1-6), of "[8, 9]"] by blast
  then show ?thesis unfolding s(7) by blast
qed

text \<open>Rounds of a server that answers each request with the message it received.\<close>

lemma serve_queue:
  assumes "kinv {} s" "caller_ok s d" "in_state (node s d) = In_REPLY" "in_queue (node s d) = h # hs"
    "t_utcb (thr s d) = t_utcb (thr s h)"
  shows "\<exists>s'. krun (replicate (length (h # hs)) (Reply True True d)) s = Some s' \<and> in_state (node s' d) = In_WAIT \<and>
    in_queue (node s' d) = [] \<and>
    (\<forall>x \<in> set (h # hs). t_state (thr s' x) = ACTIVE \<and> t_utcb (thr s' x) = t_utcb (thr s x)) \<and>
    (\<forall>x. x \<notin> set (h # hs) \<and> x \<noteq> d \<longrightarrow> t_state (thr s' x) = t_state (thr s x) \<and> t_utcb (thr s' x) = t_utcb (thr s x))"
  using assms
proof (induction hs arbitrary: s h)
  case (Nil s h)
  obtain s1 where s1: "reply d s = Some s1" "kinv {} s1" "caller_ok s1 d" "in_state (node s1 d) = In_READY" "h \<noteq> d"
    "in_queue (node s1 d) = []" "t_state (thr s1 h) = ACTIVE" "t_utcb (thr s1 h) = t_utcb (thr s d)"
    "\<forall>j. j \<noteq> h \<longrightarrow> t_state (thr s1 j) = t_state (thr s j) \<and> t_utcb (thr s1 j) = t_utcb (thr s j)"
    using reply_kinv [OF Nil(1,2)] Nil(3,4) by auto
  obtain s2 where s2: "call_await_request_msg True d s1 = Some s2" "in_queue (node s2 d) = []" "in_state (node s2 d) = In_WAIT"
    using await_kinv [OF s1(2,3), of True] s1(4,6) by auto
  have "\<forall>j. j \<noteq> d \<longrightarrow> t_state (thr s2 j) = t_state (thr s1 j) \<and> t_utcb (thr s2 j) = t_utcb (thr s1 j)"
    by (rule await_others [OF s1(2,3) s2(1)])
  with s1 s2 Nil(5) show ?case by (auto simp: call_send_reply_msg_def)
next
  case (Cons g hs s h)
  obtain s1 where s1: "reply d s = Some s1" "kinv {} s1" "caller_ok s1 d" "in_state (node s1 d) = In_READY" "h \<noteq> d"
    "in_queue (node s1 d) = g # hs" "t_state (thr s1 h) = ACTIVE" "t_utcb (thr s1 h) = t_utcb (thr s d)"
    "\<forall>j. j \<noteq> h \<longrightarrow> t_state (thr s1 j) = t_state (thr s j) \<and> t_utcb (thr s1 j) = t_utcb (thr s j)"
    using reply_kinv [OF Cons.prems(1,2)] Cons.prems(3,4) by auto
  obtain s2 where s2: "call_await_request_msg True d s1 = Some s2" "kinv {} s2" "in_queue (node s2 d) = g # hs"
    "in_state (node s2 d) = In_REPLY" "caller_ok s2 d" "t_utcb (thr s2 d) = t_utcb (thr s1 g)"
    "\<forall>j. j \<noteq> d \<longrightarrow> node s2 j = node s1 j \<and> thr s2 j = thr s1 j"
    using await_kinv [OF s1(2,3), of True] s1(4,6) by auto
  note l = kinvD(1) [OF Cons.prems(1)] and al = caller_facts(7) [OF Cons.prems(1,2)]
  have dq: "distinct (h # g # hs)" "\<forall>x \<in> set (h # g # hs). x \<noteq> d"
    using linksD(2) [OF l al] linksD(3) [OF l al, of d] caller_facts(3) [OF Cons.prems(1,2)] unfolding Cons.prems(4) by auto
  have "t_utcb (thr s2 d) = t_utcb (thr s2 g)" using s2(6,7) dq(2) by simp
  from Cons.IH [OF s2(2,5,4,3) this] obtain s' where s': "krun (replicate (length (g # hs)) (Reply True True d)) s2 = Some s'"
    "in_state (node s' d) = In_WAIT" "in_queue (node s' d) = []"
    "\<forall>x \<in> set (g # hs). t_state (thr s' x) = ACTIVE \<and> t_utcb (thr s' x) = t_utcb (thr s2 x)"
    "\<forall>x. x \<notin> set (g # hs) \<and> x \<noteq> d \<longrightarrow> t_state (thr s' x) = t_state (thr s2 x) \<and> t_utcb (thr s' x) = t_utcb (thr s2 x)"
    by blast
  have "kexec (Reply True True d) s = Some s2" using s1(1) s2(1) by (simp add: call_send_reply_msg_def)
  then have "krun (replicate (length (h # g # hs)) (Reply True True d)) s = Some s'" using s'(1) by simp
  moreover have "t_state (thr s' x) = ACTIVE \<and> t_utcb (thr s' x) = t_utcb (thr s x)" if "x \<in> set (h # g # hs)" for x
  proof (cases "x = h")
    case True
    then show ?thesis using s'(5) dq s1(7,8) s2(7) Cons.prems(5) by simp
  next
    case False
    then show ?thesis using that s'(4) s2(7) dq(2) s1(9) by auto
  qed
  moreover have "t_state (thr s' x) = t_state (thr s x) \<and> t_utcb (thr s' x) = t_utcb (thr s x)"
    if "x \<notin> set (h # g # hs)" "x \<noteq> d" for x
    using that s'(5) s2(7) s1(9) by simp
  ultimately show ?case using s'(2,3) by blast
qed

text \<open>
  \<^bold>\<open>C28.\<close> No client starves: a server that repeatedly replies and awaits the next request has, after as
  many rounds as clients are queued, served every one of them: each is active again with the answer to
  its own message, and the server waits with an empty queue.
\<close>

theorem server_serves_all:
  assumes "kreach s" "caller_ok s d" "in_state (node s d) = In_REPLY" "t_utcb (thr s d) = t_utcb (thr s (hd (in_queue (node s d))))"
  shows "\<exists>s'. krun (replicate (length (in_queue (node s d))) (Reply True True d)) s = Some s' \<and>
    in_state (node s' d) = In_WAIT \<and> in_queue (node s' d) = [] \<and>
    (\<forall>x \<in> set (in_queue (node s d)). t_state (thr s' x) = ACTIVE \<and> t_utcb (thr s' x) = t_utcb (thr s x))"
proof -
  have k: "kinv {} s" by (rule kreach_kinv [OF assms(1)])
  then have "in_queue (node s d) \<noteq> []" using kinvD(2) [OF k, of d] assms(2,3) by (auto simp: node_ok_def caller_ok_def)
  then obtain h hs where q: "in_queue (node s d) = h # hs" by (cases "in_queue (node s d)") auto
  from serve_queue [OF k assms(2,3) q] assms(4) q show ?thesis by auto
qed

theorem server_serves_all_witness:
  "\<exists>(s :: kernel) s'. in_queue (node s 1) = [0, 2] \<and> t_utcb (thr s 2) = [8] \<and>
    krun [Reply True True 1, Reply True True 1] s = Some s' \<and> in_state (node s' 1) = In_WAIT \<and>
    t_state (thr s' 2) = ACTIVE \<and> t_utcb (thr s' 2) = [8]"
proof -
  obtain s where s: "krun_checked [New_thread 1, Start 0 1 0, New_thread 2, Start 0 2 0, Set_utcb 0 [7], Set_utcb 2 [8],
      Await True 1, Send True 0 (Some 1), Send True 2 (Some 1)] kboot = Some s"
    "alive s 1" "t_state (thr s 1) = ACTIVE" "\<not> t_paused (thr s 1)" "t_cpu (thr s 1) = Some 0" "executing s = 0"
    "in_state (node s 1) = In_REPLY" "in_queue (node s 1) = [0, 2]" "t_utcb (thr s 1) = [7]" "t_utcb (thr s 0) = [7]"
    "t_utcb (thr s 2) = [8]"
    by (simp add: kernel_eval cong: eval_cong)
  have "caller_ok s 1" using s(2-6) by (simp add: caller_ok_def runnable_def)
  from server_serves_all [OF krun_checked_reach [OF kreach_kboot s(1)] this s(7)] s
  obtain s' where "krun (replicate (length (in_queue (node s 1))) (Reply True True 1)) s = Some s'" "in_state (node s' 1) = In_WAIT"
    "\<forall>x \<in> set (in_queue (node s 1)). t_state (thr s' x) = ACTIVE \<and> t_utcb (thr s' x) = t_utcb (thr s x)" by auto
  then show ?thesis using s(8,11) by (intro exI [of _ s] exI [of _ s']) (simp add: numeral_2_eq_2)
qed

text \<open>A set of helping threads that help each other only has no destination.\<close>

lemma helping_closed:
  assumes step: "\<And>i. i \<in> C \<Longrightarrow> helping (node s i) \<and> (\<exists>z \<in> C. out_node (node s i) = Some z)" and i: "i \<in> C"
  shows "helping_destination s i = None"
proof -
  have "helping_destination s i = Some r \<Longrightarrow> s = s \<longrightarrow> i \<notin> C" for r
  proof (rule helping_destination.raw_induct [where P = "\<lambda>s' i r. s' = s \<longrightarrow> i \<notin> C"])
    fix dest :: "'a kernel_scheme \<Rightarrow> tid \<Rightarrow> tid option" and s' i r
    assume ih: "\<And>s' i r. dest s' i = Some r \<Longrightarrow> s' = s \<longrightarrow> i \<notin> C"
      and r: "(if helping (node s' i) then out_node (node s' i) \<bind> dest s' else Some i) = Some r"
    show "s' = s \<longrightarrow> i \<notin> C"
    proof (intro impI notI)
      assume s': "s' = s" and "i \<in> C"
      then obtain z where "helping (node s i)" "z \<in> C" "out_node (node s i) = Some z" using step by blast
      with r s' ih [of s z r] show False by simp
    qed
  qed
  with i show ?thesis by (cases "helping_destination s i") auto
qed

text \<open>
  \<^bold>\<open>C29.\<close> The kernel does not prevent a cycle of helping threads, and then loops: if a running thread
  calls a thread of its CPU whose helping chain ends at the caller, the call succeeds, both keep their
  CPU shares ready, and the computation of the thread that shall run on the share never ends.
\<close>

theorem helping_cycle_diverges:
  assumes "kreach s" "caller_ok s c" "d \<noteq> c" "alive s d" "d \<in> helping_tree s c"
  shows "\<exists>s'. kexec (Send True c (Some d)) s = Some s' \<and> t_ready (thr s' c) \<and> t_ready (thr s' d) \<and>
    helping_destination s' c = None"
proof -
  have k: "kinv {} s" by (rule kreach_kinv [OF assms(1)])
  note f = caller_facts [OF k assms(2)] and l = kinvD(1) [OF k]
  have rd: "t_ready (thr s d)" "t_cpu (thr s d) = t_cpu (thr s c)" using tree_ready [OF k _ assms(5)] f(2) by simp_all
  obtain e where e: "helps s d = Some e" using tree_up [OF assms(5,3)] by blast
  then have "sending (node s d)" using kinvD(2) [OF k assms(4)] by (auto simp: helps_Some node_ok_def)
  then have nw: "\<not> waiting (node s d)" using kinvD(2) [OF k assms(4)] by (auto simp: node_ok_def)
  let ?l = "link c d Out_SEND_HELPING s" let ?s = "set_state AWAITS_IPC c ?l"
  have "send c d True s = Some ?l" using send_eq [OF k assms(2,4,3), of True] nw by (simp add: wake_receiver_def)
  then have call: "kexec (Send True c (Some d)) s = Some ?s"
    using f assms(3,4) rd by (simp add: call_send_request_msg_def ready_to_send_def Let_def set_state_def node_link)
  have step: "helping (node ?s i) \<and> (\<exists>z \<in> helping_tree s c. out_node (node ?s i) = Some z)" if i: "i \<in> helping_tree s c" for i
  proof (cases "i = c")
    case True
    then show ?thesis using assms(3,5) by (simp add: set_state_def node_link helping_def)
  next
    case False
    then obtain z where "helps s i = Some z" "z \<in> helping_tree s c" using tree_up [OF i] by blast
    then show ?thesis using False assms(3) by (auto simp: helps_Some set_state_def node_link helping_def)
  qed
  have "helping_destination ?s c = None" by (rule helping_closed [OF step in_tree_self])
  moreover have "t_ready (thr ?s c)" "t_ready (thr ?s d)" using f(2) rd(1) assms(3) by (simp_all add: set_state_def node_link)
  ultimately show ?thesis using call by blast
qed

theorem helping_cycle_diverges_witness:
  "\<exists>(s :: kernel) s'. kexec (Send True 1 (Some 0)) s = Some s' \<and> t_ready (thr s' 0) \<and> helping_destination s' 1 = None"
proof -
  obtain s where s: "krun_checked [New_thread 1, Start 0 1 0, Send True 0 (Some 1)] kboot = Some s"
    "alive s 0" "alive s 1" "t_state (thr s 1) = ACTIVE" "\<not> t_paused (thr s 1)" "t_cpu (thr s 1) = Some 0" "executing s = 0"
    "helping (node s 0)" "out_node (node s 0) = Some 1"
    by (simp add: kernel_eval cong: eval_cong)
  have "caller_ok s 1" using s(3-7) by (simp add: caller_ok_def runnable_def)
  moreover have "0 \<in> helping_tree s 1" using s(2,8,9) by (intro tree_down [of s 0 1]) (auto simp: helps_def)
  ultimately show ?thesis
    using helping_cycle_diverges [OF krun_checked_reach [OF kreach_kboot s(1)], of 1 0] s(2) by auto
qed

text \<open>
  Pausing a thread that awaits a reply does not hold: the reply leaves the paused thread with a
  ready CPU share, and resuming it afterwards runs into the assertion of the scheduler that a share is
  not made ready twice.
\<close>

theorem pause_during_call:
  "\<exists>s. krun [New_thread 1, Start 0 1 0, Await True 1, Send True 0 (Some 1), Pause 0, Reply True False 1] kboot = Some s \<and>
    t_paused (thr s 0) \<and> t_ready (thr s 0) \<and> kexec (Resume 0) s = None"
  by (simp add: kernel_eval cong: eval_cong)

text \<open>A thread that awaits IPC cannot be restarted without failing the assertion of \<^verbatim>\<open>_restart\<close>.\<close>

lemma restart_during_call:
  "krun [New_thread 1, Start 0 1 0, Await True 1, Restart True 0 (Some 1)] kboot = None"
  by (simp add: kernel_eval cong: eval_cong)

end
