(* ===== verification/Signal_Receiver.thy ===== *)
theory Signal_Receiver
  imports Ipc_Node
begin

text \<open>
  Asynchronous signals of the kernel: \<^verbatim>\<open>base-hw/src/core/kernel/signal_receiver.h\<close>,
  \<^verbatim>\<open>signal_receiver.cc\<close> and the kernel calls of \<^verbatim>\<open>thread.cc\<close> that use them. The state extends that
  of the kernel threads: contexts and receivers by number, and for every thread its
  \<^verbatim>\<open>Signal_handler\<close> and its \<^verbatim>\<open>Signal_context_killer\<close>. As there, \<open>None\<close> is an assertion that fails or
  an object that is used after its destruction. The field \<open>sig_log\<close> records for the statements which
  context was delivered with how many submits; no operation reads it.
\<close>

section \<open>State\<close>

type_synonym cid = nat
type_synonym rid = nat

record sigctx =
  c_receiver :: rid
  c_imprint :: nat
  c_killer :: "tid option"
  c_submits :: u32
  c_ack :: bool
  c_killed :: bool
  c_deliver_enq :: bool

definition sigctx_init :: "rid \<Rightarrow> nat \<Rightarrow> sigctx" where
  "sigctx_init r imprint = \<lparr>c_receiver = r, c_imprint = imprint, c_killer = None, c_submits = 0,
     c_ack = True, c_killed = False, c_deliver_enq = False\<rparr>"

record sigrcv =
  r_handlers :: "tid list"
  r_deliver :: "cid list"
  r_contexts :: "cid list"

record skernel = kernel +
  ctx_alive :: "cid \<Rightarrow> bool"
  ctx :: "cid \<Rightarrow> sigctx"
  rcv_alive :: "rid \<Rightarrow> bool"
  rcv :: "rid \<Rightarrow> sigrcv"
  h_receiver :: "tid \<Rightarrow> rid option"
  h_queued :: "tid \<Rightarrow> bool"
  k_context :: "tid \<Rightarrow> cid option"
  cancel_next :: "tid \<Rightarrow> bool"
  sig_log :: "(cid \<times> nat) list"

definition ctx_upd :: "cid \<Rightarrow> (sigctx \<Rightarrow> sigctx) \<Rightarrow> skernel \<Rightarrow> skernel" where
  "ctx_upd c f s = s\<lparr>ctx := (ctx s)(c := f (ctx s c))\<rparr>"

definition rcv_upd :: "rid \<Rightarrow> (sigrcv \<Rightarrow> sigrcv) \<Rightarrow> skernel \<Rightarrow> skernel" where
  "rcv_upd r f s = s\<lparr>rcv := (rcv s)(r := f (rcv s r))\<rparr>"

section \<open>Callbacks to the threads\<close>

definition signal_context_kill_pending :: "tid \<Rightarrow> skernel \<Rightarrow> skernel option" where
  "signal_context_kill_pending t s =
     (if t_state (thr s t) = ACTIVE then become_inactive AWAITS_SIGNAL_CONTEXT_KILL t s else None)"

definition signal_context_kill_done :: "tid \<Rightarrow> skernel \<Rightarrow> skernel option" where
  "signal_context_kill_done t s =
     (if t_state (thr s t) = AWAITS_SIGNAL_CONTEXT_KILL then become_active t (user_arg_0 0 t s) else None)"

definition signal_context_kill_failed :: "tid \<Rightarrow> skernel \<Rightarrow> skernel option" where
  "signal_context_kill_failed t s =
     (if t_state (thr s t) = AWAITS_SIGNAL_CONTEXT_KILL then become_active t (user_arg_0 (- 1) t s) else None)"

definition signal_wait_for_signal :: "tid \<Rightarrow> skernel \<Rightarrow> skernel option" where
  "signal_wait_for_signal t = become_inactive AWAITS_SIGNAL t"

definition signal_receive_signal :: "nat list \<Rightarrow> tid \<Rightarrow> skernel \<Rightarrow> skernel option" where
  "signal_receive_signal data t s =
     (if t_state (thr s t) = AWAITS_SIGNAL
      then become_active t (thr_upd t (\<lambda>x. x\<lparr>t_utcb := data @ drop (length data) (t_utcb x)\<rparr>) s) else None)"

section \<open>Receivers and contexts\<close>

definition delivered :: "cid \<Rightarrow> skernel \<Rightarrow> skernel" where
  "delivered c = ctx_upd c (\<lambda>x. x\<lparr>c_submits := 0, c_ack := False\<rparr>)"

text \<open>One round of the loop: the first context that can be delivered goes to the first handler.\<close>

definition listen_round :: "rid \<Rightarrow> cid \<Rightarrow> cid list \<Rightarrow> tid \<Rightarrow> tid list \<Rightarrow> skernel \<Rightarrow> skernel option" where
  "listen_round r c cs h hs s =
     (if \<not> ctx_alive s c \<or> \<not> alive s h then None
      else
        let s1 = ctx_upd c (\<lambda>x. x\<lparr>c_deliver_enq := False\<rparr>) (rcv_upd r (\<lambda>x. x\<lparr>r_deliver := cs\<rparr>) s);
            n = unat (c_submits (ctx s1 c));
            data = [c_imprint (ctx s1 c), n];
            s2 = (rcv_upd r (\<lambda>x. x\<lparr>r_handlers := hs\<rparr>) s1)
                   \<lparr>h_queued := (h_queued s1)(h := False), h_receiver := (h_receiver s1)(h := None),
                    sig_log := sig_log s1 @ [(c, n)]\<rparr>
        in do {
          s3 \<leftarrow> signal_receive_signal data h s2;
          Some (delivered c s3)
        })"

partial_function (option) listen :: "rid \<Rightarrow> skernel \<Rightarrow> skernel option" where
  "listen r s = (case r_deliver (rcv s r) of
     [] \<Rightarrow> Some s
   | c # cs \<Rightarrow> (case r_handlers (rcv s r) of
       [] \<Rightarrow> Some s
     | h # hs \<Rightarrow> do { s1 \<leftarrow> listen_round r c cs h hs s; listen r s1 }))"

definition add_deliverable :: "cid \<Rightarrow> skernel \<Rightarrow> skernel option" where
  "add_deliverable c s =
     (let r = c_receiver (ctx s c)
      in if \<not> rcv_alive s r then None
         else listen r
           (if c_deliver_enq (ctx s c) then s
            else ctx_upd c (\<lambda>x. x\<lparr>c_deliver_enq := True\<rparr>) (rcv_upd r (\<lambda>x. x\<lparr>r_deliver := r_deliver x @ [c]\<rparr>) s)))"

definition deliverable :: "cid \<Rightarrow> skernel \<Rightarrow> skernel option" where
  "deliverable c s = (if c_submits (ctx s c) \<noteq> 0 then add_deliverable c s else Some s)"

definition can_submit :: "u32 \<Rightarrow> sigctx \<Rightarrow> bool" where
  "can_submit n x \<longleftrightarrow> \<not> (c_killed x \<or> c_submits x \<ge> - 1 - n)"

definition submit :: "u32 \<Rightarrow> cid \<Rightarrow> skernel \<Rightarrow> skernel option" where
  "submit n c s =
     (if c_killed (ctx s c) \<or> c_submits (ctx s c) \<ge> - 1 - n then Some s
      else
        let s1 = ctx_upd c (\<lambda>x. x\<lparr>c_submits := c_submits x + n\<rparr>) s
        in if c_ack (ctx s1 c) then deliverable c s1 else Some s1)"

definition ack :: "cid \<Rightarrow> skernel \<Rightarrow> skernel option" where
  "ack c s =
     (if c_ack (ctx s c) then Some s
      else if \<not> c_killed (ctx s c) then deliverable c (ctx_upd c (\<lambda>x. x\<lparr>c_ack := True\<rparr>) s)
      else case c_killer (ctx s c) of
             None \<Rightarrow> Some s
           | Some k \<Rightarrow>
               if \<not> alive s k then None
               else do {
                 s1 \<leftarrow> signal_context_kill_done k (s\<lparr>k_context := (k_context s)(k := None)\<rparr>);
                 Some (ctx_upd c (\<lambda>x. x\<lparr>c_killer := None\<rparr>) s1)
               })"

definition can_kill :: "sigctx \<Rightarrow> bool" where
  "can_kill x \<longleftrightarrow> (if c_killed x then c_ack x else True)"

definition kill :: "tid \<Rightarrow> cid \<Rightarrow> skernel \<Rightarrow> skernel option" where
  "kill k c s =
     (if c_killed (ctx s c) then Some s
      else if c_ack (ctx s c) then Some (ctx_upd c (\<lambda>x. x\<lparr>c_killed := True\<rparr>) s)
      else signal_context_kill_pending k
        ((ctx_upd c (\<lambda>x. x\<lparr>c_killer := Some k, c_killed := True\<rparr>) s)\<lparr>k_context := (k_context s)(k := Some c)\<rparr>))"

definition context_destructed :: "cid \<Rightarrow> skernel \<Rightarrow> skernel" where
  "context_destructed c s =
     (let r = c_receiver (ctx s c);
          s1 = rcv_upd r (\<lambda>x. x\<lparr>r_contexts := remove1 c (r_contexts x)\<rparr>) s
      in if \<not> c_deliver_enq (ctx s1 c) then s1
         else ctx_upd c (\<lambda>x. x\<lparr>c_deliver_enq := False\<rparr>) (rcv_upd r (\<lambda>x. x\<lparr>r_deliver := remove1 c (r_deliver x)\<rparr>) s1))"

definition destruct_context :: "cid \<Rightarrow> skernel \<Rightarrow> skernel option" where
  "destruct_context c s =
     (if \<not> ctx_alive s c \<or> \<not> rcv_alive s (c_receiver (ctx s c)) then None
      else do {
        s1 \<leftarrow> (case c_killer (ctx s c) of
                 None \<Rightarrow> Some s
               | Some k \<Rightarrow> if alive s k then signal_context_kill_failed k s else None);
        let s2 = context_destructed c s1;
        Some (s2\<lparr>ctx_alive := (ctx_alive s2)(c := False)\<rparr>)
      })"

definition new_context :: "cid \<Rightarrow> rid \<Rightarrow> nat \<Rightarrow> skernel \<Rightarrow> skernel option" where
  "new_context c r imprint s =
     (if ctx_alive s c \<or> \<not> rcv_alive s r then None
      else Some (rcv_upd r (\<lambda>x. x\<lparr>r_contexts := r_contexts x @ [c]\<rparr>)
        (s\<lparr>ctx_alive := (ctx_alive s)(c := True), ctx := (ctx s)(c := sigctx_init r imprint)\<rparr>)))"

definition new_receiver :: "rid \<Rightarrow> skernel \<Rightarrow> skernel option" where
  "new_receiver r s =
     (if rcv_alive s r then None
      else Some (s\<lparr>rcv_alive := (rcv_alive s)(r := True),
                   rcv := (rcv s)(r := \<lparr>r_handlers = [], r_deliver = [], r_contexts = []\<rparr>)\<rparr>))"

definition can_add_handler :: "tid \<Rightarrow> skernel \<Rightarrow> bool" where
  "can_add_handler h s \<longleftrightarrow> h_receiver s h = None"

definition add_handler :: "rid \<Rightarrow> tid \<Rightarrow> skernel \<Rightarrow> skernel option" where
  "add_handler r h s =
     (if h_receiver s h \<noteq> None then Some s
      else if h_queued s h then None
      else do {
        s1 \<leftarrow> signal_wait_for_signal h
               ((rcv_upd r (\<lambda>x. x\<lparr>r_handlers := r_handlers x @ [h]\<rparr>) s)
                  \<lparr>h_queued := (h_queued s)(h := True), h_receiver := (h_receiver s)(h := Some r)\<rparr>);
        listen r s1
      })"

definition handler_cancelled :: "rid \<Rightarrow> tid \<Rightarrow> skernel \<Rightarrow> skernel" where
  "handler_cancelled r h s =
     (if h \<in> set (r_handlers (rcv s r))
      then (rcv_upd r (\<lambda>x. x\<lparr>r_handlers := remove1 h (r_handlers x)\<rparr>) s)\<lparr>h_queued := (h_queued s)(h := False)\<rparr>
      else s)"

definition handler_cancel_waiting :: "tid \<Rightarrow> skernel \<Rightarrow> skernel option" where
  "handler_cancel_waiting h s =
     (case h_receiver s h of
        None \<Rightarrow> Some s
      | Some r \<Rightarrow>
          if \<not> rcv_alive s r then None
          else Some ((handler_cancelled r h s)\<lparr>h_receiver := (h_receiver s)(h := None)\<rparr>))"

definition killer_cancel_waiting :: "tid \<Rightarrow> skernel \<Rightarrow> skernel option" where
  "killer_cancel_waiting k s =
     (case k_context s k of
        None \<Rightarrow> Some s
      | Some c \<Rightarrow> if ctx_alive s c then Some (ctx_upd c (\<lambda>x. x\<lparr>c_killer := None\<rparr>) s) else None)"

primrec destruct_contexts :: "cid list \<Rightarrow> skernel \<Rightarrow> skernel option" where
  "destruct_contexts [] s = Some s"
| "destruct_contexts (c # cs) s = do { s1 \<leftarrow> destruct_context c s; destruct_contexts cs s1 }"

definition destruct_receiver :: "rid \<Rightarrow> skernel \<Rightarrow> skernel option" where
  "destruct_receiver r s =
     (if \<not> rcv_alive s r then None
      else do {
        s1 \<leftarrow> destruct_contexts (r_contexts (rcv s r)) s;
        Some (s1\<lparr>rcv_alive := (rcv_alive s1)(r := False)\<rparr>)
      })"

section \<open>Kernel calls\<close>

definition cancel_blocking :: "tid \<Rightarrow> skernel \<Rightarrow> skernel option" where
  "cancel_blocking t s =
     (case t_state (thr s t) of
        AWAITS_RESTART \<Rightarrow> become_active t s
      | AWAITS_IPC \<Rightarrow> cancel_waiting t s
      | AWAITS_SIGNAL \<Rightarrow> do { s1 \<leftarrow> handler_cancel_waiting t s; become_active t (user_arg_0 (- 1) t s1) }
      | AWAITS_SIGNAL_CONTEXT_KILL \<Rightarrow> killer_cancel_waiting t s
      | ACTIVE \<Rightarrow> Some s
      | DEAD \<Rightarrow> Some s
      | AWAITS_START \<Rightarrow> Some s)"

definition call_await_signal :: "tid \<Rightarrow> rid option \<Rightarrow> skernel \<Rightarrow> skernel option" where
  "call_await_signal t ro s =
     (if cancel_next s t then Some ((user_arg_0 (- 1) t s)\<lparr>cancel_next := (cancel_next s)(t := False)\<rparr>)
      else case ro of
             None \<Rightarrow> Some (user_arg_0 (- 1) t s)
           | Some r \<Rightarrow>
               if \<not> rcv_alive s r then None
               else if \<not> can_add_handler t s then Some (user_arg_0 (- 1) t s)
               else do { s1 \<leftarrow> add_handler r t s; Some (user_arg_0 0 t s1) })"

definition call_pending_signal :: "tid \<Rightarrow> rid option \<Rightarrow> skernel \<Rightarrow> skernel option" where
  "call_pending_signal t ro s =
     (case ro of
        None \<Rightarrow> Some (user_arg_0 (- 1) t s)
      | Some r \<Rightarrow>
          if \<not> rcv_alive s r then None
          else if \<not> can_add_handler t s then Some (user_arg_0 (- 1) t s)
          else do {
            s1 \<leftarrow> add_handler r t s;
            (if t_state (thr s1 t) = AWAITS_SIGNAL
             then do { s2 \<leftarrow> cancel_blocking t s1; Some (user_arg_0 (- 1) t s2) }
             else Some (user_arg_0 0 t s1))
          })"

definition call_cancel_next_await_signal :: "bool \<Rightarrow> tid \<Rightarrow> tid option \<Rightarrow> skernel \<Rightarrow> skernel option" where
  "call_cancel_next_await_signal same_pd t to s =
     (case to of
        None \<Rightarrow> die t s
      | Some u \<Rightarrow>
          if \<not> alive s u then None
          else if \<not> same_pd then die t s
          else if t_state (thr s u) = AWAITS_SIGNAL then cancel_blocking u s
          else Some (s\<lparr>cancel_next := (cancel_next s)(u := True)\<rparr>))"

definition call_submit_signal :: "tid \<Rightarrow> cid option \<Rightarrow> u32 \<Rightarrow> skernel \<Rightarrow> skernel option" where
  "call_submit_signal t co n s =
     (case co of
        None \<Rightarrow> Some (user_arg_0 (- 1) t s)
      | Some c \<Rightarrow>
          if \<not> ctx_alive s c then None
          else if \<not> can_submit n (ctx s c) then Some (user_arg_0 (- 1) t s)
          else do { s1 \<leftarrow> submit n c s; Some (user_arg_0 0 t s1) })"

definition call_ack_signal :: "cid option \<Rightarrow> skernel \<Rightarrow> skernel option" where
  "call_ack_signal co s =
     (case co of None \<Rightarrow> Some s | Some c \<Rightarrow> if ctx_alive s c then ack c s else None)"

definition call_kill_signal_context :: "tid \<Rightarrow> cid option \<Rightarrow> skernel \<Rightarrow> skernel option" where
  "call_kill_signal_context t co s =
     (case co of
        None \<Rightarrow> Some (user_arg_0 (- 1) t s)
      | Some c \<Rightarrow>
          if \<not> ctx_alive s c then None
          else if \<not> can_kill (ctx s c) then Some (user_arg_0 (- 1) t s)
          else kill t c s)"

text \<open>
  An MMU fault of a thread, \<^verbatim>\<open>known\<close> unless its type is \<^verbatim>\<open>UNKNOWN\<close>, is signalled to its pager; the
  interrupt of a device is signalled to the context of the driver. Both take the context as argument; theory
  \<open>Signal_Sources\<close> has the pointers by which thread and interrupt keep it, and the masking of the interrupt.
\<close>

definition mmu_fault :: "tid \<Rightarrow> bool \<Rightarrow> cid option \<Rightarrow> skernel \<Rightarrow> skernel option" where
  "mmu_fault t known pager s = do {
     s1 \<leftarrow> mmu_exception t s;
     (if \<not> known then Some s1
      else case pager of
             None \<Rightarrow> Some s1
           | Some c \<Rightarrow>
               if \<not> ctx_alive s1 c then None
               else if can_submit 1 (ctx s1 c) then submit 1 c s1 else Some s1)
   }"

definition irq_occurred :: "cid \<Rightarrow> skernel \<Rightarrow> skernel option" where
  "irq_occurred c s =
     (if \<not> ctx_alive s c then None
      else if can_submit 1 (ctx s c) then submit 1 c s else Some s)"

text \<open>The destructor of a thread: its killer, its handler, its IPC node and the thread itself.\<close>

definition destruct_thread :: "tid \<Rightarrow> skernel \<Rightarrow> skernel option" where
  "destruct_thread t s =
     (if \<not> alive s t then None
      else do {
        s1 \<leftarrow> killer_cancel_waiting t s;
        s2 \<leftarrow> handler_cancel_waiting t s1;
        delete_thread t s2
      })"

definition construct_thread :: "tid \<Rightarrow> skernel \<Rightarrow> skernel option" where
  "construct_thread t s = do {
     s1 \<leftarrow> new_thread t s;
     Some (s1\<lparr>h_receiver := (h_receiver s1)(t := None), h_queued := (h_queued s1)(t := False),
              k_context := (k_context s1)(t := None), cancel_next := (cancel_next s1)(t := False)\<rparr>)
   }"

section \<open>Frame\<close>

text \<open>The threads that block for the sake of signals.\<close>

definition sig_blocked :: "thread_state \<Rightarrow> bool" where
  "sig_blocked st \<longleftrightarrow> st = AWAITS_SIGNAL \<or> st = AWAITS_SIGNAL_CONTEXT_KILL"

lemma sig_blocked_simps [simp]:
  "sig_blocked AWAITS_SIGNAL" "sig_blocked AWAITS_SIGNAL_CONTEXT_KILL" "\<not> sig_blocked ACTIVE" "\<not> sig_blocked AWAITS_IPC"
  "\<not> sig_blocked AWAITS_START" "\<not> sig_blocked AWAITS_RESTART" "\<not> sig_blocked DEAD"
  by (simp_all add: sig_blocked_def)

definition state_of :: "'a kernel_scheme \<Rightarrow> tid \<Rightarrow> thread_state" where
  "state_of s t = t_state (thr s t)"

lemma state_of_upd [simp]:
  "state_of (node_upd i f s) = state_of s" "state_of (user_arg_0 v i s) = state_of s"
  "state_of (ipc_copy_msg i h s) = state_of s" "state_of (set_ready b A s) = state_of s"
  "state_of (set_state st i s) = (state_of s)(i := st)"
  by (auto simp: state_of_def user_arg_0_def ipc_copy_msg_def set_state_def fun_eq_iff)

lemma more_upd [simp]:
  "kernel.more (node_upd i f s) = kernel.more s" "kernel.more (thr_upd i g s) = kernel.more s"
  "kernel.more (user_arg_0 v i s) = kernel.more s" "kernel.more (ipc_copy_msg i h s) = kernel.more s"
  "kernel.more (set_ready b A s) = kernel.more s" "kernel.more (set_state st i s) = kernel.more s"
  by (simp_all add: node_upd_def thr_upd_def user_arg_0_def ipc_copy_msg_def set_ready_def set_state_def)

lemma alive_upd [simp]:
  "alive (user_arg_0 v i s) = alive s" "alive (ipc_copy_msg i h s) = alive s" "alive (set_state st i s) = alive s"
  by (simp_all add: user_arg_0_def ipc_copy_msg_def set_state_def)

text \<open>The operations on IPC neither block nor wake such threads and leave the state of signals alone.\<close>

definition calm :: "'a kernel_scheme \<Rightarrow> 'a kernel_scheme \<Rightarrow> bool" where
  "calm s s' \<longleftrightarrow> kernel.more s' = kernel.more s \<and> alive s' = alive s \<and>
     (\<forall>t. sig_blocked (state_of s t) \<or> sig_blocked (state_of s' t) \<longrightarrow> state_of s' t = state_of s t)"

lemma calm_refl [simp]: "calm s s"
  by (simp add: calm_def)

lemma calm_trans [trans]: "calm s s' \<Longrightarrow> calm s' s'' \<Longrightarrow> calm s s''"
  unfolding calm_def by metis

lemma calm_upd [simp]:
  "calm s' (node_upd i f s) = calm s' s" "calm s' (user_arg_0 v i s) = calm s' s"
  "calm s' (ipc_copy_msg i h s) = calm s' s" "calm s' (set_ready b A s) = calm s' s"
  by (simp_all add: calm_def)

lemma calm_set_state:
  "calm s' s \<Longrightarrow> \<not> sig_blocked (state_of s i) \<Longrightarrow> \<not> sig_blocked st \<Longrightarrow> calm s' (set_state st i s)"
  unfolding calm_def state_of_upd more_upd alive_upd by (metis fun_upd_apply)

text \<open>Every result of an operation relates calmly to the state \<open>s\<close>; rules to compose operations.\<close>

definition calmly :: "'a kernel_scheme \<Rightarrow> 'a kernel_scheme option \<Rightarrow> bool" where
  "calmly s m \<longleftrightarrow> (\<forall>s'. m = Some s' \<longrightarrow> calm s s')"

named_theorems calm_wp

lemma calmlyD: "calmly s m \<Longrightarrow> m = Some s' \<Longrightarrow> calm s s'"
  by (simp add: calmly_def)

lemma calmly_basic [calm_wp]: "calm s s' \<Longrightarrow> calmly s (Some s')" "calmly s None"
  by (simp_all add: calmly_def)

lemma calmly_bind [calm_wp]:
  "calmly s m \<Longrightarrow> (\<And>s1. m = Some s1 \<Longrightarrow> calm s s1 \<Longrightarrow> calmly s (f s1)) \<Longrightarrow> calmly s (Option.bind m f)"
  by (cases m) (simp_all add: calmly_def)

lemma calmly_cases [calm_wp]:
  "(b \<Longrightarrow> calmly s m) \<Longrightarrow> (\<not> b \<Longrightarrow> calmly s m') \<Longrightarrow> calmly s (if b then m else m')"
  "(x = None \<Longrightarrow> calmly s m) \<Longrightarrow> (\<And>y. x = Some y \<Longrightarrow> calmly s (g y)) \<Longrightarrow> calmly s (case x of None \<Rightarrow> m | Some y \<Rightarrow> g y)"
  "(xs = [] \<Longrightarrow> calmly s m) \<Longrightarrow> (\<And>y ys. xs = y # ys \<Longrightarrow> calmly s (h y ys)) \<Longrightarrow> calmly s (case xs of [] \<Rightarrow> m | y # ys \<Rightarrow> h y ys)"
  by (auto split: option.splits list.splits)

lemma calmly_trans: "calm s s1 \<Longrightarrow> calmly s1 m \<Longrightarrow> calmly s m"
  unfolding calmly_def using calm_trans by blast

lemma used_shares_calm:
  assumes own: "\<And>i s s'. own i s = Some s' \<Longrightarrow> calm s s' \<and> state_of s' = state_of s"
  shows "used_shares own ts s = Some s' \<Longrightarrow> calm s s' \<and> state_of s' = state_of s"
proof -
  assume u: "used_shares own ts s = Some s'"
  have "own = own \<longrightarrow> calm s s' \<and> state_of s' = state_of s"
  proof (rule used_shares.raw_induct [where P = "\<lambda>o1 ts s s'. o1 = own \<longrightarrow> calm s s' \<and> state_of s' = state_of s", OF _ u])
    fix us o1 ts and s s' :: "'a kernel_scheme"
    assume ih: "\<And>o1 ts (s :: 'a kernel_scheme) s'. us o1 ts s = Some s' \<Longrightarrow> o1 = own \<longrightarrow> calm s s' \<and> state_of s' = state_of s"
      and "(case ts of [] \<Rightarrow> Some s | i # ks \<Rightarrow> do { s1 \<leftarrow> o1 i s; us o1 (helpers s1 i @ ks) s1 }) = Some s'"
    then show "o1 = own \<longrightarrow> calm s s' \<and> state_of s' = state_of s"
      by (auto split: list.splits simp: bind_eq_Some_conv dest!: own ih [rule_format] intro: calm_trans)
  qed
  then show ?thesis by simp
qed

lemma shares_calm:
  "activate_used_shares i s = Some s' \<Longrightarrow> calm s s' \<and> state_of s' = state_of s"
  "deactivate_used_shares i s = Some s' \<Longrightarrow> calm s s' \<and> state_of s' = state_of s"
proof -
  have "calm s1 s2 \<and> state_of s2 = state_of s1" if "activate_own_share j s1 = Some s2 \<or> deactivate_own_share j s1 = Some s2"
    for j and s1 s2 :: "'a kernel_scheme"
    using that by (auto simp: activate_own_share_def deactivate_own_share_def own_share_eq split: if_splits)
  then show "activate_used_shares i s = Some s' \<Longrightarrow> calm s s' \<and> state_of s' = state_of s"
    "deactivate_used_shares i s = Some s' \<Longrightarrow> calm s s' \<and> state_of s' = state_of s"
    unfolding activate_used_shares_def deactivate_used_shares_def using used_shares_calm by blast+
qed

lemma become_calm [calm_wp]:
  "calm s0 s \<Longrightarrow> \<not> sig_blocked (state_of s i) \<Longrightarrow> calmly s0 (become_active i s)"
  "calm s0 s \<Longrightarrow> \<not> sig_blocked (state_of s i) \<Longrightarrow> \<not> sig_blocked st \<Longrightarrow> calmly s0 (become_inactive st i s)"
proof -
  assume c: "calm s0 s" "\<not> sig_blocked (state_of s i)"
  have "calmly s (become_active i s)" "\<not> sig_blocked st \<Longrightarrow> calmly s (become_inactive st i s)"
    unfolding become_active_def become_inactive_def calmly_def using c(2)
    by (auto simp: bind_eq_Some_conv split: if_splits dest!: shares_calm intro!: calm_set_state)
  with c(1) show "calmly s0 (become_active i s)" "\<not> sig_blocked st \<Longrightarrow> calmly s0 (become_inactive st i s)"
    using calmly_trans by blast+
qed

lemma shares_calmly [calm_wp]:
  "calm s0 s \<Longrightarrow> calmly s0 (activate_used_shares i s)" "calm s0 s \<Longrightarrow> calmly s0 (deactivate_used_shares i s)"
  using shares_calm calm_trans unfolding calmly_def by blast+

lemma awaits_ipc_calm: "t_state (thr s i) = AWAITS_IPC \<Longrightarrow> \<not> sig_blocked (state_of s i)"
  by (simp add: state_of_def)

lemma callback_calm [calm_wp]:
  "calm s0 s \<Longrightarrow> calmly s0 (ipc_send_request_done v i s)"
  "calm s0 s \<Longrightarrow> calmly s0 (ipc_send_request_succeeded i s)"
  "calm s0 s \<Longrightarrow> calmly s0 (ipc_send_request_failed i s)"
  "calm s0 s \<Longrightarrow> calmly s0 (ipc_await_request_succeeded i s)"
  "calm s0 s \<Longrightarrow> calmly s0 (ipc_await_request_failed i s)"
  unfolding ipc_send_request_succeeded_def ipc_send_request_failed_def ipc_send_request_done_def
    ipc_await_request_succeeded_def ipc_await_request_failed_def Let_def
  by (intro calm_wp calm_set_state; simp add: state_of_def)+

lemma remove_withdraw_calm [simp]: "calm s' (remove_item i d s) = calm s' s" "calm s' (withdraw i d s) = calm s' s"
    "calm s' (receive_from i h s) = calm s' s"
  by (simp_all add: remove_item_def withdraw_def receive_from_def)

lemma ipc_node_calm [calm_wp]:
  "calm s0 s \<Longrightarrow> calmly s0 (cancel_send i s)"
  "calm s0 s \<Longrightarrow> calmly s0 (send i d hlp s)"
  "calm s0 s \<Longrightarrow> calmly s0 (wait i s)"
  "calm s0 s \<Longrightarrow> calmly s0 (reply i s)"
  unfolding cancel_send_def send_def enqueue_item_def wait_def reply_def Let_def
  by (intro calm_wp; simp)+

lemma cancel_senders_calm [calm_wp]: "calm s0 s \<Longrightarrow> calmly s0 (cancel_senders hs s)"
  by (induction hs arbitrary: s) (auto intro!: calm_wp)

lemma destruct_node_calm [calm_wp]: "calm s0 s \<Longrightarrow> calmly s0 (destruct_node i s)"
  "calm s0 s \<Longrightarrow> calmly s0 (cancel_waiting i s)"
  unfolding destruct_node_def cancel_waiting_def by (intro calm_wp; simp)+

lemma calm_unblocked: "calm s s1 \<Longrightarrow> \<not> sig_blocked (state_of s c) \<Longrightarrow> \<not> sig_blocked (state_of s1 c)"
  unfolding calm_def by metis

lemma caller_unblocked: "caller_ok s c \<Longrightarrow> \<not> sig_blocked (state_of s c)"
  by (simp add: caller_ok_def runnable_def state_of_def)

lemma call_send_calm: "\<not> sig_blocked (state_of s c) \<Longrightarrow> calmly s (call_send_request_msg mem c dst s)"
  unfolding call_send_request_msg_def Let_def by (intro calm_wp calm_set_state; simp add: calm_unblocked)

lemma call_await_calm: "calm s0 s \<Longrightarrow> \<not> sig_blocked (state_of s0 c) \<Longrightarrow> calmly s0 (call_await_request_msg mem c s)"
  unfolding call_await_request_msg_def by (intro calm_wp; simp add: calm_unblocked)

lemma call_reply_calm: "\<not> sig_blocked (state_of s c) \<Longrightarrow> calmly s (call_send_reply_msg mem aw c s)"
  unfolding call_send_reply_msg_def by (intro calm_wp call_await_calm; simp)

lemma call_restart_calm: "\<not> sig_blocked (state_of s c) \<Longrightarrow> calmly s (call_restart_thread allowed c dst s)"
proof -
  assume c: "\<not> sig_blocked (state_of s c)"
  have "calmly s (do { (r, s1) \<leftarrow> restart t s; Some (user_arg_0 (if r then 1 else 0) c s1) })" for t
  proof (cases "t_state (thr s t) = AWAITS_RESTART")
    case True
    then have "calmly s (become_active t s)" by (intro become_calm) (simp_all add: state_of_def)
    with True show ?thesis by (auto simp: restart_def calmly_def bind_eq_Some_conv)
  qed (simp add: restart_def calmly_def)
  with c show ?thesis unfolding call_restart_thread_def die_def by (intro calm_wp) simp_all
qed

text \<open>Of the kernel operations of theory \<open>Ipc_Node\<close>, all but those that create or destroy threads are calm.\<close>

fun lifecycle :: "kop \<Rightarrow> bool" where
  "lifecycle (New_thread t) = True"
| "lifecycle (Delete_thread t) = True"
| "lifecycle _ = False"

lemma thr_upd_calm [simp]: "t_state (g (thr s i)) = t_state (thr s i) \<Longrightarrow> calm s0 (thr_upd i g s) = calm s0 s"
proof -
  assume "t_state (g (thr s i)) = t_state (thr s i)"
  then have "state_of (thr_upd i g s) = state_of s" by (auto simp: state_of_def fun_eq_iff)
  then show ?thesis unfolding calm_def by simp
qed

lemma kexec_calm:
  assumes op: "kop_ok op s" "\<not> lifecycle op"
  shows "calmly s (kexec op s)"
proof (cases op)
  case (Send mem c dst)
  then show ?thesis using op by (simp add: call_send_calm caller_unblocked)
next
  case (Reply mem aw c)
  then show ?thesis using op by (simp add: call_reply_calm caller_unblocked)
next
  case (Await mem c)
  then show ?thesis using op by (simp add: call_await_calm caller_unblocked)
next
  case (Restart allowed c dst)
  then show ?thesis using op by (simp add: call_restart_calm caller_unblocked)
next
  case (Start c t cpu)
  then have "\<not> sig_blocked (t_state (thr s t))" using op by simp
  then have "\<not> sig_blocked (state_of (ipc_copy_msg t c (thr_upd t (\<lambda>x. x\<lparr>t_cpu := Some cpu\<rparr>) (user_arg_0 0 c s))) t)"
    by (cases "t = c") (simp_all add: state_of_def user_arg_0_def ipc_copy_msg_def)
  with Start show ?thesis by (auto simp: call_start_thread_def intro!: calm_wp)
next
  case (Enter_cpu cpu)
  then show ?thesis by (simp add: calmly_def calm_def state_of_def)
qed (use op in \<open>auto simp: call_stop_thread_def mmu_exception_def call_pause_thread_def call_resume_thread_def
   caller_unblocked intro!: calm_wp\<close>)

section \<open>The invariant of signals\<close>

text \<open>A thread awaits a signal exactly as long as its handler is queued at a receiver.\<close>

definition handlers_ok :: "skernel \<Rightarrow> bool" where
  "handlers_ok s \<longleftrightarrow>
     (\<forall>r. rcv_alive s r \<longrightarrow> distinct (r_handlers (rcv s r)) \<and>
        (\<forall>t \<in> set (r_handlers (rcv s r)). alive s t \<and> h_receiver s t = Some r)) \<and>
     (\<forall>t. alive s t \<longrightarrow> (h_queued s t \<longleftrightarrow> h_receiver s t \<noteq> None) \<and> (state_of s t = AWAITS_SIGNAL \<longleftrightarrow> h_receiver s t \<noteq> None) \<and>
        (\<forall>r. h_receiver s t = Some r \<longrightarrow> rcv_alive s r \<and> t \<in> set (r_handlers (rcv s r))))"

text \<open>A thread awaits the kill of a context exactly as long as the context knows it as its killer.\<close>

definition killers_ok :: "skernel \<Rightarrow> bool" where
  "killers_ok s \<longleftrightarrow>
     (\<forall>c t. ctx_alive s c \<and> c_killer (ctx s c) = Some t \<longrightarrow>
        alive s t \<and> k_context s t = Some c \<and> c_killed (ctx s c) \<and> \<not> c_ack (ctx s c)) \<and>
     (\<forall>t. alive s t \<longrightarrow> (state_of s t = AWAITS_SIGNAL_CONTEXT_KILL \<longleftrightarrow> k_context s t \<noteq> None) \<and>
        (\<forall>c. k_context s t = Some c \<longrightarrow> ctx_alive s c \<and> c_killer (ctx s c) = Some t))"

text \<open>
  Contexts and receivers know each other, and a context is queued for delivery exactly if it has submits
  and its last delivery is acknowledged.
\<close>

definition contexts_ok :: "skernel \<Rightarrow> bool" where
  "contexts_ok s \<longleftrightarrow>
     (\<forall>r. rcv_alive s r \<longrightarrow> distinct (r_deliver (rcv s r)) \<and> distinct (r_contexts (rcv s r)) \<and>
        (\<forall>c \<in> set (r_contexts (rcv s r)) \<union> set (r_deliver (rcv s r)). ctx_alive s c \<and> c_receiver (ctx s c) = r)) \<and>
     (\<forall>c. ctx_alive s c \<longrightarrow> rcv_alive s (c_receiver (ctx s c)) \<and> c \<in> set (r_contexts (rcv s (c_receiver (ctx s c)))) \<and>
        (c_deliver_enq (ctx s c) \<longleftrightarrow> c \<in> set (r_deliver (rcv s (c_receiver (ctx s c))))) \<and>
        (c_deliver_enq (ctx s c) \<longleftrightarrow> c_ack (ctx s c) \<and> c_submits (ctx s c) \<noteq> 0))"

definition idle :: "skernel \<Rightarrow> rid \<Rightarrow> bool" where
  "idle s r \<longleftrightarrow> r_deliver (rcv s r) = [] \<or> r_handlers (rcv s r) = []"

text \<open>The invariant, but that the receivers in \<open>R\<close> may have both deliverable contexts and waiting handlers.\<close>

definition sinv :: "rid set \<Rightarrow> skernel \<Rightarrow> bool" where
  "sinv R s \<longleftrightarrow> kinv {} s \<and> handlers_ok s \<and> killers_ok s \<and> contexts_ok s \<and> (\<forall>r. rcv_alive s r \<and> r \<notin> R \<longrightarrow> idle s r)"

lemma sinvD:
  assumes "sinv R s"
  shows "kinv {} s" "handlers_ok s" "killers_ok s" "contexts_ok s" "rcv_alive s r \<Longrightarrow> r \<notin> R \<Longrightarrow> idle s r"
  using assms by (simp_all add: sinv_def)

lemma more_fields:
  assumes "kernel.more s' = kernel.more (s :: skernel)"
  shows "ctx_alive s' = ctx_alive s" "ctx s' = ctx s" "rcv_alive s' = rcv_alive s" "rcv s' = rcv s" "h_receiver s' = h_receiver s"
    "h_queued s' = h_queued s" "k_context s' = k_context s" "cancel_next s' = cancel_next s" "sig_log s' = sig_log s"
  using assms by (cases s, cases s', simp)+

lemma calm_state: "calm s s' \<Longrightarrow> state_of s' t = AWAITS_SIGNAL \<longleftrightarrow> state_of s t = AWAITS_SIGNAL"
  "calm s s' \<Longrightarrow> state_of s' t = AWAITS_SIGNAL_CONTEXT_KILL \<longleftrightarrow> state_of s t = AWAITS_SIGNAL_CONTEXT_KILL"
  unfolding calm_def by (metis sig_blocked_simps(1,2))+

lemma sinv_calm:
  assumes "calm s s'" "sinv R s" "kinv {} s'"
  shows "sinv R s'"
proof -
  have "alive s' = alive s" and m: "kernel.more s' = kernel.more s" using assms(1) unfolding calm_def by blast+
  note f = this(1) more_fields [OF m] calm_state [OF assms(1)]
  show ?thesis using assms(2,3) unfolding sinv_def handlers_ok_def killers_ok_def contexts_ok_def idle_def f by blast
qed

lemma kinv_cong:
  assumes "alive s' = alive s" "node s' = node s" "thr s' = thr s"
  shows "kinv X s' = kinv X s"
proof -
  have "helps s' = helps s" using assms by (intro helps_cong)
  then show ?thesis unfolding kinv_def links_def share_ok_def help_rel_def assms by simp
qed

lemma ext_sel [simp]:
  "alive (ctx_upd c f s) = alive s" "node (ctx_upd c f s) = node s" "thr (ctx_upd c f s) = thr s" "executing (ctx_upd c f s) = executing s"
  "ctx_alive (ctx_upd c f s) = ctx_alive s" "ctx (ctx_upd c f s) = (ctx s)(c := f (ctx s c))" "rcv_alive (ctx_upd c f s) = rcv_alive s"
  "rcv (ctx_upd c f s) = rcv s" "h_receiver (ctx_upd c f s) = h_receiver s" "h_queued (ctx_upd c f s) = h_queued s"
  "k_context (ctx_upd c f s) = k_context s" "cancel_next (ctx_upd c f s) = cancel_next s" "sig_log (ctx_upd c f s) = sig_log s"
  "alive (rcv_upd r g s) = alive s" "node (rcv_upd r g s) = node s" "thr (rcv_upd r g s) = thr s" "executing (rcv_upd r g s) = executing s"
  "ctx_alive (rcv_upd r g s) = ctx_alive s" "ctx (rcv_upd r g s) = ctx s" "rcv_alive (rcv_upd r g s) = rcv_alive s"
  "rcv (rcv_upd r g s) = (rcv s)(r := g (rcv s r))" "h_receiver (rcv_upd r g s) = h_receiver s" "h_queued (rcv_upd r g s) = h_queued s"
  "k_context (rcv_upd r g s) = k_context s" "cancel_next (rcv_upd r g s) = cancel_next s" "sig_log (rcv_upd r g s) = sig_log s"
  by (simp_all add: ctx_upd_def rcv_upd_def)

lemma state_of_ext [simp]: "state_of (ctx_upd c f s) = state_of s" "state_of (rcv_upd r g s) = state_of s"
  by (simp_all add: state_of_def fun_eq_iff)

lemma kinv_ext [simp]: "kinv X (ctx_upd c f s) = kinv X s" "kinv X (rcv_upd r g s) = kinv X s"
  by (rule kinv_cong; simp)+

section \<open>Blocking and waking for signals\<close>

text \<open>Thread \<open>t\<close> gets the state \<open>st\<close>, every other thread keeps its state, and nothing of signals changes.\<close>

definition moved :: "tid \<Rightarrow> thread_state \<Rightarrow> 'a kernel_scheme \<Rightarrow> 'a kernel_scheme \<Rightarrow> bool" where
  "moved t st s s' \<longleftrightarrow> kernel.more s' = kernel.more s \<and> alive s' = alive s \<and> executing s' = executing s \<and>
     state_of s' = (state_of s)(t := st) \<and> (\<forall>i. t_utcb (thr s' i) = t_utcb (thr s i) \<and> t_arg0 (thr s' i) = t_arg0 (thr s i)) \<and>
     (\<forall>i. t_cpu (thr s' i) = t_cpu (thr s i) \<and> t_paused (thr s' i) = t_paused (thr s i))"

lemma movedI: "moved t st s (set_state st t s)" "moved t st s (set_state st t (set_ready b A s))"
  by (auto simp: moved_def set_state_def state_of_def fun_eq_iff)

lemma wake_kinv:
  assumes k: "kinv {} s" and t: "alive s t" "sig_blocked (state_of s t)"
  shows "\<exists>s'. become_active t s = Some s' \<and> kinv {} s' \<and> moved t ACTIVE s s'"
proof -
  have st: "t_state (thr s t) = AWAITS_SIGNAL \<or> t_state (thr s t) = AWAITS_SIGNAL_CONTEXT_KILL"
    using t(2) by (simp add: sig_blocked_def state_of_def)
  have ok: "node_ok (node s t) (thr s t)" "share_ok s t" using kinvD(2,3) [OF k t(1)] by auto
  then have h: "helps s t = None" using st by (intro not_sending_root [OF k t(1)]) (auto simp: node_ok_def)
  then have "\<not> t_ready (thr s t)" using ok(2) st by (auto simp: share_ok_def runnable_def)
  moreover have "node_ok (node s t) ((thr s t)\<lparr>t_state := ACTIVE\<rparr>)" using ok(1) st by (auto simp: node_ok_def)
  ultimately show ?thesis
    using become_active_kinv [where X = "{}", OF kinv_mono [OF k], of t] t(1) h st movedI by fastforce
qed

lemma sleep_kinv:
  assumes k: "kinv {} s" and c: "caller_ok s c" and st: "st \<noteq> ACTIVE" "st \<noteq> AWAITS_IPC" "st \<noteq> AWAITS_START"
  shows "\<exists>s'. become_inactive st c s = Some s' \<and> kinv {} s' \<and> moved c st s s'"
proof -
  obtain s' where s': "become_inactive st c s = Some s'" "kinv {} s'" using block_kinv [OF k c st] by blast
  note f = caller_facts [OF k c]
  have "s' = set_state st c (set_ready False (helping_tree s c) s)"
    using s'(1) deactivate_tree [OF k _ f(7,2)] c f(8,9) by (simp add: become_inactive_def caller_ok_def)
  with s' show ?thesis using movedI by blast
qed

section \<open>Delivery\<close>

definition signal_data :: "sigctx \<Rightarrow> nat list" where
  "signal_data x = [c_imprint x, unat (c_submits x)]"

text \<open>
  The effect of delivering contexts to handlers of receiver \<open>r\<close>: the pairs are removed from the head of
  the queues, each handler's thread is active with the context's data in its UTCB, and each context has
  no submits left and awaits its acknowledgement.
\<close>

definition serves :: "rid \<Rightarrow> (cid \<times> tid) list \<Rightarrow> skernel \<Rightarrow> skernel \<Rightarrow> bool" where
  "serves r ps s s' \<longleftrightarrow>
     alive s' = alive s \<and> executing s' = executing s \<and> ctx_alive s' = ctx_alive s \<and> rcv_alive s' = rcv_alive s \<and>
     k_context s' = k_context s \<and> cancel_next s' = cancel_next s \<and>
     ctx s' = (\<lambda>c. if c \<in> fst ` set ps then (ctx s c)\<lparr>c_submits := 0, c_ack := False, c_deliver_enq := False\<rparr> else ctx s c) \<and>
     rcv s' = (rcv s)(r := (rcv s r)\<lparr>r_handlers := drop (length ps) (r_handlers (rcv s r)),
        r_deliver := drop (length ps) (r_deliver (rcv s r))\<rparr>) \<and>
     h_receiver s' = (\<lambda>t. if t \<in> snd ` set ps then None else h_receiver s t) \<and>
     h_queued s' = (\<lambda>t. if t \<in> snd ` set ps then False else h_queued s t) \<and>
     state_of s' = (\<lambda>t. if t \<in> snd ` set ps then ACTIVE else state_of s t) \<and>
     sig_log s' = sig_log s @ map (\<lambda>p. (fst p, unat (c_submits (ctx s (fst p))))) ps \<and>
     (\<forall>t. t_cpu (thr s' t) = t_cpu (thr s t) \<and> t_paused (thr s' t) = t_paused (thr s t)) \<and>
     (\<forall>p \<in> set ps. t_utcb (thr s' (snd p)) = signal_data (ctx s (fst p)) @ drop 2 (t_utcb (thr s (snd p)))) \<and>
     (\<forall>t. t \<notin> snd ` set ps \<longrightarrow> t_utcb (thr s' t) = t_utcb (thr s t))"

lemma serves_Nil [simp]: "serves r [] s s"
  by (simp add: serves_def)

lemma servesD:
  assumes "serves r ps s s'"
  shows "alive s' = alive s" "executing s' = executing s" "ctx_alive s' = ctx_alive s" "rcv_alive s' = rcv_alive s"
    "k_context s' = k_context s" "cancel_next s' = cancel_next s"
    "ctx s' = (\<lambda>c. if c \<in> fst ` set ps then (ctx s c)\<lparr>c_submits := 0, c_ack := False, c_deliver_enq := False\<rparr> else ctx s c)"
    "rcv s' = (rcv s)(r := (rcv s r)\<lparr>r_handlers := drop (length ps) (r_handlers (rcv s r)),
        r_deliver := drop (length ps) (r_deliver (rcv s r))\<rparr>)"
    "h_receiver s' = (\<lambda>t. if t \<in> snd ` set ps then None else h_receiver s t)"
    "h_queued s' = (\<lambda>t. if t \<in> snd ` set ps then False else h_queued s t)"
    "state_of s' = (\<lambda>t. if t \<in> snd ` set ps then ACTIVE else state_of s t)"
    "sig_log s' = sig_log s @ map (\<lambda>p. (fst p, unat (c_submits (ctx s (fst p))))) ps"
    "\<forall>t. t_cpu (thr s' t) = t_cpu (thr s t) \<and> t_paused (thr s' t) = t_paused (thr s t)"
    "\<forall>p \<in> set ps. t_utcb (thr s' (snd p)) = signal_data (ctx s (fst p)) @ drop 2 (t_utcb (thr s (snd p)))"
    "\<forall>t. t \<notin> snd ` set ps \<longrightarrow> t_utcb (thr s' t) = t_utcb (thr s t)"
  using assms unfolding serves_def by blast+

lemma serves_Cons:
  assumes s1: "serves r [(c, h)] s s1" and s': "serves r ps s1 s'" and d: "c \<notin> fst ` set ps" "h \<notin> snd ` set ps"
  shows "serves r ((c, h) # ps) s s'"
proof -
  note a = servesD [OF s1] note b = servesD [OF s']
  have "map (\<lambda>p. (fst p, unat (c_submits (ctx s1 (fst p))))) ps = map (\<lambda>p. (fst p, unat (c_submits (ctx s (fst p))))) ps"
    using d(1) by (intro map_cong refl) (auto simp: a(7))
  moreover have "\<forall>p \<in> set ((c, h) # ps). t_utcb (thr s' (snd p)) = signal_data (ctx s (fst p)) @ drop 2 (t_utcb (thr s (snd p)))"
  proof
    fix p
    assume p: "p \<in> set ((c, h) # ps)"
    show "t_utcb (thr s' (snd p)) = signal_data (ctx s (fst p)) @ drop 2 (t_utcb (thr s (snd p)))"
    proof (cases "p = (c, h)")
      case True
      then show ?thesis using a(14) b(15) d by simp
    next
      case False
      with p have p: "p \<in> set ps" by simp
      then have "fst p \<noteq> c" "snd p \<noteq> h" using d by auto
      with p b(14) a(15) show ?thesis by (simp add: a(7))
    qed
  qed
  moreover have "\<forall>t. t \<notin> snd ` set ((c, h) # ps) \<longrightarrow> t_utcb (thr s' t) = t_utcb (thr s t)" using a(15) b(15) by simp
  moreover have "\<forall>t. t_cpu (thr s' t) = t_cpu (thr s t) \<and> t_paused (thr s' t) = t_paused (thr s t)" using a(13) b(13) by simp
  ultimately show ?thesis unfolding serves_def using d
    by (auto simp: a(1-12) b(1-12) fun_eq_iff drop_Suc tl_drop)
qed

lemma serve_one:
  assumes k: "kinv {} s" and q: "r_deliver (rcv s r) = c # cs" "r_handlers (rcv s r) = h # hs"
    and h: "alive s h" "state_of s h = AWAITS_SIGNAL" and c: "ctx_alive s c"
  shows "\<exists>s'. listen_round r c cs h hs s = Some s' \<and> kinv {} s' \<and> serves r [(c, h)] s s'"
proof -
  define s2 where "s2 = (rcv_upd r (\<lambda>x. x\<lparr>r_handlers := hs\<rparr>)
      (ctx_upd c (\<lambda>x. x\<lparr>c_deliver_enq := False\<rparr>) (rcv_upd r (\<lambda>x. x\<lparr>r_deliver := cs\<rparr>) s)))
      \<lparr>h_queued := (h_queued s)(h := False), h_receiver := (h_receiver s)(h := None),
       sig_log := sig_log s @ [(c, unat (c_submits (ctx s c)))]\<rparr>"
  define s3 where "s3 = thr_upd h (\<lambda>x. x\<lparr>t_utcb := signal_data (ctx s c) @ drop 2 (t_utcb x)\<rparr>) s2"
  have "kinv {} s2" unfolding s2_def using k by (subst kinv_cong [of _ s]) simp_all
  then have k3: "kinv {} s3" unfolding s3_def by (rule kinv_thr_upd) simp_all
  have st: "state_of s3 = state_of s" unfolding s3_def s2_def state_of_def by (auto simp: fun_eq_iff)
  have "alive s3 = alive s" unfolding s3_def s2_def by simp
  with k3 h st obtain s4 where s4: "become_active h s3 = Some s4" "kinv {} s4" "moved h ACTIVE s3 s4"
    using wake_kinv [of s3 h] by auto
  have st2: "t_state (thr s2 h) = AWAITS_SIGNAL" using h(2) unfolding s2_def by (simp add: state_of_def)
  let ?s' = "delivered c s4"
  have "listen_round r c cs h hs s = Some ?s'"
    using h c s4(1) st2 unfolding listen_round_def Let_def s3_def
    by (simp add: signal_receive_signal_def s2_def signal_data_def numeral_2_eq_2)
  moreover have "kinv {} ?s'" using s4(2) by (simp add: delivered_def)
  moreover have "serves r [(c, h)] s ?s'"
  proof -
    have m: "kernel.more s4 = kernel.more s3" "alive s4 = alive s3" "executing s4 = executing s3"
      "state_of s4 = (state_of s3)(h := ACTIVE)" "\<forall>i. t_utcb (thr s4 i) = t_utcb (thr s3 i) \<and> t_arg0 (thr s4 i) = t_arg0 (thr s3 i)"
      "\<forall>i. t_cpu (thr s4 i) = t_cpu (thr s3 i) \<and> t_paused (thr s4 i) = t_paused (thr s3 i)"
      using s4(3) unfolding moved_def by blast+
    have e: "kernel.more s3 = kernel.more s2" by (simp add: s3_def)
    note f = more_fields [OF m(1)] more_fields [OF e]
    have sd: "state_of (delivered c s4) = state_of s4" by (simp add: delivered_def)
    show ?thesis unfolding serves_def sd m(4) st
      using m(2,3,5,6) q unfolding delivered_def
      by (simp add: f) (auto simp: s3_def s2_def fun_eq_iff)
  qed
  ultimately show ?thesis by blast
qed

lemma listen_serves:
  assumes "kinv {} s" "r_deliver (rcv s r) = cs" "r_handlers (rcv s r) = hs" "distinct cs" "distinct hs"
    "\<forall>t \<in> set hs. alive s t \<and> state_of s t = AWAITS_SIGNAL" "\<forall>c \<in> set cs. ctx_alive s c"
  shows "\<exists>s'. listen r s = Some s' \<and> kinv {} s' \<and> serves r (zip cs hs) s s'"
  using assms
proof (induction cs arbitrary: hs s)
  case Nil
  then show ?case by (intro exI [of _ s]) (simp add: listen.simps)
next
  case (Cons c cs)
  show ?case
  proof (cases hs)
    case Nil
    with Cons.prems show ?thesis by (intro exI [of _ s]) (simp add: listen.simps)
  next
    case hs: (Cons h hs')
    obtain s1 where s1: "listen_round r c cs h hs' s = Some s1" "kinv {} s1" "serves r [(c, h)] s s1"
      using serve_one [OF Cons.prems(1), of r c cs h hs'] Cons.prems hs by auto
    note a = servesD [OF s1(3)]
    have "state_of s1 t = AWAITS_SIGNAL" if "t \<in> set hs'" for t
      using that Cons.prems(5,6) hs by (auto simp: a(11))
    then obtain s' where s': "listen r s1 = Some s'" "kinv {} s'" "serves r (zip cs hs') s1 s'"
      using Cons.IH [of s1 hs'] Cons.prems hs s1(2) a(8) by (auto simp: a(1,3))
    have "c \<notin> fst ` set (zip cs hs')" "h \<notin> snd ` set (zip cs hs')"
      using Cons.prems(4,5) hs by (auto dest: set_zip_leftD set_zip_rightD)
    with serves_Cons [OF s1(3) s'(3)] have "serves r (zip (c # cs) hs) s s'" using hs by simp
    moreover have "listen r s = Some s'" by (subst listen.simps) (simp add: Cons.prems(2,3) hs s1(1) s'(1))
    ultimately show ?thesis using s'(2) by blast
  qed
qed

lemma handlersD:
  assumes "handlers_ok s"
  shows "rcv_alive s r \<Longrightarrow> distinct (r_handlers (rcv s r))"
    "rcv_alive s r \<Longrightarrow> t \<in> set (r_handlers (rcv s r)) \<Longrightarrow> alive s t \<and> h_receiver s t = Some r \<and> state_of s t = AWAITS_SIGNAL"
    "alive s t \<Longrightarrow> h_queued s t \<longleftrightarrow> h_receiver s t \<noteq> None"
    "alive s t \<Longrightarrow> state_of s t = AWAITS_SIGNAL \<longleftrightarrow> h_receiver s t \<noteq> None"
    "alive s t \<Longrightarrow> h_receiver s t = Some r \<Longrightarrow> rcv_alive s r \<and> t \<in> set (r_handlers (rcv s r))"
  using assms unfolding handlers_ok_def by blast+

lemma contextsD:
  assumes "contexts_ok s"
  shows "rcv_alive s r \<Longrightarrow> distinct (r_deliver (rcv s r))" "rcv_alive s r \<Longrightarrow> distinct (r_contexts (rcv s r))"
    "rcv_alive s r \<Longrightarrow> c \<in> set (r_contexts (rcv s r)) \<Longrightarrow> ctx_alive s c \<and> c_receiver (ctx s c) = r"
    "rcv_alive s r \<Longrightarrow> c \<in> set (r_deliver (rcv s r)) \<Longrightarrow> ctx_alive s c \<and> c_receiver (ctx s c) = r"
    "ctx_alive s c \<Longrightarrow> rcv_alive s (c_receiver (ctx s c)) \<and> c \<in> set (r_contexts (rcv s (c_receiver (ctx s c))))"
    "ctx_alive s c \<Longrightarrow> c_deliver_enq (ctx s c) \<longleftrightarrow> c \<in> set (r_deliver (rcv s (c_receiver (ctx s c))))"
    "ctx_alive s c \<Longrightarrow> c_deliver_enq (ctx s c) \<longleftrightarrow> c_ack (ctx s c) \<and> c_submits (ctx s c) \<noteq> 0"
  using assms unfolding contexts_ok_def by blast+

lemma killersD:
  assumes "killers_ok s"
  shows "ctx_alive s c \<Longrightarrow> c_killer (ctx s c) = Some t \<Longrightarrow>
      alive s t \<and> k_context s t = Some c \<and> c_killed (ctx s c) \<and> \<not> c_ack (ctx s c) \<and> state_of s t = AWAITS_SIGNAL_CONTEXT_KILL"
    "alive s t \<Longrightarrow> state_of s t = AWAITS_SIGNAL_CONTEXT_KILL \<longleftrightarrow> k_context s t \<noteq> None"
    "alive s t \<Longrightarrow> k_context s t = Some c \<Longrightarrow> ctx_alive s c \<and> c_killer (ctx s c) = Some t"
  using assms unfolding killers_ok_def by blast+

lemma zip_image: "fst ` set (zip xs ys) = set (take (length (zip xs ys)) xs)" "snd ` set (zip xs ys) = set (take (length (zip xs ys)) ys)"
  by (simp_all flip: set_map add: map_fst_zip_take map_snd_zip_take)

lemma set_drop_distinct: "distinct xs \<Longrightarrow> set (drop n xs) = set xs - set (take n xs)"
  by (metis Diff_cancel Un_Diff append_take_drop_id distinct_append inf.commute set_append Diff_triv sup_bot.left_neutral)

text \<open>The pairs that a delivery serves are the heads of the two queues.\<close>

lemma served_facts:
  assumes v: "sinv {r} s" and r: "rcv_alive s r" and ps: "ps = zip (r_deliver (rcv s r)) (r_handlers (rcv s r))"
  shows "set (drop (length ps) (r_deliver (rcv s r))) = set (r_deliver (rcv s r)) - fst ` set ps"
    "set (drop (length ps) (r_handlers (rcv s r))) = set (r_handlers (rcv s r)) - snd ` set ps"
    "t \<in> snd ` set ps \<Longrightarrow> alive s t \<and> h_receiver s t = Some r \<and> state_of s t = AWAITS_SIGNAL"
    "c \<in> fst ` set ps \<Longrightarrow> ctx_alive s c \<and> c_receiver (ctx s c) = r \<and> c_ack (ctx s c)"
proof -
  note H = handlersD [OF sinvD(2) [OF v]] and C = contextsD [OF sinvD(4) [OF v]]
  let ?n = "length ps" let ?cs = "r_deliver (rcv s r)" let ?hs = "r_handlers (rcv s r)"
  have F: "fst ` set ps = set (take ?n ?cs)" "snd ` set ps = set (take ?n ?hs)" unfolding ps by (rule zip_image)+
  show "set (drop ?n ?cs) = set ?cs - fst ` set ps" "set (drop ?n ?hs) = set ?hs - snd ` set ps"
    unfolding F using set_drop_distinct C(1) [OF r] H(1) [OF r] by blast+
  have sub: "fst ` set ps \<subseteq> set ?cs" "snd ` set ps \<subseteq> set ?hs" unfolding F by (auto dest: in_set_takeD)
  show "t \<in> snd ` set ps \<Longrightarrow> alive s t \<and> h_receiver s t = Some r \<and> state_of s t = AWAITS_SIGNAL"
    using sub(2) H(2) [OF r] by blast
  show "c \<in> fst ` set ps \<Longrightarrow> ctx_alive s c \<and> c_receiver (ctx s c) = r \<and> c_ack (ctx s c)"
    using sub(1) C(4) [OF r, of c] C(6,7) [of c] by auto
qed

lemma serves_queues:
  assumes "serves r ps s s'"
  shows "r_handlers (rcv s' x) = (if x = r then drop (length ps) (r_handlers (rcv s r)) else r_handlers (rcv s x))"
    "r_deliver (rcv s' x) = (if x = r then drop (length ps) (r_deliver (rcv s r)) else r_deliver (rcv s x))"
    "r_contexts (rcv s' x) = r_contexts (rcv s x)"
  by (simp_all add: servesD(8) [OF assms])

lemma serves_handlers_ok:
  assumes v: "sinv {r} s" and r: "rcv_alive s r"
    and ps: "ps = zip (r_deliver (rcv s r)) (r_handlers (rcv s r))" and sv: "serves r ps s s'"
  shows "handlers_ok s'"
  unfolding handlers_ok_def
proof (intro conjI allI impI ballI)
  note a = servesD [OF sv] and q = serves_queues [OF sv] and H = handlersD [OF sinvD(2) [OF v]]
  note D = served_facts(2) [OF v r ps] and hs = served_facts(3) [OF v r ps]
  {
    fix x
    assume x: "rcv_alive s' x"
    then show "distinct (r_handlers (rcv s' x))" using H(1) [of x] by (auto simp: q a(4))
    fix t
    assume "t \<in> set (r_handlers (rcv s' x))"
    then have "t \<in> set (r_handlers (rcv s x))" "t \<notin> snd ` set ps"
      using D hs [of t] H(2) [of x t] x by (auto simp: q a(4) split: if_splits)
    then show "alive s' t" "h_receiver s' t = Some x" using H(2) [of x t] x by (auto simp: a(1,4,9))
  next
    fix t
    assume t: "alive s' t"
    show "h_queued s' t = (h_receiver s' t \<noteq> None)" "(state_of s' t = AWAITS_SIGNAL) = (h_receiver s' t \<noteq> None)"
      using t H(3,4) [of t] by (simp_all add: a(1,9,10,11))
    fix x
    assume "h_receiver s' t = Some x"
    then show "rcv_alive s' x" "t \<in> set (r_handlers (rcv s' x))"
      using t H(5) [of t x] D by (auto simp: a(1,4,9) q split: if_splits)
  }
qed

lemma serves_killers_ok:
  assumes v: "sinv {r} s" and r: "rcv_alive s r"
    and ps: "ps = zip (r_deliver (rcv s r)) (r_handlers (rcv s r))" and sv: "serves r ps s s'"
  shows "killers_ok s'"
  unfolding killers_ok_def
proof (intro conjI allI impI)
  note a = servesD [OF sv] and K = killersD [OF sinvD(3) [OF v]] and hs = served_facts(3) [OF v r ps]
  {
    fix c t
    assume "ctx_alive s' c \<and> c_killer (ctx s' c) = Some t"
    then show "alive s' t" "k_context s' t = Some c" "c_killed (ctx s' c)" "\<not> c_ack (ctx s' c)"
      using K(1) [of c t] by (auto simp: a(1,3,5,7) split: if_splits)
  next
    fix t
    assume t: "alive s' t"
    show "(state_of s' t = AWAITS_SIGNAL_CONTEXT_KILL) = (k_context s' t \<noteq> None)"
      using t K(2) [of t] hs [of t] by (cases "t \<in> snd ` set ps") (simp_all add: a(1,5,11))
    fix c
    assume "k_context s' t = Some c"
    then show "ctx_alive s' c" "c_killer (ctx s' c) = Some t" using t K(3) [of t c] by (simp_all add: a(1,3,5,7))
  }
qed

lemma serves_contexts_ok:
  assumes v: "sinv {r} s" and r: "rcv_alive s r"
    and ps: "ps = zip (r_deliver (rcv s r)) (r_handlers (rcv s r))" and sv: "serves r ps s s'"
  shows "contexts_ok s'"
  unfolding contexts_ok_def
proof (intro conjI allI impI ballI)
  note a = servesD [OF sv] and q = serves_queues [OF sv] and C = contextsD [OF sinvD(4) [OF v]]
  note D = served_facts(1) [OF v r ps] and cs = served_facts(4) [OF v r ps]
  {
    fix x
    assume x: "rcv_alive s' x"
    then show "distinct (r_deliver (rcv s' x))" "distinct (r_contexts (rcv s' x))" using C(1,2) [of x] by (auto simp: q a(4))
    fix c
    assume "c \<in> set (r_contexts (rcv s' x)) \<union> set (r_deliver (rcv s' x))"
    then have "c \<in> set (r_contexts (rcv s x)) \<union> set (r_deliver (rcv s x))" using D by (auto simp: q split: if_splits)
    then have "ctx_alive s c \<and> c_receiver (ctx s c) = x" using x C(3,4) [of x c] by (auto simp: a(4))
    then show "ctx_alive s' c" "c_receiver (ctx s' c) = x" by (simp_all add: a(3,7))
  next
    fix c
    assume "ctx_alive s' c"
    then have c: "ctx_alive s c" by (simp add: a(3))
    have rc: "c_receiver (ctx s' c) = c_receiver (ctx s c)" by (simp add: a(7))
    show "rcv_alive s' (c_receiver (ctx s' c))" "c \<in> set (r_contexts (rcv s' (c_receiver (ctx s' c))))"
      using C(5) [OF c] by (simp_all add: rc a(4) q)
    show "c_deliver_enq (ctx s' c) = (c \<in> set (r_deliver (rcv s' (c_receiver (ctx s' c)))))"
      "c_deliver_enq (ctx s' c) = (c_ack (ctx s' c) \<and> c_submits (ctx s' c) \<noteq> 0)"
      using C(6,7) [OF c] D cs [of c] unfolding rc q by (auto simp: a(7))
  }
qed

lemma serves_sinv:
  assumes v: "sinv {r} s" and r: "rcv_alive s r" and k: "kinv {} s'"
    and ps: "ps = zip (r_deliver (rcv s r)) (r_handlers (rcv s r))" and sv: "serves r ps s s'"
  shows "sinv {} s'"
proof -
  have "idle s' x" if "rcv_alive s' x" for x
    using that sinvD(5) [OF v, of x] by (auto simp: idle_def serves_queues [OF sv] servesD(4) [OF sv] ps)
  then show ?thesis
    using k serves_handlers_ok [OF v r ps sv] serves_killers_ok [OF v r ps sv] serves_contexts_ok [OF v r ps sv] by (simp add: sinv_def)
qed

lemma listen_sinv:
  assumes v: "sinv {r} s" and r: "rcv_alive s r"
  shows "\<exists>s'. listen r s = Some s' \<and> sinv {} s' \<and> serves r (zip (r_deliver (rcv s r)) (r_handlers (rcv s r))) s s'"
proof -
  note H = handlersD [OF sinvD(2) [OF v]] and C = contextsD [OF sinvD(4) [OF v]]
  have "\<exists>s'. listen r s = Some s' \<and> kinv {} s' \<and> serves r (zip (r_deliver (rcv s r)) (r_handlers (rcv s r))) s s'"
    by (rule listen_serves [OF sinvD(1) [OF v] refl refl]) (use H(1,2) [OF r] C(1,4) [OF r] in auto)
  with serves_sinv [OF v r] show ?thesis by blast
qed

section \<open>Operations keep the invariant\<close>

lemma handlers_cong:
  assumes "alive s' = alive s" "rcv_alive s' = rcv_alive s" "\<And>r. r_handlers (rcv s' r) = r_handlers (rcv s r)"
    "h_receiver s' = h_receiver s" "h_queued s' = h_queued s"
    "\<And>t. alive s t \<Longrightarrow> state_of s' t = AWAITS_SIGNAL \<longleftrightarrow> state_of s t = AWAITS_SIGNAL"
  shows "handlers_ok s' = handlers_ok s"
  unfolding handlers_ok_def assms(1-5) using assms(6) by simp

lemma killers_cong:
  assumes "alive s' = alive s" "ctx_alive s' = ctx_alive s" "k_context s' = k_context s"
    "\<And>c. ctx_alive s c \<Longrightarrow> c_killer (ctx s' c) = c_killer (ctx s c)"
    "\<And>c. ctx_alive s c \<Longrightarrow> c_killer (ctx s c) \<noteq> None \<Longrightarrow> c_killed (ctx s c) \<Longrightarrow> \<not> c_ack (ctx s c) \<Longrightarrow> c_killed (ctx s' c) \<and> \<not> c_ack (ctx s' c)"
    "\<And>t. alive s t \<Longrightarrow> state_of s' t = AWAITS_SIGNAL_CONTEXT_KILL \<longleftrightarrow> state_of s t = AWAITS_SIGNAL_CONTEXT_KILL"
  shows "killers_ok s \<Longrightarrow> killers_ok s'"
proof -
  assume "killers_ok s"
  note K = killersD [OF this]
  have "alive s t \<and> k_context s t = Some c \<and> c_killed (ctx s' c) \<and> \<not> c_ack (ctx s' c)"
    if "ctx_alive s c" "c_killer (ctx s' c) = Some t" for c t
  proof -
    have k: "c_killer (ctx s c) = Some t" using assms(4) [OF that(1)] that(2) by simp
    with K(1) [OF that(1) k] assms(5) [OF that(1)] show ?thesis by simp
  qed
  moreover have "(state_of s' t = AWAITS_SIGNAL_CONTEXT_KILL \<longleftrightarrow> k_context s t \<noteq> None) \<and>
      (\<forall>c. k_context s t = Some c \<longrightarrow> ctx_alive s c \<and> c_killer (ctx s' c) = Some t)" if "alive s t" for t
    using K(2,3) [OF that] assms(4,6) that by (metis (no_types))
  ultimately show ?thesis unfolding killers_ok_def assms(1-3) by blast
qed

lemma contexts_cong:
  assumes "rcv_alive s' = rcv_alive s" "ctx_alive s' = ctx_alive s"
    "\<And>r. r_deliver (rcv s' r) = r_deliver (rcv s r)" "\<And>r. r_contexts (rcv s' r) = r_contexts (rcv s r)"
    "\<And>c. c_receiver (ctx s' c) = c_receiver (ctx s c)" "\<And>c. c_deliver_enq (ctx s' c) = c_deliver_enq (ctx s c)"
    "\<And>c. ctx_alive s c \<Longrightarrow> c_deliver_enq (ctx s c) \<longleftrightarrow> c_ack (ctx s c) \<and> c_submits (ctx s c) \<noteq> 0 \<Longrightarrow>
       c_deliver_enq (ctx s c) \<longleftrightarrow> c_ack (ctx s' c) \<and> c_submits (ctx s' c) \<noteq> 0"
  shows "contexts_ok s \<Longrightarrow> contexts_ok s'"
  unfolding contexts_ok_def assms(1-6) using assms(7) by meson

text \<open>An update of a context that changes neither its queueing nor its killer.\<close>

lemma ctx_upd_sinv:
  assumes v: "sinv R s" and f: "c_receiver (f (ctx s c)) = c_receiver (ctx s c)" "c_killer (f (ctx s c)) = c_killer (ctx s c)"
    "c_deliver_enq (f (ctx s c)) = c_deliver_enq (ctx s c)"
    "ctx_alive s c \<Longrightarrow> c_deliver_enq (ctx s c) \<longleftrightarrow> c_ack (f (ctx s c)) \<and> c_submits (f (ctx s c)) \<noteq> 0"
    "ctx_alive s c \<Longrightarrow> c_killer (ctx s c) \<noteq> None \<Longrightarrow> c_killed (f (ctx s c)) \<and> \<not> c_ack (f (ctx s c))"
  shows "sinv R (ctx_upd c f s)"
proof -
  have "handlers_ok (ctx_upd c f s)" using sinvD(2) [OF v] by (subst handlers_cong [of _ s]) simp_all
  moreover have "killers_ok (ctx_upd c f s)" by (rule killers_cong [OF _ _ _ _ _ _ sinvD(3) [OF v]]) (use f in auto)
  moreover have "contexts_ok (ctx_upd c f s)" by (rule contexts_cong [OF _ _ _ _ _ _ _ sinvD(4) [OF v]]) (use f in auto)
  ultimately show ?thesis using v by (simp add: sinv_def idle_def)
qed

text \<open>A context becomes deliverable.\<close>

lemma enqueue_sinv:
  assumes v: "sinv {} s" and c: "ctx_alive s c" "\<not> c_deliver_enq (ctx s c)" "c_killer (ctx s c) = None"
    and f: "c_receiver (f (ctx s c)) = c_receiver (ctx s c)" "c_killer (f (ctx s c)) = None"
      "c_deliver_enq (f (ctx s c))" "c_ack (f (ctx s c))" "c_submits (f (ctx s c)) \<noteq> 0"
    and s': "s' = ctx_upd c f (rcv_upd (c_receiver (ctx s c)) (\<lambda>x. x\<lparr>r_deliver := r_deliver x @ [c]\<rparr>) s)"
  shows "sinv {c_receiver (ctx s c)} s'"
proof -
  let ?r = "c_receiver (ctx s c)"
  note C = contextsD [OF sinvD(4) [OF v]]
  have cq: "c \<notin> set (r_deliver (rcv s x))" if "rcv_alive s x" for x
    using C(4) [OF that, of c] C(6) [OF c(1)] c(2) by auto
  have "kinv {} s'" using sinvD(1) [OF v] by (simp add: s')
  moreover have "handlers_ok s'" using sinvD(2) [OF v] by (subst handlers_cong [of _ s]) (simp_all add: s')
  moreover have "killers_ok s'" by (rule killers_cong [OF _ _ _ _ _ _ sinvD(3) [OF v]]) (use c f in \<open>auto simp: s'\<close>)
  moreover have "contexts_ok s'"
    unfolding contexts_ok_def
  proof (intro conjI allI impI ballI)
    fix x
    assume x: "rcv_alive s' x"
    then show "distinct (r_deliver (rcv s' x))" "distinct (r_contexts (rcv s' x))" using C(1,2) [of x] cq [of x] by (auto simp: s')
    fix d
    assume "d \<in> set (r_contexts (rcv s' x)) \<union> set (r_deliver (rcv s' x))"
    then show "ctx_alive s' d" "c_receiver (ctx s' d) = x"
      using x C(3,4) [of x d] c(1) f(1) by (auto simp: s' split: if_splits)
  next
    fix d
    assume "ctx_alive s' d"
    then have d: "ctx_alive s d" by (simp add: s')
    show "rcv_alive s' (c_receiver (ctx s' d))" "d \<in> set (r_contexts (rcv s' (c_receiver (ctx s' d))))"
      using C(5) [OF d] f(1) by (auto simp: s')
    show "c_deliver_enq (ctx s' d) = (d \<in> set (r_deliver (rcv s' (c_receiver (ctx s' d)))))"
      "c_deliver_enq (ctx s' d) = (c_ack (ctx s' d) \<and> c_submits (ctx s' d) \<noteq> 0)"
      using C(6,7) [OF d] f by (auto simp: s')
  qed
  ultimately show ?thesis using sinvD(5) [OF v] by (auto simp: sinv_def idle_def s')
qed

section \<open>Submits that are neither lost nor doubled\<close>

definition received :: "cid \<Rightarrow> skernel \<Rightarrow> nat" where
  "received c s = sum_list (map snd (filter (\<lambda>p. fst p = c) (sig_log s)))"

definition pending :: "cid \<Rightarrow> skernel \<Rightarrow> nat" where
  "pending c s = (if ctx_alive s c then unat (c_submits (ctx s c)) else 0)"

definition sig_total :: "skernel \<Rightarrow> cid \<Rightarrow> nat" where
  "sig_total s c = received c s + pending c s"

lemma sig_total_cong:
  "sig_log s' = sig_log s \<Longrightarrow> ctx_alive s' = ctx_alive s \<Longrightarrow> (\<And>c. c_submits (ctx s' c) = c_submits (ctx s c)) \<Longrightarrow> sig_total s' = sig_total s"
  by (simp add: sig_total_def received_def pending_def fun_eq_iff)

lemma sum_log_distinct:
  "distinct (map fst ps) \<Longrightarrow> sum_list (map snd (filter (\<lambda>p. fst p = c) (map (\<lambda>p. (fst p, g (fst p))) ps))) =
     (if c \<in> fst ` set ps then g c else (0::nat))"
  by (induction ps) (auto simp: filter_map o_def)

lemma serves_total:
  assumes v: "sinv {r} s" and r: "rcv_alive s r" and ps: "ps = zip (r_deliver (rcv s r)) (r_handlers (rcv s r))" and sv: "serves r ps s s'"
  shows "sig_total s' = sig_total s"
proof
  fix c
  note a = servesD [OF sv]
  have "distinct (map fst ps)" using contextsD(1) [OF sinvD(4) [OF v] r] by (simp add: ps map_fst_zip_take)
  then have "received c s' = received c s + (if c \<in> fst ` set ps then unat (c_submits (ctx s c)) else 0)"
    using sum_log_distinct [of ps c "\<lambda>c. unat (c_submits (ctx s c))"] by (simp add: received_def a(12))
  moreover have "ctx_alive s c" if "c \<in> fst ` set ps" using that contextsD(4) [OF sinvD(4) [OF v] r, of c]
    by (auto simp: ps dest: set_zip_leftD)
  ultimately show "sig_total s' c = sig_total s c" by (auto simp: sig_total_def pending_def a(3,7))
qed

lemma ctx_upd_simps [simp]:
  "ctx_upd c f (ctx_upd c g s) = ctx_upd c (\<lambda>x. f (g x)) s"
  "rcv_upd r h (ctx_upd c f s) = ctx_upd c f (rcv_upd r h s)"
  by (simp_all add: ctx_upd_def rcv_upd_def)

lemma listen_idle: "idle s r \<Longrightarrow> listen r s = Some s"
  by (auto simp: idle_def listen.simps split: list.splits)

lemma deliverable_sinv:
  assumes v: "sinv {} s" and c: "ctx_alive s c" "c_killer (ctx s c) = None"
    and f: "c_receiver (f (ctx s c)) = c_receiver (ctx s c)" "c_killer (f (ctx s c)) = None"
      "c_deliver_enq (f (ctx s c)) = c_deliver_enq (ctx s c)" "c_ack (f (ctx s c))"
      "c_deliver_enq (ctx s c) \<Longrightarrow> c_submits (f (ctx s c)) \<noteq> 0"
  shows "\<exists>s'. deliverable c (ctx_upd c f s) = Some s' \<and> sinv {} s' \<and> sig_total s' = sig_total (ctx_upd c f s)"
proof (cases "c_submits (f (ctx s c)) \<noteq> 0 \<and> \<not> c_deliver_enq (ctx s c)")
  case True
  let ?r = "c_receiver (ctx s c)"
  define s2 where "s2 = ctx_upd c (\<lambda>x. (f x)\<lparr>c_deliver_enq := True\<rparr>) (rcv_upd ?r (\<lambda>x. x\<lparr>r_deliver := r_deliver x @ [c]\<rparr>) s)"
  have v2: "sinv {?r} s2" by (rule enqueue_sinv [OF v c(1) _ c(2) _ _ _ _ _ s2_def]) (use f True in auto)
  have r: "rcv_alive s ?r" using contextsD(5) [OF sinvD(4) [OF v] c(1)] by simp
  then have r2: "rcv_alive s2 ?r" by (simp add: s2_def)
  obtain s' where s': "listen ?r s2 = Some s'" "sinv {} s'" "sig_total s' = sig_total s2"
    using listen_sinv [OF v2 r2] serves_total [OF v2 r2 refl] by blast
  have "deliverable c (ctx_upd c f s) = Some s'"
    using s'(1) True f r by (simp add: deliverable_def add_deliverable_def s2_def)
  moreover have "sig_total s2 = sig_total (ctx_upd c f s)" by (rule sig_total_cong) (auto simp: s2_def)
  ultimately show ?thesis using s'(2,3) by auto
next
  case False
  have v1: "sinv {} (ctx_upd c f s)" by (rule ctx_upd_sinv [OF v]) (use c f False in auto)
  have r: "rcv_alive s (c_receiver (ctx s c))" using contextsD(5) [OF sinvD(4) [OF v] c(1)] by simp
  then have "idle (ctx_upd c f s) (c_receiver (ctx s c))" using sinvD(5) [OF v1] by simp
  then have "deliverable c (ctx_upd c f s) = Some (ctx_upd c f s)"
    using False f r by (auto simp: deliverable_def add_deliverable_def listen_idle)
  with v1 show ?thesis by blast
qed

lemma add_no_wrap:
  fixes a n :: u32
  assumes "a < - 1 - n"
  shows "unat (a + n) = unat a + unat n"
proof -
  have m: "unat (- 1 :: u32) = 2 ^ 32 - 1" by (simp add: unsigned_minus_1_eq_mask mask_eq_exp_minus_1)
  have "unat (- 1 - n) = unat (- 1 :: u32) - unat n" by (rule unat_sub) (simp add: word_n1_ge)
  then have "unat a + unat n < 2 ^ 32" using assms m by (simp add: word_less_nat_alt)
  then show ?thesis by (simp add: unat_word_ariths)
qed

lemma not_killed_no_killer: "sinv R s \<Longrightarrow> ctx_alive s c \<Longrightarrow> \<not> c_killed (ctx s c) \<Longrightarrow> c_killer (ctx s c) = None"
  using killersD(1) [OF sinvD(3), of R s c] by (cases "c_killer (ctx s c)") auto

lemma submit_sinv:
  assumes v: "sinv {} s" and c: "ctx_alive s c"
  shows "\<exists>s'. submit n c s = Some s' \<and> sinv {} s' \<and>
    sig_total s' = (sig_total s)(c := sig_total s c + (if can_submit n (ctx s c) then unat n else 0))"
proof (cases "can_submit n (ctx s c)")
  case False
  then show ?thesis using v by (simp add: submit_def can_submit_def)
next
  case True
  let ?f = "\<lambda>x. x\<lparr>c_submits := c_submits x + n\<rparr>"
  have k: "\<not> c_killed (ctx s c)" and lt: "c_submits (ctx s c) < - 1 - n" using True by (simp_all add: can_submit_def not_le)
  note kn = not_killed_no_killer [OF v c k] and nw = add_no_wrap [OF lt]
  have t: "sig_total (ctx_upd c ?f s) = (sig_total s)(c := sig_total s c + unat n)"
    using c nw by (auto simp: sig_total_def received_def pending_def fun_eq_iff)
  have nz: "c_submits (ctx s c) + n \<noteq> 0" if "c_deliver_enq (ctx s c)"
    using that contextsD(7) [OF sinvD(4) [OF v] c] nw by (metis add_is_0 unat_0 unat_eq_0)
  show ?thesis
  proof (cases "c_ack (ctx s c)")
    case ack: True
    have "\<exists>s'. deliverable c (ctx_upd c ?f s) = Some s' \<and> sinv {} s' \<and> sig_total s' = sig_total (ctx_upd c ?f s)"
      by (rule deliverable_sinv [OF v c kn]) (use kn ack nz in auto)
    with t k lt ack True show ?thesis by (auto simp: submit_def Let_def)
  next
    case False
    have "sinv {} (ctx_upd c ?f s)"
      by (rule ctx_upd_sinv [OF v]) (use kn False contextsD(7) [OF sinvD(4) [OF v] c] in auto)
    with t k lt False True show ?thesis by (auto simp: submit_def Let_def)
  qed
qed

lemma movedD:
  assumes "moved t st (s :: skernel) s'"
  shows "alive s' = alive s" "executing s' = executing s" "state_of s' = (state_of s)(t := st)" "ctx_alive s' = ctx_alive s"
    "ctx s' = ctx s" "rcv_alive s' = rcv_alive s" "rcv s' = rcv s" "h_receiver s' = h_receiver s" "h_queued s' = h_queued s"
    "k_context s' = k_context s" "cancel_next s' = cancel_next s" "sig_log s' = sig_log s" "\<And>i. t_utcb (thr s' i) = t_utcb (thr s i)"
    "\<And>i. t_cpu (thr s' i) = t_cpu (thr s i)" "\<And>i. t_paused (thr s' i) = t_paused (thr s i)"
    "\<And>i. t_arg0 (thr s' i) = t_arg0 (thr s i)"
  using assms more_fields [of s' s] unfolding moved_def by simp_all

text \<open>The killer of a context changes together with the context that the killer's thread awaits.\<close>

lemma set_killer_ok:
  assumes K: "killers_ok s" and c: "ctx_alive s c" and k: "alive s k" "k_context s k = None" "c_killer (ctx s c) = None"
    and s': "alive s' = alive s" "ctx_alive s' = ctx_alive s" "k_context s' = (k_context s)(k := Some c)"
      "state_of s' = (state_of s)(k := AWAITS_SIGNAL_CONTEXT_KILL)" "ctx s' = (ctx s)(c := (ctx s c)\<lparr>c_killer := Some k, c_killed := True\<rparr>)"
      "\<not> c_ack (ctx s c)"
  shows "killers_ok s'"
  unfolding killers_ok_def s'(1-5)
proof (intro conjI allI impI)
  fix d t
  assume "ctx_alive s d \<and> c_killer (((ctx s)(c := (ctx s c)\<lparr>c_killer := Some k, c_killed := True\<rparr>)) d) = Some t"
  then show "alive s t" "((k_context s)(k := Some c)) t = Some d" "c_killed (((ctx s)(c := (ctx s c)\<lparr>c_killer := Some k, c_killed := True\<rparr>)) d)"
      "\<not> c_ack (((ctx s)(c := (ctx s c)\<lparr>c_killer := Some k, c_killed := True\<rparr>)) d)"
    using killersD(1) [OF K, of d t] k s'(6) by (auto split: if_splits)
qed (use killersD(2,3) [OF K] k c in \<open>auto split: if_splits\<close>)

text \<open>A thread that is created, destroyed or woken awaits the kill of no context.\<close>

lemma leave_killers_ok:
  assumes K: "killers_ok s" and s': "ctx_alive s' = ctx_alive s"
    "\<And>t. t \<noteq> k \<Longrightarrow> alive s' t = alive s t \<and> k_context s' t = k_context s t \<and>
       (state_of s' t = AWAITS_SIGNAL_CONTEXT_KILL \<longleftrightarrow> state_of s t = AWAITS_SIGNAL_CONTEXT_KILL)"
    "alive s' k \<Longrightarrow> k_context s' k = None \<and> state_of s' k \<noteq> AWAITS_SIGNAL_CONTEXT_KILL"
    "\<And>c. ctx_alive s c \<Longrightarrow> c_killer (ctx s' c) = (if c_killer (ctx s c) = Some k then None else c_killer (ctx s c)) \<and>
       c_killed (ctx s' c) = c_killed (ctx s c) \<and> c_ack (ctx s' c) = c_ack (ctx s c)"
  shows "killers_ok s'"
  unfolding killers_ok_def
proof (intro conjI allI impI)
  fix c t
  assume a: "ctx_alive s' c \<and> c_killer (ctx s' c) = Some t"
  then have c: "ctx_alive s c" using s'(1) by simp
  have t: "t \<noteq> k" "c_killer (ctx s c) = Some t" using s'(4) [OF c] a by (auto split: if_splits)
  with killersD(1) [OF K c t(2)] s'(2) [OF t(1)] s'(4) [OF c]
  show "alive s' t" "k_context s' t = Some c" "c_killed (ctx s' c)" "\<not> c_ack (ctx s' c)" by simp_all
next
  fix t
  assume t: "alive s' t"
  have e: "alive s t" "k_context s' t = k_context s t" "state_of s' t = AWAITS_SIGNAL_CONTEXT_KILL \<longleftrightarrow> state_of s t = AWAITS_SIGNAL_CONTEXT_KILL"
    if "t \<noteq> k" using s'(2) [OF that] t by simp_all
  show "(state_of s' t = AWAITS_SIGNAL_CONTEXT_KILL) = (k_context s' t \<noteq> None)"
    using killersD(2) [OF K, of t] e s'(3) t by (cases "t = k") simp_all
  fix c
  assume c: "k_context s' t = Some c"
  then have ne: "t \<noteq> k" using s'(3) t by auto
  with killersD(3) [OF K e(1), of c] e(2) c have "ctx_alive s c" "c_killer (ctx s c) = Some t" by simp_all
  then show "ctx_alive s' c" "c_killer (ctx s' c) = Some t" using s'(1) s'(4) [of c] ne by simp_all
qed

lemma leave_handlers_ok:
  assumes H: "handlers_ok s" and s': "rcv_alive s' = rcv_alive s"
    "\<And>t. t \<noteq> h \<Longrightarrow> alive s' t = alive s t \<and> h_receiver s' t = h_receiver s t \<and> h_queued s' t = h_queued s t \<and>
       (state_of s' t = AWAITS_SIGNAL \<longleftrightarrow> state_of s t = AWAITS_SIGNAL)"
    "alive s' h \<Longrightarrow> h_receiver s' h = None \<and> \<not> h_queued s' h \<and> state_of s' h \<noteq> AWAITS_SIGNAL"
    "\<And>x. rcv_alive s x \<Longrightarrow> r_handlers (rcv s' x) = remove1 h (r_handlers (rcv s x))"
  shows "handlers_ok s'"
  unfolding handlers_ok_def
proof (intro conjI allI impI ballI)
  fix x
  assume "rcv_alive s' x"
  then have x: "rcv_alive s x" using s'(1) by simp
  then show "distinct (r_handlers (rcv s' x))" using handlersD(1) [OF H x] s'(4) by simp
  fix t
  assume "t \<in> set (r_handlers (rcv s' x))"
  then have t: "t \<noteq> h" "t \<in> set (r_handlers (rcv s x))" using handlersD(1) [OF H x] s'(4) [OF x] by auto
  with handlersD(2) [OF H x t(2)] s'(2) [OF t(1)] show "alive s' t" "h_receiver s' t = Some x" by simp_all
next
  fix t
  assume t: "alive s' t"
  have e: "alive s t" "h_receiver s' t = h_receiver s t" "h_queued s' t = h_queued s t" "state_of s' t = AWAITS_SIGNAL \<longleftrightarrow> state_of s t = AWAITS_SIGNAL"
    if "t \<noteq> h" using s'(2) [OF that] t by simp_all
  show "h_queued s' t = (h_receiver s' t \<noteq> None)" "(state_of s' t = AWAITS_SIGNAL) = (h_receiver s' t \<noteq> None)"
    using handlersD(3,4) [OF H, of t] e s'(3) t by (cases "t = h"; simp)+
  fix x
  assume x: "h_receiver s' t = Some x"
  then have ne: "t \<noteq> h" using s'(3) t by auto
  with handlersD(5) [OF H e(1), of x] e(2) x s'(1) s'(4) [of x]
  show "rcv_alive s' x" "t \<in> set (r_handlers (rcv s' x))" by simp_all
qed

lemma ack_sinv:
  assumes v: "sinv {} s" and c: "ctx_alive s c"
  shows "\<exists>s'. ack c s = Some s' \<and> sinv {} s' \<and> sig_total s' = sig_total s"
proof -
  note K = killersD [OF sinvD(3) [OF v]]
  consider "c_ack (ctx s c)" | "\<not> c_ack (ctx s c)" "\<not> c_killed (ctx s c)"
    | "\<not> c_ack (ctx s c)" "c_killed (ctx s c)" "c_killer (ctx s c) = None"
    | k where "\<not> c_ack (ctx s c)" "c_killed (ctx s c)" "c_killer (ctx s c) = Some k" by fastforce
  then show ?thesis
  proof cases
    case 2
    note kn = not_killed_no_killer [OF v c 2(2)]
    let ?f = "\<lambda>x. x\<lparr>c_ack := True\<rparr>"
    have "\<exists>s'. deliverable c (ctx_upd c ?f s) = Some s' \<and> sinv {} s' \<and> sig_total s' = sig_total (ctx_upd c ?f s)"
      by (rule deliverable_sinv [OF v c kn]) (use kn 2 contextsD(7) [OF sinvD(4) [OF v] c] in auto)
    moreover have "sig_total (ctx_upd c ?f s) = sig_total s" by (rule sig_total_cong) simp_all
    ultimately show ?thesis using 2 by (auto simp: ack_def)
  next
    case (4 k)
    note kk = K(1) [OF c 4(3)]
    define s0 where "s0 = user_arg_0 0 k (s\<lparr>k_context := (k_context s)(k := None)\<rparr>)"
    have "kinv {} (s\<lparr>k_context := (k_context s)(k := None)\<rparr>)" using sinvD(1) [OF v] by (subst kinv_cong [of _ s]) simp_all
    then have k0: "kinv {} s0" by (simp add: s0_def)
    have s0: "alive s0 = alive s" "state_of s0 = state_of s" by (auto simp: s0_def state_of_def fun_eq_iff user_arg_0_def)
    have m0: "kernel.more s0 = kernel.more (s\<lparr>k_context := (k_context s)(k := None)\<rparr>)" by (simp add: s0_def)
    note f0 = more_fields [OF m0, simplified]
    obtain s1 where s1: "become_active k s0 = Some s1" "kinv {} s1" "moved k ACTIVE s0 s1"
      using wake_kinv [OF k0, of k] kk s0 by auto
    note f = movedD [OF s1(3), unfolded s0 f0]
    let ?s = "ctx_upd c (\<lambda>x. x\<lparr>c_killer := None\<rparr>) s1"
    have "ack c s = Some ?s"
      using 4 kk s1(1) by (simp add: ack_def signal_context_kill_done_def s0_def state_of_def)
    moreover have "handlers_ok ?s"
      using sinvD(2) [OF v] kk by (subst handlers_cong [of _ s]) (auto simp: f)
    moreover have "killers_ok ?s" by (rule leave_killers_ok [OF sinvD(3) [OF v], of _ k]) (use kk 4(3) K(1) in \<open>auto simp: f\<close>)
    moreover have "contexts_ok ?s" by (rule contexts_cong [OF _ _ _ _ _ _ _ sinvD(4) [OF v]]) (auto simp: f)
    moreover have "idle ?s r" if "rcv_alive s r" for r using sinvD(5) [OF v that] by (simp add: idle_def f)
    moreover have "sig_total ?s = sig_total s" by (rule sig_total_cong) (auto simp: f)
    ultimately show ?thesis using s1(2) by (simp add: sinv_def f)
  qed (use v in \<open>auto simp: ack_def\<close>)
qed

lemma caller_unrelated:
  assumes "sinv R s" "caller_ok s t"
  shows "k_context s t = None" "h_receiver s t = None" "\<not> h_queued s t" "state_of s t = ACTIVE" "alive s t"
  using assms handlersD(3,4) [OF sinvD(2) [OF assms(1)], of t] killersD(2) [OF sinvD(3) [OF assms(1)], of t]
  by (auto simp: caller_ok_def runnable_def state_of_def)

lemma kill_sinv:
  assumes v: "sinv {} s" and c: "ctx_alive s c" and k: "caller_ok s k"
  shows "\<exists>s'. kill k c s = Some s' \<and> sinv {} s' \<and> sig_total s' = sig_total s"
proof -
  note kf = caller_unrelated [OF v k]
  consider "c_killed (ctx s c)" | "\<not> c_killed (ctx s c)" "c_ack (ctx s c)" | "\<not> c_killed (ctx s c)" "\<not> c_ack (ctx s c)" by blast
  then show ?thesis
  proof cases
    case 2
    have "sinv {} (ctx_upd c (\<lambda>x. x\<lparr>c_killed := True\<rparr>) s)"
      by (rule ctx_upd_sinv [OF v]) (use 2 not_killed_no_killer [OF v c 2(1)] contextsD(7) [OF sinvD(4) [OF v] c] in auto)
    moreover have "sig_total (ctx_upd c (\<lambda>x. x\<lparr>c_killed := True\<rparr>) s) = sig_total s" by (rule sig_total_cong) simp_all
    ultimately show ?thesis using 2 by (simp add: kill_def)
  next
    case 3
    define s0 where "s0 = (ctx_upd c (\<lambda>x. x\<lparr>c_killer := Some k, c_killed := True\<rparr>) s)\<lparr>k_context := (k_context s)(k := Some c)\<rparr>"
    have k0: "kinv {} s0" using sinvD(1) [OF v] by (subst kinv_cong [of _ s]) (simp_all add: s0_def)
    have c0: "caller_ok s0 k" using k by (simp add: s0_def caller_ok_def)
    have s0: "alive s0 = alive s" "state_of s0 = state_of s" "ctx_alive s0 = ctx_alive s" "rcv_alive s0 = rcv_alive s" "rcv s0 = rcv s"
      "ctx s0 = (ctx s)(c := (ctx s c)\<lparr>c_killer := Some k, c_killed := True\<rparr>)" "h_receiver s0 = h_receiver s" "h_queued s0 = h_queued s"
      "k_context s0 = (k_context s)(k := Some c)" "sig_log s0 = sig_log s"
      by (auto simp: s0_def state_of_def fun_eq_iff)
    obtain s1 where s1: "become_inactive AWAITS_SIGNAL_CONTEXT_KILL k s0 = Some s1" "kinv {} s1" "moved k AWAITS_SIGNAL_CONTEXT_KILL s0 s1"
      using sleep_kinv [OF k0 c0] by blast
    note f = movedD [OF s1(3), unfolded s0]
    have "kill k c s = Some s1" using 3 s1(1) kf(4) by (simp add: kill_def signal_context_kill_pending_def s0_def state_of_def)
    moreover have "handlers_ok s1" using sinvD(2) [OF v] kf by (subst handlers_cong [of _ s]) (auto simp: f)
    moreover have "killers_ok s1"
      by (rule set_killer_ok [OF sinvD(3) [OF v] c kf(5,1) not_killed_no_killer [OF v c 3(1)]]) (use 3 in \<open>simp_all add: f\<close>)
    moreover have "contexts_ok s1" by (rule contexts_cong [OF _ _ _ _ _ _ _ sinvD(4) [OF v]]) (auto simp: f)
    moreover have "idle s1 r" if "rcv_alive s r" for r using sinvD(5) [OF v that] by (simp add: idle_def f)
    moreover have "sig_total s1 = sig_total s" by (rule sig_total_cong) (auto simp: f)
    ultimately show ?thesis using s1(2) by (simp add: sinv_def f)
  qed (use v in \<open>auto simp: kill_def\<close>)
qed

lemma wake_handler_sinv:
  assumes v: "sinv {} s" and t: "alive s t" "state_of s t = AWAITS_SIGNAL"
  shows "\<exists>s'. cancel_blocking t s = Some s' \<and> sinv {} s' \<and> sig_total s' = sig_total s"
proof -
  note H = handlersD [OF sinvD(2) [OF v]]
  obtain r where r: "h_receiver s t = Some r" using H(4) [OF t(1)] t(2) by auto
  have ra: "rcv_alive s r" "t \<in> set (r_handlers (rcv s r))" using H(5) [OF t(1) r] by simp_all
  define s1 where "s1 = (rcv_upd r (\<lambda>x. x\<lparr>r_handlers := remove1 t (r_handlers x)\<rparr>) s)
      \<lparr>h_queued := (h_queued s)(t := False), h_receiver := (h_receiver s)(t := None)\<rparr>"
  have "handler_cancel_waiting t s = Some s1" using r ra by (simp add: handler_cancel_waiting_def handler_cancelled_def s1_def)
  moreover have "kinv {} s1" using sinvD(1) [OF v] by (subst kinv_cong [of _ s]) (simp_all add: s1_def)
  moreover have m1: "kernel.more (user_arg_0 (- 1) t s1) = kernel.more s1" by simp
  moreover have st: "alive (user_arg_0 (- 1) t s1) = alive s" "state_of (user_arg_0 (- 1) t s1) = state_of s"
    by (auto simp: s1_def state_of_def user_arg_0_def fun_eq_iff)
  ultimately obtain s' where s': "cancel_blocking t s = Some s'" "kinv {} s'" "moved t ACTIVE (user_arg_0 (- 1) t s1) s'"
    using wake_kinv [of "user_arg_0 (- 1) t s1" t] t by (auto simp: cancel_blocking_def state_of_def)
  note f = movedD [OF s'(3), unfolded st more_fields [OF m1]]
  have nr: "t \<notin> set (r_handlers (rcv s x))" if "rcv_alive s x" "x \<noteq> r" for x using H(2) [OF that(1), of t] r that(2) by auto
  have "handlers_ok s'"
    by (rule leave_handlers_ok [OF sinvD(2) [OF v], of _ t]) (use nr in \<open>auto simp: f s1_def remove1_idem\<close>)
  moreover have "killers_ok s'" by (rule killers_cong [OF _ _ _ _ _ _ sinvD(3) [OF v]]) (use t in \<open>auto simp: f s1_def\<close>)
  moreover have "contexts_ok s'" by (rule contexts_cong [OF _ _ _ _ _ _ _ sinvD(4) [OF v]]) (auto simp: f s1_def)
  moreover have "idle s' x" if "rcv_alive s x" for x using sinvD(5) [OF v that] by (auto simp: idle_def f s1_def)
  moreover have "sig_total s' = sig_total s" by (rule sig_total_cong) (auto simp: f s1_def)
  moreover have "rcv_alive s' = rcv_alive s" by (simp add: f s1_def)
  ultimately show ?thesis using s'(1,2) by (simp add: sinv_def)
qed

lemma add_handler_sinv:
  assumes v: "sinv {} s" and h: "caller_ok s h" and r: "rcv_alive s r"
  shows "\<exists>s'. add_handler r h s = Some s' \<and> sinv {} s' \<and> sig_total s' = sig_total s \<and> alive s' h"
proof -
  note H = handlersD [OF sinvD(2) [OF v]] and hf = caller_unrelated [OF v h]
  define s0 where "s0 = (rcv_upd r (\<lambda>x. x\<lparr>r_handlers := r_handlers x @ [h]\<rparr>) s)
      \<lparr>h_queued := (h_queued s)(h := True), h_receiver := (h_receiver s)(h := Some r)\<rparr>"
  have "kinv {} s0" using sinvD(1) [OF v] by (subst kinv_cong [of _ s]) (simp_all add: s0_def)
  moreover have "caller_ok s0 h" using h by (simp add: caller_ok_def s0_def)
  ultimately obtain s1 where s1: "become_inactive AWAITS_SIGNAL h s0 = Some s1" "kinv {} s1" "moved h AWAITS_SIGNAL s0 s1"
    using sleep_kinv [of s0 h AWAITS_SIGNAL] by auto
  have st: "state_of s0 = state_of s" by (auto simp: s0_def state_of_def fun_eq_iff)
  note f = movedD [OF s1(3), unfolded st]
  have nh: "h \<notin> set (r_handlers (rcv s x))" if "rcv_alive s x" for x using H(2) [OF that, of h] hf(2) by auto
  have "handlers_ok s1"
    unfolding handlers_ok_def
  proof (intro conjI allI impI ballI)
    fix x
    assume x: "rcv_alive s1 x"
    then show "distinct (r_handlers (rcv s1 x))" using H(1) [of x] nh [of x] by (auto simp: f s0_def)
    fix t
    assume "t \<in> set (r_handlers (rcv s1 x))"
    then show "alive s1 t" "h_receiver s1 t = Some x"
      using x H(2) [of x t] nh [of x] hf(5) by (auto simp: f s0_def split: if_splits)
  next
    fix t
    assume t: "alive s1 t"
    show "h_queued s1 t = (h_receiver s1 t \<noteq> None)" "(state_of s1 t = AWAITS_SIGNAL) = (h_receiver s1 t \<noteq> None)"
      using t H(3,4) [of t] by (auto simp: f s0_def)
    fix x
    assume "h_receiver s1 t = Some x"
    then show "rcv_alive s1 x" "t \<in> set (r_handlers (rcv s1 x))" using t H(5) [of t x] r by (auto simp: f s0_def split: if_splits)
  qed
  moreover have "killers_ok s1"
    by (rule killers_cong [OF _ _ _ _ _ _ sinvD(3) [OF v]]) (use hf in \<open>auto simp: f s0_def\<close>)
  moreover have "contexts_ok s1" by (rule contexts_cong [OF _ _ _ _ _ _ _ sinvD(4) [OF v]]) (auto simp: f s0_def)
  moreover have "idle s1 x" if "rcv_alive s1 x" "x \<noteq> r" for x
    using sinvD(5) [OF v, of x] that by (auto simp: idle_def f s0_def)
  ultimately have v1: "sinv {r} s1" using s1(2) by (simp add: sinv_def)
  have r1: "rcv_alive s1 r" using r by (simp add: f s0_def)
  obtain s' where s': "listen r s1 = Some s'" "sinv {} s'" "sig_total s' = sig_total s1" "alive s' = alive s1"
    using listen_sinv [OF v1 r1] serves_total [OF v1 r1 refl] servesD(1) by blast
  have "add_handler r h s = Some s'" using hf s1(1) s'(1) by (simp add: add_handler_def signal_wait_for_signal_def s0_def)
  moreover have "sig_total s1 = sig_total s" by (rule sig_total_cong) (auto simp: f s0_def)
  ultimately show ?thesis using s' hf(5) by (auto simp: f s0_def)
qed

lemma context_destructed_eq:
  assumes "contexts_ok s" "ctx_alive s c" and r: "r = c_receiver (ctx s c)"
  shows "context_destructed c s = ctx_upd c (\<lambda>x. x\<lparr>c_deliver_enq := False\<rparr>)
    (rcv_upd r (\<lambda>x. x\<lparr>r_contexts := remove1 c (r_contexts x), r_deliver := remove1 c (r_deliver x)\<rparr>) s)"
proof (cases "c_deliver_enq (ctx s c)")
  case True
  then show ?thesis by (simp add: context_destructed_def r ctx_upd_def rcv_upd_def Let_def)
next
  case False
  then have "remove1 c (r_deliver (rcv s r)) = r_deliver (rcv s r)"
    using contextsD(6) [OF assms(1,2)] r by (simp add: remove1_idem)
  moreover have "ctx_upd c (\<lambda>x. x\<lparr>c_deliver_enq := False\<rparr>) s1 = s1" if "ctx s1 = ctx s" for s1
    using that False by (cases s1) (simp add: ctx_upd_def fun_upd_idem)
  ultimately show ?thesis using False r by (simp add: context_destructed_def Let_def rcv_upd_def)
qed

lemma destruct_context_sinv:
  assumes v: "sinv {} s" and c: "ctx_alive s c" "c_killer (ctx s c) = None" and r: "r = c_receiver (ctx s c)"
  shows "\<exists>s'. destruct_context c s = Some s' \<and> sinv {} s' \<and> sig_total s' = (sig_total s)(c := received c s) \<and>
    r_contexts (rcv s' r) = remove1 c (r_contexts (rcv s r)) \<and> r_handlers (rcv s' r) = r_handlers (rcv s r) \<and>
    rcv_alive s' = rcv_alive s \<and> (\<forall>d. d \<noteq> c \<longrightarrow> ctx_alive s' d = ctx_alive s d \<and> ctx s' d = ctx s d)"
proof -
  note C = contextsD [OF sinvD(4) [OF v]] and K = killersD [OF sinvD(3) [OF v]]
  define s' where "s' = (context_destructed c s)\<lparr>ctx_alive := (ctx_alive s)(c := False)\<rparr>"
  note e = context_destructed_eq [OF sinvD(4) [OF v] c(1) r]
  have f: "alive s' = alive s" "state_of s' = state_of s" "node s' = node s" "thr s' = thr s" "h_receiver s' = h_receiver s"
    "h_queued s' = h_queued s" "k_context s' = k_context s" "rcv_alive s' = rcv_alive s" "sig_log s' = sig_log s"
    "ctx_alive s' = (ctx_alive s)(c := False)" "ctx s' = (ctx s)(c := (ctx s c)\<lparr>c_deliver_enq := False\<rparr>)"
    "rcv s' = (rcv s)(r := (rcv s r)\<lparr>r_contexts := remove1 c (r_contexts (rcv s r)), r_deliver := remove1 c (r_deliver (rcv s r))\<rparr>)"
    unfolding s'_def e by (auto simp: state_of_def fun_eq_iff)
  have ra: "rcv_alive s r" using C(5) [OF c(1)] r by simp
  have nc: "c \<notin> set (r_deliver (rcv s x))" "c \<notin> set (r_contexts (rcv s x))" if "rcv_alive s x" "x \<noteq> r" for x
    using C(3,4) [OF that(1), of c] that(2) r by auto
  have "destruct_context c s = Some s'"
    using c ra r by (simp add: destruct_context_def s'_def Let_def context_destructed_def)
  moreover have "kinv {} s'" using sinvD(1) [OF v] by (subst kinv_cong [of _ s]) (simp_all add: f)
  moreover have "handlers_ok s'" using sinvD(2) [OF v] by (subst handlers_cong [of _ s]) (auto simp: f)
  moreover have "killers_ok s'"
    unfolding killers_ok_def
  proof (intro conjI allI impI)
    fix d t
    assume "ctx_alive s' d \<and> c_killer (ctx s' d) = Some t"
    then have "d \<noteq> c" "ctx_alive s d" "c_killer (ctx s d) = Some t" by (auto simp: f split: if_splits)
    with K(1) [of d t] show "alive s' t" "k_context s' t = Some d" "c_killed (ctx s' d)" "\<not> c_ack (ctx s' d)" by (simp_all add: f)
  next
    fix t
    assume t: "alive s' t"
    then show "(state_of s' t = AWAITS_SIGNAL_CONTEXT_KILL) = (k_context s' t \<noteq> None)" using K(2) [of t] by (simp only: f)
    fix d
    assume "k_context s' t = Some d"
    then have "ctx_alive s d" "c_killer (ctx s d) = Some t" using K(3) [of t d] t by (simp_all only: f)
    then show "ctx_alive s' d" "c_killer (ctx s' d) = Some t" using c(2) by (auto simp: f)
  qed
  moreover have "contexts_ok s'"
    unfolding contexts_ok_def
  proof (intro conjI allI impI ballI)
    fix x
    assume x: "rcv_alive s' x"
    then show "distinct (r_deliver (rcv s' x))" "distinct (r_contexts (rcv s' x))" using C(1,2) [of x] by (auto simp: f)
    fix d
    assume "d \<in> set (r_contexts (rcv s' x)) \<union> set (r_deliver (rcv s' x))"
    then have "d \<in> set (r_contexts (rcv s x)) \<union> set (r_deliver (rcv s x))" "d \<noteq> c"
      using x C(1,2) [of x] nc [of x] by (auto simp: f split: if_splits)
    then show "ctx_alive s' d" "c_receiver (ctx s' d) = x" using x C(3,4) [of x d] by (auto simp: f)
  next
    fix d
    assume "ctx_alive s' d"
    then have d: "ctx_alive s d" "d \<noteq> c" by (simp_all add: f split: if_splits)
    show "rcv_alive s' (c_receiver (ctx s' d))" "d \<in> set (r_contexts (rcv s' (c_receiver (ctx s' d))))"
      using C(5) [OF d(1)] d(2) by (auto simp: f)
    show "c_deliver_enq (ctx s' d) = (d \<in> set (r_deliver (rcv s' (c_receiver (ctx s' d)))))"
      "c_deliver_enq (ctx s' d) = (c_ack (ctx s' d) \<and> c_submits (ctx s' d) \<noteq> 0)"
      using C(6,7) [OF d(1)] d(2) by (auto simp: f)
  qed
  moreover have "idle s' x" if "rcv_alive s x" for x using sinvD(5) [OF v that] by (auto simp: idle_def f)
  moreover have "sig_total s' = (sig_total s)(c := received c s)" by (auto simp: sig_total_def received_def pending_def f fun_eq_iff)
  ultimately show ?thesis by (intro exI [of _ s']) (simp add: sinv_def f)
qed

lemma destruct_contexts_sinv:
  assumes "sinv {} s" "rcv_alive s r" "r_contexts (rcv s r) = cs" "\<forall>c \<in> set cs. c_killer (ctx s c) = None" "r_handlers (rcv s r) = []"
  shows "\<exists>s'. destruct_contexts cs s = Some s' \<and> sinv {} s' \<and> rcv_alive s' = rcv_alive s \<and> r_contexts (rcv s' r) = [] \<and>
    r_handlers (rcv s' r) = [] \<and> (\<forall>c. c \<notin> set cs \<longrightarrow> sig_total s' c = sig_total s c)"
  using assms
proof (induction cs arbitrary: s)
  case Nil
  then show ?case by simp
next
  case (Cons c cs)
  have c: "ctx_alive s c \<and> c_receiver (ctx s c) = r" "c \<notin> set cs"
    using contextsD(2,3) [OF sinvD(4) [OF Cons.prems(1)] Cons.prems(2)] Cons.prems(3) by auto
  obtain s1 where s1: "destruct_context c s = Some s1" "sinv {} s1" "sig_total s1 = (sig_total s)(c := received c s)"
      "r_contexts (rcv s1 r) = cs" "r_handlers (rcv s1 r) = []" "rcv_alive s1 = rcv_alive s" "\<forall>d. d \<noteq> c \<longrightarrow> ctx s1 d = ctx s d"
    using destruct_context_sinv [OF Cons.prems(1), of c r] c Cons.prems(3,4,5) by auto
  have "\<forall>d \<in> set cs. c_killer (ctx s1 d) = None" using Cons.prems(4) s1(7) c(2) by auto
  with Cons.IH [of s1] s1 Cons.prems(2) show ?case by auto
qed

lemma destruct_receiver_sinv:
  assumes v: "sinv {} s" and r: "rcv_alive s r" "r_handlers (rcv s r) = []" "\<forall>c \<in> set (r_contexts (rcv s r)). c_killer (ctx s c) = None"
  shows "\<exists>s'. destruct_receiver r s = Some s' \<and> sinv {} s' \<and> (\<forall>c. ctx_alive s c \<and> c_receiver (ctx s c) = r \<or> sig_total s' c = sig_total s c)"
proof -
  obtain s1 where s1: "destruct_contexts (r_contexts (rcv s r)) s = Some s1" "sinv {} s1" "rcv_alive s1 = rcv_alive s"
      "r_contexts (rcv s1 r) = []" "r_handlers (rcv s1 r) = []" "\<forall>c. c \<notin> set (r_contexts (rcv s r)) \<longrightarrow> sig_total s1 c = sig_total s c"
    using destruct_contexts_sinv [OF v r(1) refl r(3,2)] by blast
  define s' where "s' = s1\<lparr>rcv_alive := (rcv_alive s1)(r := False)\<rparr>"
  have f: "alive s' = alive s1" "state_of s' = state_of s1" "h_receiver s' = h_receiver s1" "h_queued s' = h_queued s1" "ctx s' = ctx s1"
    "k_context s' = k_context s1" "ctx_alive s' = ctx_alive s1" "rcv s' = rcv s1" "rcv_alive s' = (rcv_alive s1)(r := False)"
    by (auto simp: s'_def state_of_def fun_eq_iff)
  have "destruct_receiver r s = Some s'" using r(1) s1(1) by (simp add: destruct_receiver_def s'_def)
  moreover have "kinv {} s'" using sinvD(1) [OF s1(2)] by (subst kinv_cong [of _ s1]) (simp_all add: s'_def)
  moreover have "handlers_ok s'"
  proof -
    note H = handlersD [OF sinvD(2) [OF s1(2)]]
    have "x \<noteq> r" if "alive s1 t" "h_receiver s1 t = Some x" for t x using H(5) [OF that] s1(5) by auto
    note nr = this
    show ?thesis
      unfolding handlers_ok_def f
    proof (intro conjI allI impI ballI)
      fix x
      assume "((rcv_alive s1)(r := False)) x"
      then have x: "rcv_alive s1 x" by (simp split: if_splits)
      then show "distinct (r_handlers (rcv s1 x))" by (rule H(1))
      fix t
      assume "t \<in> set (r_handlers (rcv s1 x))"
      then show "alive s1 t" "h_receiver s1 t = Some x" using H(2) [OF x] by blast+
    next
      fix t x
      assume t: "alive s1 t" "h_receiver s1 t = Some x"
      then show "((rcv_alive s1)(r := False)) x" "t \<in> set (r_handlers (rcv s1 x))" using H(5) [OF t] nr [OF t] by simp_all
    qed (use H(3,4) in blast)+
  qed
  moreover have "killers_ok s'" using sinvD(3) [OF s1(2)] unfolding killers_ok_def f .
  moreover have "contexts_ok s'"
  proof -
    have "c_receiver (ctx s1 c) \<noteq> r" if "ctx_alive s1 c" for c using contextsD(5) [OF sinvD(4) [OF s1(2)] that] s1(4) by auto
    note C = contextsD [OF sinvD(4) [OF s1(2)]] and nr = this
    show ?thesis
      unfolding contexts_ok_def f
    proof (intro conjI allI impI ballI)
      fix x
      assume "((rcv_alive s1)(r := False)) x"
      then have x: "rcv_alive s1 x" by (simp split: if_splits)
      then show "distinct (r_deliver (rcv s1 x))" "distinct (r_contexts (rcv s1 x))" by (rule C(1,2))+
      fix c
      assume "c \<in> set (r_contexts (rcv s1 x)) \<union> set (r_deliver (rcv s1 x))"
      then show "ctx_alive s1 c" "c_receiver (ctx s1 c) = x" using C(3,4) [OF x] by blast+
    qed (use C(5-7) nr in simp_all)
  qed
  moreover have "idle s' x" if "rcv_alive s' x" for x using sinvD(5) [OF s1(2), of x] that by (auto simp: idle_def f split: if_splits)
  moreover have "sig_total s' = sig_total s1" by (rule sig_total_cong) (simp_all add: s'_def)
  moreover have "ctx_alive s c \<and> c_receiver (ctx s c) = r" if "c \<in> set (r_contexts (rcv s r))" for c
    using that contextsD(3) [OF sinvD(4) [OF v] r(1)] by blast
  ultimately show ?thesis using s1(6) by (auto simp: sinv_def)
qed

lemma new_context_sinv:
  assumes v: "sinv {} s" and c: "\<not> ctx_alive s c" and r: "rcv_alive s r"
  shows "\<exists>s'. new_context c r m s = Some s' \<and> sinv {} s' \<and> sig_total s' = sig_total s"
proof -
  note C = contextsD [OF sinvD(4) [OF v]] and K = killersD [OF sinvD(3) [OF v]]
  define s' where "s' = rcv_upd r (\<lambda>x. x\<lparr>r_contexts := r_contexts x @ [c]\<rparr>)
        (s\<lparr>ctx_alive := (ctx_alive s)(c := True), ctx := (ctx s)(c := sigctx_init r m)\<rparr>)"
  have f: "alive s' = alive s" "state_of s' = state_of s" "h_receiver s' = h_receiver s" "h_queued s' = h_queued s"
    "k_context s' = k_context s" "rcv_alive s' = rcv_alive s" "sig_log s' = sig_log s"
    "ctx_alive s' = (ctx_alive s)(c := True)" "ctx s' = (ctx s)(c := sigctx_init r m)"
    "rcv s' = (rcv s)(r := (rcv s r)\<lparr>r_contexts := r_contexts (rcv s r) @ [c]\<rparr>)"
    by (auto simp: s'_def state_of_def fun_eq_iff)
  have nc: "c \<notin> set (r_deliver (rcv s x))" "c \<notin> set (r_contexts (rcv s x))" if "rcv_alive s x" for x
    using C(3,4) [OF that, of c] c by auto
  have "new_context c r m s = Some s'" using c r by (simp add: new_context_def s'_def)
  moreover have "kinv {} s'" using sinvD(1) [OF v] by (subst kinv_cong [of _ s]) (simp_all add: s'_def)
  moreover have "handlers_ok s'" using sinvD(2) [OF v] by (subst handlers_cong [of _ s]) (auto simp: f)
  moreover have "killers_ok s'"
    unfolding killers_ok_def
  proof (intro conjI allI impI)
    fix d t
    assume "ctx_alive s' d \<and> c_killer (ctx s' d) = Some t"
    then have "d \<noteq> c" "ctx_alive s d" "c_killer (ctx s d) = Some t" by (auto simp: f sigctx_init_def split: if_splits)
    with K(1) [of d t] show "alive s' t" "k_context s' t = Some d" "c_killed (ctx s' d)" "\<not> c_ack (ctx s' d)" by (simp_all add: f)
  next
    fix t
    assume t: "alive s' t"
    then show "(state_of s' t = AWAITS_SIGNAL_CONTEXT_KILL) = (k_context s' t \<noteq> None)" using K(2) [of t] by (simp only: f)
    fix d
    assume "k_context s' t = Some d"
    then have "ctx_alive s d" "c_killer (ctx s d) = Some t" using K(3) [of t d] t by (simp_all only: f)
    then show "ctx_alive s' d" "c_killer (ctx s' d) = Some t" using c by (auto simp: f)
  qed
  moreover have "contexts_ok s'"
    unfolding contexts_ok_def
  proof (intro conjI allI impI ballI)
    fix x
    assume x: "rcv_alive s' x"
    then show "distinct (r_deliver (rcv s' x))" "distinct (r_contexts (rcv s' x))" using C(1,2) [of x] nc [of x] by (auto simp: f)
    fix d
    assume "d \<in> set (r_contexts (rcv s' x)) \<union> set (r_deliver (rcv s' x))"
    then consider "d = c" "x = r" | "d \<noteq> c" "d \<in> set (r_contexts (rcv s x)) \<union> set (r_deliver (rcv s x))"
      using x nc [of x] by (auto simp: f split: if_splits)
    then show "ctx_alive s' d" "c_receiver (ctx s' d) = x"
      using x C(3,4) [of x d] by (cases; auto simp: f sigctx_init_def)+
  next
    fix d
    assume "ctx_alive s' d"
    then consider "d = c" | "d \<noteq> c" "ctx_alive s d" by (auto simp: f split: if_splits)
    note d = this
    then show "rcv_alive s' (c_receiver (ctx s' d))" "d \<in> set (r_contexts (rcv s' (c_receiver (ctx s' d))))"
      using C(5) [of d] r by (cases; auto simp: f sigctx_init_def)+
    show "c_deliver_enq (ctx s' d) = (d \<in> set (r_deliver (rcv s' (c_receiver (ctx s' d)))))"
      "c_deliver_enq (ctx s' d) = (c_ack (ctx s' d) \<and> c_submits (ctx s' d) \<noteq> 0)"
      using d C(6,7) [of d] nc [OF r] by (cases; auto simp: f sigctx_init_def)+
  qed
  moreover have "idle s' x" if "rcv_alive s x" for x using sinvD(5) [OF v that] by (auto simp: idle_def f)
  moreover have "sig_total s' = sig_total s" using c by (auto simp: sig_total_def received_def pending_def f sigctx_init_def fun_eq_iff)
  ultimately show ?thesis by (intro exI [of _ s']) (simp add: sinv_def f)
qed

lemma new_receiver_sinv:
  assumes v: "sinv {} s" and r: "\<not> rcv_alive s r"
  shows "\<exists>s'. new_receiver r s = Some s' \<and> sinv {} s' \<and> sig_total s' = sig_total s"
proof -
  note C = contextsD [OF sinvD(4) [OF v]] and H = handlersD [OF sinvD(2) [OF v]]
  let ?e = "\<lparr>r_handlers = [], r_deliver = [], r_contexts = []\<rparr>"
  define s' where "s' = s\<lparr>rcv_alive := (rcv_alive s)(r := True), rcv := (rcv s)(r := ?e)\<rparr>"
  have f: "alive s' = alive s" "state_of s' = state_of s" "h_receiver s' = h_receiver s" "h_queued s' = h_queued s"
    "k_context s' = k_context s" "ctx_alive s' = ctx_alive s" "ctx s' = ctx s" "sig_log s' = sig_log s"
    "rcv_alive s' = (rcv_alive s)(r := True)" "rcv s' = (rcv s)(r := ?e)"
    by (auto simp: s'_def state_of_def fun_eq_iff)
  have "new_receiver r s = Some s'" using r by (simp add: new_receiver_def s'_def)
  moreover have "kinv {} s'" using sinvD(1) [OF v] by (subst kinv_cong [of _ s]) (simp_all add: s'_def)
  moreover have "handlers_ok s'"
    unfolding handlers_ok_def
  proof (intro conjI allI impI ballI)
    fix x t
    assume "rcv_alive s' x" "t \<in> set (r_handlers (rcv s' x))"
    then show "alive s' t" "h_receiver s' t = Some x" using H(2) [of x t] by (auto simp: f split: if_splits)
  next
    fix t x
    assume "alive s' t" "h_receiver s' t = Some x"
    then show "rcv_alive s' x" "t \<in> set (r_handlers (rcv s' x))" using H(5) [of t x] r by (auto simp: f)
  qed (use H(1,3,4) in \<open>auto simp: f\<close>)
  moreover have "killers_ok s'" using sinvD(3) [OF v] unfolding killers_ok_def f .
  moreover have "contexts_ok s'"
    unfolding contexts_ok_def
  proof (intro conjI allI impI ballI)
    fix x c
    assume "rcv_alive s' x" "c \<in> set (r_contexts (rcv s' x)) \<union> set (r_deliver (rcv s' x))"
    then show "ctx_alive s' c" "c_receiver (ctx s' c) = x" using C(3,4) [of x c] by (auto simp: f split: if_splits)
  next
    fix c
    assume "ctx_alive s' c"
    then have "ctx_alive s c" "c_receiver (ctx s c) \<noteq> r" using C(5) [of c] r by (auto simp: f)
    with C(5-7) [of c] show "rcv_alive s' (c_receiver (ctx s' c))" "c \<in> set (r_contexts (rcv s' (c_receiver (ctx s' c))))"
      "c_deliver_enq (ctx s' c) = (c \<in> set (r_deliver (rcv s' (c_receiver (ctx s' c)))))"
      "c_deliver_enq (ctx s' c) = (c_ack (ctx s' c) \<and> c_submits (ctx s' c) \<noteq> 0)" by (simp_all add: f)
  qed (use C(1,2) in \<open>auto simp: f split: if_splits\<close>)
  moreover have "idle s' x" if "rcv_alive s' x" for x using sinvD(5) [OF v, of x] that by (auto simp: idle_def f split: if_splits)
  moreover have "sig_total s' = sig_total s" by (rule sig_total_cong) (simp_all add: f)
  ultimately show ?thesis by (intro exI [of _ s']) (simp add: sinv_def)
qed

lemma construct_thread_sinv:
  assumes v: "sinv {} s" and t: "\<not> alive s t"
  shows "\<exists>s'. construct_thread t s = Some s' \<and> sinv {} s' \<and> sig_total s' = sig_total s"
proof -
  obtain s1 where s1: "new_thread t s = Some s1" "kinv {} s1" using new_thread_kinv [OF sinvD(1) [OF v] t] by blast
  have e: "s1 = s\<lparr>alive := (alive s)(t := True), node := (node s)(t := ipc_node_init), thr := (thr s)(t := kthread_init)\<rparr>"
    using s1(1) t by (simp add: new_thread_def)
  define s' where "s' = s1\<lparr>h_receiver := (h_receiver s1)(t := None), h_queued := (h_queued s1)(t := False),
      k_context := (k_context s1)(t := None), cancel_next := (cancel_next s1)(t := False)\<rparr>"
  have f: "alive s' = (alive s)(t := True)" "state_of s' = (state_of s)(t := AWAITS_START)" "h_receiver s' = (h_receiver s)(t := None)"
    "h_queued s' = (h_queued s)(t := False)" "k_context s' = (k_context s)(t := None)" "ctx_alive s' = ctx_alive s" "ctx s' = ctx s"
    "sig_log s' = sig_log s" "rcv_alive s' = rcv_alive s" "rcv s' = rcv s"
    by (auto simp: s'_def e state_of_def kthread_init_def fun_eq_iff)
  have "construct_thread t s = Some s'" using s1(1) by (simp add: construct_thread_def s'_def)
  moreover have "kinv {} s'" using s1(2) by (subst kinv_cong [of _ s1]) (simp_all add: s'_def)
  moreover have "remove1 t (r_handlers (rcv s x)) = r_handlers (rcv s x)" if "rcv_alive s x" for x
    using handlersD(2) [OF sinvD(2) [OF v] that, of t] t by (auto intro: remove1_idem)
  then have "handlers_ok s'" by (intro leave_handlers_ok [OF sinvD(2) [OF v], of _ t]) (auto simp: f)
  moreover have "killers_ok s'"
    by (rule leave_killers_ok [OF sinvD(3) [OF v], of _ t])
      (use killersD(1) [OF sinvD(3) [OF v], of _ t] t in \<open>auto simp: f\<close>)
  moreover have "contexts_ok s'" by (rule contexts_cong [OF _ _ _ _ _ _ _ sinvD(4) [OF v]]) (auto simp: f)
  moreover have "idle s' x" if "rcv_alive s x" for x using sinvD(5) [OF v that] by (simp add: idle_def f)
  moreover have "sig_total s' = sig_total s" by (rule sig_total_cong) (auto simp: f)
  ultimately show ?thesis by (simp add: sinv_def f)
qed

text \<open>The destructors of a thread's killer and handler unlink it from the contexts and receivers.\<close>

lemma cancel_signals:
  assumes v: "sinv {} s" and t: "alive s t"
  shows "\<exists>s1 s2. killer_cancel_waiting t s = Some s1 \<and> handler_cancel_waiting t s1 = Some s2 \<and> kinv {} s2 \<and>
    alive s2 = alive s \<and> state_of s2 = state_of s \<and> ctx_alive s2 = ctx_alive s \<and> rcv_alive s2 = rcv_alive s \<and> sig_log s2 = sig_log s \<and>
    k_context s2 = k_context s \<and> (\<forall>c. ctx_alive s c \<longrightarrow> ctx s2 c = (if c_killer (ctx s c) = Some t then (ctx s c)\<lparr>c_killer := None\<rparr> else ctx s c)) \<and>
    (\<forall>c. \<not> ctx_alive s c \<longrightarrow> ctx s2 c = ctx s c) \<and>
    (\<forall>u. u \<noteq> t \<longrightarrow> h_receiver s2 u = h_receiver s u \<and> h_queued s2 u = h_queued s u) \<and>
    (\<forall>r. rcv_alive s r \<longrightarrow> rcv s2 r = (rcv s r)\<lparr>r_handlers := remove1 t (r_handlers (rcv s r))\<rparr>)"
proof -
  note K = killersD [OF sinvD(3) [OF v]] and H = handlersD [OF sinvD(2) [OF v]]
  define s1 where "s1 = (case k_context s t of None \<Rightarrow> s | Some c \<Rightarrow> ctx_upd c (\<lambda>x. x\<lparr>c_killer := None\<rparr>) s)"
  have k1: "killer_cancel_waiting t s = Some s1"
    using K(3) [OF t] by (auto simp: killer_cancel_waiting_def s1_def split: option.splits)
  have f1: "alive s1 = alive s" "node s1 = node s" "thr s1 = thr s" "ctx_alive s1 = ctx_alive s" "rcv_alive s1 = rcv_alive s" "rcv s1 = rcv s"
    "h_receiver s1 = h_receiver s" "h_queued s1 = h_queued s" "k_context s1 = k_context s" "sig_log s1 = sig_log s"
    by (simp_all add: s1_def split: option.splits)
  have c1: "ctx s1 c = (if c_killer (ctx s c) = Some t then (ctx s c)\<lparr>c_killer := None\<rparr> else ctx s c)" if "ctx_alive s c" for c
    using K(1) [OF that, of t] K(3) [OF t, of c] by (auto simp: s1_def split: option.splits)
  have c1': "ctx s1 c = ctx s c" if "\<not> ctx_alive s c" for c
    using that K(3) [OF t, of c] by (auto simp: s1_def split: option.splits)
  define s2 where "s2 = (case h_receiver s t of None \<Rightarrow> s1 | Some r \<Rightarrow>
      (rcv_upd r (\<lambda>x. x\<lparr>r_handlers := remove1 t (r_handlers x)\<rparr>) s1)\<lparr>h_queued := (h_queued s1)(t := False), h_receiver := (h_receiver s1)(t := None)\<rparr>)"
  have k2: "handler_cancel_waiting t s1 = Some s2"
    using H(5) [OF t] by (auto simp: handler_cancel_waiting_def handler_cancelled_def s2_def f1 split: option.splits)
  have f2: "alive s2 = alive s" "node s2 = node s" "thr s2 = thr s" "ctx_alive s2 = ctx_alive s" "rcv_alive s2 = rcv_alive s" "ctx s2 = ctx s1"
    "k_context s2 = k_context s" "sig_log s2 = sig_log s" "\<forall>u. u \<noteq> t \<longrightarrow> h_receiver s2 u = h_receiver s u \<and> h_queued s2 u = h_queued s u"
    by (simp_all add: s2_def f1 split: option.splits)
  have "rcv s2 r = (rcv s r)\<lparr>r_handlers := remove1 t (r_handlers (rcv s r))\<rparr>" if r: "rcv_alive s r" for r
  proof (cases "h_receiver s t = Some r")
    case False
    then have "remove1 t (r_handlers (rcv s r)) = r_handlers (rcv s r)" using H(2) [OF r, of t] by (auto intro: remove1_idem)
    with False show ?thesis by (auto simp: s2_def f1 split: option.splits)
  qed (simp add: s2_def f1)
  moreover have "kinv {} s2" using sinvD(1) [OF v] by (subst kinv_cong [of _ s]) (simp_all add: f2)
  moreover have "state_of s2 = state_of s" by (simp add: state_of_def f2 fun_eq_iff)
  ultimately show ?thesis using k1 k2 c1 c1' f2 by (intro exI [of _ s1] exI [of _ s2]) simp
qed

lemma destruct_thread_sinv:
  assumes v: "sinv {} s" and t: "alive s t"
  shows "\<exists>s'. destruct_thread t s = Some s' \<and> sinv {} s' \<and> sig_total s' = sig_total s"
proof -
  obtain s1 s2 where s2: "killer_cancel_waiting t s = Some s1" "handler_cancel_waiting t s1 = Some s2" "kinv {} s2"
    and f: "alive s2 = alive s" "state_of s2 = state_of s" "ctx_alive s2 = ctx_alive s" "rcv_alive s2 = rcv_alive s" "sig_log s2 = sig_log s"
      "k_context s2 = k_context s"
    and c: "\<forall>c. ctx_alive s c \<longrightarrow> ctx s2 c = (if c_killer (ctx s c) = Some t then (ctx s c)\<lparr>c_killer := None\<rparr> else ctx s c)"
      "\<forall>c. \<not> ctx_alive s c \<longrightarrow> ctx s2 c = ctx s c"
    and h: "\<forall>u. u \<noteq> t \<longrightarrow> h_receiver s2 u = h_receiver s u \<and> h_queued s2 u = h_queued s u"
    and r: "\<forall>r. rcv_alive s r \<longrightarrow> rcv s2 r = (rcv s r)\<lparr>r_handlers := remove1 t (r_handlers (rcv s r))\<rparr>"
    using cancel_signals [OF v t] by blast
  have t2: "alive s2 t" using t f by simp
  obtain s' where s': "delete_thread t s2 = Some s'" "kinv {} s'" "alive s' = (alive s)(t := False)"
    using delete_thread_kinv [OF s2(3) t2] f(1) by auto
  obtain s3 where s3: "destruct_node t s2 = Some s3" "s' = s3\<lparr>alive := (alive s3)(t := False)\<rparr>"
    using s'(1) t2 by (auto simp: delete_thread_def bind_eq_Some_conv)
  have cm: "calm s2 s3" by (rule calmlyD [OF destruct_node_calm(1) s3(1)]) simp
  then have m: "kernel.more s3 = kernel.more s2" by (simp add: calm_def)
  have fs: "ctx_alive s' = ctx_alive s" "ctx s' = ctx s2" "rcv_alive s' = rcv_alive s" "rcv s' = rcv s2" "h_receiver s' = h_receiver s2"
    "h_queued s' = h_queued s2" "k_context s' = k_context s" "sig_log s' = sig_log s"
    by (simp_all add: s3(2) more_fields [OF m] f)
  have so: "state_of s' = state_of s3" by (simp add: s3(2) state_of_def fun_eq_iff)
  note st = calm_state [OF cm, unfolded f, folded so]
  have e: "c_receiver (ctx s2 d) = c_receiver (ctx s d)" "c_deliver_enq (ctx s2 d) = c_deliver_enq (ctx s d)"
    "c_ack (ctx s2 d) = c_ack (ctx s d)" "c_submits (ctx s2 d) = c_submits (ctx s d)" for d
    using c by (cases "ctx_alive s d"; simp)+
  have "destruct_thread t s = Some s'" using t s2 s'(1) by (simp add: destruct_thread_def)
  moreover have "handlers_ok s'"
    by (rule leave_handlers_ok [OF sinvD(2) [OF v], of _ t]) (use h r st(1) in \<open>simp_all add: fs s'(3)\<close>)
  moreover have "killers_ok s'"
    by (rule leave_killers_ok [OF sinvD(3) [OF v], of _ t]) (use c st(2) in \<open>simp_all add: fs s'(3)\<close>)
  moreover have "contexts_ok s'"
  proof -
    have q: "r_deliver (rcv s2 x) = r_deliver (rcv s x)" "r_contexts (rcv s2 x) = r_contexts (rcv s x)" if "rcv_alive s x" for x
      using r that by simp_all
    show ?thesis using sinvD(4) [OF v] q unfolding contexts_ok_def fs e by (metis (no_types, lifting))
  qed
  moreover have "idle s' x" if "rcv_alive s x" for x using sinvD(5) [OF v that] r that by (auto simp: idle_def fs)
  moreover have "sig_total s' = sig_total s" by (rule sig_total_cong) (simp_all add: fs e)
  ultimately show ?thesis using s'(2) by (simp add: sinv_def fs)
qed

section \<open>Sequences of kernel calls\<close>

datatype sop =
    Kernel_op kop
  | Await_signal tid "rid option"
  | Pending_signal tid "rid option"
  | Cancel_next bool tid "tid option"
  | Submit_signal tid "cid option" u32
  | Ack_signal "cid option"
  | Kill_context tid "cid option"
  | Mmu_fault tid bool "cid option"
  | Irq cid
  | New_context cid rid nat
  | Delete_context cid
  | New_receiver rid
  | Delete_receiver rid
  | Construct_thread tid
  | Destruct_thread tid

fun sexec :: "sop \<Rightarrow> skernel \<Rightarrow> skernel option" where
  "sexec (Kernel_op op) s = kexec op s"
| "sexec (Await_signal t ro) s = call_await_signal t ro s"
| "sexec (Pending_signal t ro) s = call_pending_signal t ro s"
| "sexec (Cancel_next pd t u) s = call_cancel_next_await_signal pd t u s"
| "sexec (Submit_signal t co n) s = call_submit_signal t co n s"
| "sexec (Ack_signal co) s = call_ack_signal co s"
| "sexec (Kill_context t co) s = call_kill_signal_context t co s"
| "sexec (Mmu_fault t known pager) s = mmu_fault t known pager s"
| "sexec (Irq c) s = irq_occurred c s"
| "sexec (New_context c r m) s = new_context c r m s"
| "sexec (Delete_context c) s = destruct_context c s"
| "sexec (New_receiver r) s = new_receiver r s"
| "sexec (Delete_receiver r) s = destruct_receiver r s"
| "sexec (Construct_thread t) s = construct_thread t s"
| "sexec (Destruct_thread t) s = destruct_thread t s"

text \<open>
  Kernel calls are made by a running thread and name objects that exist, as the lookup of capabilities
  ensures. A context is destroyed only while no thread awaits its kill, a receiver only while no thread
  waits for its signals.
\<close>

fun sop_ok :: "sop \<Rightarrow> skernel \<Rightarrow> bool" where
  "sop_ok (Kernel_op op) s \<longleftrightarrow> kop_ok op s \<and> \<not> lifecycle op"
| "sop_ok (Await_signal t ro) s \<longleftrightarrow> caller_ok s t \<and> (\<forall>r. ro = Some r \<longrightarrow> rcv_alive s r)"
| "sop_ok (Pending_signal t ro) s \<longleftrightarrow> caller_ok s t \<and> (\<forall>r. ro = Some r \<longrightarrow> rcv_alive s r)"
| "sop_ok (Cancel_next pd t uo) s \<longleftrightarrow> caller_ok s t \<and> (\<forall>u. uo = Some u \<longrightarrow> alive s u)"
| "sop_ok (Submit_signal t co n) s \<longleftrightarrow> caller_ok s t \<and> (\<forall>c. co = Some c \<longrightarrow> ctx_alive s c)"
| "sop_ok (Ack_signal co) s \<longleftrightarrow> (\<forall>c. co = Some c \<longrightarrow> ctx_alive s c)"
| "sop_ok (Kill_context t co) s \<longleftrightarrow> caller_ok s t \<and> (\<forall>c. co = Some c \<longrightarrow> ctx_alive s c)"
| "sop_ok (Mmu_fault t known pager) s \<longleftrightarrow> caller_ok s t \<and> (\<forall>c. pager = Some c \<longrightarrow> ctx_alive s c)"
| "sop_ok (Irq c) s \<longleftrightarrow> ctx_alive s c"
| "sop_ok (New_context c r m) s \<longleftrightarrow> \<not> ctx_alive s c \<and> rcv_alive s r"
| "sop_ok (Delete_context c) s \<longleftrightarrow> ctx_alive s c \<and> c_killer (ctx s c) = None"
| "sop_ok (New_receiver r) s \<longleftrightarrow> \<not> rcv_alive s r"
| "sop_ok (Delete_receiver r) s \<longleftrightarrow> rcv_alive s r \<and> r_handlers (rcv s r) = [] \<and>
     (\<forall>c \<in> set (r_contexts (rcv s r)). c_killer (ctx s c) = None)"
| "sop_ok (Construct_thread t) s \<longleftrightarrow> \<not> alive s t"
| "sop_ok (Destruct_thread t) s \<longleftrightarrow> alive s t"

text \<open>The number of submits that an operation adds to a context; a destroyed context loses what is pending.\<close>

definition gain :: "u32 \<Rightarrow> cid \<Rightarrow> skernel \<Rightarrow> nat" where
  "gain n c s = (if can_submit n (ctx s c) then unat n else 0)"

fun accepted :: "sop \<Rightarrow> skernel \<Rightarrow> cid \<Rightarrow> nat" where
  "accepted (Submit_signal t (Some c) n) s d = (if d = c then gain n c s else 0)"
| "accepted (Mmu_fault t True (Some c)) s d = (if d = c then gain 1 c s else 0)"
| "accepted (Irq c) s d = (if d = c then gain 1 c s else 0)"
| "accepted _ s d = 0"

fun lost :: "sop \<Rightarrow> skernel \<Rightarrow> cid \<Rightarrow> bool" where
  "lost (Delete_context c) s d \<longleftrightarrow> d = c"
| "lost (Delete_receiver r) s d \<longleftrightarrow> ctx_alive s d \<and> c_receiver (ctx s d) = r"
| "lost _ s d \<longleftrightarrow> False"

definition keeps :: "sop \<Rightarrow> skernel \<Rightarrow> skernel option \<Rightarrow> bool" where
  "keeps op s m \<longleftrightarrow> (\<exists>s'. m = Some s' \<and> sinv {} s' \<and> (\<forall>c. \<not> lost op s c \<longrightarrow> sig_total s' c = sig_total s c + accepted op s c))"

lemma calm_sinv:
  assumes "sinv {} s" "calm s s'" "kinv {} s'"
  shows "sinv {} s'" "sig_total s' = sig_total s"
proof -
  have m: "kernel.more s' = kernel.more s" using assms(2) by (simp add: calm_def)
  show "sinv {} s'" by (rule sinv_calm [OF assms(2,1,3)])
  show "sig_total s' = sig_total s" by (rule sig_total_cong) (simp_all add: more_fields [OF m])
qed

lemma arg_sinv: "sinv {} s \<Longrightarrow> sinv {} (user_arg_0 v t s) \<and> sig_total (user_arg_0 v t s) = sig_total s"
  using calm_sinv [of s "user_arg_0 v t s"] sinvD(1) by simp

lemma cancel_next_sinv:
  assumes "sinv {} s"
  shows "sinv {} (s\<lparr>cancel_next := x\<rparr>) \<and> sig_total (s\<lparr>cancel_next := x\<rparr>) = sig_total s"
proof -
  let ?s = "s\<lparr>cancel_next := x\<rparr>"
  have f: "alive ?s = alive s" "state_of ?s = state_of s" "ctx_alive ?s = ctx_alive s" "ctx ?s = ctx s" "rcv_alive ?s = rcv_alive s"
    "rcv ?s = rcv s" "h_receiver ?s = h_receiver s" "h_queued ?s = h_queued s" "k_context ?s = k_context s"
    by (auto simp: state_of_def fun_eq_iff)
  have "kinv {} ?s" using sinvD(1) [OF assms] by (subst kinv_cong [of _ s]) simp_all
  moreover have "sig_total ?s = sig_total s" by (rule sig_total_cong) simp_all
  ultimately show ?thesis using assms unfolding sinv_def handlers_ok_def killers_ok_def contexts_ok_def idle_def f by blast
qed

lemma kernel_op_keeps:
  assumes v: "sinv {} s" and op: "kop_ok op s" "\<not> lifecycle op"
  shows "keeps (Kernel_op op) s (kexec op s)"
proof -
  obtain s' where s': "kexec op s = Some s'" "kinv {} s'" using kexec_kinv [OF sinvD(1) [OF v] op(1)] by blast
  with calm_sinv [OF v calmlyD [OF kexec_calm [OF op] s'(1)] s'(2)] show ?thesis by (simp add: keeps_def)
qed

lemma await_signal_keeps:
  assumes v: "sinv {} s" and op: "sop_ok (Await_signal t ro) s"
  shows "keeps (Await_signal t ro) s (call_await_signal t ro s)"
proof (cases "cancel_next s t \<or> ro = None")
  case True
  then show ?thesis using arg_sinv [OF v] cancel_next_sinv [of "user_arg_0 (- 1) t s"]
    by (auto simp: keeps_def call_await_signal_def)
next
  case False
  then obtain r where r: "ro = Some r" "rcv_alive s r" using op by auto
  then obtain s' where "add_handler r t s = Some s'" "sinv {} s'" "sig_total s' = sig_total s"
    using add_handler_sinv [OF v, of t r] op by auto
  with False r arg_sinv caller_unrelated(2) [OF v, of t] op show ?thesis
    by (simp add: keeps_def call_await_signal_def can_add_handler_def)
qed

lemma pending_signal_keeps:
  assumes v: "sinv {} s" and op: "sop_ok (Pending_signal t ro) s"
  shows "keeps (Pending_signal t ro) s (call_pending_signal t ro s)"
proof (cases ro)
  case None
  then show ?thesis using arg_sinv [OF v] by (simp add: keeps_def call_pending_signal_def)
next
  case (Some r)
  then obtain s1 where s1: "add_handler r t s = Some s1" "sinv {} s1" "sig_total s1 = sig_total s" "alive s1 t"
    using add_handler_sinv [OF v, of t r] op by auto
  have h: "h_receiver s t = None" "rcv_alive s r" using caller_unrelated(2) [OF v, of t] op Some by auto
  show ?thesis
  proof (cases "state_of s1 t = AWAITS_SIGNAL")
    case True
    then obtain s2 where "cancel_blocking t s1 = Some s2" "sinv {} s2" "sig_total s2 = sig_total s1"
      using wake_handler_sinv [OF s1(2,4)] by blast
    with True Some h s1 arg_sinv show ?thesis by (simp add: keeps_def call_pending_signal_def can_add_handler_def state_of_def)
  next
    case False
    with Some h s1 arg_sinv show ?thesis by (simp add: keeps_def call_pending_signal_def can_add_handler_def state_of_def)
  qed
qed

lemma cancel_next_keeps:
  assumes v: "sinv {} s" and op: "sop_ok (Cancel_next pd t uo) s"
  shows "keeps (Cancel_next pd t uo) s (call_cancel_next_await_signal pd t uo s)"
proof -
  have t: "caller_ok s t" using op by simp
  obtain s1 where s1: "die t s = Some s1" "kinv {} s1" using block_kinv [OF sinvD(1) [OF v] t, of DEAD] by (auto simp: die_def)
  have "calmly s (die t s)" unfolding die_def by (rule become_calm) (use caller_unblocked [OF t] in simp_all)
  note d = calm_sinv [OF v calmlyD [OF this s1(1)] s1(2)]
  show ?thesis
  proof (cases "uo = None \<or> \<not> pd")
    case True
    then show ?thesis using d s1(1) op by (auto simp: keeps_def call_cancel_next_await_signal_def split: option.splits)
  next
    case False
    then obtain u where u: "uo = Some u" "alive s u" "pd" using op by auto
    show ?thesis
    proof (cases "state_of s u = AWAITS_SIGNAL")
      case True
      then obtain s2 where "cancel_blocking u s = Some s2" "sinv {} s2" "sig_total s2 = sig_total s"
        using wake_handler_sinv [OF v u(2)] by blast
      with True u show ?thesis by (simp add: keeps_def call_cancel_next_await_signal_def state_of_def)
    next
      case False
      with u cancel_next_sinv [OF v] show ?thesis by (simp add: keeps_def call_cancel_next_await_signal_def state_of_def)
    qed
  qed
qed

lemma submit_keeps:
  assumes v: "sinv {} s" and c: "ctx_alive s c"
  shows "\<exists>s'. (if can_submit n (ctx s c) then submit n c s else Some s) = Some s' \<and> sinv {} s' \<and>
    sig_total s' = (sig_total s)(c := sig_total s c + gain n c s)"
  using submit_sinv [OF assms, of n] v by (auto simp: gain_def fun_upd_idem)

lemma submit_signal_keeps:
  assumes v: "sinv {} s" and op: "sop_ok (Submit_signal t co n) s"
  shows "keeps (Submit_signal t co n) s (call_submit_signal t co n s)"
proof (cases co)
  case None
  then show ?thesis using arg_sinv [OF v] by (simp add: keeps_def call_submit_signal_def)
next
  case (Some c)
  then obtain s' where s': "(if can_submit n (ctx s c) then submit n c s else Some s) = Some s'" "sinv {} s'"
      "sig_total s' = (sig_total s)(c := sig_total s c + gain n c s)" using submit_keeps [OF v, of c n] op by auto
  then show ?thesis using Some op arg_sinv [OF s'(2)] by (cases "can_submit n (ctx s c)") (auto simp: keeps_def call_submit_signal_def gain_def)
qed

lemma mmu_fault_keeps:
  assumes v: "sinv {} s" and op: "sop_ok (Mmu_fault t known pager) s"
  shows "keeps (Mmu_fault t known pager) s (mmu_fault t known pager s)"
proof -
  have t: "caller_ok s t" using op by simp
  obtain s1 where s1: "mmu_exception t s = Some s1" "kinv {} s1"
    using block_kinv [OF sinvD(1) [OF v] t, of AWAITS_RESTART] by (auto simp: mmu_exception_def)
  have "calmly s (mmu_exception t s)" unfolding mmu_exception_def by (rule become_calm) (use caller_unblocked [OF t] in simp_all)
  then have cm: "calm s s1" using s1(1) by (rule calmlyD)
  note v1 = calm_sinv [OF v cm s1(2)]
  have "kernel.more s1 = kernel.more s" using cm by (simp add: calm_def)
  note f = more_fields [OF this]
  show ?thesis
  proof (cases "known \<and> pager \<noteq> None")
    case True
    then obtain c where c: "pager = Some c" "known" by auto
    then obtain s' where "(if can_submit 1 (ctx s1 c) then submit 1 c s1 else Some s1) = Some s'" "sinv {} s'"
      "sig_total s' = (sig_total s1)(c := sig_total s1 c + gain 1 c s1)" using submit_keeps [OF v1(1), of c 1] op f by auto
    with c op s1(1) v1(2) f show ?thesis by (auto simp: keeps_def mmu_fault_def gain_def)
  next
    case False
    with s1(1) v1 show ?thesis by (cases known; cases pager) (auto simp: keeps_def mmu_fault_def)
  qed
qed

lemma sexec_keeps:
  assumes v: "sinv {} s" and op: "sop_ok op s"
  shows "keeps op s (sexec op s)"
proof (cases op)
  case (Kernel_op x)
  then show ?thesis using kernel_op_keeps [OF v] op by simp
next
  case (Await_signal t ro)
  then show ?thesis using await_signal_keeps [OF v] op by simp
next
  case (Pending_signal t ro)
  then show ?thesis using pending_signal_keeps [OF v] op by simp
next
  case (Cancel_next pd t u)
  then show ?thesis using cancel_next_keeps [OF v] op by simp
next
  case (Submit_signal t co n)
  then show ?thesis using submit_signal_keeps [OF v] op by simp
next
  case (Ack_signal co)
  then show ?thesis using ack_sinv [OF v, of "the co"] v op by (cases co) (auto simp: keeps_def call_ack_signal_def)
next
  case (Kill_context t co)
  then show ?thesis using kill_sinv [OF v, of "the co" t] arg_sinv [OF v] op by (cases co) (auto simp: keeps_def call_kill_signal_context_def)
next
  case (Mmu_fault t known pager)
  then show ?thesis using mmu_fault_keeps [OF v] op by simp
next
  case (Irq c)
  then show ?thesis using submit_keeps [OF v, of c 1] op by (auto simp: keeps_def irq_occurred_def gain_def)
next
  case (New_context c r m)
  then show ?thesis using new_context_sinv [OF v, of c r m] op by (auto simp: keeps_def)
next
  case (Delete_context c)
  then show ?thesis using destruct_context_sinv [OF v, of c] op by (auto simp: keeps_def)
next
  case (New_receiver r)
  then show ?thesis using new_receiver_sinv [OF v, of r] op by (auto simp: keeps_def)
next
  case (Delete_receiver r)
  then show ?thesis using destruct_receiver_sinv [OF v, of r] op by (auto simp: keeps_def)
next
  case (Construct_thread t)
  then show ?thesis using construct_thread_sinv [OF v, of t] op by (auto simp: keeps_def)
next
  case (Destruct_thread t)
  then show ?thesis using destruct_thread_sinv [OF v, of t] op by (auto simp: keeps_def)
qed

section \<open>Reachable states\<close>

definition empty_skernel :: skernel where
  "empty_skernel = \<lparr>alive = \<lambda>_. False, node = \<lambda>_. ipc_node_init, thr = \<lambda>_. kthread_init, executing = 0,
     ctx_alive = \<lambda>_. False, ctx = \<lambda>_. sigctx_init 0 0, rcv_alive = \<lambda>_. False,
     rcv = \<lambda>_. \<lparr>r_handlers = [], r_deliver = [], r_contexts = []\<rparr>, h_receiver = \<lambda>_. None, h_queued = \<lambda>_. False,
     k_context = \<lambda>_. None, cancel_next = \<lambda>_. False, sig_log = []\<rparr>"

inductive sreach :: "skernel \<Rightarrow> bool" where
  boot: "core_main_thread 0 0 empty_skernel = Some s \<Longrightarrow> sreach s"
| step: "sreach s \<Longrightarrow> sop_ok op s \<Longrightarrow> sexec op s = Some s' \<Longrightarrow> sreach s'"

definition sboot :: skernel where
  "sboot = empty_skernel\<lparr>alive := (\<lambda>_. False)(0 := True),
     thr := (\<lambda>_. kthread_init)(0 := kthread_init\<lparr>t_cpu := Some 0, t_ready := True, t_state := ACTIVE\<rparr>)\<rparr>"

lemma sboot_eq: "core_main_thread 0 0 empty_skernel = Some sboot"
  by (simp add: core_main_thread_def sboot_def empty_skernel_def new_thread_def become_active_def activate_used_shares_def
      activate_own_share_def helpers_def ipc_node_init_def kthread_init_def thr_upd_def set_state_def fun_upd_idem)

lemma sreach_sboot: "sreach sboot"
  by (rule sreach.boot [OF sboot_eq])

lemma sboot_sinv: "sinv {} sboot"
proof -
  have "kinv {} sboot" by (rule one_thread_kinv) (simp_all add: sboot_def empty_skernel_def)
  then show ?thesis
    by (simp add: sinv_def handlers_ok_def killers_ok_def contexts_ok_def sboot_def empty_skernel_def state_of_def)
qed

lemma sreach_sinv: "sreach s \<Longrightarrow> sinv {} s"
proof (induction rule: sreach.induct)
  case (boot s)
  then show ?case using sboot_sinv by (simp add: sboot_eq)
next
  case (step s op s')
  then show ?case using sexec_keeps [OF step.IH step.hyps(2)] by (auto simp: keeps_def)
qed

fun srun_checked :: "sop list \<Rightarrow> skernel \<Rightarrow> skernel option" where
  "srun_checked [] s = Some s"
| "srun_checked (op # ops) s = (if sop_ok op s then do { s1 \<leftarrow> sexec op s; srun_checked ops s1 } else None)"

lemma srun_checked_reach: "sreach s \<Longrightarrow> srun_checked ops s = Some s' \<Longrightarrow> sreach s'"
proof (induction ops arbitrary: s)
  case (Cons op ops)
  then show ?case by (auto split: if_splits simp: Option.bind_eq_Some_conv intro: sreach.step)
qed simp

section \<open>Properties\<close>

text \<open>
  A thread awaits a signal exactly as long as it is queued at a receiver that exists, and awaits a kill
  exactly as long as a context that exists knows it as its killer.
\<close>

lemma sinv_waiting:
  assumes v: "sinv {} s" and t: "alive s t"
  shows "t_state (thr s t) = AWAITS_SIGNAL \<longleftrightarrow> (\<exists>r. rcv_alive s r \<and> t \<in> set (r_handlers (rcv s r)))"
    "t_state (thr s t) = AWAITS_SIGNAL_CONTEXT_KILL \<longleftrightarrow> (\<exists>c. ctx_alive s c \<and> c_killer (ctx s c) = Some t)"
proof -
  note H = handlersD [OF sinvD(2) [OF v]] and K = killersD [OF sinvD(3) [OF v]]
  show "t_state (thr s t) = AWAITS_SIGNAL \<longleftrightarrow> (\<exists>r. rcv_alive s r \<and> t \<in> set (r_handlers (rcv s r)))"
    "t_state (thr s t) = AWAITS_SIGNAL_CONTEXT_KILL \<longleftrightarrow> (\<exists>c. ctx_alive s c \<and> c_killer (ctx s c) = Some t)"
    unfolding state_of_def [symmetric] using t H(2,4,5) K(1-3) by blast+
qed

lemma listen_empty: "r_deliver (rcv s r) = [] \<Longrightarrow> listen r s = Some s"
  by (simp add: listen_idle idle_def)

lemmas signal_eval = kernel_eval sboot_def empty_skernel_def sigctx_init_def ctx_upd_def rcv_upd_def new_context_def new_receiver_def
  construct_thread_def call_await_signal_def can_add_handler_def add_handler_def signal_wait_for_signal_def listen_empty

text \<open>A thread that waits at a receiver with one context.\<close>

lemma demo_signals:
  "\<exists>s. sreach s \<and> caller_ok s 0 \<and> alive s 1 \<and> ctx_alive s 5 \<and> rcv_alive s 2 \<and> r_handlers (rcv s 2) = [1] \<and> c_receiver (ctx s 5) = 2 \<and>
     c_imprint (ctx s 5) = 9 \<and> c_ack (ctx s 5) \<and> \<not> c_killed (ctx s 5) \<and> c_submits (ctx s 5) = 0 \<and> r_contexts (rcv s 2) = [5]"
proof -
  have "\<exists>s. srun_checked [New_receiver 2, New_context 5 2 9, Construct_thread 1, Kernel_op (Start 0 1 0), Await_signal 1 (Some 2)] sboot = Some s
     \<and> caller_ok s 0 \<and> alive s 1 \<and> ctx_alive s 5 \<and> rcv_alive s 2 \<and> r_handlers (rcv s 2) = [1] \<and> c_receiver (ctx s 5) = 2 \<and>
     c_imprint (ctx s 5) = 9 \<and> c_ack (ctx s 5) \<and> \<not> c_killed (ctx s 5) \<and> c_submits (ctx s 5) = 0 \<and> r_contexts (rcv s 2) = [5]"
    by (simp add: signal_eval cong: eval_cong)
  then show ?thesis using srun_checked_reach [OF sreach_sboot] by blast
qed

text \<open>
  \<^bold>\<open>C34.\<close> No wakeup is lost: while a thread waits at a receiver, no context of the receiver that may be
  delivered has submits pending. A context with pending submits and an acknowledged delivery is queued
  for delivery at its receiver.
\<close>

theorem no_lost_signal:
  assumes "sreach s" "ctx_alive s c" "c_ack (ctx s c)" "c_submits (ctx s c) \<noteq> 0"
  shows "r_handlers (rcv s (c_receiver (ctx s c))) = [] \<and> c \<in> set (r_deliver (rcv s (c_receiver (ctx s c))))"
proof -
  note v = sreach_sinv [OF assms(1)]
  have "c \<in> set (r_deliver (rcv s (c_receiver (ctx s c))))" "rcv_alive s (c_receiver (ctx s c))"
    using contextsD(5-7) [OF sinvD(4) [OF v] assms(2)] assms(3,4) by auto
  then show ?thesis using sinvD(5) [OF v, of "c_receiver (ctx s c)"] by (auto simp: idle_def)
qed

theorem no_lost_signal_witness:
  "\<exists>s. sreach s \<and> ctx_alive s 5 \<and> c_submits (ctx s 5) = 3 \<and>
     r_handlers (rcv s (c_receiver (ctx s 5))) = [] \<and> 5 \<in> set (r_deliver (rcv s (c_receiver (ctx s 5))))"
proof -
  obtain s where s: "srun_checked [New_receiver 2, New_context 5 2 9, Submit_signal 0 (Some 5) 3] sboot = Some s"
      "ctx_alive s 5" "c_ack (ctx s 5)" "c_submits (ctx s 5) = 3"
    by (simp add: signal_eval call_submit_signal_def can_submit_def submit_def deliverable_def add_deliverable_def
        listen.simps cong: eval_cong)
  have r: "sreach s" by (rule srun_checked_reach [OF sreach_sboot s(1)])
  show ?thesis using no_lost_signal [OF r s(2,3)] r s(2,4) by (intro exI [of _ s]) simp
qed

text \<open>
  \<^bold>\<open>C35.\<close> Submits are neither lost nor doubled: what the handlers of a context have received together
  with what is pending at it grows by exactly the submits that the operation adds, none of which
  wraps around the 32-bit counter. Only the destruction of the context itself drops pending submits.
\<close>

theorem submits_conserved:
  assumes "sreach s" "sop_ok op s" "\<not> lost op s c"
  shows "\<exists>s'. sexec op s = Some s' \<and> received c s' + pending c s' = received c s + pending c s + accepted op s c"
  using sexec_keeps [OF sreach_sinv [OF assms(1)] assms(2)] assms(3) by (auto simp: keeps_def sig_total_def)

theorem submits_conserved_witness:
  "\<exists>s s'. sreach s \<and> sexec (Submit_signal 0 (Some 5) 3) s = Some s' \<and> received 5 s' + pending 5 s' = received 5 s + pending 5 s + 3"
proof -
  obtain s where s: "sreach s" "caller_ok s 0" "ctx_alive s 5" "\<not> c_killed (ctx s 5)" "c_submits (ctx s 5) = 0" using demo_signals by blast
  then have "accepted (Submit_signal 0 (Some 5) 3) s 5 = 3" by (simp add: gain_def can_submit_def)
  then show ?thesis using submits_conserved [OF s(1), of "Submit_signal 0 (Some 5) 3" 5] s by auto
qed

text \<open>
  A submit to a context whose last delivery is acknowledged wakes the thread that waits longest
  at the receiver: the thread is active with the imprint of the context and the number of submits at
  the start of its UTCB, and the context awaits the acknowledgement.
\<close>

theorem submit_wakes_handler:
  assumes "sreach s" "caller_ok s t" and c: "ctx_alive s c" "c_ack (ctx s c)" "\<not> c_killed (ctx s c)"
    and n: "n \<noteq> 0" "n \<noteq> - 1" and h: "r_handlers (rcv s (c_receiver (ctx s c))) = h # hs"
  shows "\<exists>s'. call_submit_signal t (Some c) n s = Some s' \<and> t_state (thr s' h) = ACTIVE \<and>
    take 2 (t_utcb (thr s' h)) = [c_imprint (ctx s c), unat n] \<and> r_handlers (rcv s' (c_receiver (ctx s c))) = hs \<and>
    c_submits (ctx s' c) = 0 \<and> \<not> c_ack (ctx s' c)"
proof -
  note v = sreach_sinv [OF assms(1)] let ?r = "c_receiver (ctx s c)"
  note C = contextsD [OF sinvD(4) [OF v]]
  have r: "rcv_alive s ?r" using C(5) [OF c(1)] by simp
  have d: "r_deliver (rcv s ?r) = []" using sinvD(5) [OF v r] h by (simp add: idle_def)
  then have z: "c_submits (ctx s c) = 0" "\<not> c_deliver_enq (ctx s c)" using C(6,7) [OF c(1)] c(2) by auto
  let ?f = "\<lambda>x. x\<lparr>c_submits := c_submits x + n, c_deliver_enq := True\<rparr>"
  define s2 where "s2 = ctx_upd c ?f (rcv_upd ?r (\<lambda>x. x\<lparr>r_deliver := r_deliver x @ [c]\<rparr>) s)"
  note kn = not_killed_no_killer [OF v c(1,3)]
  have v2: "sinv {?r} s2" by (rule enqueue_sinv [OF v c(1) z(2) kn _ _ _ _ _ s2_def]) (use kn c(2) n z in auto)
  have q: "zip (r_deliver (rcv s2 ?r)) (r_handlers (rcv s2 ?r)) = [(c, h)]" using d h by (simp add: s2_def)
  have r2: "rcv_alive s2 ?r" using r by (simp add: s2_def)
  obtain s' where s': "listen ?r s2 = Some s'" "serves ?r [(c, h)] s2 s'" using listen_sinv [OF v2 r2] q by auto
  note a = servesD [OF s'(2)]
  have lt: "\<not> - 1 - n \<le> 0" using n(2) by (metis diff_eq_diff_eq diff_zero right_minus_eq word_le_0_iff)
  have "call_submit_signal t (Some c) n s = Some (user_arg_0 0 t s')"
    using c z n r s'(1) lt by (simp add: call_submit_signal_def can_submit_def submit_def deliverable_def add_deliverable_def s2_def)
  moreover have "t_state (thr (user_arg_0 0 t s') h) = ACTIVE"
    using a(11) state_of_upd(2) [of 0 t s'] by (simp add: state_of_def [symmetric])
  moreover have "t_utcb (thr (user_arg_0 0 t s') h) = t_utcb (thr s' h)" by (simp add: user_arg_0_def)
  moreover have "take 2 (t_utcb (thr s' h)) = [c_imprint (ctx s c), unat n]" using a(14) z by (simp add: signal_data_def s2_def)
  moreover have m: "kernel.more (user_arg_0 0 t s') = kernel.more s'" by simp
  have "r_handlers (rcv (user_arg_0 0 t s') ?r) = hs" "c_submits (ctx (user_arg_0 0 t s') c) = 0" "\<not> c_ack (ctx (user_arg_0 0 t s') c)"
    unfolding more_fields [OF m] a(7,8) using h by (simp_all add: s2_def)
  ultimately show ?thesis by simp
qed

theorem submit_wakes_handler_witness:
  "\<exists>s s'. sreach s \<and> call_submit_signal 0 (Some 5) 3 s = Some s' \<and> t_state (thr s' 1) = ACTIVE \<and>
     take 2 (t_utcb (thr s' 1)) = [9, 3] \<and> r_handlers (rcv s' 2) = [] \<and> c_submits (ctx s' 5) = 0 \<and> \<not> c_ack (ctx s' 5)"
proof -
  obtain s where s: "sreach s" "caller_ok s 0" "ctx_alive s 5" "c_ack (ctx s 5)" "\<not> c_killed (ctx s 5)" "r_handlers (rcv s 2) = [1]"
      "c_receiver (ctx s 5) = 2" "c_imprint (ctx s 5) = 9" using demo_signals by blast
  have n: "(3 :: u32) \<noteq> 0" "(3 :: u32) \<noteq> - 1" "unat (3 :: u32) = 3" by simp_all
  from submit_wakes_handler [OF s(1-5) n(1,2), of 1 "[]", unfolded s(7,8) n(3), OF s(6)] s(1) show ?thesis by blast
qed

text \<open>
  \<^bold>\<open>C36.\<close> The destruction of a context while a thread awaits its kill wakes the thread with an error but
  leaves its reference to the context behind: the destruction of the thread then uses the destructed
  context.
\<close>

theorem killer_left_dangling:
  assumes "sreach s" "ctx_alive s c" "c_killer (ctx s c) = Some k"
  shows "\<exists>s'. destruct_context c s = Some s' \<and> t_state (thr s' k) = ACTIVE \<and> t_arg0 (thr s' k) = - 1 \<and>
    \<not> ctx_alive s' c \<and> destruct_thread k s' = None"
proof -
  note v = sreach_sinv [OF assms(1)]
  note kk = killersD(1) [OF sinvD(3) [OF v] assms(2,3)]
  have r: "rcv_alive s (c_receiver (ctx s c))" using contextsD(5) [OF sinvD(4) [OF v] assms(2)] by simp
  let ?s = "user_arg_0 (- 1) k s"
  obtain s1 where s1: "become_active k ?s = Some s1" "moved k ACTIVE ?s s1"
    using wake_kinv [of ?s k] sinvD(1) [OF v] kk by auto
  have m: "kernel.more ?s = kernel.more s" by simp
  note f = movedD [OF s1(2), unfolded more_fields [OF m]]
  define s' where "s' = (context_destructed c s1)\<lparr>ctx_alive := (ctx_alive s1)(c := False)\<rparr>"
  have cd: "alive (context_destructed c s1) = alive s1" "thr (context_destructed c s1) = thr s1" "ctx_alive (context_destructed c s1) = ctx_alive s1"
    "k_context (context_destructed c s1) = k_context s1" by (simp_all add: context_destructed_def Let_def)
  have "destruct_context c s = Some s'"
    using assms(2,3) r kk s1(1) by (simp add: destruct_context_def signal_context_kill_failed_def state_of_def s'_def cd)
  moreover have "t_state (thr s' k) = ACTIVE" using f(3) by (simp add: s'_def cd state_of_def fun_eq_iff)
  moreover have "t_arg0 (thr s' k) = - 1" by (simp add: s'_def cd f) (simp add: user_arg_0_def)
  moreover have "destruct_thread k s' = None" using kk by (simp add: destruct_thread_def killer_cancel_waiting_def s'_def cd f)
  ultimately show ?thesis by (simp add: s'_def)
qed

theorem killer_left_dangling_witness:
  "\<exists>s s'. sreach s \<and> destruct_context 5 s = Some s' \<and> t_state (thr s' 0) = ACTIVE \<and> t_arg0 (thr s' 0) = - 1 \<and>
    \<not> ctx_alive s' 5 \<and> destruct_thread 0 s' = None"
proof -
  obtain s where s: "srun_checked [New_receiver 2, New_context 5 2 9, Submit_signal 0 (Some 5) 3, Await_signal 0 (Some 2), Kill_context 0 (Some 5)] sboot = Some s"
      "ctx_alive s 5" "c_killer (ctx s 5) = Some 0"
    by (simp add: signal_eval call_submit_signal_def can_submit_def submit_def deliverable_def add_deliverable_def
        listen.simps listen_round_def signal_receive_signal_def delivered_def call_kill_signal_context_def can_kill_def kill_def
        signal_context_kill_pending_def cong: eval_cong)
  have "sreach s" by (rule srun_checked_reach [OF sreach_sboot s(1)])
  with killer_left_dangling [OF this s(2,3)] show ?thesis by blast
qed

text \<open>
  The destruction of a receiver at which a thread waits leaves the thread blocked with a reference
  to the receiver: cancelling its blocking and destructing it both use the destructed receiver.
\<close>

theorem handler_left_dangling:
  assumes "sreach s" "rcv_alive s r" "t \<in> set (r_handlers (rcv s r))" "r_contexts (rcv s r) = []"
  shows "\<exists>s'. destruct_receiver r s = Some s' \<and> t_state (thr s' t) = AWAITS_SIGNAL \<and>
    cancel_blocking t s' = None \<and> destruct_thread t s' = None"
proof -
  note v = sreach_sinv [OF assms(1)]
  note h = handlersD(2) [OF sinvD(2) [OF v] assms(2,3)]
  have k: "k_context s t = None" using killersD(2) [OF sinvD(3) [OF v], of t] h by auto
  show ?thesis using assms(2,4) h k
    by (simp add: destruct_receiver_def cancel_blocking_def destruct_thread_def killer_cancel_waiting_def handler_cancel_waiting_def state_of_def)
qed

theorem handler_left_dangling_witness:
  "\<exists>s s'. sreach s \<and> destruct_receiver 2 s = Some s' \<and> t_state (thr s' 1) = AWAITS_SIGNAL \<and>
    cancel_blocking 1 s' = None \<and> destruct_thread 1 s' = None"
proof -
  obtain s where s: "srun_checked [New_receiver 2, Construct_thread 1, Kernel_op (Start 0 1 0), Await_signal 1 (Some 2)] sboot = Some s"
      "rcv_alive s 2" "1 \<in> set (r_handlers (rcv s 2))" "r_contexts (rcv s 2) = []"
    by (simp add: signal_eval cong: eval_cong)
  have "sreach s" by (rule srun_checked_reach [OF sreach_sboot s(1)])
  with handler_left_dangling [OF this s(2-4)] show ?thesis by blast
qed

end
