(* ===== verification/Signal_Sources.thy ===== *)
theory Signal_Sources
  imports Signal_Receiver
begin

text \<open>
  The sources of signals inside the kernel: the pager of a thread (\<^verbatim>\<open>thread.h\<close>, \<^verbatim>\<open>thread.cc\<close>) and the interrupts of
  devices (\<^verbatim>\<open>irq.h\<close>, \<^verbatim>\<open>irq.cc\<close>). Both keep a pointer to a signal context that outlives the call which has
  looked the context up, and that the destruction of the context does not reset. The state is that of theory
  \<open>Signal_Receiver\<close> together with these pointers. A use of a context that was destructed is \<open>None\<close>.
\<close>

section \<open>State and operations\<close>

text \<open>
  \<open>pager\<close> is the member \<^verbatim>\<open>_pager\<close> of a thread. \<open>irq_context\<close> has the member \<^verbatim>\<open>_context\<close> of every \<^verbatim>\<open>User_irq\<close> that exists, by
  interrupt number, and \<open>irq_unmasked\<close> whether the interrupt controller lets the interrupt pass.
\<close>

record pkernel =
  sk :: skernel
  pager :: "tid \<Rightarrow> cid option"
  irq_context :: "nat \<Rightarrow> cid option"
  irq_unmasked :: "nat \<Rightarrow> bool"

text \<open>The lookup of the capability has the context as result, or none.\<close>

definition call_pager :: "tid \<Rightarrow> cid option \<Rightarrow> pkernel \<Rightarrow> pkernel option" where
  "call_pager t co s = (if alive (sk s) t then Some (s\<lparr>pager := (pager s)(t := co)\<rparr>) else None)"

definition thread_mmu_exception :: "tid \<Rightarrow> bool \<Rightarrow> pkernel \<Rightarrow> pkernel option" where
  "thread_mmu_exception t known s = do { s1 \<leftarrow> mmu_fault t known (pager s t) (sk s); Some (s\<lparr>sk := s1\<rparr>) }"

definition irq_disable :: "nat \<Rightarrow> pkernel \<Rightarrow> pkernel" where
  "irq_disable i s = s\<lparr>irq_unmasked := (irq_unmasked s)(i := False)\<rparr>"

definition irq_enable :: "nat \<Rightarrow> pkernel \<Rightarrow> pkernel" where
  "irq_enable i s = s\<lparr>irq_unmasked := (irq_unmasked s)(i := True)\<rparr>"

definition user_irq_construct :: "nat \<Rightarrow> cid \<Rightarrow> pkernel \<Rightarrow> pkernel option" where
  "user_irq_construct i c s =
     (if irq_context s i \<noteq> None then None
      else Some (irq_disable i (s\<lparr>irq_context := (irq_context s)(i := Some c)\<rparr>)))"

definition user_irq_destruct :: "nat \<Rightarrow> pkernel \<Rightarrow> pkernel option" where
  "user_irq_destruct i s =
     (if irq_context s i = None then None
      else Some ((irq_disable i s)\<lparr>irq_context := (irq_context s)(i := None)\<rparr>))"

text \<open>The argument \<open>capid\<close> is the name that the new kernel object gets.\<close>

definition call_new_irq :: "tid \<Rightarrow> nat \<Rightarrow> cid option \<Rightarrow> int \<Rightarrow> pkernel \<Rightarrow> pkernel option" where
  "call_new_irq t i co capid s =
     (case co of
        None \<Rightarrow> Some (s\<lparr>sk := user_arg_0 (- 1) t (sk s)\<rparr>)
      | Some c \<Rightarrow>
          if \<not> ctx_alive (sk s) c then None
          else do { s1 \<leftarrow> user_irq_construct i c s; Some (s1\<lparr>sk := user_arg_0 capid t (sk s1)\<rparr>) })"

definition call_ack_irq :: "nat \<Rightarrow> pkernel \<Rightarrow> pkernel option" where
  "call_ack_irq i s = (if irq_context s i = None then None else Some (irq_enable i s))"

text \<open>An interrupt that no object exists for is only logged.\<close>

definition user_irq_occurred :: "nat \<Rightarrow> pkernel \<Rightarrow> pkernel option" where
  "user_irq_occurred i s =
     (case irq_context s i of
        None \<Rightarrow> Some s
      | Some c \<Rightarrow> do { s1 \<leftarrow> irq_occurred c (sk s); Some (irq_disable i (s\<lparr>sk := s1\<rparr>)) })"

section \<open>Destruction of contexts\<close>

text \<open>Only the destruction of contexts and receivers makes a context disappear.\<close>

definition holds_ctx :: "skernel \<Rightarrow> skernel option \<Rightarrow> bool" where
  "holds_ctx s m \<longleftrightarrow> (\<forall>s'. m = Some s' \<longrightarrow> ctx_alive s' = ctx_alive s)"

named_theorems ctx_wp

lemma holds_ctxD: "holds_ctx s m \<Longrightarrow> m = Some s' \<Longrightarrow> ctx_alive s' = ctx_alive s"
  by (simp add: holds_ctx_def)

lemma holds_basic [ctx_wp]: "ctx_alive s' = ctx_alive s \<Longrightarrow> holds_ctx s (Some s')" "holds_ctx s None"
  by (simp_all add: holds_ctx_def)

lemma holds_bind [ctx_wp]:
  "holds_ctx s m \<Longrightarrow> (\<And>s1. m = Some s1 \<Longrightarrow> ctx_alive s1 = ctx_alive s \<Longrightarrow> holds_ctx s (f s1)) \<Longrightarrow> holds_ctx s (Option.bind m f)"
  by (cases m) (simp_all add: holds_ctx_def)

lemma holds_cases [ctx_wp]:
  "(b \<Longrightarrow> holds_ctx s m) \<Longrightarrow> (\<not> b \<Longrightarrow> holds_ctx s m') \<Longrightarrow> holds_ctx s (if b then m else m')"
  "(x = None \<Longrightarrow> holds_ctx s m) \<Longrightarrow> (\<And>y. x = Some y \<Longrightarrow> holds_ctx s (g y)) \<Longrightarrow>
     holds_ctx s (case x of None \<Rightarrow> m | Some y \<Rightarrow> g y)"
  by (auto split: option.splits)

lemma calm_ctx: "calm s s' \<Longrightarrow> ctx_alive (s' :: skernel) = ctx_alive s"
  unfolding calm_def using more_fields(1) by blast

lemma calmly_ctx: "calmly s m \<Longrightarrow> ctx_alive s = ctx_alive s0 \<Longrightarrow> holds_ctx s0 m"
  unfolding calmly_def holds_ctx_def using calm_ctx by metis

lemma arg_ctx [simp]:
  fixes s :: skernel
  shows "ctx_alive (user_arg_0 v t s) = ctx_alive s" "ctx_alive (thr_upd t g s) = ctx_alive s"
    "ctx_alive (set_state st t s) = ctx_alive s"
  by (rule more_fields(1); simp)+

lemma become_ctx [ctx_wp]:
  "ctx_alive s = ctx_alive s0 \<Longrightarrow> holds_ctx s0 (become_active t s)" "ctx_alive s = ctx_alive s0 \<Longrightarrow> holds_ctx s0 (become_inactive st t s)"
  unfolding become_active_def become_inactive_def holds_ctx_def
  by (auto simp: bind_eq_Some_conv split: if_splits dest!: shares_calm calm_ctx)

lemma callbacks_ctx [ctx_wp]:
  "ctx_alive s = ctx_alive s0 \<Longrightarrow> holds_ctx s0 (signal_context_kill_pending t s)"
  "ctx_alive s = ctx_alive s0 \<Longrightarrow> holds_ctx s0 (signal_context_kill_done t s)"
  "ctx_alive s = ctx_alive s0 \<Longrightarrow> holds_ctx s0 (signal_context_kill_failed t s)"
  "ctx_alive s = ctx_alive s0 \<Longrightarrow> holds_ctx s0 (signal_wait_for_signal t s)"
  "ctx_alive s = ctx_alive s0 \<Longrightarrow> holds_ctx s0 (signal_receive_signal d t s)"
  unfolding signal_context_kill_pending_def signal_context_kill_done_def signal_context_kill_failed_def
    signal_wait_for_signal_def signal_receive_signal_def
  by (intro ctx_wp; simp)+

lemma listen_round_ctx: "holds_ctx s (listen_round r c cs h hs s)"
  unfolding listen_round_def Let_def by (intro ctx_wp) (simp_all add: delivered_def)

lemma listen_ctx [ctx_wp]: "ctx_alive s = ctx_alive s0 \<Longrightarrow> holds_ctx s0 (listen r s)"
proof -
  have "ctx_alive s' = ctx_alive s" if "listen r s = Some s'" for s s'
    using that
  proof (rule listen.raw_induct [where P = "\<lambda>r s s'. ctx_alive s' = ctx_alive s", rotated])
    fix li r s s'
    assume ih: "\<And>r s s'. li r s = Some s' \<Longrightarrow> ctx_alive s' = ctx_alive s"
      and "(case r_deliver (rcv s r) of [] \<Rightarrow> Some s | c # cs \<Rightarrow> (case r_handlers (rcv s r) of [] \<Rightarrow> Some s
        | h # hs \<Rightarrow> do { s1 \<leftarrow> listen_round r c cs h hs s; li r s1 })) = Some s'"
    then show "ctx_alive s' = ctx_alive s"
      by (auto split: list.splits simp: bind_eq_Some_conv dest!: ih holds_ctxD [OF listen_round_ctx])
  qed
  then show "ctx_alive s = ctx_alive s0 \<Longrightarrow> holds_ctx s0 (listen r s)" by (simp add: holds_ctx_def)
qed

lemma submit_ctx [ctx_wp]: "ctx_alive s = ctx_alive s0 \<Longrightarrow> holds_ctx s0 (deliverable c s)"
  "ctx_alive s = ctx_alive s0 \<Longrightarrow> holds_ctx s0 (submit n c s)" "ctx_alive s = ctx_alive s0 \<Longrightarrow> holds_ctx s0 (ack c s)"
proof -
  have d: "ctx_alive s = ctx_alive s0 \<Longrightarrow> holds_ctx s0 (deliverable c s)" for s
    unfolding deliverable_def add_deliverable_def Let_def by (intro ctx_wp) (simp_all split: if_splits)
  then show "ctx_alive s = ctx_alive s0 \<Longrightarrow> holds_ctx s0 (deliverable c s)" .
  show "ctx_alive s = ctx_alive s0 \<Longrightarrow> holds_ctx s0 (submit n c s)" unfolding submit_def Let_def by (intro ctx_wp d) simp_all
  show "ctx_alive s = ctx_alive s0 \<Longrightarrow> holds_ctx s0 (ack c s)" unfolding ack_def by (intro ctx_wp d) simp_all
qed

lemma cancel_ctx [ctx_wp]:
  "ctx_alive s = ctx_alive s0 \<Longrightarrow> holds_ctx s0 (handler_cancel_waiting t s)" "ctx_alive s = ctx_alive s0 \<Longrightarrow> holds_ctx s0 (killer_cancel_waiting t s)"
  "ctx_alive s = ctx_alive s0 \<Longrightarrow> holds_ctx s0 (add_handler r t s)" "ctx_alive s = ctx_alive s0 \<Longrightarrow> holds_ctx s0 (kill t c s)"
  unfolding handler_cancel_waiting_def handler_cancelled_def killer_cancel_waiting_def add_handler_def kill_def
  by (intro ctx_wp; simp)+

lemma cancel_blocking_ctx [ctx_wp]: "ctx_alive s = ctx_alive s0 \<Longrightarrow> holds_ctx s0 (cancel_blocking t s)"
  unfolding cancel_blocking_def
  by (cases "t_state (thr s t)") (auto intro!: ctx_wp calmly_ctx [OF destruct_node_calm(2) [OF calm_refl]])

lemma mmu_fault_ctx: "holds_ctx s (mmu_fault t known p s)" "holds_ctx s (irq_occurred c s)"
  unfolding mmu_fault_def mmu_exception_def irq_occurred_def by (intro ctx_wp; simp)+

lemma delete_thread_ctx [ctx_wp]: "ctx_alive s = ctx_alive s0 \<Longrightarrow> holds_ctx s0 (delete_thread t s)"
  unfolding delete_thread_def by (intro ctx_wp calmly_ctx [OF destruct_node_calm(1) [OF calm_refl]]) simp_all

lemma thread_ctx: "holds_ctx s (construct_thread t s)" "holds_ctx s (destruct_thread t s)"
  unfolding construct_thread_def destruct_thread_def new_thread_def by (intro ctx_wp; simp)+

lemma destruct_context_ctx:
  assumes "destruct_context c s = Some s'"
  shows "ctx_alive s' = (ctx_alive s)(c := False)"
proof -
  let ?k = "case c_killer (ctx s c) of None \<Rightarrow> Some s | Some k \<Rightarrow> if alive s k then signal_context_kill_failed k s else None"
  have "holds_ctx s ?k" by (intro ctx_wp) simp_all
  moreover have "ctx_alive (context_destructed c s1) = ctx_alive s1" for s1 by (simp add: context_destructed_def Let_def)
  ultimately show ?thesis using assms by (auto simp: destruct_context_def bind_eq_Some_conv split: if_splits dest!: holds_ctxD)
qed

lemma destruct_contexts_ctx: "destruct_contexts cs s = Some s' \<Longrightarrow> ctx_alive s' d \<longleftrightarrow> ctx_alive s d \<and> d \<notin> set cs"
proof (induction cs arbitrary: s)
  case (Cons c cs)
  then obtain s1 where "destruct_context c s = Some s1" "destruct_contexts cs s1 = Some s'" by (auto simp: bind_eq_Some_conv)
  with Cons.IH [of s1] destruct_context_ctx [of c s s1] show ?case by auto
qed simp

lemma sexec_ctx:
  assumes v: "sinv {} s" and op: "sop_ok op s" and e: "sexec op s = Some s'" and d: "ctx_alive s d" "\<not> lost op s d"
  shows "ctx_alive s' d"
proof -
  have "holds_ctx s (sexec op s)" if "\<forall>c r m. op \<noteq> New_context c r m" "\<forall>c. op \<noteq> Delete_context c" "\<forall>r. op \<noteq> Delete_receiver r"
  proof (cases op)
    case (Kernel_op x)
    then show ?thesis using kexec_calm [of x s] op by (auto intro: calmly_ctx)
  next
    case (Await_signal t ro)
    then show ?thesis by (auto simp: call_await_signal_def intro!: ctx_wp)
  next
    case (Pending_signal t ro)
    then show ?thesis by (auto simp: call_pending_signal_def intro!: ctx_wp)
  next
    case (Cancel_next pd t u)
    then show ?thesis by (auto simp: call_cancel_next_await_signal_def die_def intro!: ctx_wp)
  next
    case (Submit_signal t co n)
    then show ?thesis by (auto simp: call_submit_signal_def intro!: ctx_wp)
  next
    case (Ack_signal co)
    then show ?thesis by (auto simp: call_ack_signal_def intro!: ctx_wp)
  next
    case (Kill_context t co)
    then show ?thesis by (auto simp: call_kill_signal_context_def intro!: ctx_wp)
  next
    case (New_receiver r)
    then show ?thesis by (auto simp: new_receiver_def intro!: ctx_wp)
  qed (use that in \<open>auto simp: mmu_fault_ctx thread_ctx\<close>)
  then have "ctx_alive s' = ctx_alive s" if "\<forall>c r m. op \<noteq> New_context c r m" "\<forall>c. op \<noteq> Delete_context c" "\<forall>r. op \<noteq> Delete_receiver r"
    using that e holds_ctxD by blast
  moreover have "ctx_alive s' d" if "op = Delete_receiver r" for r
    using that e d contextsD(3) [OF sinvD(4) [OF v], of r d] op
    by (auto simp: destruct_receiver_def bind_eq_Some_conv destruct_contexts_ctx)
  ultimately show ?thesis using d e by (cases op) (auto simp: new_context_def destruct_context_ctx split: if_splits)
qed

section \<open>Sequences of operations\<close>

datatype pop =
    Signal_op sop
  | Set_pager tid tid "cid option"
  | Fault_of tid bool
  | New_irq tid nat "cid option" int
  | Ack_irq tid nat
  | Delete_irq tid nat
  | Interrupt nat

text \<open>A thread starts without a pager; with a thread, its pager pointer disappears.\<close>

fun pexec :: "pop \<Rightarrow> pkernel \<Rightarrow> pkernel option" where
  "pexec (Signal_op op) s = do {
     s1 \<leftarrow> sexec op (sk s);
     Some (s\<lparr>sk := s1, pager := (case op of
         Construct_thread t \<Rightarrow> (pager s)(t := None)
       | Destruct_thread t \<Rightarrow> (pager s)(t := None)
       | _ \<Rightarrow> pager s)\<rparr>)
   }"
| "pexec (Set_pager t u co) s = call_pager u co s"
| "pexec (Fault_of t known) s = thread_mmu_exception t known s"
| "pexec (New_irq t i co capid) s = call_new_irq t i co capid s"
| "pexec (Ack_irq t i) s = call_ack_irq i s"
| "pexec (Delete_irq t i) s = user_irq_destruct i s"
| "pexec (Interrupt i) s = user_irq_occurred i s"

definition referred :: "pkernel \<Rightarrow> cid \<Rightarrow> bool" where
  "referred s c \<longleftrightarrow> (\<exists>t. pager s t = Some c) \<or> (\<exists>i. irq_context s i = Some c)"

text \<open>
  The guards: those of the operations on threads, IPC and signals, and that a context is not destructed,
  alone or with its receiver, while it is the pager of a thread or the context of an interrupt. Faults and
  interrupts are not guarded by what their pointers refer to.
\<close>

fun pop_ok :: "pop \<Rightarrow> pkernel \<Rightarrow> bool" where
  "pop_ok (Signal_op op) s \<longleftrightarrow> sop_ok op (sk s) \<and> (case op of
       Mmu_fault t known p \<Rightarrow> False
     | Irq c \<Rightarrow> False
     | Delete_context c \<Rightarrow> \<not> referred s c
     | Delete_receiver r \<Rightarrow> (\<forall>c \<in> set (r_contexts (rcv (sk s) r)). \<not> referred s c)
     | _ \<Rightarrow> True)"
| "pop_ok (Set_pager t u co) s \<longleftrightarrow> caller_ok (sk s) t \<and> alive (sk s) u \<and> (\<forall>c. co = Some c \<longrightarrow> ctx_alive (sk s) c)"
| "pop_ok (Fault_of t known) s \<longleftrightarrow> caller_ok (sk s) t"
| "pop_ok (New_irq t i co capid) s \<longleftrightarrow> caller_ok (sk s) t \<and> irq_context s i = None \<and> (\<forall>c. co = Some c \<longrightarrow> ctx_alive (sk s) c)"
| "pop_ok (Ack_irq t i) s \<longleftrightarrow> caller_ok (sk s) t \<and> irq_context s i \<noteq> None"
| "pop_ok (Delete_irq t i) s \<longleftrightarrow> caller_ok (sk s) t \<and> irq_context s i \<noteq> None"
| "pop_ok (Interrupt i) s \<longleftrightarrow> True"

inductive preach :: "pkernel \<Rightarrow> bool" where
  boot: "core_main_thread 0 0 empty_skernel = Some s \<Longrightarrow>
    preach \<lparr>sk = s, pager = \<lambda>_. None, irq_context = \<lambda>_. None, irq_unmasked = \<lambda>_. False\<rparr>"
| step: "preach s \<Longrightarrow> pop_ok op s \<Longrightarrow> pexec op s = Some s' \<Longrightarrow> preach s'"

definition pinv :: "pkernel \<Rightarrow> bool" where
  "pinv s \<longleftrightarrow> sinv {} (sk s) \<and> (\<forall>c. referred s c \<longrightarrow> ctx_alive (sk s) c)"

lemma pexec_pinv:
  assumes v: "pinv s" and op: "pop_ok op s"
  shows "\<exists>s'. pexec op s = Some s' \<and> pinv s'"
proof (cases op)
  case (Signal_op x)
  have x: "sop_ok x (sk s)" using op Signal_op by simp
  obtain s1 where s1: "sexec x (sk s) = Some s1" "sinv {} s1" using sexec_keeps [OF _ x] v by (auto simp: keeps_def pinv_def)
  let ?p = "case x of Construct_thread t \<Rightarrow> (pager s)(t := None) | Destruct_thread t \<Rightarrow> (pager s)(t := None) | _ \<Rightarrow> pager s"
  have p: "?p t = Some c \<Longrightarrow> pager s t = Some c" for t c by (auto split: sop.splits if_splits)
  have "ctx_alive s1 c" if "referred s c" for c
  proof (rule sexec_ctx [OF _ x s1(1)])
    show "\<not> lost x (sk s) c" using op Signal_op that v contextsD(5) [OF sinvD(4)] by (cases x) (auto simp: pinv_def)
  qed (use v that in \<open>simp_all add: pinv_def\<close>)
  then have "pinv (s\<lparr>sk := s1, pager := ?p\<rparr>)" using s1(2) p by (fastforce simp: pinv_def referred_def)
  then show ?thesis using Signal_op s1(1) by simp
next
  case (Set_pager t u co)
  then show ?thesis using op v by (auto simp: call_pager_def pinv_def referred_def split: if_splits)
next
  case (Fault_of t known)
  then have "sop_ok (Mmu_fault t known (pager s t)) (sk s)" using op v by (auto simp: pinv_def referred_def)
  from mmu_fault_keeps [OF _ this] v obtain s1 where s1: "mmu_fault t known (pager s t) (sk s) = Some s1" "sinv {} s1"
    by (auto simp: keeps_def pinv_def)
  with holds_ctxD [OF mmu_fault_ctx(1) s1(1)] v Fault_of show ?thesis
    by (auto simp: thread_mmu_exception_def pinv_def referred_def)
next
  case (New_irq t i co capid)
  have "sinv {} (user_arg_0 x t (sk s))" for x using arg_sinv v by (simp add: pinv_def)
  then show ?thesis using New_irq op v
    by (cases co) (auto simp: call_new_irq_def user_irq_construct_def irq_disable_def pinv_def referred_def split: if_splits)
next
  case (Ack_irq t i)
  then show ?thesis using op v by (auto simp: call_ack_irq_def irq_enable_def pinv_def referred_def)
next
  case (Delete_irq t i)
  then show ?thesis using op v by (auto simp: user_irq_destruct_def irq_disable_def pinv_def referred_def split: if_splits)
next
  case (Interrupt i)
  show ?thesis
  proof (cases "irq_context s i")
    case None
    then show ?thesis using Interrupt v by (simp add: user_irq_occurred_def)
  next
    case (Some c)
    then have "sop_ok (Irq c) (sk s)" using v by (auto simp: pinv_def referred_def)
    then obtain s1 where s1: "irq_occurred c (sk s) = Some s1" "sinv {} s1"
      using sexec_keeps [of "sk s" "Irq c"] v by (auto simp: keeps_def pinv_def)
    with holds_ctxD [OF mmu_fault_ctx(2) s1(1)] v Interrupt Some show ?thesis
      by (auto simp: user_irq_occurred_def irq_disable_def pinv_def referred_def)
  qed
qed

lemma preach_pinv: "preach s \<Longrightarrow> pinv s"
proof (induction rule: preach.induct)
  case (boot s)
  then show ?case using sboot_sinv by (simp add: sboot_eq pinv_def referred_def)
next
  case (step s op s')
  then show ?case using pexec_pinv by fastforce
qed

fun prun_checked :: "pop list \<Rightarrow> pkernel \<Rightarrow> pkernel option" where
  "prun_checked [] s = Some s"
| "prun_checked (op # ops) s = (if pop_ok op s then do { s1 \<leftarrow> pexec op s; prun_checked ops s1 } else None)"

lemma prun_checked_reach: "preach s \<Longrightarrow> prun_checked ops s = Some s' \<Longrightarrow> preach s'"
proof (induction ops arbitrary: s)
  case (Cons op ops)
  then show ?case by (auto split: if_splits simp: bind_eq_Some_conv intro: preach.step)
qed simp

section \<open>Properties\<close>

text \<open>
  \<^bold>\<open>C33.\<close> Signals are safe under the guards of \<open>pop_ok\<close>. From boot on, under any sequence of kernel calls on
  signals, IPC and threads, faults, interrupts, creations and destructions in which the guards of IPC and
  thread control hold (no request closes a cycle of helping threads, no thread is paused while it awaits a
  reply or while it is runnable on another CPU, threads are started and restarted in the states that the
  kernel asserts), a kernel call names objects that exist, and no context is destructed while a thread awaits
  its kill, has it as its pager, or an interrupt signals it, and no receiver with such a context or with
  waiting threads: no assertion fails, no destructed object is used, and every delivery loop ends. In
  particular, a fault and an interrupt never find their stored pointer dangling. A thread awaits a signal
  exactly as long as it is queued at a receiver that exists, and awaits a kill exactly as long as a context
  that exists knows it as its killer; pagers and contexts of interrupts exist.
\<close>

theorem signals_safe:
  assumes "preach s" "pop_ok op s"
  shows "\<exists>s'. pexec op s = Some s' \<and>
    (\<forall>t c. pager s' t = Some c \<longrightarrow> ctx_alive (sk s') c) \<and> (\<forall>i c. irq_context s' i = Some c \<longrightarrow> ctx_alive (sk s') c) \<and>
    (\<forall>t. alive (sk s') t \<longrightarrow>
      (t_state (thr (sk s') t) = AWAITS_SIGNAL \<longleftrightarrow> (\<exists>r. rcv_alive (sk s') r \<and> t \<in> set (r_handlers (rcv (sk s') r)))) \<and>
      (t_state (thr (sk s') t) = AWAITS_SIGNAL_CONTEXT_KILL \<longleftrightarrow> (\<exists>c. ctx_alive (sk s') c \<and> c_killer (ctx (sk s') c) = Some t)))"
proof -
  obtain s' where s': "pexec op s = Some s'" "pinv s'" using pexec_pinv [OF preach_pinv [OF assms(1)] assms(2)] by blast
  then show ?thesis using sinv_waiting [of "sk s'"] by (auto simp: pinv_def referred_def)
qed

theorem signals_safe_witness:
  "\<exists>s s'. preach s \<and> pager s 0 = Some 5 \<and> irq_context s 7 = Some 5 \<and> pexec (Fault_of 0 True) s = Some s' \<and>
     ctx_alive (sk s') 5 \<and> pager s' 0 = Some 5"
proof -
  let ?boot = "\<lparr>sk = sboot, pager = \<lambda>_. None, irq_context = \<lambda>_. None, irq_unmasked = \<lambda>_. False\<rparr>"
  obtain s where s: "prun_checked [Signal_op (New_receiver 2), Signal_op (New_context 5 2 9), Set_pager 0 0 (Some 5), New_irq 0 7 (Some 5) 1]
      ?boot = Some s" "pager s 0 = Some 5" "irq_context s 7 = Some 5" "caller_ok (sk s) 0"
    by (simp add: signal_eval call_pager_def call_new_irq_def user_irq_construct_def irq_disable_def cong: eval_cong)
  have r: "preach s" by (rule prun_checked_reach [OF preach.boot [OF sboot_eq] s(1)])
  from signals_safe [OF r, of "Fault_of 0 True"] s(4) obtain s' where
    "pexec (Fault_of 0 True) s = Some s'" "\<forall>t c. pager s' t = Some c \<longrightarrow> ctx_alive (sk s') c" by auto
  moreover from this(1) have "pager s' 0 = Some 5" using s(2) by (auto simp: thread_mmu_exception_def bind_eq_Some_conv)
  ultimately show ?thesis using r s(2,3) by blast
qed

text \<open>
  The guard on destructions is needed: after the destruction of a context, the next known fault of a thread
  with this context as its pager uses the destructed object, as does the interrupt that signals it.
\<close>

theorem source_left_dangling:
  assumes "destruct_context c (sk s) = Some s1"
  shows "pager s t = Some c \<longrightarrow> pexec (Fault_of t True) (s\<lparr>sk := s1\<rparr>) = None"
    "irq_context s i = Some c \<longrightarrow> pexec (Interrupt i) (s\<lparr>sk := s1\<rparr>) = None"
proof -
  have d: "\<not> ctx_alive s1 c" using destruct_context_ctx [OF assms] by simp
  have "holds_ctx s1 (mmu_exception t s1)" unfolding mmu_exception_def by (intro ctx_wp) simp
  then show "pager s t = Some c \<longrightarrow> pexec (Fault_of t True) (s\<lparr>sk := s1\<rparr>) = None"
    using d by (cases "mmu_exception t s1") (auto simp: thread_mmu_exception_def mmu_fault_def dest: holds_ctxD)
  show "irq_context s i = Some c \<longrightarrow> pexec (Interrupt i) (s\<lparr>sk := s1\<rparr>) = None"
    using d by (simp add: user_irq_occurred_def irq_occurred_def)
qed

end
