(* ===== verification/C_String.thy ===== *)
theory C_String
  imports Prelude
begin

text \<open>
  The string and memory utilities of \<^verbatim>\<open>base/include/util/string.h\<close> on a memory of characters. A pointer
  is an address, the null pointer is \<open>None\<close> where the code tests for it. No object extends past the end of
  the address space, so that pointer arithmetic does not wrap. A loop that searches for the end of a
  string returns \<open>None\<close> if the memory has no such end. The CPU-specific copy routine is a parameter.
\<close>

section \<open>Memory\<close>

type_synonym cmem = "nat \<Rightarrow> char"

abbreviation NUL :: char where
  "NUL \<equiv> CHR 0x00"

section \<open>Strings\<close>

partial_function (option) strlen_loop :: "cmem \<Rightarrow> nat \<Rightarrow> nat \<Rightarrow> nat option" where
  "strlen_loop m s res = (if m s \<noteq> NUL then strlen_loop m (s + 1) (res + 1) else Some res)"

definition strlen :: "cmem \<Rightarrow> nat option \<Rightarrow> nat option" where
  "strlen m p = (case p of None \<Rightarrow> Some 0 | Some s \<Rightarrow> strlen_loop m s 0)"

function strcmp :: "cmem \<Rightarrow> nat \<Rightarrow> nat \<Rightarrow> nat \<Rightarrow> int" where
  "strcmp m s1 s2 len =
     (if m s1 \<noteq> NUL \<and> m s1 = m s2 \<and> len \<noteq> 0 then strcmp m (s1 + 1) (s2 + 1) (len - 1)
      else if len \<noteq> 0 then of_char (m s1) - of_char (m s2) else 0)"
  by auto

termination strcmp
  by (relation "measure (\<lambda>(m, s1, s2, len). len)") auto

declare strcmp.simps [simp del]

section \<open>Copying\<close>

primrec copy_up :: "nat \<Rightarrow> nat \<Rightarrow> nat \<Rightarrow> cmem \<Rightarrow> cmem" where
  "copy_up 0 d s m = m"
| "copy_up (Suc n) d s m = copy_up n (d + 1) (s + 1) (m(d := m s))"

primrec copy_down :: "nat \<Rightarrow> nat \<Rightarrow> nat \<Rightarrow> cmem \<Rightarrow> cmem" where
  "copy_down 0 d s m = m"
| "copy_down (Suc n) d s m = copy_down n (d - 1) (s - 1) (m(d := m s))"

definition memmove :: "nat \<Rightarrow> nat \<Rightarrow> nat \<Rightarrow> cmem \<Rightarrow> cmem" where
  "memmove d s n m =
     (if s > d then copy_up n d s m else copy_down n (d + n - 1) (s + n - 1) m)"

text \<open>Chunks of eight bytes; the result has the advanced pointers.\<close>

primrec copy_chunks :: "nat \<Rightarrow> nat \<Rightarrow> nat \<Rightarrow> cmem \<Rightarrow> nat \<times> nat \<times> cmem" where
  "copy_chunks 0 d s m = (d, s, m)"
| "copy_chunks (Suc k) d s m = copy_chunks k (d + 8) (s + 8) (copy_up 8 d s m)"

text \<open>The result of the CPU-specific routine is the memory and the number of bytes not copied.\<close>

type_synonym cpu_copy = "nat \<Rightarrow> nat \<Rightarrow> nat \<Rightarrow> cmem \<Rightarrow> cmem \<times> nat"

definition memcpy :: "cpu_copy \<Rightarrow> nat \<Rightarrow> nat \<Rightarrow> nat \<Rightarrow> cmem \<Rightarrow> cmem" where
  "memcpy cpu dst src sz m =
     (if dst + sz > src \<and> src + sz > dst then memmove dst src sz m
      else
        let (m1, rest) = cpu dst src sz m;
            i = sz - rest
        in if i = sz then m1
           else
             let d = dst + i; s = src + i; size1 = sz - i;
                 (d1, s1, m2) = copy_chunks (drop_bit 3 size1) d s m1
             in copy_up (size1 mod 8) d1 s1 m2)"

text \<open>
  The routine of \<^verbatim>\<open>base/include/cpu/string.h\<close>, for a machine word of eight bytes: bytes up to an aligned
  address, then words. Both loops yield the advanced pointers and the remaining size.
\<close>

function align_loop :: "nat \<Rightarrow> nat \<Rightarrow> nat \<Rightarrow> nat \<Rightarrow> cmem \<Rightarrow> nat \<times> nat \<times> nat \<times> cmem" where
  "align_loop n s_align d s m =
     (if n > 0 \<and> s_align > 0 \<and> s_align < 8 then align_loop (n - 1) (s_align + 1) (d + 1) (s + 1) (m(d := m s))
      else (n, d, s, m))"
  by auto

termination align_loop
  by (relation "measure (\<lambda>(n, s_align, d, s, m). n)") auto

definition copy_word :: "nat \<Rightarrow> nat \<Rightarrow> cmem \<Rightarrow> cmem" where
  "copy_word d s m = (\<lambda>x. if d \<le> x \<and> x < d + 8 then m (s + (x - d)) else m x)"

function word_loop :: "nat \<Rightarrow> nat \<Rightarrow> nat \<Rightarrow> cmem \<Rightarrow> nat \<times> cmem" where
  "word_loop n d s m = (if n \<ge> 8 then word_loop (n - 8) (d + 8) (s + 8) (copy_word d s m) else (n, m))"
  by auto

termination word_loop
  by (relation "measure (\<lambda>(n, d, s, m). n)") auto

declare align_loop.simps [simp del] word_loop.simps [simp del]

definition memcpy_cpu :: cpu_copy where
  "memcpy_cpu dst src sz m =
     (if dst mod 8 \<noteq> src mod 8 then (m, sz)
      else case align_loop sz (src mod 8) dst src m of
             (n, d, s, m1) \<Rightarrow> (case word_loop n d s m1 of (rest, m2) \<Rightarrow> (m2, rest)))"

primrec copy_cstring_loop :: "nat \<Rightarrow> nat \<Rightarrow> nat \<Rightarrow> cmem \<Rightarrow> cmem" where
  "copy_cstring_loop 0 d s m = m(d := NUL)"
| "copy_cstring_loop (Suc n) d s m =
     (if m s \<noteq> NUL then copy_cstring_loop n (d + 1) (s + 1) (m(d := m s)) else m(d := NUL))"

definition copy_cstring :: "nat \<Rightarrow> nat \<Rightarrow> nat \<Rightarrow> cmem \<Rightarrow> cmem" where
  "copy_cstring d s sz m = (if sz = 0 then m else copy_cstring_loop (sz - 1) d s m)"

section \<open>Characters and numbers\<close>

definition digit :: "char \<Rightarrow> bool \<Rightarrow> int" where
  "digit c hex =
     (let v = of_char c :: int in
      if 48 \<le> v \<and> v \<le> 57 then v - 48
      else if hex \<and> 97 \<le> v \<and> v \<le> 102 then v - 97 + 10
      else if hex \<and> 65 \<le> v \<and> v \<le> 70 then v - 65 + 10
      else - 1)"

definition is_letter :: "char \<Rightarrow> bool" where
  "is_letter c \<longleftrightarrow> (let v = of_char c :: int in 97 \<le> v \<and> v \<le> 122 \<or> 65 \<le> v \<and> v \<le> 90)"

definition is_digit :: "char \<Rightarrow> bool" where
  "is_digit c \<longleftrightarrow> digit c False \<ge> 0"

definition is_whitespace :: "char \<Rightarrow> bool" where
  "is_whitespace c \<longleftrightarrow> c = CHR 0x09 \<or> c = CHR '' '' \<or> c = CHR 0x0A"

partial_function (option) digits_loop :: "cmem \<Rightarrow> u8 \<Rightarrow> nat \<Rightarrow> nat \<Rightarrow> 64 word \<Rightarrow> (nat \<times> 64 word) option" where
  "digits_loop m base s i value =
     (let d = digit (m s) (base = 16) in
      if d < 0 then Some (i, value)
      else digits_loop m base (s + 1) (i + 1) (value * ucast base + word_of_int d))"

text \<open>The result \<open>(i, r)\<close>: the number of consumed characters and the value, if one was assigned.\<close>

definition ascii_to_unsigned :: "cmem \<Rightarrow> nat \<Rightarrow> u8 \<Rightarrow> (nat \<times> 64 word option) option" where
  "ascii_to_unsigned m s base =
     (if m s = NUL then Some (0, None)
      else
        let (s1, i, base1) =
              (if base = 0
               then if m s = CHR ''0'' \<and> (m (s + 1) = CHR ''x'' \<or> m (s + 1) = CHR ''X'') then (s + 2, 2, 16) else (s, 0, 10)
               else (s, 0, base))
        in map_option (\<lambda>(n, v). (n, Some v)) (digits_loop m base1 s1 i 0))"

text \<open>\<^verbatim>\<open>ascii_to\<close> for \<^verbatim>\<open>Number_of_bytes\<close>.\<close>

definition ascii_to_bytes :: "cmem \<Rightarrow> nat \<Rightarrow> (nat \<times> 64 word) option" where
  "ascii_to_bytes m s = do {
     (i, r) \<leftarrow> ascii_to_unsigned m s 0;
     let res = (case r of None \<Rightarrow> 0 | Some v \<Rightarrow> v);
     Some (if i > 0
           then if m (s + i) = CHR ''G'' then (i + 1, res * (1024 * 1024 * 1024))
                else if m (s + i) = CHR ''M'' then (i + 1, res * (1024 * 1024))
                else if m (s + i) = CHR ''K'' then (i + 1, res * 1024)
                else (i, res)
           else (i, res))
   }"

text \<open>\<^verbatim>\<open>ascii_to\<close> for \<^verbatim>\<open>bool\<close>; the constants of the source are strings of the program.\<close>

definition starts :: "cmem \<Rightarrow> nat \<Rightarrow> string \<Rightarrow> bool" where
  "starts m s w \<longleftrightarrow> map (\<lambda>i. m (s + i)) [0..<length w] = w"

definition ascii_to_bool :: "cmem \<Rightarrow> nat \<Rightarrow> nat \<times> bool option" where
  "ascii_to_bool m s =
     (if starts m s ''yes'' then (3, Some True)
      else if starts m s ''true'' then (4, Some True)
      else if starts m s ''on'' then (2, Some True)
      else if starts m s ''no'' then (2, Some False)
      else if starts m s ''false'' then (5, Some False)
      else if starts m s ''off'' then (3, Some False)
      else (0, None))"

section \<open>Quoted strings\<close>

function unpack_loop :: "nat \<Rightarrow> nat \<Rightarrow> nat \<Rightarrow> nat \<Rightarrow> cmem \<Rightarrow> nat \<times> nat \<times> cmem" where
  "unpack_loop src dst i dst_len m =
     (if m src \<noteq> NUL \<and> \<not> (m (src - 1) \<noteq> CHR 0x5C \<and> m src = CHR 0x22) \<and> i < dst_len - 1
      then if m src = CHR 0x5C \<and> m (src + 1) = CHR 0x22
           then unpack_loop (src + 2) (dst + 1) (i + 1) dst_len (m(dst := CHR 0x22))
           else unpack_loop (src + 1) (dst + 1) (i + 1) dst_len (m(dst := m src))
      else (i, dst, m))"
  by auto

termination unpack_loop
  by (relation "measure (\<lambda>(src, dst, i, dst_len, m). dst_len - i)") auto

declare unpack_loop.simps [simp del]

text \<open>The result \<open>2\<^sup>6\<^sup>4 - 1\<close> is the error \<^verbatim>\<open>~0UL\<close>.\<close>

definition unpack_string :: "nat \<Rightarrow> nat \<Rightarrow> nat \<Rightarrow> cmem \<Rightarrow> nat \<times> cmem" where
  "unpack_string src dst dst_len m =
     (if m src \<noteq> CHR 0x22 \<or> dst_len < 1 then (2 ^ 64 - 1, m)
      else let (i, d, m1) = unpack_loop (src + 1) dst 0 dst_len m in (i, m1(d := NUL)))"

section \<open>Copying is exact\<close>

text \<open>The reference: all bytes at once.\<close>

definition blit :: "nat \<Rightarrow> nat \<Rightarrow> nat \<Rightarrow> cmem \<Rightarrow> cmem" where
  "blit n d s m = (\<lambda>x. if d \<le> x \<and> x < d + n then m (s + (x - d)) else m x)"

lemma blit_0 [simp]: "blit 0 d s m = m"
  by (auto simp: blit_def fun_eq_iff)

lemma copy_up_blit: "d \<le> s \<or> s + n \<le> d \<Longrightarrow> copy_up n d s m = blit n d s m"
proof (induction n arbitrary: d s m)
  case 0
  then show ?case by simp
next
  case (Suc n)
  have "copy_up (Suc n) d s m = blit n (d + 1) (s + 1) (m(d := m s))"
    unfolding copy_up.simps by (rule Suc.IH) (use Suc.prems in auto)
  also have "\<dots> = blit (Suc n) d s m"
  proof
    fix x
    have e: "s + 1 + (x - (d + 1)) = s + (x - d)" if "d + 1 \<le> x" using that by simp
    consider "x < d" | "x = d" | "d + 1 \<le> x" by linarith
    then show "blit n (d + 1) (s + 1) (m(d := m s)) x = blit (Suc n) d s m x"
      by cases (use Suc.prems e in \<open>auto simp: blit_def\<close>)
  qed
  finally show ?case .
qed

lemma copy_down_blit: "s \<le> d \<Longrightarrow> copy_down n (d + n - 1) (s + n - 1) m = blit n d s m"
proof (induction n arbitrary: m)
  case 0
  then show ?case by simp
next
  case (Suc n)
  have e: "d + Suc n - 1 = d + n" "s + Suc n - 1 = s + n" by simp_all
  have "copy_down (Suc n) (d + Suc n - 1) (s + Suc n - 1) m = blit n d s (m(d + n := m (s + n)))"
    unfolding e using Suc by simp
  also have "\<dots> = blit (Suc n) d s m" using Suc.prems by (auto simp: blit_def fun_eq_iff less_Suc_eq)
  finally show ?case .
qed

lemma memmove_blit: "memmove d s n m = blit n d s m"
  using copy_up_blit [of d s n m] copy_down_blit [of s d n m] by (simp add: memmove_def)

lemma blit_append: "d + (i + n) \<le> s \<or> s + (i + n) \<le> d \<Longrightarrow> blit n (d + i) (s + i) (blit i d s m) = blit (i + n) d s m"
  by (auto simp: blit_def fun_eq_iff)

lemma copy_chunks_blit:
  "d + 8 * k \<le> s \<or> s + 8 * k \<le> d \<Longrightarrow> copy_chunks k d s m = (d + 8 * k, s + 8 * k, blit (8 * k) d s m)"
proof (induction k arbitrary: d s m)
  case 0
  then show ?case by simp
next
  case (Suc k)
  have "copy_up 8 d s m = blit 8 d s m" using Suc.prems by (intro copy_up_blit) auto
  with Suc show ?case using blit_append [of d 8 "8 * k" s m] by (auto simp del: copy_up.simps)
qed

text \<open>
  The contract of a CPU-specific routine: for blocks that do not overlap it has copied all bytes but
  the number that it returns, from the start of the block on.
\<close>

locale cpu_copy_routine =
  fixes cpu :: cpu_copy
  assumes copied: "d + n \<le> s \<or> s + n \<le> d \<Longrightarrow> cpu d s n m = (m1, r) \<Longrightarrow> r \<le> n \<and> m1 = blit (n - r) d s m"
begin

lemma rest_blit:
  assumes apart: "d + n \<le> s \<or> s + n \<le> d" and r: "r \<le> n"
  shows "(case copy_chunks (r div 8) (d + (n - r)) (s + (n - r)) (blit (n - r) d s m) of
     (d1, s1, m2) \<Rightarrow> copy_up (r mod 8) d1 s1 m2) = blit n d s m"
proof -
  let ?k = "r div 8" let ?i = "n - r"
  have k: "8 * ?k + r mod 8 = r" by simp
  have "copy_chunks ?k (d + ?i) (s + ?i) (blit ?i d s m) =
      (d + ?i + 8 * ?k, s + ?i + 8 * ?k, blit (8 * ?k) (d + ?i) (s + ?i) (blit ?i d s m))"
    by (rule copy_chunks_blit) (use apart r k in auto)
  moreover have "blit (8 * ?k) (d + ?i) (s + ?i) (blit ?i d s m) = blit (?i + 8 * ?k) d s m"
    by (rule blit_append) (use apart r k in auto)
  moreover have "copy_up (r mod 8) (d + ?i + 8 * ?k) (s + ?i + 8 * ?k) (blit (?i + 8 * ?k) d s m) =
      blit (r mod 8) (d + (?i + 8 * ?k)) (s + (?i + 8 * ?k)) (blit (?i + 8 * ?k) d s m)"
    unfolding add.assoc [symmetric] by (rule copy_up_blit) (use apart r k in auto)
  moreover have "\<dots> = blit (?i + 8 * ?k + r mod 8) d s m" by (rule blit_append) (use apart r k in auto)
  moreover have "?i + 8 * ?k + r mod 8 = n" using r k by linarith
  ultimately show ?thesis by simp
qed

lemma memcpy_blit: "memcpy cpu d s n m = blit n d s m"
proof (cases "d + n > s \<and> s + n > d")
  case True
  then show ?thesis by (simp add: memcpy_def memmove_blit)
next
  case False
  obtain m1 r where c: "cpu d s n m = (m1, r)" by fastforce
  have apart: "d + n \<le> s \<or> s + n \<le> d" using False by auto
  note r = copied [OF apart c]
  show ?thesis
  proof (cases "r = 0")
    case True
    with False c r show ?thesis by (auto simp: memcpy_def)
  next
    case nz: False
    then have i: "n - r \<noteq> n" "n - (n - r) = r" using r by auto
    have "memcpy cpu d s n m = (case copy_chunks (r div 8) (d + (n - r)) (s + (n - r)) m1 of (d1, s1, m2) \<Rightarrow> copy_up (r mod 8) d1 s1 m2)"
      unfolding memcpy_def c if_not_P [OF False] using i by (simp add: Let_def drop_bit_eq_div del: diff_diff_cancel)
    then show ?thesis using rest_blit [OF apart, of r m] r by simp
  qed
qed

end

lemma align_loop_blit:
  "d + n \<le> s \<or> s + n \<le> d \<Longrightarrow> \<exists>i \<le> n. align_loop n a d s m = (n - i, d + i, s + i, blit i d s m)"
proof (induction n a d s m rule: align_loop.induct)
  case (1 n a d s m)
  show ?case
  proof (cases "n > 0 \<and> a > 0 \<and> a < 8")
    case True
    have "\<exists>i \<le> n - 1. align_loop (n - 1) (a + 1) (d + 1) (s + 1) (m(d := m s)) =
        (n - 1 - i, d + 1 + i, s + 1 + i, blit i (d + 1) (s + 1) (m(d := m s)))"
      by (rule "1.IH" [OF True]) (use "1.prems" in auto)
    then obtain i where i: "i \<le> n - 1" "align_loop (n - 1) (a + 1) (d + 1) (s + 1) (m(d := m s)) =
        (n - 1 - i, d + 1 + i, s + 1 + i, blit i (d + 1) (s + 1) (m(d := m s)))" by blast
    have one: "m(d := m s) = blit 1 d s m" by (auto simp: blit_def fun_eq_iff)
    have "blit i (d + 1) (s + 1) (m(d := m s)) = blit (1 + i) d s m"
      unfolding one by (rule blit_append) (use "1.prems" i(1) True in auto)
    then have "align_loop n a d s m = (n - (1 + i), d + (1 + i), s + (1 + i), blit (1 + i) d s m)"
      using True i(2) by (subst align_loop.simps) simp
    then show ?thesis using i(1) True by (intro exI [of _ "1 + i"]) auto
  next
    case False
    then show ?thesis by (intro exI [of _ 0]) (subst align_loop.simps, auto)
  qed
qed

lemma word_loop_blit:
  "d + n \<le> s \<or> s + n \<le> d \<Longrightarrow> word_loop n d s m = (n mod 8, blit (n - n mod 8) d s m)"
proof (induction n d s m rule: word_loop.induct)
  case (1 n d s m)
  show ?case
  proof (cases "n \<ge> 8")
    case True
    have "copy_word d s m = blit 8 d s m" by (simp add: copy_word_def blit_def)
    moreover have "word_loop (n - 8) (d + 8) (s + 8) (copy_word d s m) =
        ((n - 8) mod 8, blit (n - 8 - (n - 8) mod 8) (d + 8) (s + 8) (copy_word d s m))"
      by (rule "1.IH" [OF True]) (use "1.prems" True in auto)
    moreover have "(n - 8) mod 8 = n mod 8" using True by (simp add: le_mod_geq)
    moreover have "blit (n - 8 - n mod 8) (d + 8) (s + 8) (blit 8 d s m) = blit (8 + (n - 8 - n mod 8)) d s m"
      by (rule blit_append) (use "1.prems" True in auto)
    moreover have "8 + (n - 8 - n mod 8) = n - n mod 8"
    proof -
      have "n mod 8 + 8 \<le> n" using True \<open>(n - 8) mod 8 = n mod 8\<close> mod_less_eq_dividend [of "n - 8" 8] by linarith
      then show ?thesis by simp
    qed
    ultimately show ?thesis using True by (subst word_loop.simps) simp
  next
    case False
    then show ?thesis by (subst word_loop.simps) simp
  qed
qed

interpretation generic: cpu_copy_routine memcpy_cpu
proof
  fix d n s m m1 r
  assume ap: "d + n \<le> s \<or> s + n \<le> d" and c: "memcpy_cpu d s n m = (m1, r)"
  show "r \<le> n \<and> m1 = blit (n - r) d s m"
  proof (cases "d mod 8 = s mod 8")
    case False
    with c show ?thesis by (simp add: memcpy_cpu_def)
  next
    case True
    obtain i where i: "i \<le> n" "align_loop n (s mod 8) d s m = (n - i, d + i, s + i, blit i d s m)"
      using align_loop_blit [OF ap] by blast
    have "word_loop (n - i) (d + i) (s + i) (blit i d s m) = ((n - i) mod 8, blit (n - i - (n - i) mod 8) (d + i) (s + i) (blit i d s m))"
      by (rule word_loop_blit) (use ap i(1) in auto)
    moreover have "blit (n - i - (n - i) mod 8) (d + i) (s + i) (blit i d s m) = blit (i + (n - i - (n - i) mod 8)) d s m"
      by (rule blit_append) (use ap i(1) in auto)
    moreover have "i + (n - i - (n - i) mod 8) = n - (n - i) mod 8" "(n - i) mod 8 \<le> n"
      using i(1) mod_less_eq_dividend [of "n - i" 8] by linarith+
    ultimately show ?thesis using c True i(2) by (auto simp: memcpy_cpu_def)
  qed
qed

text \<open>
  \<^bold>\<open>C37.\<close> Copying equals a reference that copies all bytes of the source block at once, for any size, any
  alignment and any overlap of the blocks: the bytes up to an aligned address, the words, the chunks of
  eight bytes and the bytes that are left over make up the whole block.
\<close>

theorem memcpy_exact:
  "memcpy memcpy_cpu d s n m = (\<lambda>x. if d \<le> x \<and> x < d + n then m (s + (x - d)) else m x)"
  unfolding generic.memcpy_blit by (simp add: blit_def)

end
