(* ===== verification/Token.thy ===== *)
theory Token
  imports C_String
begin

text \<open>
  The tokenizer \<^verbatim>\<open>base/include/util/token.h\<close> with the scanner policy of argument strings. A token refers
  to characters in memory by its start, the most characters it may have, and its length. The counter of
  the scanning loops is an \<^verbatim>\<open>unsigned\<close>; tokens are assumed to be shorter than \<open>2\<^sup>3\<^sup>2\<close> characters.
\<close>

section \<open>Scanning\<close>

definition identifier_char :: "char \<Rightarrow> nat \<Rightarrow> bool" where
  "identifier_char c i \<longleftrightarrow> is_letter c \<or> c = CHR ''_'' \<or> i \<noteq> 0 \<and> is_digit c"

definition end_of_quote :: "cmem \<Rightarrow> nat \<Rightarrow> bool" where
  "end_of_quote m s \<longleftrightarrow> m s \<noteq> CHR 0x5C \<and> m (s + 1) = CHR 0x22"

datatype token_type = SINGLECHAR | NUMBER | IDENT | STRING | WHITESPACE | END

text \<open>\<open>None\<close> if the string ends without a quotation mark.\<close>

function quote_loop :: "cmem \<Rightarrow> nat \<Rightarrow> nat \<Rightarrow> nat \<Rightarrow> nat option" where
  "quote_loop m s max_len i =
     (if i + 1 < max_len \<and> \<not> end_of_quote m (s + i)
      then if m (s + i) = NUL then None else quote_loop m s max_len (i + 1)
      else Some i)"
  by auto

termination quote_loop
  by (relation "measure (\<lambda>(m, s, max_len, i). max_len - i)") auto

declare quote_loop.simps [simp del]

definition quoted_string_len :: "cmem \<Rightarrow> nat \<Rightarrow> nat \<Rightarrow> nat" where
  "quoted_string_len m s max_len =
     (case quote_loop m s max_len 0 of
        None \<Rightarrow> 0
      | Some i \<Rightarrow> if i + 1 = max_len then 0 else i + 2)"

definition scan_type :: "cmem \<Rightarrow> nat option \<Rightarrow> nat \<Rightarrow> token_type" where
  "scan_type m start max_len =
     (case start of
        None \<Rightarrow> END
      | Some s \<Rightarrow>
          if max_len < 1 \<or> m s = NUL then END
          else if identifier_char (m s) 0 then IDENT
          else if is_digit (m s) then NUMBER
          else if is_whitespace (m s) then WHITESPACE
          else if m s = CHR 0x22 then if quoted_string_len m s max_len \<noteq> 0 then STRING else END
          else SINGLECHAR)"

function span :: "(char \<Rightarrow> nat \<Rightarrow> bool) \<Rightarrow> cmem \<Rightarrow> nat \<Rightarrow> nat \<Rightarrow> nat \<Rightarrow> nat" where
  "span p m s max_len i = (if i < max_len \<and> p (m (s + i)) i then span p m s max_len (i + 1) else i)"
  by auto

termination span
  by (relation "measure (\<lambda>(p, m, s, max_len, i). max_len - i)") auto

declare span.simps [simp del]

definition calc_len :: "cmem \<Rightarrow> nat \<Rightarrow> nat \<Rightarrow> nat" where
  "calc_len m s max_len =
     (case scan_type m (Some s) max_len of
        SINGLECHAR \<Rightarrow> 1
      | NUMBER \<Rightarrow> span (\<lambda>c i. is_digit c) m s max_len 0
      | IDENT \<Rightarrow> span identifier_char m s max_len 0
      | STRING \<Rightarrow> quoted_string_len m s max_len
      | WHITESPACE \<Rightarrow> span (\<lambda>c i. is_whitespace c) m s max_len 0
      | END \<Rightarrow> 0)"

section \<open>Tokens\<close>

record token =
  tk_start :: "nat option"
  tk_max_len :: nat
  tk_len :: nat

text \<open>The default \<^verbatim>\<open>~0UL\<close> of the maximum length.\<close>

definition no_limit :: nat where
  "no_limit = 2 ^ 64 - 1"

definition mk_token :: "cmem \<Rightarrow> nat option \<Rightarrow> nat \<Rightarrow> token" where
  "mk_token m s max_len = \<lparr>tk_start = s, tk_max_len = max_len, tk_len = (case s of None \<Rightarrow> 0 | Some a \<Rightarrow> calc_len m a max_len)\<rparr>"

definition no_token :: "cmem \<Rightarrow> token" where
  "no_token m = mk_token m None no_limit"

definition type_of :: "cmem \<Rightarrow> token \<Rightarrow> token_type" where
  "type_of m t = scan_type m (tk_start t) (tk_len t)"

definition valid :: "token \<Rightarrow> bool" where
  "valid t \<longleftrightarrow> tk_start t \<noteq> None \<and> tk_len t \<noteq> 0"

definition char_at :: "cmem \<Rightarrow> token \<Rightarrow> int \<Rightarrow> char" where
  "char_at m t idx =
     (case tk_start t of
        None \<Rightarrow> NUL
      | Some s \<Rightarrow> if idx \<ge> 0 \<and> nat idx < tk_len t then m (s + nat idx) else NUL)"

definition token_next :: "cmem \<Rightarrow> token \<Rightarrow> token" where
  "token_next m t = mk_token m (map_option (\<lambda>s. s + tk_len t) (tk_start t)) (tk_max_len t - tk_len t)"

definition eat_whitespace :: "cmem \<Rightarrow> token \<Rightarrow> token" where
  "eat_whitespace m t = (if type_of m t = WHITESPACE then token_next m t else t)"

definition matches :: "cmem \<Rightarrow> nat \<Rightarrow> token \<Rightarrow> bool option" where
  "matches m pattern t = do {
     len \<leftarrow> strlen m (Some pattern);
     (if \<not> valid t \<or> len > tk_max_len t then Some False
      else do { s \<leftarrow> tk_start t; Some (strcmp m pattern s len = 0) })
   }"

section \<open>The extent of a token\<close>

lemma span_bounds:
  "i \<le> max_len \<Longrightarrow> i \<le> span p m s max_len i \<and> span p m s max_len i \<le> max_len"
proof (induction p m s max_len i rule: span.induct)
  case (1 p m s max_len i)
  then show ?case by (subst (1 2) span.simps) auto
qed

lemma span_pos: "0 < max_len \<Longrightarrow> p (m s) 0 \<Longrightarrow> 0 < span p m s max_len 0"
  using span_bounds [of 1 max_len p m s] by (subst span.simps) simp

lemma quote_loop_Some:
  "quote_loop m s max_len i = Some j \<Longrightarrow> i \<le> j \<and> (\<forall>k. i \<le> k \<and> k < j \<longrightarrow> m (s + k) \<noteq> NUL \<and> \<not> end_of_quote m (s + k)) \<and>
     (j + 1 < max_len \<longrightarrow> end_of_quote m (s + j)) \<and> (i + 1 \<le> max_len \<longrightarrow> j + 1 \<le> max_len)"
proof (induction m s max_len i rule: quote_loop.induct)
  case (1 m s max_len i)
  show ?case
  proof (cases "i + 1 < max_len \<and> \<not> end_of_quote m (s + i)")
    case True
    then have "m (s + i) \<noteq> NUL" "quote_loop m s max_len (i + 1) = Some j"
      using "1.prems" by (simp_all add: quote_loop.simps [of m s max_len i] split: if_splits)
    with "1.IH" True show ?thesis by (auto simp: Suc_le_eq) (metis le_neq_implies_less)+
  next
    case False
    then have "j = i" using "1.prems" by (subst (asm) quote_loop.simps) auto
    with False show ?thesis by auto
  qed
qed

lemma quote_loop_intro:
  "i \<le> j \<Longrightarrow> j + 1 < max_len \<Longrightarrow> end_of_quote m (s + j) \<Longrightarrow>
   (\<forall>k. i \<le> k \<and> k < j \<longrightarrow> m (s + k) \<noteq> NUL \<and> \<not> end_of_quote m (s + k)) \<Longrightarrow> quote_loop m s max_len i = Some j"
proof (induction m s max_len i rule: quote_loop.induct)
  case (1 m s max_len i)
  show ?case
  proof (cases "i = j")
    case True
    with "1.prems" show ?thesis by (subst quote_loop.simps) simp
  next
    case False
    with "1.prems" have "quote_loop m s max_len (i + 1) = Some j" by (intro "1.IH") auto
    with False "1.prems" show ?thesis by (subst quote_loop.simps) auto
  qed
qed

lemma quoted_len:
  assumes "quoted_string_len m s max_len \<noteq> 0" "1 \<le> max_len"
  obtains i where "quoted_string_len m s max_len = i + 2" "i + 2 \<le> max_len" "end_of_quote m (s + i)"
    "\<And>k. k < i \<Longrightarrow> m (s + k) \<noteq> NUL \<and> \<not> end_of_quote m (s + k)"
proof -
  obtain i where i: "quote_loop m s max_len 0 = Some i" "i + 1 \<noteq> max_len" "quoted_string_len m s max_len = i + 2"
    using assms(1) by (auto simp: quoted_string_len_def split: option.splits if_splits)
  with quote_loop_Some [OF i(1)] assms(2) that [of i] show ?thesis by auto
qed

lemma quoted_again: "quoted_string_len m s max_len \<noteq> 0 \<Longrightarrow> 1 \<le> max_len \<Longrightarrow>
    quoted_string_len m s (quoted_string_len m s max_len) = quoted_string_len m s max_len"
proof (erule quoted_len, assumption)
  fix i
  assume i: "quoted_string_len m s max_len = i + 2" "end_of_quote m (s + i)"
    "\<And>k. k < i \<Longrightarrow> m (s + k) \<noteq> NUL \<and> \<not> end_of_quote m (s + k)"
  then have "quote_loop m s (i + 2) 0 = Some i" by (intro quote_loop_intro) auto
  then show ?thesis unfolding i(1) by (simp add: quoted_string_len_def)
qed

lemma calc_len_facts:
  "calc_len m s max_len \<le> max_len \<and> (calc_len m s max_len \<noteq> 0 \<longleftrightarrow> scan_type m (Some s) max_len \<noteq> END) \<and>
   scan_type m (Some s) (calc_len m s max_len) = scan_type m (Some s) max_len"
proof (cases "scan_type m (Some s) max_len = END")
  case True
  then show ?thesis by (simp add: calc_len_def scan_type_def)
next
  case False
  then have ml: "1 \<le> max_len" "m s \<noteq> NUL" by (auto simp: scan_type_def split: if_splits)
  consider "scan_type m (Some s) max_len = STRING" | "scan_type m (Some s) max_len \<noteq> STRING" by blast
  then show ?thesis
  proof cases
    case 1
    then have q: "quoted_string_len m s max_len \<noteq> 0" by (auto simp: scan_type_def split: if_splits)
    obtain i where i: "quoted_string_len m s max_len = i + 2" "i + 2 \<le> max_len" using quoted_len [OF q ml(1)] by metis
    have "calc_len m s max_len = quoted_string_len m s max_len" using 1 by (simp add: calc_len_def)
    then show ?thesis using 1 i quoted_again [OF q ml(1)] by (auto simp: scan_type_def split: if_splits)
  next
    case 2
    have le: "span p m s max_len 0 \<le> max_len" for p using span_bounds [of 0 max_len p m s] by simp
    have c: "scan_type m (Some s) max_len = IDENT \<Longrightarrow> identifier_char (m s) 0" "scan_type m (Some s) max_len = NUMBER \<Longrightarrow> is_digit (m s)"
      "scan_type m (Some s) max_len = WHITESPACE \<Longrightarrow> is_whitespace (m s)"
      by (auto simp: scan_type_def split: if_splits)
    have sp: "0 < span p m s max_len 0" if "p (m s) 0" for p using span_pos ml(1) that by simp
    have pos: "0 < calc_len m s max_len \<and> calc_len m s max_len \<le> max_len"
      using False 2 ml(1) le sp c by (cases "scan_type m (Some s) max_len") (simp_all add: calc_len_def)
    then have "scan_type m (Some s) (calc_len m s max_len) = scan_type m (Some s) max_len"
      using False 2 ml by (auto simp: scan_type_def split: if_splits)
    with pos False show ?thesis by simp
  qed
qed

lemma mk_token_facts:
  "tk_len (mk_token m s max_len) \<le> max_len" "type_of m (mk_token m s max_len) = scan_type m s max_len"
  "valid (mk_token m s max_len) \<longleftrightarrow> scan_type m s max_len \<noteq> END"
proof -
  have "tk_len (mk_token m s max_len) \<le> max_len \<and> type_of m (mk_token m s max_len) = scan_type m s max_len \<and>
      (valid (mk_token m s max_len) \<longleftrightarrow> scan_type m s max_len \<noteq> END)"
  proof (cases s)
    case None
    then show ?thesis by (simp add: mk_token_def type_of_def scan_type_def valid_def)
  next
    case (Some a)
    then show ?thesis using calc_len_facts [of m a max_len] by (simp add: mk_token_def type_of_def valid_def)
  qed
  then show "tk_len (mk_token m s max_len) \<le> max_len" "type_of m (mk_token m s max_len) = scan_type m s max_len"
    "valid (mk_token m s max_len) \<longleftrightarrow> scan_type m s max_len \<noteq> END" by blast+
qed

text \<open>
  An unterminated quotation is scanned past the end of the string if a quotation mark follows the
  terminating character.
\<close>

lemma quote_past_end:
  "m s = CHR 0x22 \<Longrightarrow> m (s + 1) = NUL \<Longrightarrow> m (s + 2) = CHR 0x22 \<Longrightarrow> 3 \<le> max_len \<Longrightarrow> tk_len (mk_token m (Some s) max_len) = 3"
proof -
  assume m: "m s = CHR 0x22" "m (s + 1) = NUL" "m (s + 2) = CHR 0x22" "3 \<le> max_len"
  have "quote_loop m s max_len 0 = Some 1"
    by (rule quote_loop_intro) (use m in \<open>auto simp: end_of_quote_def less_Suc_eq numeral_2_eq_2\<close>)
  then have "quoted_string_len m s max_len = 3" using m(4) by (simp add: quoted_string_len_def)
  moreover from this m have "scan_type m (Some s) max_len = STRING"
    by (auto simp: scan_type_def identifier_char_def is_letter_def is_digit_def digit_def is_whitespace_def)
  ultimately show ?thesis by (simp add: mk_token_def calc_len_def)
qed

text \<open>
  \<^bold>\<open>C38.\<close> Every token is well-formed: it does not exceed the characters that it may have, the type that
  its length yields is the type by which it was scanned, and it is valid exactly if it is no end token.
\<close>

theorem token_well_formed:
  "tk_len (mk_token m s max_len) \<le> max_len \<and> type_of m (mk_token m s max_len) = scan_type m s max_len \<and>
   (valid (mk_token m s max_len) \<longleftrightarrow> scan_type m s max_len \<noteq> END)"
  by (simp add: mk_token_facts)

end
