(* ===== verification/Arg_String.thy ===== *)
theory Arg_String
  imports Token
begin

text \<open>
  Session arguments: \<^verbatim>\<open>base/include/util/arg_string.h\<close>. An argument string has arguments of the form
  \<^verbatim>\<open>key=value\<close>, separated by commas. The buffer, keys and values are strings in memory; an operation
  yields \<open>None\<close> if a string has no end. String literals of the program are given as lists of characters.
\<close>

section \<open>Scanning loops\<close>

definition tok_measure :: "token \<Rightarrow> nat" where
  "tok_measure t = (if valid t then Suc (tk_max_len t) else 0)"

lemma next_measure: "valid t \<Longrightarrow> tok_measure (token_next m t) < tok_measure t"
  using mk_token_facts(1) [of m "map_option (\<lambda>s. s + tk_len t) (tk_start t)" "tk_max_len t - tk_len t"]
  by (auto simp: tok_measure_def token_next_def valid_def mk_token_def)

lemma whitespace_valid: "type_of m t = WHITESPACE \<Longrightarrow> valid t"
  by (auto simp: type_of_def scan_type_def valid_def split: option.splits if_splits)

lemma advance_measure: "valid t \<Longrightarrow> tok_measure (eat_whitespace m (token_next m t)) < tok_measure t"
  using next_measure [of t m] next_measure [of "token_next m t" m] whitespace_valid [of m "token_next m t"]
  by (auto simp: eat_whitespace_def)

text \<open>The loop of the constructor of \<^verbatim>\<open>Arg\<close>, which looks for the value.\<close>

function value_loop :: "cmem \<Rightarrow> token \<Rightarrow> token" where
  "value_loop m t =
     (if valid t \<and> char_at m t 0 \<noteq> CHR '',''
      then if char_at m t 0 = CHR ''='' then eat_whitespace m (token_next m t)
           else value_loop m (eat_whitespace m (token_next m t))
      else no_token m)"
  by auto

termination value_loop
  by (relation "measure (\<lambda>(m, t). tok_measure t)") (auto simp: advance_measure)

function next_key :: "cmem \<Rightarrow> token \<Rightarrow> token" where
  "next_key m t =
     (if valid t
      then if char_at m t 0 = CHR '','' then eat_whitespace m (token_next m t)
           else next_key m (eat_whitespace m (token_next m t))
      else no_token m)"
  by auto

termination next_key
  by (relation "measure (\<lambda>(m, t). tok_measure t)") (auto simp: advance_measure)

declare value_loop.simps [simp del] next_key.simps [simp del]

lemma no_token_invalid [simp]: "\<not> valid (no_token m)"
  by (simp add: no_token_def mk_token_def valid_def)

lemma next_key_measure: "valid t \<Longrightarrow> tok_measure (next_key m t) < tok_measure t"
proof (induction m t rule: next_key.induct)
  case (1 m t)
  let ?t = "eat_whitespace m (token_next m t)"
  show ?case
  proof (cases "char_at m t 0 = CHR '',''")
    case True
    with "1.prems" advance_measure show ?thesis by (subst next_key.simps) simp
  next
    case False
    have "tok_measure (next_key m ?t) \<le> tok_measure ?t"
    proof (cases "valid ?t")
      case True
      with "1.IH" [OF "1.prems" False] show ?thesis by simp
    next
      case False
      then show ?thesis by (subst next_key.simps) (simp add: tok_measure_def)
    qed
    with False "1.prems" advance_measure [OF "1.prems"] show ?thesis by (subst next_key.simps) (simp add: le_less_trans)
  qed
qed

function find_key_loop :: "cmem \<Rightarrow> nat \<Rightarrow> token \<Rightarrow> token" where
  "find_key_loop m key t =
     (if valid t
      then if type_of m t = IDENT \<and> strcmp m key (the (tk_start t)) (tk_len t) = 0 then t
           else find_key_loop m key (next_key m t)
      else no_token m)"
  by auto

termination find_key_loop
  by (relation "measure (\<lambda>(m, key, t). tok_measure t)") (auto simp: next_key_measure)

declare find_key_loop.simps [simp del]

definition find_key :: "cmem \<Rightarrow> nat \<Rightarrow> nat \<Rightarrow> token" where
  "find_key m args key = find_key_loop m key (mk_token m (Some args) no_limit)"

section \<open>Arguments\<close>

record arg =
  arg_key :: token
  arg_value :: token

definition mk_arg :: "cmem \<Rightarrow> token \<Rightarrow> arg" where
  "mk_arg m t = \<lparr>arg_key = t, arg_value = value_loop m t\<rparr>"

definition find_arg :: "cmem \<Rightarrow> nat option \<Rightarrow> nat option \<Rightarrow> arg" where
  "find_arg m args key =
     (case (args, key) of
        (Some a, Some k) \<Rightarrow> mk_arg m (find_key m a k)
      | _ \<Rightarrow> mk_arg m (no_token m))"

definition first_arg :: "cmem \<Rightarrow> nat option \<Rightarrow> arg" where
  "first_arg m args = mk_arg m (mk_token m args no_limit)"

text \<open>The result of \<^verbatim>\<open>read_ulong\<close>: whether it succeeded, the assigned value if any, and the sign.\<close>

definition read_ulong :: "cmem \<Rightarrow> arg \<Rightarrow> (bool \<times> 64 word option \<times> int) option" where
  "read_ulong m a =
     (let t0 = arg_value a;
          (t, sign) = (if char_at m t0 0 = CHR ''+'' then (token_next m t0, 1)
                       else if char_at m t0 0 = CHR ''-'' then (token_next m t0, - 1)
                       else (t0, 1))
      in if type_of m t \<noteq> NUMBER then Some (False, None, sign)
         else do {
           start \<leftarrow> tk_start t;
           (n, value) \<leftarrow> ascii_to_bytes m start;
           (if n = 0 then Some (False, None, sign)
            else
              let t1 = eat_whitespace m (mk_token m (Some (start + n)) no_limit)
              in Some (\<not> (valid t1 \<and> char_at m t1 0 \<noteq> CHR '',''), Some value, sign))
         })"

definition ulong_value :: "cmem \<Rightarrow> arg \<Rightarrow> 64 word \<Rightarrow> 64 word option" where
  "ulong_value m a default_value = do {
     (ok, out, sign) \<leftarrow> read_ulong m a;
     let value = (case out of None \<Rightarrow> 0 | Some v \<Rightarrow> v);
     Some (if sign < 0 then default_value else if ok then value else default_value)
   }"

definition long_value :: "cmem \<Rightarrow> arg \<Rightarrow> 64 word \<Rightarrow> 64 word option" where
  "long_value m a default_value = do {
     (ok, out, sign) \<leftarrow> read_ulong m a;
     let value = (case out of None \<Rightarrow> 0 | Some v \<Rightarrow> v);
     Some (if ok then word_of_int sign * value else default_value)
   }"

definition bool_value :: "cmem \<Rightarrow> arg \<Rightarrow> bool \<Rightarrow> bool option" where
  "bool_value m a default_value =
     (let v = arg_value a; s = the (tk_start v) in
      if type_of m v = IDENT
      then let (n, r) = ascii_to_bool m s
           in Some (if n = tk_len v then (case r of None \<Rightarrow> default_value | Some b \<Rightarrow> b) else default_value)
      else if type_of m v = STRING
      then let (n, r) = ascii_to_bool m (s + 1)
           in Some (if n = tk_len v - 2 then (case r of None \<Rightarrow> default_value | Some b \<Rightarrow> b) else default_value)
      else do {
        (ok, out, sign) \<leftarrow> read_ulong m a;
        Some (if ok then (case out of None \<Rightarrow> False | Some w \<Rightarrow> w \<noteq> 0) else default_value)
      })"

text \<open>\<^verbatim>\<open>key\<close>: the text of the key token as string.\<close>

definition token_string :: "nat \<Rightarrow> nat \<Rightarrow> token \<Rightarrow> cmem \<Rightarrow> cmem" where
  "token_string dst max_len t m =
     (case tk_start t of
        None \<Rightarrow> m
      | Some s \<Rightarrow> copy_cstring dst s (min (tk_len t + 1) max_len) m)"

text \<open>\<^verbatim>\<open>string\<close>: the value as string, or the default; \<^verbatim>\<open>dst_len - 1\<close> wraps for a length of zero.\<close>

definition arg_string :: "cpu_copy \<Rightarrow> nat \<Rightarrow> nat \<Rightarrow> nat \<Rightarrow> arg \<Rightarrow> cmem \<Rightarrow> cmem" where
  "arg_string cpu dst dst_len default_string a m =
     (let v = arg_value a; s = the (tk_start v);
          room = min (if dst_len = 0 then no_limit else dst_len - 1) (tk_len v)
      in if type_of m v = IDENT then (memcpy cpu dst s room m)(dst + room := NUL)
         else if type_of m v \<noteq> STRING then copy_cstring dst default_string dst_len m
         else case unpack_string s dst room m of
                (n, m1) \<Rightarrow> if n = 0 then copy_cstring dst default_string dst_len m1 else m1)"

section \<open>Changing an argument string\<close>

definition cstring :: "cmem \<Rightarrow> nat \<Rightarrow> string option" where
  "cstring m p = map_option (\<lambda>n. map m [p..<p + n]) (strlen m (Some p))"

text \<open>What \<^verbatim>\<open>memcpy\<close> of a string with its end does.\<close>

definition write_string :: "nat \<Rightarrow> string \<Rightarrow> cmem \<Rightarrow> cmem" where
  "write_string d cs m = (\<lambda>x. if d \<le> x \<and> x < d + length cs then cs ! (x - d) else m x)"

text \<open>\<^verbatim>\<open>_append\<close>, for a literal and for a string in memory.\<close>

definition append_lit :: "nat \<times> cmem \<Rightarrow> string \<Rightarrow> (nat \<times> cmem) option" where
  "append_lit = (\<lambda>(dst, m) src. do {
     n \<leftarrow> strlen m (Some dst);
     Some (dst + n + length src, write_string (dst + n) (src @ [NUL]) m)
   })"

definition append_str :: "nat \<times> cmem \<Rightarrow> nat \<Rightarrow> (nat \<times> cmem) option" where
  "append_str = (\<lambda>(dst, m) src. do { cs \<leftarrow> cstring m src; append_lit (dst, m) cs })"

function trim_loop :: "cmem \<Rightarrow> nat \<Rightarrow> nat \<Rightarrow> nat" where
  "trim_loop m args s = (if s > args \<and> m s = CHR '' '' then trim_loop m args (s - 1) else s)"
  by auto

termination trim_loop
  by (relation "measure (\<lambda>(m, args, s). s)") auto

declare trim_loop.simps [simp del]

definition remove_arg :: "nat option \<Rightarrow> nat option \<Rightarrow> cmem \<Rightarrow> (bool \<times> cmem) option" where
  "remove_arg args key m =
     (case (args, key) of
        (Some a, Some k) \<Rightarrow>
          let beg = find_key m a k;
              nxt = next_key m beg
          in if \<not> valid beg then Some (True, m)
             else do {
               b \<leftarrow> tk_start beg;
               (if \<not> valid nxt then Some (True, m(trim_loop m a (max (b - 1) a) := NUL))
                else do {
                  n \<leftarrow> tk_start nxt;
                  cs \<leftarrow> cstring m n;
                  Some (True, write_string b (cs @ [NUL]) m)
                })
             }
      | _ \<Rightarrow> Some (False, m))"

definition add_arg :: "nat option \<Rightarrow> nat \<Rightarrow> nat option \<Rightarrow> nat option \<Rightarrow> token_type \<Rightarrow> cmem \<Rightarrow> (bool \<times> cmem) option" where
  "add_arg args args_len key value ty m =
     (case (args, key, value) of
        (Some a, Some k, Some v) \<Rightarrow> do {
          old_len \<leftarrow> strlen m (Some a);
          key_len \<leftarrow> strlen m (Some k);
          value_len \<leftarrow> strlen m (Some v);
          (if ty = STRING \<and> old_len + key_len + value_len + 4 > args_len \<or> old_len + key_len + value_len + 2 > args_len
           then Some (False, m)
           else do {
             p1 \<leftarrow> (if old_len \<noteq> 0 then append_lit (a + old_len, m) '', '' else Some (a + old_len, m));
             p2 \<leftarrow> append_str p1 k;
             p3 \<leftarrow> append_lit p2 (if ty = STRING then ''='' @ [CHR 0x22] else ''='');
             p4 \<leftarrow> append_str p3 v;
             p5 \<leftarrow> (if ty = STRING then append_lit p4 [CHR 0x22] else Some p4);
             Some (True, snd p5)
           })
        }
      | _ \<Rightarrow> Some (False, m))"

definition set_arg :: "nat option \<Rightarrow> nat \<Rightarrow> nat option \<Rightarrow> nat option \<Rightarrow> token_type \<Rightarrow> cmem \<Rightarrow> (bool \<times> cmem) option" where
  "set_arg args args_len key value ty m = do {
     (ok, m1) \<leftarrow> remove_arg args key m;
     (if ok then add_arg args args_len key value ty m1 else Some (False, m1))
   }"

section \<open>Strings in memory\<close>

definition holds :: "cmem \<Rightarrow> nat \<Rightarrow> string \<Rightarrow> bool" where
  "holds m p xs \<longleftrightarrow> (\<forall>i < length xs. m (p + i) = xs ! i)"

lemma holds_simps [simp]: "holds m p []" "holds m p (x # xs) \<longleftrightarrow> m p = x \<and> holds m (p + 1) xs"
  by (auto simp: holds_def less_Suc_eq_0_disj)

lemma holds_append [simp]: "holds m p (xs @ ys) \<longleftrightarrow> holds m p xs \<and> holds m (p + length xs) ys"
  by (induction xs arbitrary: p) (auto simp: add.assoc)

lemma holds_map: "holds m p xs \<Longrightarrow> map m [p..<p + length xs] = xs"
  by (rule nth_equalityI) (auto simp: holds_def)

lemma strlen_loop_holds: "holds m s (xs @ [NUL]) \<Longrightarrow> NUL \<notin> set xs \<Longrightarrow> strlen_loop m s r = Some (r + length xs)"
  by (induction xs arbitrary: s r) (auto simp: strlen_loop.simps)

lemma strlen_holds: "holds m s (xs @ [NUL]) \<Longrightarrow> NUL \<notin> set xs \<Longrightarrow> strlen m (Some s) = Some (length xs)"
  using strlen_loop_holds [of m s xs 0] by (simp add: strlen_def)

lemma cstring_holds: "holds m s (xs @ [NUL]) \<Longrightarrow> NUL \<notin> set xs \<Longrightarrow> cstring m s = Some xs"
  using strlen_holds [of m s xs] holds_map [of m s xs] by (simp add: cstring_def)

lemma strcmp_prefix:
  "holds m key (ks @ [NUL]) \<Longrightarrow> NUL \<notin> set ks \<Longrightarrow> holds m s k \<Longrightarrow> NUL \<notin> set k \<Longrightarrow>
   strcmp m key s (length k) = 0 \<longleftrightarrow> take (length k) ks = k"
proof (induction k arbitrary: ks key s)
  case Nil
  then show ?case by (simp add: strcmp.simps)
next
  case (Cons c k)
  show ?case
  proof (cases "ks = []")
    case True
    then have "strcmp m key s (length (c # k)) = of_char NUL - of_char c" using Cons.prems by (subst strcmp.simps) simp
    moreover have "of_char NUL - of_char c \<noteq> (0 :: int)" using Cons.prems(4) by (simp only: right_minus_eq of_char_eq_iff) auto
    ultimately show ?thesis using True by simp
  next
    case False
    then obtain d ks' where ks: "ks = d # ks'" by (cases ks) auto
    have dn: "d \<noteq> NUL" "m key = d" "m s = c" using Cons.prems ks by auto
    show ?thesis
    proof (cases "d = c")
      case True
      then have "strcmp m key s (length (c # k)) = strcmp m (key + 1) (s + 1) (length k)"
        using dn by (subst strcmp.simps) simp
      with Cons.IH [of "key + 1" ks' "s + 1"] Cons.prems ks True show ?thesis by simp
    next
      case False
      then have "strcmp m key s (length (c # k)) = of_char d - of_char c" using dn by (subst strcmp.simps) simp
      with False ks show ?thesis by simp
    qed
  qed
qed

section \<open>Tokens of an argument string\<close>

definition ident :: "string \<Rightarrow> bool" where
  "ident xs \<longleftrightarrow> xs \<noteq> [] \<and> (\<forall>i < length xs. identifier_char (xs ! i) i)"

lemma ident_Cons: "ident (c # cs) \<longleftrightarrow> identifier_char c 0 \<and> (\<forall>d \<in> set cs. identifier_char d 1)"
  by (simp add: ident_def All_less_Suc2 identifier_char_def all_set_conv_all_nth)

definition number :: "string \<Rightarrow> bool" where
  "number xs \<longleftrightarrow> xs \<noteq> [] \<and> (\<forall>c \<in> set xs. is_digit c)"

definition delim :: "char \<Rightarrow> bool" where
  "delim c \<longleftrightarrow> c = NUL \<or> c = CHR ''='' \<or> c = CHR '',''"

lemma char_facts:
  "delim c \<Longrightarrow> \<not> identifier_char c i \<and> \<not> is_digit c \<and> \<not> is_whitespace c"
  "\<not> identifier_char (CHR '' '') i" "\<not> is_digit (CHR '' '')" "is_whitespace (CHR '' '')"
  "is_digit c \<Longrightarrow> \<not> identifier_char c 0"
  "\<not> identifier_char NUL i" "\<not> is_digit NUL"
  by (auto simp: delim_def identifier_char_def is_letter_def is_digit_def digit_def is_whitespace_def Let_def split: if_splits)

lemma span_holds:
  assumes "holds m s (xs @ [c])" "\<forall>i < length xs. p (xs ! i) i" "\<not> p c (length xs)" "length xs < max_len" "i \<le> length xs"
  shows "span p m s max_len i = length xs"
  using assms(5)
proof (induction "length xs - i" arbitrary: i)
  case 0
  then have "i = length xs" by simp
  moreover have "m (s + length xs) = c" using assms(1) by simp
  ultimately show ?case using assms(3) by (subst span.simps) simp
next
  case (Suc n)
  then have i: "i < length xs" by simp
  then have "m (s + i) = xs ! i" using assms(1) by (simp add: holds_def nth_append)
  with Suc i assms(2,4) show ?case by (subst span.simps) simp
qed

lemma number_not_ident: "number xs \<Longrightarrow> \<not> ident xs"
  using char_facts(5) by (cases xs) (auto simp: number_def ident_def)

lemma word_token:
  assumes h: "holds m s (xs @ [c])" and x: "ident xs \<and> \<not> identifier_char c (length xs) \<or> number xs \<and> \<not> is_digit c" and l: "length xs < max_len"
  shows "mk_token m (Some s) max_len = \<lparr>tk_start = Some s, tk_max_len = max_len, tk_len = length xs\<rparr>"
    "scan_type m (Some s) max_len = (if ident xs then IDENT else NUMBER)"
proof -
  have ne: "xs \<noteq> []" "m s = xs ! 0" using x h by (auto simp: ident_def number_def holds_def nth_append)
  have idn: "identifier_char (xs ! 0) 0 \<longleftrightarrow> ident xs"
    using x ne char_facts(5) [of "xs ! 0"] by (auto simp: ident_def number_def)
  have dig: "\<not> ident xs \<Longrightarrow> is_digit (xs ! 0)" using x ne by (simp add: number_def)
  have "m s \<noteq> NUL" using idn dig char_facts(6,7) ne by metis
  then show t: "scan_type m (Some s) max_len = (if ident xs then IDENT else NUMBER)"
    using l ne idn dig by (auto simp: scan_type_def)
  have "ident xs \<Longrightarrow> span identifier_char m s max_len 0 = length xs"
    by (rule span_holds [OF h]) (use l x number_not_ident in \<open>auto simp: ident_def\<close>)
  moreover have "\<not> ident xs \<Longrightarrow> span (\<lambda>c i. is_digit c) m s max_len 0 = length xs"
    by (rule span_holds [OF h]) (use l x in \<open>auto simp: number_def\<close>)
  ultimately show "mk_token m (Some s) max_len = \<lparr>tk_start = Some s, tk_max_len = max_len, tk_len = length xs\<rparr>"
    by (simp add: mk_token_def calc_len_def t)
qed

text \<open>A quotation: a quotation mark within it is behind a backslash.\<close>

definition quoted :: "string \<Rightarrow> bool" where
  "quoted xs \<longleftrightarrow> 2 \<le> length xs \<and> xs ! 0 = CHR 0x22 \<and> NUL \<notin> set xs \<and>
     (\<forall>i. i + 1 < length xs \<longrightarrow> ((xs ! i \<noteq> CHR 0x5C \<and> xs ! (i + 1) = CHR 0x22) \<longleftrightarrow> i + 2 = length xs))"

lemma quote_char: "\<not> identifier_char (CHR 0x22) i" "\<not> is_digit (CHR 0x22)" "\<not> is_whitespace (CHR 0x22)" "\<not> delim (CHR 0x22)"
  by (simp_all add: delim_def identifier_char_def is_letter_def is_digit_def digit_def is_whitespace_def Let_def)

lemma quoted_token:
  assumes h: "holds m s xs" and q: "quoted xs" and l: "length xs < max_len"
  shows "mk_token m (Some s) max_len = \<lparr>tk_start = Some s, tk_max_len = max_len, tk_len = length xs\<rparr>"
    "scan_type m (Some s) max_len = STRING"
proof -
  have x: "m (s + i) = xs ! i" if "i < length xs" for i using h that by (simp add: holds_def)
  have n: "2 \<le> length xs" "xs ! 0 = CHR 0x22" "xs \<noteq> []" using q by (auto simp: quoted_def)
  have e: "end_of_quote m (s + i) \<longleftrightarrow> i + 2 = length xs" if "i + 1 < length xs" for i
    using q that x [of i] x [of "i + 1"] unfolding end_of_quote_def quoted_def by (simp add: add.assoc)
  have "quote_loop m s max_len 0 = Some (length xs - 2)"
  proof (rule quote_loop_intro)
    show "\<forall>k. 0 \<le> k \<and> k < length xs - 2 \<longrightarrow> m (s + k) \<noteq> NUL \<and> \<not> end_of_quote m (s + k)"
    proof (intro allI impI)
      fix k
      assume "0 \<le> k \<and> k < length xs - 2"
      then have k: "k < length xs" "k + 1 < length xs" "k + 2 \<noteq> length xs" by auto
      then show "m (s + k) \<noteq> NUL \<and> \<not> end_of_quote m (s + k)" using q x [OF k(1)] e [OF k(2)] by (metis nth_mem quoted_def)
    qed
  qed (use n l e [of "length xs - 2"] in auto)
  then have len: "quoted_string_len m s max_len = length xs" using n l by (auto simp: quoted_string_len_def)
  have "m s = CHR 0x22" using x [of 0] n by (cases xs) simp_all
  then show t: "scan_type m (Some s) max_len = STRING" using len n l quote_char by (auto simp: scan_type_def)
  then show "mk_token m (Some s) max_len = \<lparr>tk_start = Some s, tk_max_len = max_len, tk_len = length xs\<rparr>"
    by (simp add: mk_token_def calc_len_def len)
qed

lemma delim_token:
  assumes "m s = c" "delim c" "c \<noteq> NUL" "0 < max_len"
  shows "mk_token m (Some s) max_len = \<lparr>tk_start = Some s, tk_max_len = max_len, tk_len = 1\<rparr>"
    "scan_type m (Some s) max_len = SINGLECHAR"
proof -
  show "scan_type m (Some s) max_len = SINGLECHAR"
    using assms char_facts(1) [of c] by (auto simp: scan_type_def delim_def)
  then show "mk_token m (Some s) max_len = \<lparr>tk_start = Some s, tk_max_len = max_len, tk_len = 1\<rparr>"
    by (simp add: mk_token_def calc_len_def)
qed

lemma end_token: "m s = NUL \<Longrightarrow> \<not> valid (mk_token m (Some s) max_len)"
  by (simp add: mk_token_facts(3) scan_type_def)

lemma space_token:
  assumes "m s = CHR '' ''" "\<not> is_whitespace (m (s + 1))" "1 < max_len"
  shows "mk_token m (Some s) max_len = \<lparr>tk_start = Some s, tk_max_len = max_len, tk_len = 1\<rparr>"
    "scan_type m (Some s) max_len = WHITESPACE"
proof -
  show t: "scan_type m (Some s) max_len = WHITESPACE" using assms char_facts(2-4) by (auto simp: scan_type_def)
  have "span (\<lambda>c i. is_whitespace c) m s max_len 0 = length [CHR '' '']"
    by (rule span_holds) (use assms char_facts(4) in auto)
  with t show "mk_token m (Some s) max_len = \<lparr>tk_start = Some s, tk_max_len = max_len, tk_len = 1\<rparr>"
    by (simp add: mk_token_def calc_len_def)
qed

section \<open>Looking up arguments\<close>

fun render :: "(string \<times> string) list \<Rightarrow> string" where
  "render [] = []"
| "render [(k, v)] = k @ ''='' @ v"
| "render ((k, v) # kv # kvs) = k @ ''='' @ v @ '', '' @ render (kv # kvs)"

text \<open>
  A value is an identifier, a number, a number with a suffix, or a quotation. The token of a number with a
  suffix is the number alone.
\<close>

definition suffixed :: "string \<Rightarrow> bool" where
  "suffixed xs \<longleftrightarrow> number (takeWhile is_digit xs) \<and> ident (dropWhile is_digit xs)"

definition value_ok :: "string \<Rightarrow> bool" where
  "value_ok v \<longleftrightarrow> ident v \<or> number v \<or> suffixed v \<or> quoted v"

definition value_token :: "string \<Rightarrow> string" where
  "value_token v = (if suffixed v then takeWhile is_digit v else v)"

definition args_ok :: "(string \<times> string) list \<Rightarrow> bool" where
  "args_ok kvs \<longleftrightarrow> (\<forall>(k, v) \<in> set kvs. ident k \<and> value_ok v)"

definition text_of :: "cmem \<Rightarrow> token \<Rightarrow> string" where
  "text_of m t = (case tk_start t of None \<Rightarrow> [] | Some s \<Rightarrow> map m [s..<s + tk_len t])"

lemma word_facts: "ident xs \<or> number xs \<Longrightarrow> xs \<noteq> [] \<and> NUL \<notin> set xs \<and> \<not> delim (xs ! 0) \<and> \<not> is_whitespace (xs ! 0)"
proof -
  assume x: "ident xs \<or> number xs"
  then have ne: "xs \<noteq> []" by (auto simp: ident_def number_def)
  have "NUL \<notin> set xs" using x char_facts(6,7) by (auto simp: ident_def number_def in_set_conv_nth)
  moreover have c: "identifier_char (xs ! 0) 0 \<or> is_digit (xs ! 0)" using x ne by (auto simp: ident_def number_def)
  then have "\<not> delim (xs ! 0)" using char_facts(1) by blast
  moreover have "\<not> is_whitespace (xs ! 0)" using c char_facts(2,3)
    by (auto simp: identifier_char_def is_letter_def is_digit_def digit_def is_whitespace_def Let_def split: if_splits)
  ultimately show ?thesis using ne by blast
qed

lemma value_facts:
  assumes "value_ok v"
  shows "v \<noteq> [] \<and> NUL \<notin> set v \<and> \<not> delim (v ! 0) \<and> value_token v \<noteq> []"
proof -
  have "v \<noteq> [] \<and> NUL \<notin> set v \<and> \<not> delim (v ! 0) \<and> value_token v \<noteq> []" if s: "suffixed v"
  proof -
    let ?n = "takeWhile is_digit v" let ?s = "dropWhile is_digit v"
    note f = word_facts [of ?n] word_facts [of ?s]
    have v: "v = ?n @ ?s" by simp
    then have "NUL \<notin> set v" using f s unfolding suffixed_def by (metis UnE set_append)
    moreover have "v ! 0 = ?n ! 0" "?n \<noteq> []" using takeWhile_nth [of 0 is_digit v] f(1) s by (auto simp: suffixed_def)
    ultimately show ?thesis using f s by (auto simp: suffixed_def value_token_def)
  qed
  moreover have "v \<noteq> [] \<and> NUL \<notin> set v \<and> \<not> delim (v ! 0)" if "quoted v" using that quote_char(4) by (auto simp: quoted_def)
  ultimately show ?thesis using assms word_facts [of v] by (auto simp: value_ok_def value_token_def)
qed

lemma eat_other: "scan_type m s L \<noteq> WHITESPACE \<Longrightarrow> eat_whitespace m (mk_token m s L) = mk_token m s L"
  by (simp add: eat_whitespace_def mk_token_facts(2))

lemma next_of: "mk_token m (Some s) L = \<lparr>tk_start = Some s, tk_max_len = L, tk_len = n\<rparr> \<Longrightarrow>
    token_next m (mk_token m (Some s) L) = mk_token m (Some (s + n)) (L - n)"
  by (simp add: token_next_def)

text \<open>
  The token of a value, and the way over the whole value to the delimiter behind it.
\<close>

lemma value_tokens:
  assumes h: "holds m p (v @ [c])" and c: "delim c" and v: "value_ok v" and l: "length v < L"
  defines "t \<equiv> mk_token m (Some p) L"
  shows "t = \<lparr>tk_start = Some p, tk_max_len = L, tk_len = length (value_token v)\<rparr>" "type_of m t \<noteq> WHITESPACE" "valid t"
    "text_of m t = value_token v"
    "next_key m t = next_key m (eat_whitespace m (mk_token m (Some (p + length v)) (L - length v)))"
proof -
  note vf = value_facts [OF v]
  have v0: "v \<noteq> []" "m p = v ! 0" using vf h by (cases v; simp)+
  then have v1: "m p \<noteq> CHR '',''" using vf by (auto simp: delim_def)
  have tok: "t = \<lparr>tk_start = Some p, tk_max_len = L, tk_len = length (value_token v)\<rparr> \<and>
      (scan_type m (Some p) L = IDENT \<or> scan_type m (Some p) L = NUMBER \<or> scan_type m (Some p) L = STRING)"
  proof (cases "suffixed v")
    case True
    let ?n = "takeWhile is_digit v" and ?s = "dropWhile is_digit v"
    have s: "number ?n" "?s \<noteq> []" "identifier_char (?s ! 0) 0" using True by (auto simp: suffixed_def ident_def)
    then have s3: "\<not> is_digit (?s ! 0)" using char_facts(5) by blast
    have v2: "?n @ ?s = v" by (rule takeWhile_dropWhile_id)
    have hs: "holds m p (?n @ ?s)" using h unfolding v2 holds_append by (rule conjunct1)
    obtain x xs where x: "?s = x # xs" using s(2) by (cases ?s) auto
    have "holds m p (?n @ [?s ! 0])" using hs unfolding x by simp
    moreover have "length ?n < L" using l length_takeWhile_le [of is_digit v] by linarith
    ultimately show ?thesis using word_token [of m p ?n "?s ! 0" L] s(1) s3 number_not_ident True by (auto simp: t_def value_token_def)
  next
    case False
    show ?thesis
    proof (cases "quoted v")
      case True
      then show ?thesis using quoted_token [of m p v L] h l False by (simp add: t_def value_token_def)
    next
      case nq: False
      then have "ident v \<and> \<not> identifier_char c (length v) \<or> number v \<and> \<not> is_digit c"
        using v False char_facts(1) [OF c] by (auto simp: value_ok_def)
      then show ?thesis using word_token [OF h _ l] False by (auto simp: t_def value_token_def)
    qed
  qed
  then show t: "t = \<lparr>tk_start = Some p, tk_max_len = L, tk_len = length (value_token v)\<rparr>" by blast
  have ty: "type_of m t \<noteq> WHITESPACE" "type_of m t \<noteq> END" using tok unfolding t_def mk_token_facts(2) by auto
  then show "type_of m t \<noteq> WHITESPACE" "valid t" unfolding t_def mk_token_facts(2,3) by simp_all
  have "value_token v @ (if suffixed v then dropWhile is_digit v else []) = v" by (simp add: value_token_def)
  then have "holds m p ((value_token v @ (if suffixed v then dropWhile is_digit v else [])) @ [c])" using h by (rule ssubst)
  then have "holds m p (value_token v)" unfolding holds_append by blast
  then show "text_of m t = value_token v" using holds_map [of m p "value_token v"] by (simp add: t text_of_def)
  have c0: "char_at m t 0 \<noteq> CHR '',''" using v1 vf by (simp add: char_at_def t)
  have nx: "token_next m t = mk_token m (Some (p + length (value_token v))) (L - length (value_token v))"
    unfolding t_def by (rule next_of) (use t in \<open>simp add: t_def\<close>)
  have go: "next_key m t = next_key m (eat_whitespace m (token_next m t))"
    by (subst next_key.simps) (use c0 \<open>valid t\<close> in simp)
  show "next_key m t = next_key m (eat_whitespace m (mk_token m (Some (p + length v)) (L - length v)))"
  proof (cases "suffixed v")
    case False
    then show ?thesis using go nx by (simp add: value_token_def)
  next
    case True
    let ?n = "takeWhile is_digit v" and ?s = "dropWhile is_digit v" let ?p = "p + length ?n" let ?L = "L - length ?n"
    have n: "value_token v = ?n" "length v = length ?n + length ?s"
      using True length_append [of ?n ?s] by (simp_all only: value_token_def takeWhile_dropWhile_id if_True)
    have s: "ident ?s" "\<not> identifier_char c (length ?s)" using True char_facts(1) [OF c] by (auto simp: suffixed_def)
    have v2: "?n @ ?s = v" by (rule takeWhile_dropWhile_id)
    have "holds m p (?n @ ?s @ [c])" using h by (simp only: v2 append_assoc [symmetric])
    then have hs: "holds m ?p (?s @ [c])" unfolding holds_append by blast
    have "length ?s < ?L" using l n(2) by simp
    note w = word_token [OF hs _ this] s
    have sc: "scan_type m (Some ?p) ?L = IDENT" "mk_token m (Some ?p) ?L = \<lparr>tk_start = Some ?p, tk_max_len = ?L, tk_len = length ?s\<rparr>"
      using w by auto
    have "char_at m (mk_token m (Some ?p) ?L) 0 \<noteq> CHR '',''" using hs word_facts [of ?s] s(1)
      by (cases ?s) (auto simp: char_at_def sc(2) delim_def)
    then have "next_key m (mk_token m (Some ?p) ?L) = next_key m (eat_whitespace m (token_next m (mk_token m (Some ?p) ?L)))"
      by (subst next_key.simps) (simp add: mk_token_facts(3) sc(1))
    also have "token_next m (mk_token m (Some ?p) ?L) = mk_token m (Some (p + length v)) (L - length v)"
      using next_of [OF sc(2)] n(2) by (simp add: add.assoc)
    finally show ?thesis using go nx n(1) sc(1) by (simp add: eat_other)
  qed
qed

text \<open>The tokens of the first argument: its key, its value, and the key of the next argument.\<close>

lemma argument_tokens:
  assumes h: "holds m p (k @ CHR ''='' # v @ rest)" and k: "ident k" and v: "value_ok v"
    and L: "length k + length v + length rest < L" and rest: "rest = NUL # zs \<or> rest = CHR '','' # CHR '' '' # x # zs \<and> \<not> is_whitespace x"
  defines "t \<equiv> mk_token m (Some p) L"
  shows "valid t" "type_of m t = IDENT" "tk_start t = Some p" "tk_len t = length k" "text_of m t = k" "text_of m (value_loop m t) = value_token v"
    "next_key m t = (if rest = NUL # zs then no_token m else mk_token m (Some (p + length k + length v + 3)) (L - (length k + length v + 3)))"
proof -
  note kf = word_facts [of k] and vf = value_facts [OF v]
  have d: "delim NUL" "delim (CHR ''='')" "delim (CHR '','')" by (simp_all add: delim_def)
  have lr: "0 < length rest" using rest by auto
  have tk: "t = \<lparr>tk_start = Some p, tk_max_len = L, tk_len = length k\<rparr>" "scan_type m (Some p) L = IDENT"
    using word_token [of m p k "CHR ''=''" L] h k L lr char_facts(1) [OF d(2)] unfolding t_def by auto
  show "type_of m t = IDENT" "valid t" unfolding t_def mk_token_facts(2,3) using tk(2) by simp_all
  show "tk_start t = Some p" "tk_len t = length k" "text_of m t = k"
    using h holds_map [of m p k] by (simp_all add: tk(1) text_of_def)
  let ?e = "mk_token m (Some (p + length k)) (L - length k)"
  have e: "?e = \<lparr>tk_start = Some (p + length k), tk_max_len = L - length k, tk_len = 1\<rparr>"
    "scan_type m (Some (p + length k)) (L - length k) = SINGLECHAR"
    using delim_token [of m "p + length k" "CHR ''=''" "L - length k"] h d(2) L lr by auto
  have ae: "eat_whitespace m (token_next m t) = ?e" using next_of tk(1) e(2) by (simp add: t_def eat_other)
  let ?p = "p + length k + 1" let ?L = "L - length k - 1"
  let ?v = "mk_token m (Some ?p) ?L"
  obtain c where c: "delim c" "hd rest = c" "rest = c # tl rest" using rest d by (metis list.sel(1,3))
  have hv: "holds m ?p (v @ [c])" using h c(3) by (metis holds_append holds_simps add.assoc)
  have lv: "length v < ?L" using L lr by linarith
  note V = value_tokens [OF hv c(1) v lv]
  have av: "eat_whitespace m (token_next m ?e) = ?v" using next_of [OF e(1)] V(2) by (simp add: eat_whitespace_def)
  have c0: "char_at m t 0 = k ! 0" "char_at m ?e 0 = CHR ''=''" "char_at m ?v 0 = v ! 0"
    using tk(1) e(1) V(1) h hv kf vf k by (auto simp: char_at_def holds_def nth_append)
  have ve: "valid ?e" "valid ?v" "valid t" using V(3) unfolding t_def mk_token_facts(3) using e(2) tk(2) by simp_all
  have nd: "k ! 0 \<noteq> CHR '',''" "k ! 0 \<noteq> CHR ''=''" "v ! 0 \<noteq> CHR '',''" using kf k vf v by (auto simp: delim_def)
  have "value_loop m t = ?v"
    using ve c0 nd ae av by (simp add: value_loop.simps [of m t] value_loop.simps [of m ?e])
  then show "text_of m (value_loop m t) = value_token v" using V(4) by simp
  define q where "q = ?p + length v"
  define M where "M = ?L - length v"
  have nk: "next_key m t = next_key m (eat_whitespace m (mk_token m (Some q) M))"
  proof -
    have "next_key m t = next_key m ?e" by (subst next_key.simps) (use ve c0 nd ae in simp)
    also have "\<dots> = next_key m ?v" by (subst next_key.simps) (use ve c0 av in simp)
    also have "\<dots> = next_key m (eat_whitespace m (mk_token m (Some q) M))" unfolding q_def M_def by (rule V(5))
    finally show ?thesis .
  qed
  have mq: "m q = c" using hv by (simp add: q_def)
  show "next_key m t = (if rest = NUL # zs then no_token m else mk_token m (Some (p + length k + length v + 3)) (L - (length k + length v + 3)))"
  proof (cases "rest = NUL # zs")
    case True
    then have "c = NUL" using c(2) by simp
    with mq have "scan_type m (Some q) M = END" by (simp add: scan_type_def)
    with nk have "next_key m t = no_token m" by (simp add: eat_other next_key.simps [of m "mk_token m (Some q) M"] mk_token_facts)
    with True show ?thesis by simp
  next
    case False
    then have r: "rest = CHR '','' # CHR '' '' # x # zs" "\<not> is_whitespace x" using rest by auto
    have hr: "holds m q rest" using h by (simp add: q_def)
    have mm: "m q = CHR '',''" "m (q + 1) = CHR '' ''" "m (q + 1 + 1) = x" using hr r(1) by auto
    have lM: "2 < M" using L r(1) by (simp add: M_def)
    have tq: "mk_token m (Some q) M = \<lparr>tk_start = Some q, tk_max_len = M, tk_len = 1\<rparr>" "scan_type m (Some q) M = SINGLECHAR"
      using delim_token [of m q "CHR '',''" M] mm(1) d(3) lM by auto
    have ts: "mk_token m (Some (q + 1)) (M - 1) = \<lparr>tk_start = Some (q + 1), tk_max_len = M - 1, tk_len = 1\<rparr>"
      "scan_type m (Some (q + 1)) (M - 1) = WHITESPACE"
      using space_token [of m "q + 1" "M - 1"] mm(2,3) r(2) lM by auto
    have "valid (mk_token m (Some q) M)" unfolding mk_token_facts(3) using tq(2) by simp
    moreover have "char_at m (mk_token m (Some q) M) 0 = CHR '',''" using tq(1) mm(1) by (simp add: char_at_def)
    ultimately have "next_key m t = eat_whitespace m (token_next m (mk_token m (Some q) M))"
      using nk tq(2) by (simp add: eat_other next_key.simps [of m "mk_token m (Some q) M"])
    also have "\<dots> = token_next m (mk_token m (Some (q + 1)) (M - 1))"
      unfolding next_of [OF tq(1)] using ts(2) by (simp add: eat_whitespace_def mk_token_facts)
    also have "\<dots> = mk_token m (Some (q + 1 + 1)) (M - 1 - 1)" by (rule next_of [OF ts(1)])
    also have "q + 1 + 1 = p + length k + length v + 3" by (simp add: q_def)
    also have "M - 1 - 1 = L - (length k + length v + 3)" by (simp add: M_def)
    finally show ?thesis using False by simp
  qed
qed

lemma render_Cons:
  "render ((k, v) # kvs) = k @ CHR ''='' # v @ (if kvs = [] then [] else CHR '','' # CHR '' '' # render kvs)"
  by (cases kvs) auto

lemma render_head: "args_ok kvs \<Longrightarrow> kvs \<noteq> [] \<Longrightarrow> \<exists>x zs. render kvs = x # zs \<and> \<not> is_whitespace x"
proof -
  assume a: "args_ok kvs" "kvs \<noteq> []"
  then obtain k v r where "kvs = (k, v) # r" "ident k" by (cases kvs) (auto simp: args_ok_def)
  with word_facts [of k] show ?thesis by (cases k) (auto simp: render_Cons)
qed

text \<open>The key of an argument matches if it is a prefix of the key that is looked for.\<close>

definition key_matches :: "string \<Rightarrow> string \<times> string \<Rightarrow> bool" where
  "key_matches ks kv \<longleftrightarrow> take (length (fst kv)) ks = fst kv"

lemma find_key_loop_reference:
  assumes "holds m p (render kvs @ [NUL])" "args_ok kvs" "kvs \<noteq> []" "length (render kvs) + 1 < L"
    and key: "holds m key (ks @ [NUL])" "NUL \<notin> set ks"
  shows "case find (key_matches ks) kvs of
     None \<Rightarrow> \<not> valid (find_key_loop m key (mk_token m (Some p) L))
   | Some (k, v) \<Rightarrow> valid (find_key_loop m key (mk_token m (Some p) L)) \<and>
       text_of m (find_key_loop m key (mk_token m (Some p) L)) = k \<and>
       text_of m (value_loop m (find_key_loop m key (mk_token m (Some p) L))) = value_token v"
  using assms(1-4)
proof (induction kvs arbitrary: p L)
  case Nil
  then show ?case by simp
next
  case (Cons kv kvs)
  obtain k v where kv: "kv = (k, v)" by (cases kv)
  let ?t = "mk_token m (Some p) L"
  have ok: "ident k" "value_ok v" "args_ok kvs" using Cons.prems(2) kv by (auto simp: args_ok_def)
  obtain rest zs x where rest: "render kvs @ [NUL] = x # zs" "kvs \<noteq> [] \<longrightarrow> \<not> is_whitespace x"
      "rest = (if kvs = [] then [NUL] else CHR '','' # CHR '' '' # x # zs)"
    using render_head [OF ok(3)] by (cases "render kvs @ [NUL]") fastforce+
  have h: "holds m p (k @ CHR ''='' # v @ rest)"
    using Cons.prems(1) rest(1,3) unfolding kv render_Cons by (cases "kvs = []") (simp_all flip: holds_append add: add.assoc)
  have lr: "length k + length v + length rest < L"
  proof -
    have "length zs = length (render kvs)" using arg_cong [OF rest(1), of length] by simp
    then show ?thesis using Cons.prems(4) rest(3) unfolding kv render_Cons by (auto split: if_splits)
  qed
  note A = argument_tokens [OF h ok(1,2) lr, where zs = "if kvs = [] then [] else zs" and x = x]
  have rc: "rest = NUL # (if kvs = [] then [] else zs) \<or> rest = CHR '','' # CHR '' '' # x # (if kvs = [] then [] else zs) \<and> \<not> is_whitespace x"
    using rest by auto
  note T = A [OF rc]
  have cmp: "strcmp m key p (length k) = 0 \<longleftrightarrow> key_matches ks (k, v)"
    using strcmp_prefix [OF key, of p k] h word_facts [of k] ok(1) by (simp add: key_matches_def)
  show ?case
  proof (cases "key_matches ks (k, v)")
    case True
    then have "find_key_loop m key ?t = ?t" using T(1-4) cmp by (subst find_key_loop.simps) simp
    with True T kv show ?thesis by simp
  next
    case False
    then have st: "find_key_loop m key ?t = find_key_loop m key (next_key m ?t)" using T(1-4) cmp by (subst find_key_loop.simps) simp
    show ?thesis
    proof (cases "kvs = []")
      case True
      then have "find_key_loop m key ?t = no_token m" using st T(7) rest(3) by (simp add: find_key_loop.simps [of m key "no_token m"])
      with True False kv show ?thesis by simp
    next
      case ne: False
      let ?p = "p + length k + length v + 3" let ?L = "L - (length k + length v + 3)"
      have "next_key m ?t = mk_token m (Some ?p) ?L" using T(7) ne rest(3) by simp
      then have e: "find_key_loop m key ?t = find_key_loop m key (mk_token m (Some ?p) ?L)" using st by simp
      have hr: "holds m ?p (render kvs @ [NUL])" using h ne rest(1,3) by (simp add: eval_nat_numeral)
      have len: "length (render kvs) + 1 < ?L" using Cons.prems(4) ne unfolding kv render_Cons by simp
      have "find (key_matches ks) (kv # kvs) = find (key_matches ks) kvs" using False kv by simp
      then show ?thesis unfolding e by (simp only: Cons.IH [OF hr ok(3) ne len])
    qed
  qed
qed

text \<open>
  \<^bold>\<open>C39.\<close> Looking up an argument equals a reference on the list of arguments. For a terminated string of the form
  \<^verbatim>\<open>key=value, key=value\<close> whose keys are identifiers and whose values are identifiers, decimal numbers, decimal numbers
  with a suffix, or quotations, the result is the first argument whose key is a prefix of the key that is
  looked for, with exactly its key and its value, and no argument if there is none. The value token of a
  number with a suffix is the number without the suffix; that of a quotation includes the quotation marks.
\<close>

theorem find_arg_reference:
  assumes "holds m a (render kvs @ [NUL])" "args_ok kvs" "length (render kvs) + 1 < no_limit"
    and "holds m key (ks @ [NUL])" "NUL \<notin> set ks"
  shows "case find (\<lambda>(k, v). take (length k) ks = k) kvs of
     None \<Rightarrow> \<not> valid (arg_key (find_arg m (Some a) (Some key)))
   | Some (k, v) \<Rightarrow> text_of m (arg_key (find_arg m (Some a) (Some key))) = k \<and>
       text_of m (arg_value (find_arg m (Some a) (Some key))) = value_token v"
proof (cases "kvs = []")
  case True
  with assms(1) show ?thesis
    using end_token [of m a no_limit] by (simp add: find_arg_def mk_arg_def find_key_def find_key_loop.simps [of m key])
next
  case False
  have "(\<lambda>(k, v). take (length k) ks = k) = key_matches ks" by (auto simp: key_matches_def fun_eq_iff)
  with find_key_loop_reference [OF assms(1,2) False assms(3-5)] show ?thesis
    by (auto simp: find_arg_def mk_arg_def find_key_def split: option.splits)
qed

definition mem_of :: "string \<Rightarrow> cmem" where
  "mem_of xs = (\<lambda>i. if i < length xs then xs ! i else NUL)"

theorem find_arg_reference_witness:
  "\<exists>m a key. holds m a (render [(''ram'', ''1''), (''ram_quota'', ''7'')] @ [NUL]) \<and> holds m key (''ram_quota'' @ [NUL]) \<and>
     text_of m (arg_key (find_arg m (Some a) (Some key))) = ''ram'' \<and> text_of m (arg_value (find_arg m (Some a) (Some key))) = ''1''"
proof -
  let ?kvs = "[(''ram'', ''1''), (''ram_quota'', ''7'')]"
  let ?m = "mem_of (render ?kvs @ [NUL] @ ''ram_quota'' @ [NUL])"
  have h: "holds ?m 0 (render ?kvs @ [NUL])" "holds ?m 19 (''ram_quota'' @ [NUL])" by (simp_all add: mem_of_def)
  have "ident ''ram''" "ident ''ram_quota''" "number ''1''" "number ''7''"
    by (simp_all add: ident_Cons number_def identifier_char_def is_letter_def is_digit_def digit_def)
  then have "args_ok ?kvs" by (simp add: args_ok_def value_ok_def)
  moreover have "length (render ?kvs) + 1 < no_limit" "NUL \<notin> set ''ram_quota''" by (simp_all add: no_limit_def)
  ultimately show ?thesis using find_arg_reference [OF h(1) _ _ h(2)] h
    by (intro exI [of _ ?m] exI [of _ 0] exI [of _ 19]) (simp add: value_token_def suffixed_def ident_def is_digit_def digit_def)
qed

text \<open>An argument that is the empty string yields the default.\<close>

lemma empty_string_is_default:
  assumes "tk_start (arg_value a) = Some s" "type_of m (arg_value a) = STRING" "m s = CHR 0x22" "m (s + 1) = CHR 0x22"
    "2 \<le> tk_len (arg_value a)" "2 \<le> dst_len"
  shows "arg_string cpu dst dst_len d a m = copy_cstring dst d dst_len (m(dst := NUL))"
proof -
  have "unpack_loop (s + 1) dst 0 n m = (0, dst, m)" for n using assms(3,4) by (subst unpack_loop.simps) simp
  moreover have "min (dst_len - 1) (tk_len (arg_value a)) \<noteq> 0" using assms(5,6) by simp
  ultimately show ?thesis using assms by (auto simp: arg_string_def unpack_string_def Let_def)
qed

section \<open>Adding an argument\<close>

lemma holds_write:
  "holds (write_string d cs m) d cs" "q + length ys \<le> d \<or> d + length cs \<le> q \<Longrightarrow> holds (write_string d cs m) q ys = holds m q ys"
proof -
  show "holds (write_string d cs m) d cs" by (simp add: holds_def write_string_def)
  assume "q + length ys \<le> d \<or> d + length cs \<le> q"
  then have "write_string d cs m (q + i) = m (q + i)" if "i < length ys" for i using that by (auto simp: write_string_def)
  then show "holds (write_string d cs m) q ys = holds m q ys" by (simp add: holds_def)
qed

lemma append_lit_ok:
  assumes h: "holds m a (xs @ [NUL])"
  shows "\<exists>m'. append_lit (a + length xs, m) src = Some (a + length (xs @ src), m') \<and> holds m' a ((xs @ src) @ [NUL]) \<and>
    (\<forall>q ys. (q + length ys \<le> a + length xs \<or> a + length xs + length src + 1 \<le> q) \<longrightarrow> holds m q ys \<longrightarrow> holds m' q ys)"
proof -
  let ?d = "a + length xs" let ?m = "write_string ?d (src @ [NUL]) m"
  have "strlen m (Some ?d) = Some 0" using strlen_holds [of m ?d "[]"] h by simp
  then have "append_lit (?d, m) src = Some (a + length (xs @ src), ?m)" by (simp add: append_lit_def)
  moreover have "holds ?m a xs" using h by (subst holds_write(2)) simp_all
  then have "holds ?m a ((xs @ src) @ [NUL])" using holds_write(1) [of ?d "src @ [NUL]" m] by (simp del: holds_append add: append_assoc) (simp add: holds_append)
  ultimately show ?thesis using holds_write(2) [of _ _ ?d "src @ [NUL]" m] by auto
qed

lemma append_str_ok:
  assumes h: "holds m a (xs @ [NUL])" and p: "holds m p (ss @ [NUL])" "NUL \<notin> set ss"
  shows "\<exists>m'. append_str (a + length xs, m) p = Some (a + length (xs @ ss), m') \<and> holds m' a ((xs @ ss) @ [NUL]) \<and>
    (\<forall>q ys. (q + length ys \<le> a + length xs \<or> a + length xs + length ss + 1 \<le> q) \<longrightarrow> holds m q ys \<longrightarrow> holds m' q ys)"
  using append_lit_ok [OF h, of ss] cstring_holds [OF p] by (simp add: append_str_def)

text \<open>A string that lies outside of \<open>n\<close> bytes from \<open>a\<close> on.\<close>

definition apart :: "nat \<Rightarrow> nat \<Rightarrow> nat \<Rightarrow> string \<Rightarrow> bool" where
  "apart a n q ys \<longleftrightarrow> q + length ys \<le> a \<or> a + n \<le> q"

text \<open>
  \<^bold>\<open>C40.\<close> Adding an argument to an argument string that is not empty may write past the end of the buffer:
  the check of the capacity leaves out the separator, so that the call succeeds for a buffer that lacks
  one or two bytes, and the end of the extended string lies outside of the buffer.
\<close>

theorem add_arg_overflow:
  assumes old: "holds m a (old @ [NUL])" "NUL \<notin> set old" "old \<noteq> []"
    and k: "holds m key (ks @ [NUL])" "NUL \<notin> set ks" and v: "holds m val (vs @ [NUL])" "NUL \<notin> set vs"
    and len: "length (old @ ks @ vs) + 2 \<le> args_len" "args_len < length (old @ ks @ vs) + 4"
    and ap: "apart a (length (old @ ks @ vs) + 4) key (ks @ [NUL])" "apart a (length (old @ ks @ vs) + 4) val (vs @ [NUL])"
  shows "\<exists>m'. add_arg (Some a) args_len (Some key) (Some val) IDENT m = Some (True, m') \<and>
    holds m' a ((old @ '', '' @ ks @ ''='' @ vs) @ [NUL]) \<and> args_len \<le> length (old @ '', '' @ ks @ ''='' @ vs)"
proof -
  obtain m1 where m1: "append_lit (a + length old, m) '', '' = Some (a + length (old @ '', ''), m1)" "holds m1 a ((old @ '', '') @ [NUL])"
      "\<forall>q ys. (q + length ys \<le> a + length old \<or> a + length old + length '', '' + 1 \<le> q) \<longrightarrow> holds m q ys \<longrightarrow> holds m1 q ys"
    using append_lit_ok [OF old(1), of "'', ''"] by blast
  have k1: "holds m1 key (ks @ [NUL])" and v1: "holds m1 val (vs @ [NUL])" using m1(3) k(1) v(1) ap by (auto simp: apart_def simp del: holds_append)
  obtain m2 where m2: "append_str (a + length (old @ '', ''), m1) key = Some (a + length ((old @ '', '') @ ks), m2)" "holds m2 a (((old @ '', '') @ ks) @ [NUL])"
      "\<forall>q ys. (q + length ys \<le> a + length (old @ '', '') \<or> a + length (old @ '', '') + length ks + 1 \<le> q) \<longrightarrow> holds m1 q ys \<longrightarrow> holds m2 q ys"
    using append_str_ok [OF m1(2) k1 k(2)] by blast
  have v2: "holds m2 val (vs @ [NUL])" using m2(3) v1 ap by (auto simp: apart_def simp del: holds_append)
  obtain m3 where m3: "append_lit (a + length ((old @ '', '') @ ks), m2) ''='' = Some (a + length (((old @ '', '') @ ks) @ ''=''), m3)"
      "holds m3 a ((((old @ '', '') @ ks) @ ''='') @ [NUL])"
      "\<forall>q ys. (q + length ys \<le> a + length ((old @ '', '') @ ks) \<or> a + length ((old @ '', '') @ ks) + length ''='' + 1 \<le> q) \<longrightarrow> holds m2 q ys \<longrightarrow> holds m3 q ys"
    using append_lit_ok [OF m2(2), of "''=''"] by blast
  have v3: "holds m3 val (vs @ [NUL])" using m3(3) v2 ap by (auto simp: apart_def simp del: holds_append)
  obtain m4 where m4: "append_str (a + length (((old @ '', '') @ ks) @ ''=''), m3) val = Some (a + length ((((old @ '', '') @ ks) @ ''='') @ vs), m4)"
      "holds m4 a (((((old @ '', '') @ ks) @ ''='') @ vs) @ [NUL])"
    using append_str_ok [OF m3(2) v3 v(2)] by blast
  have "add_arg (Some a) args_len (Some key) (Some val) IDENT m = Some (True, m4)"
    using strlen_holds [OF old(1,2)] strlen_holds [OF k] strlen_holds [OF v] len(1) old(3) m1(1) m2(1) m3(1) m4(1)
    by (simp add: add_arg_def)
  moreover have "args_len \<le> length (old @ '', '' @ ks @ ''='' @ vs)" using len(2) by simp
  ultimately show ?thesis using m4(2) by (auto simp only: append_assoc)
qed

theorem add_arg_overflow_witness:
  "\<exists>m m'. holds m 0 (''a=1'' @ [NUL] @ replicate 4 (CHR ''#'')) \<and> add_arg (Some 0) 7 (Some 20) (Some 30) IDENT m = Some (True, m') \<and>
     holds m' 0 (''a=1, b=2'' @ [NUL])"
proof -
  let ?m = "mem_of (''a=1'' @ [NUL] @ replicate 16 (CHR ''#'') @ ''b'' @ [NUL] @ replicate 8 (CHR ''#'') @ ''2'' @ [NUL])"
  have h: "holds ?m 0 (''a=1'' @ [NUL])" "holds ?m 20 (''b'' @ [NUL])" "holds ?m 30 (''2'' @ [NUL])"
    "holds ?m 0 (''a=1'' @ [NUL] @ replicate 4 (CHR ''#''))"
    by (simp_all add: mem_of_def eval_nat_numeral)
  have "\<exists>m'. add_arg (Some 0) 7 (Some 20) (Some 30) IDENT ?m = Some (True, m') \<and>
      holds m' 0 ((''a=1'' @ '', '' @ ''b'' @ ''='' @ ''2'') @ [NUL]) \<and> 7 \<le> length (''a=1'' @ '', '' @ ''b'' @ ''='' @ ''2'')"
    by (rule add_arg_overflow [OF h(1) _ _ h(2) _ h(3)]) (simp_all add: apart_def)
  with h(4) show ?thesis by auto
qed

end
