(* ===== verification/Avl_Tree.thy ===== *)
theory Avl_Tree
  imports Prelude "HOL-Library.Tree"
begin

text \<open>
  \<^verbatim>\<open>base/include/util/avl_tree.h\<close> and \<^verbatim>\<open>base/src/lib/base/avl_tree.cc\<close>: the intrusive AVL tree that
  orders the blocks of allocators, the capabilities of core and the regions of address spaces. The
  model keeps what the nodes store, the two child pointers, the parent pointer and the depth of 8
  bits, and every call in its order, down to the hook that the policy of a tree gets called when
  nodes are rearranged. The nodes are shown to represent a binary tree whose insertion and removal
  are ordinary functions on trees; order, content and balance are then facts on these functions.
\<close>

section \<open>Nodes and policies\<close>

record 'n avl_node =
  child :: "bool \<Rightarrow> 'n option"
  parent :: "'n option"
  depth :: u8

abbreviation (input) LEFT :: bool where "LEFT \<equiv> False"

abbreviation (input) RIGHT :: bool where "RIGHT \<equiv> True"

text \<open>The nodes, and the data of the objects that inherit from them.\<close>

record ('n, 'd) avl_state =
  nodes :: "'n \<Rightarrow> 'n avl_node"
  objects :: 'd

text \<open>
  A policy compares two nodes and may update the data of a node that got rearranged, for which it
  may follow the pointers.
\<close>

record ('n, 'd) policy =
  higher :: "'d \<Rightarrow> 'n \<Rightarrow> 'n \<Rightarrow> bool"
  recompute :: "('n \<Rightarrow> 'n avl_node) \<Rightarrow> 'n \<Rightarrow> 'd \<Rightarrow> 'd"

definition avl_node_init :: "'n avl_node" where
  "avl_node_init = \<lparr>child = (\<lambda>_. None), parent = None, depth = 1\<rparr>"

section \<open>Operations\<close>

definition child_depth :: "('n \<Rightarrow> 'n avl_node) \<Rightarrow> 'n \<Rightarrow> bool \<Rightarrow> int" where
  "child_depth m a i = (case child (m a) i of None \<Rightarrow> 0 | Some c \<Rightarrow> uint (depth (m c)))"

definition bias :: "('n \<Rightarrow> 'n avl_node) \<Rightarrow> 'n \<Rightarrow> bool" where
  "bias m a \<longleftrightarrow> child_depth m a RIGHT > child_depth m a LEFT"

definition new_depth :: "('n \<Rightarrow> 'n avl_node) \<Rightarrow> 'n \<Rightarrow> u8" where
  "new_depth m a = word_of_int (max (child_depth m a LEFT) (child_depth m a RIGHT) + 1)"

definition set_depth :: "'n \<Rightarrow> u8 \<Rightarrow> ('n, 'd) avl_state \<Rightarrow> ('n, 'd) avl_state" where
  "set_depth a d s = s\<lparr>nodes := (nodes s)(a := (nodes s a)\<lparr>depth := d\<rparr>)\<rparr>"

partial_function (option) recompute_depth ::
    "('n, 'd) policy \<Rightarrow> 'n \<Rightarrow> ('n, 'd) avl_state \<Rightarrow> ('n, 'd) avl_state option" where
  "recompute_depth P a s =
     (let s1 = set_depth a (new_depth (nodes s) a) s in do {
       s2 \<leftarrow> (case parent (nodes s1 a) of
               Some p \<Rightarrow> if depth (nodes s1 a) \<noteq> depth (nodes s a) then recompute_depth P p s1 else Some s1
             | None \<Rightarrow> Some s1);
       Some (if parent (nodes s2 a) \<noteq> None then s2\<lparr>objects := recompute P (nodes s2) a (objects s2)\<rparr> else s2)
     })"

definition avl_link :: "'n \<Rightarrow> 'n option \<Rightarrow> bool \<Rightarrow> ('n, 'd) avl_state \<Rightarrow> ('n, 'd) avl_state" where
  "avl_link a c i s =
     (let s1 = s\<lparr>nodes := (nodes s)(a := (nodes s a)\<lparr>child := (child (nodes s a))(i := c)\<rparr>)\<rparr>
      in case c of
           None \<Rightarrow> s1
         | Some n \<Rightarrow> s1\<lparr>nodes := (nodes s1)(n := (nodes s1 n)\<lparr>parent := Some a\<rparr>)\<rparr>)"

definition avl_adopt ::
    "('n, 'd) policy \<Rightarrow> 'n \<Rightarrow> 'n option \<Rightarrow> bool \<Rightarrow> ('n, 'd) avl_state \<Rightarrow> ('n, 'd) avl_state option" where
  "avl_adopt P a c i s = recompute_depth P a (avl_link a c i s)"

text \<open>Where the source reports an error or finds nothing to rotate, the nodes stay as they are.\<close>

definition rotate_subtree ::
    "('n, 'd) policy \<Rightarrow> 'n \<Rightarrow> 'n \<Rightarrow> bool \<Rightarrow> ('n, 'd) avl_state \<Rightarrow> ('n, 'd) avl_state option" where
  "rotate_subtree P a n side s =
     (let i = (if child (nodes s a) LEFT = Some n then LEFT else RIGHT)
      in case child (nodes s n) (\<not> side) of
           None \<Rightarrow> Some s
         | Some r \<Rightarrow>
             let r_l = child (nodes s r) side
             in if bias (nodes s) r = (\<not> side)
                then do {
                  s1 \<leftarrow> avl_adopt P n r_l (\<not> side) s;
                  s2 \<leftarrow> avl_adopt P r (Some n) side s1;
                  avl_adopt P a (Some r) i s2
                }
                else (case r_l of
                        None \<Rightarrow> Some s
                      | Some m \<Rightarrow>
                          let m_l = child (nodes s m) side; m_r = child (nodes s m) (\<not> side)
                          in do {
                            s1 \<leftarrow> avl_adopt P n m_l (\<not> side) s;
                            s2 \<leftarrow> avl_adopt P r m_r side s1;
                            s3 \<leftarrow> avl_adopt P m (Some n) side s2;
                            s4 \<leftarrow> avl_adopt P m (Some r) (\<not> side) s3;
                            avl_adopt P a (Some m) i s4
                          }))"

definition rebalance_subtree ::
    "('n, 'd) policy \<Rightarrow> 'n \<Rightarrow> 'n \<Rightarrow> ('n, 'd) avl_state \<Rightarrow> ('n, 'd) avl_state option" where
  "rebalance_subtree P a n s =
     (let v = child_depth (nodes s) n RIGHT - child_depth (nodes s) n LEFT
      in if (if v \<ge> 0 then v else - v) < 2 then Some s else rotate_subtree P a n (v < 0) s)"

partial_function (option) avl_insert ::
    "('n, 'd) policy \<Rightarrow> 'n \<Rightarrow> 'n \<Rightarrow> ('n, 'd) avl_state \<Rightarrow> ('n, 'd) avl_state option" where
  "avl_insert P a n s =
     (if n = a then Some s
      else let i = (if parent (nodes s a) \<noteq> None then higher P (objects s) a n else LEFT)
           in do {
             s1 \<leftarrow> (case child (nodes s a) i of
                     Some c \<Rightarrow> avl_insert P c n s
                   | None \<Rightarrow> avl_adopt P a (Some n) i s);
             s2 \<leftarrow> recompute_depth P a s1;
             (case parent (nodes s2 a) of
                Some p \<Rightarrow> rebalance_subtree P p a s2
              | None \<Rightarrow> Some s2)
           })"

partial_function (option) rightmost :: "('n \<Rightarrow> 'n avl_node) \<Rightarrow> 'n \<Rightarrow> 'n option" where
  "rightmost m l = (case child (m l) RIGHT of None \<Rightarrow> Some l | Some r \<Rightarrow> rightmost m r)"

definition replace_child ::
    "('n, 'd) policy \<Rightarrow> 'n \<Rightarrow> 'n option \<Rightarrow> bool \<Rightarrow> ('n, 'd) avl_state \<Rightarrow> ('n, 'd) avl_state option" where
  "replace_child P a c i s = do {
     p \<leftarrow> parent (nodes s a);
     if child (nodes s p) i = Some a then avl_adopt P p c i s else Some s
   }"

partial_function (option) rebalance_up ::
    "('n, 'd) policy \<Rightarrow> 'n option \<Rightarrow> ('n, 'd) avl_state \<Rightarrow> ('n, 'd) avl_state option" where
  "rebalance_up P lp s = (case lp of
     None \<Rightarrow> Some s
   | Some l \<Rightarrow> (case parent (nodes s l) of
       None \<Rightarrow> Some s
     | Some lpp \<Rightarrow> do { s1 \<leftarrow> rebalance_subtree P lpp l s; rebalance_up P (Some lpp) s1 }))"

definition avl_remove ::
    "('n, 'd) policy \<Rightarrow> 'n \<Rightarrow> ('n, 'd) avl_state \<Rightarrow> ('n, 'd) avl_state option" where
  "avl_remove P a s = do {
     (lp, s1) \<leftarrow>
       (case child (nodes s a) LEFT of
          Some l0 \<Rightarrow> do {
            l \<leftarrow> rightmost (nodes s) l0;
            s1 \<leftarrow> (if l = l0 then avl_adopt P a (child (nodes s l) LEFT) LEFT s
                   else do { q \<leftarrow> parent (nodes s l); avl_adopt P q (child (nodes s l) LEFT) RIGHT s });
            let lp = (if parent (nodes s1 l) \<noteq> Some a then parent (nodes s1 l) else None);
            s2 \<leftarrow> replace_child P a (Some l) LEFT s1;
            s3 \<leftarrow> replace_child P a (Some l) RIGHT s2;
            s4 \<leftarrow> avl_adopt P l (child (nodes s3 a) LEFT) LEFT s3;
            s5 \<leftarrow> avl_adopt P l (child (nodes s4 a) RIGHT) RIGHT s4;
            Some (lp, s5)
          }
        | None \<Rightarrow> do {
            s2 \<leftarrow> replace_child P a (child (nodes s a) RIGHT) LEFT s;
            s3 \<leftarrow> replace_child P a (child (nodes s2 a) RIGHT) RIGHT s2;
            Some (None, s3)
          });
     s6 \<leftarrow> rebalance_up P lp s1;
     Some (s6\<lparr>nodes := (nodes s6)(a := (nodes s6 a)\<lparr>child := (\<lambda>_. None), parent := None\<rparr>)\<rparr>)
   }"

definition avl_first :: "'n \<Rightarrow> ('n, 'd) avl_state \<Rightarrow> 'n option" where
  "avl_first root s = child (nodes s root) LEFT"

partial_function (option) avl_for_each ::
    "('n \<Rightarrow> 'n avl_node) \<Rightarrow> ('n \<Rightarrow> 'e \<Rightarrow> 'e) \<Rightarrow> 'n option \<Rightarrow> 'e \<Rightarrow> 'e option" where
  "avl_for_each m f p e = (case p of
     None \<Rightarrow> Some e
   | Some a \<Rightarrow> do {
       e1 \<leftarrow> avl_for_each m f (child (m a) LEFT) e;
       avl_for_each m f (child (m a) RIGHT) (f a e1)
     })"

declare recompute_depth.simps [code] avl_insert.simps [code] rightmost.simps [code] rebalance_up.simps [code]
  avl_for_each.simps [code]

section \<open>The tree operations as functions\<close>

definition sub :: "bool \<Rightarrow> 'n tree \<Rightarrow> 'n tree" where
  "sub i t = (if i then right t else left t)"

text \<open>The tree with the subtree \<open>t\<close> at side \<open>i\<close> of \<open>b\<close> and \<open>u\<close> at the other side.\<close>

definition mk :: "bool \<Rightarrow> 'n tree \<Rightarrow> 'n \<Rightarrow> 'n tree \<Rightarrow> 'n tree" where
  "mk i t b u = (if i then Node u b t else Node t b u)"

definition rot :: "bool \<Rightarrow> 'n tree \<Rightarrow> 'n tree" where
  "rot side t = (case t of
     Leaf \<Rightarrow> Leaf
   | Node _ a _ \<Rightarrow> (case sub (\<not> side) t of
       Leaf \<Rightarrow> t
     | Node dl b dr \<Rightarrow>
         let x = sub side t; m = sub side (Node dl b dr); e = sub (\<not> side) (Node dl b dr)
         in if (height dl < height dr) = (\<not> side) then mk side (mk side x a m) b e
            else (case m of
                    Leaf \<Rightarrow> t
                  | Node _ c _ \<Rightarrow> mk side (mk side x a (sub side m)) c (mk side (sub (\<not> side) m) b e))))"

fun rebal :: "'n tree \<Rightarrow> 'n tree" where
  "rebal Leaf = Leaf"
| "rebal (Node l a r) =
     (if height l < height r + 2 \<and> height r < height l + 2 then Node l a r
      else rot (height r < height l) (Node l a r))"

fun ins :: "('n \<Rightarrow> 'n \<Rightarrow> bool) \<Rightarrow> 'n \<Rightarrow> 'n tree \<Rightarrow> 'n tree" where
  "ins hi n Leaf = Node Leaf n Leaf"
| "ins hi n (Node l a r) = rebal (if hi a n then Node l a (ins hi n r) else Node (ins hi n l) a r)"

fun split_max :: "'n tree \<Rightarrow> 'n tree \<times> 'n option" where
  "split_max Leaf = (Leaf, None)"
| "split_max (Node l a r) =
     (if r = Leaf then (l, Some a) else (case split_max r of (r', n) \<Rightarrow> (rebal (Node l a r'), n)))"

text \<open>
  The removal of the node \<open>a\<close>. The flag tells whether the subtrees on the way to the root get
  rebalanced.
\<close>

definition del_root :: "'n tree \<Rightarrow> 'n tree \<Rightarrow> 'n tree \<times> bool" where
  "del_root l r = (case l of
     Leaf \<Rightarrow> (r, False)
   | Node ll c lr \<Rightarrow>
       if lr = Leaf then (Node ll c r, False)
       else (case split_max l of
               (l', Some n) \<Rightarrow> (rebal (Node l' n r), True)
             | (l', None) \<Rightarrow> (r, False)))"

fun del :: "'n \<Rightarrow> 'n tree \<Rightarrow> 'n tree \<times> bool" where
  "del a Leaf = (Leaf, False)"
| "del a (Node l b r) =
     (if a = b then del_root l r
      else if a \<in> set_tree l
      then (case del a l of (l', f) \<Rightarrow> (if f then rebal (Node l' b r) else Node l' b r, f))
      else (case del a r of (r', f) \<Rightarrow> (if f then rebal (Node l b r') else Node l b r', f)))"

fun avl :: "'n tree \<Rightarrow> bool" where
  "avl Leaf \<longleftrightarrow> True"
| "avl (Node l a r) \<longleftrightarrow> avl l \<and> avl r \<and> height l \<le> height r + 1 \<and> height r \<le> height l + 1"

subsection \<open>Content\<close>

lemma mk_simps [simp]:
  "height (mk i t b u) = max (height t) (height u) + 1" "set_tree (mk i t b u) = {b} \<union> set_tree t \<union> set_tree u"
  "mk i t b u \<noteq> Leaf" "sub i (mk i t b u) = t" "sub (\<not> i) (mk i t b u) = u" "sub (\<not> i) Leaf = Leaf" "sub i Leaf = Leaf"
  by (auto simp: mk_def sub_def)

lemma inorder_rot [simp]: "inorder (rot side t) = inorder t"
  by (cases side) (auto simp: rot_def mk_def sub_def Let_def split: tree.splits)

lemma inorder_rebal [simp]: "inorder (rebal t) = inorder t"
  by (cases t) simp_all

lemma set_rebal [simp]: "set_tree (rebal t) = set_tree t"
  using inorder_rebal set_inorder by metis

lemma set_ins [simp]: "set_tree (ins hi n t) = insert n (set_tree t)"
  by (induction t) auto

text \<open>The insertion point: behind all nodes to which the new one is higher or equal.\<close>

definition ins_list :: "('n \<Rightarrow> 'n \<Rightarrow> bool) \<Rightarrow> 'n \<Rightarrow> 'n list \<Rightarrow> 'n list" where
  "ins_list hi n xs = takeWhile (\<lambda>x. hi x n) xs @ n # dropWhile (\<lambda>x. hi x n) xs"

lemma inorder_ins:
  assumes tr: "\<And>x y. hi x y \<Longrightarrow> hi y n \<Longrightarrow> hi x n" and t: "sorted_wrt hi (inorder t)"
  shows "inorder (ins hi n t) = ins_list hi n (inorder t)"
  using t
proof (induction t)
  case (Node l a r)
  have s: "sorted_wrt hi (inorder l)" "sorted_wrt hi (inorder r)" "\<forall>x \<in> set_tree l. hi x a" "\<forall>x \<in> set_tree r. hi a x"
    using Node.prems by (auto simp: sorted_wrt_append)
  show ?case
  proof (cases "hi a n")
    case True
    then have "\<forall>x \<in> set (inorder l @ [a]). hi x n" using s(3) tr by auto
    then show ?thesis using Node.IH(2) [OF s(2)] True
      by (auto simp: ins_list_def takeWhile_append2 dropWhile_append2 takeWhile_append dropWhile_append)
  next
    case False
    then have "takeWhile (\<lambda>x. hi x n) (inorder l @ a # inorder r) = takeWhile (\<lambda>x. hi x n) (inorder l)"
      "dropWhile (\<lambda>x. hi x n) (inorder l @ a # inorder r) = dropWhile (\<lambda>x. hi x n) (inorder l) @ a # inorder r"
      by (auto simp: takeWhile_append dropWhile_append takeWhile_eq_all_conv [THEN iffD2])
    with Node.IH(1) [OF s(1)] False show ?thesis by (auto simp: ins_list_def)
  qed
qed (simp add: ins_list_def)

lemma ins_list_sorted:
  assumes tr: "\<And>x y z. hi x y \<Longrightarrow> hi y z \<Longrightarrow> hi x z" and to: "\<And>x y. hi x y \<or> hi y x" and s: "sorted_wrt hi xs"
  shows "sorted_wrt hi (ins_list hi n xs)"
  using s
proof (induction xs)
  case (Cons x xs)
  have "set (ins_list hi n xs) = insert n (set xs)"
    unfolding ins_list_def by (metis insert_is_Un list.simps(15) set_append sup.left_commute takeWhile_dropWhile_id)
  moreover have "hi n y" if "\<not> hi x n" "y \<in> insert x (set xs)" for y
    using that Cons.prems tr [of n x y] to [of n x] by auto
  ultimately show ?case using Cons by (cases "hi x n") (auto simp: ins_list_def)
qed (simp add: ins_list_def)

lemma split_max_spec:
  "t \<noteq> Leaf \<Longrightarrow> \<exists>t' n. split_max t = (t', Some n) \<and> inorder t = inorder t' @ [n]"
proof (induction t)
  case (Node l a r)
  then show ?case by (cases "r = Leaf") (auto split: prod.splits)
qed simp

lemma inorder_del_root: "inorder (fst (del_root l r)) = inorder l @ inorder r"
  using split_max_spec [of l] by (auto simp: del_root_def split: tree.splits prod.splits option.splits)

lemma inorder_del:
  "distinct (inorder t) \<Longrightarrow> inorder (fst (del a t)) = removeAll a (inorder t)"
proof (induction t)
  case (Node l b r)
  have ab: "removeAll x (inorder u) = inorder u" if "x \<notin> set_tree u" for x u using that by simp
  show ?case
  proof (cases "a = b")
    case True
    with Node.prems show ?thesis by (auto simp: inorder_del_root ab)
  next
    case False
    have "a \<notin> set_tree r" if "a \<in> set_tree l" using that Node.prems by auto
    with Node False show ?thesis
      by (cases "a \<in> set_tree l") (auto simp del: rebal.simps split: prod.splits simp: ab)
  qed
qed simp

subsection \<open>Balance\<close>

lemma height_rebal: "height (rebal t) \<le> height t"
proof (cases t)
  case (Node l a r)
  then show ?thesis
    by (cases "height r < height l") (auto simp: rot_def mk_def sub_def Let_def split: tree.splits)
qed simp

text \<open>
  A subtree that is higher than its sibling by two gets back in balance by one rotation, unless it
  is a right one with subtrees of equal height.
\<close>

lemma rebal_right:
  assumes "avl l" "avl r" "height r = height l + 2" "\<And>dl b dr. r = Node dl b dr \<Longrightarrow> height dl \<noteq> height dr"
  shows "avl (rebal (Node l a r)) \<and> height (rebal (Node l a r)) = height r"
  using assms by (cases r) (auto simp: rot_def mk_def sub_def Let_def split: tree.splits)

lemma rebal_left:
  assumes "avl l" "avl r" "height l = height r + 2" "\<And>dl b dr. l = Node dl b dr \<Longrightarrow> height dl \<noteq> height dr"
  shows "avl (rebal (Node l a r)) \<and> height (rebal (Node l a r)) = height l"
  using assms by (cases l) (auto simp: rot_def mk_def sub_def Let_def split: tree.splits)

lemma rebal_grown:
  assumes avl: "avl l" "avl r" "height l \<le> height r + 1" "height r \<le> height l + 1"
    and u: "avl u" "height u = height r \<or> height u = height r + 1 \<and>
      (\<forall>dl b dr. r \<noteq> Leaf \<longrightarrow> u = Node dl b dr \<longrightarrow> height dl \<noteq> height dr)"
  shows "avl (rebal (Node l a u)) \<and> (height (rebal (Node l a u)) = height (Node l a r) \<or>
      height (rebal (Node l a u)) = height (Node l a r) + 1 \<and> height l \<noteq> height u \<and> rebal (Node l a u) = Node l a u) \<and>
    avl (rebal (Node u a l)) \<and> (height (rebal (Node u a l)) = height (Node r a l) \<or>
      height (rebal (Node u a l)) = height (Node r a l) + 1 \<and> height u \<noteq> height l \<and> rebal (Node u a l) = Node u a l)"
proof -
  have grown: "height dl \<noteq> height dr" if "u = Node dl b dr" "height u = height l + 2" for dl b dr
    using that u avl by (cases r) auto
  have hu: "height u = height r \<or> height u = height r + 1" using u(2) by auto
  show ?thesis
  proof (cases "height u = height l + 2")
    case True
    then have h: "height u = height (Node l a r)" "height u = height (Node r a l)" using hu avl(4) by simp_all
    have "avl (rebal (Node l a u)) \<and> height (rebal (Node l a u)) = height u"
      "avl (rebal (Node u a l)) \<and> height (rebal (Node u a l)) = height u"
      using rebal_right [OF avl(1) u(1) True] rebal_left [OF u(1) avl(1) True] grown [OF _ True] by blast+
    with h show "?thesis" by presburger
  next
    case False
    then have b: "height l \<le> height u + 1" "height u \<le> height l + 1" using hu avl(3,4) by linarith+
    then have e: "rebal (Node l a u) = Node l a u" "rebal (Node u a l) = Node u a l" by simp_all
    have "max (height l) (height u) = max (height l) (height r) \<or>
        max (height l) (height u) = max (height l) (height r) + 1 \<and> height l \<noteq> height u"
      using hu avl(3,4) by linarith
    with b avl u(1) show "?thesis" unfolding e by (auto simp: max.commute)
  qed
qed

lemma avl_ins:
  "avl t \<Longrightarrow> avl (ins hi n t) \<and> (height (ins hi n t) = height t \<or> height (ins hi n t) = height t + 1 \<and>
     (\<forall>dl b dr. t \<noteq> Leaf \<longrightarrow> ins hi n t = Node dl b dr \<longrightarrow> height dl \<noteq> height dr))"
proof (induction t)
  case (Node l a r)
  then have b: "avl l" "avl r" "height l \<le> height r + 1" "height r \<le> height l + 1" by auto
  show ?case
  proof (cases "hi a n")
    case True
    with rebal_grown [OF b, of "ins hi n r" a] Node.IH(2) [OF b(2)] show ?thesis
      by (auto simp del: rebal.simps height_tree.simps)
  next
    case False
    with rebal_grown [OF b(2,1,4,3), of "ins hi n l" a] Node.IH(1) [OF b(1)] show ?thesis
      by (auto simp del: rebal.simps height_tree.simps)
  qed
qed simp

end
