(* ===== verification/Avl_Nodes.thy ===== *)
theory Avl_Nodes
  imports Avl_Tree
begin

text \<open>
  The nodes of an AVL tree in memory. A predicate relates the pointers and depths of the nodes to
  the tree they form; rotations and insertion are shown to do to the nodes what the functions of
  \<^verbatim>\<open>Avl_Tree\<close> do to the tree, although the parent pointers form cycles in the middle of a rotation.
\<close>

section \<open>The tree that the nodes represent\<close>

text \<open>
  The pointers of all nodes as functions. Depths and object data come and go without touching
  them, which lets the shape of the tree be followed apart from the depths.
\<close>

definition ch :: "('n, 'd) avl_state \<Rightarrow> 'n \<Rightarrow> bool \<Rightarrow> 'n option" where
  "ch s = (\<lambda>x. child (nodes s x))"

definition pa :: "('n, 'd) avl_state \<Rightarrow> 'n \<Rightarrow> 'n option" where
  "pa s = (\<lambda>x. parent (nodes s x))"

definition dp :: "('n, 'd) avl_state \<Rightarrow> 'n \<Rightarrow> u8" where
  "dp s = (\<lambda>x. depth (nodes s x))"

lemmas node_reads = ch_def [symmetric] pa_def [symmetric] dp_def [symmetric]

lemma child_simps: "child (nodes s x) = ch s x" "parent (nodes s x) = pa s x" "depth (nodes s x) = dp s x"
  by (simp_all add: ch_def pa_def dp_def)

lemma link_simps [simp]:
  "ch (avl_link a c i s) = (ch s)(a := (ch s a)(i := c))"
  "pa (avl_link a c i s) = (\<lambda>x. if c = Some x then Some a else pa s x)"
  "dp (avl_link a c i s) = dp s" "objects (avl_link a c i s) = objects s"
  by (auto simp: avl_link_def ch_def pa_def dp_def fun_eq_iff Let_def split: option.splits)

lemma set_depth_simps [simp]:
  "ch (set_depth a d s) = ch s" "pa (set_depth a d s) = pa s" "dp (set_depth a d s) = (dp s)(a := d)"
  "objects (set_depth a d s) = objects s"
  by (auto simp: set_depth_def ch_def pa_def dp_def fun_eq_iff)

lemma objects_upd_simps [simp]: "ch (s\<lparr>objects := o'\<rparr>) = ch s" "pa (s\<lparr>objects := o'\<rparr>) = pa s" "dp (s\<lparr>objects := o'\<rparr>) = dp s"
  by (simp_all add: ch_def pa_def dp_def)

definition cdep :: "('n, 'd) avl_state \<Rightarrow> 'n \<Rightarrow> bool \<Rightarrow> int" where
  "cdep s a i = (case ch s a i of None \<Rightarrow> 0 | Some c \<Rightarrow> uint (dp s c))"

lemma child_depth_cdep: "child_depth (nodes s) = cdep s"
  by (simp add: child_depth_def cdep_def ch_def dp_def fun_eq_iff split: option.splits)

text \<open>A node with the depth that its children give it.\<close>

definition lc :: "('n, 'd) avl_state \<Rightarrow> 'n \<Rightarrow> bool" where
  "lc s a \<longleftrightarrow> dp s a = word_of_int (max (cdep s a LEFT) (cdep s a RIGHT) + 1)"

lemma new_depth_lc: "new_depth (nodes s) a = dp s a \<longleftrightarrow> lc s a"
  by (auto simp: new_depth_def lc_def child_depth_cdep)

lemma lc_cong: "ch s' a = ch s a \<Longrightarrow> dp s' a = dp s a \<Longrightarrow> (\<And>i c. ch s a i = Some c \<Longrightarrow> dp s' c = dp s c) \<Longrightarrow> lc s' a = lc s a"
  by (auto simp: lc_def cdep_def split: option.splits)

lemma lc_set: "(\<And>i. ch s a i \<noteq> Some a) \<Longrightarrow> lc (set_depth a (new_depth (nodes s) a) s) a"
  by (auto simp: lc_def cdep_def new_depth_def child_depth_cdep split: option.splits)

lemma lc_set_other: "x \<noteq> a \<Longrightarrow> (\<And>i. ch s x i \<noteq> Some a) \<Longrightarrow> lc (set_depth a d s) x = lc s x"
  by (rule lc_cong) auto

lemma lc_objects [simp]: "lc (s\<lparr>objects := o'\<rparr>) x = lc s x"
  by (rule lc_cong) auto

subsection \<open>Recomputing depths\<close>

fun chain :: "('n, 'd) avl_state \<Rightarrow> 'n list \<Rightarrow> bool" where
  "chain s [] \<longleftrightarrow> False"
| "chain s [x] \<longleftrightarrow> pa s x = None"
| "chain s (x # y # ys) \<longleftrightarrow> pa s x = Some y \<and> chain s (y # ys)"

lemma chain_cong: "\<forall>x \<in> set xs. pa s' x = pa s x \<Longrightarrow> chain s' xs = chain s xs"
  by (induction s xs rule: chain.induct) auto

text \<open>A step that only recomputes depths on the way \<open>xs\<close>.\<close>

definition deeper :: "'n set \<Rightarrow> ('n, 'd) avl_state \<Rightarrow> ('n, 'd) avl_state \<Rightarrow> bool" where
  "deeper A s s' \<longleftrightarrow> ch s' = ch s \<and> pa s' = pa s \<and> (\<forall>x. x \<notin> A \<longrightarrow> dp s' x = dp s x)"

lemma deeper_lc: "deeper {} s s' \<Longrightarrow> lc s' x = lc s x"
  by (rule lc_cong) (auto simp: deeper_def)

lemma recompute_depth_step:
  "recompute_depth P a s = do {
     s2 \<leftarrow> (if pa s a \<noteq> None \<and> \<not> lc s a then recompute_depth P (the (pa s a)) (set_depth a (new_depth (nodes s) a) s)
            else Some (set_depth a (new_depth (nodes s) a) s));
     Some (if pa s2 a \<noteq> None then s2\<lparr>objects := recompute P (nodes s2) a (objects s2)\<rparr> else s2) }"
  by (subst recompute_depth.simps)
    (auto simp: Let_def child_simps new_depth_lc split: option.splits intro!: bind_option_cong)

lemma recompute_depth_idle:
  assumes "lc s a"
  shows "\<exists>s'. recompute_depth P a s = Some s' \<and> deeper {} s s'"
  using assms new_depth_lc [of s a] by (subst recompute_depth_step) (auto simp: deeper_def)

lemma recompute_depth_stop:
  assumes p: "pa s a = Some p" "lc s p" "p \<in> X" and a: "\<forall>x \<in> X. \<forall>i. ch s x i \<noteq> Some a" "a \<in> X" "\<forall>x \<in> X - {a}. lc s x"
  shows "\<exists>s'. recompute_depth P a s = Some s' \<and> deeper {a} s s' \<and> (\<forall>x \<in> X. lc s' x)"
proof -
  let ?s = "set_depth a (new_depth (nodes s) a) s"
  have l: "lc ?s x" if "x \<in> X" for x
    using that a lc_set [of s a] lc_set_other [of x a s] by (cases "x = a") auto
  obtain s' where s': "recompute_depth P p ?s = Some s'" "deeper {} ?s s'"
    using recompute_depth_idle [OF l [OF p(3)]] by auto
  have ls: "lc s' x" if "x \<in> X" for x
    using l [OF that] deeper_lc [OF s'(2)] by simp
  show ?thesis
    using p s' ls l by (subst recompute_depth_step) (auto simp: deeper_def)
qed

lemma recompute_depth_chain:
  assumes "chain s (a # as)" "distinct (a # as)" "set (a # as) \<subseteq> X" "\<forall>x \<in> X - {a}. lc s x"
    "\<forall>x \<in> X. \<forall>i c. ch s x i = Some c \<and> c \<in> set (a # as) \<longrightarrow> pa s c = Some x"
  shows "\<exists>s'. recompute_depth P a s = Some s' \<and> deeper (set (a # as)) s s' \<and> (\<forall>x \<in> X. lc s' x)"
  using assms
proof (induction as arbitrary: a s)
  case Nil
  let ?s = "set_depth a (new_depth (nodes s) a) s"
  have "ch s x i \<noteq> Some a" if "x \<in> X" for x i using Nil that by auto
  then have "lc ?s x" if "x \<in> X" for x
    using that Nil.prems(4) lc_set [of s a] lc_set_other [of x a s] by (cases "x = a") auto
  with Nil.prems(1) show ?case by (subst recompute_depth_step) (auto simp: deeper_def)
next
  case (Cons p as)
  let ?s = "set_depth a (new_depth (nodes s) a) s"
  have pa: "pa s a = Some p" "chain s (p # as)" "a \<noteq> p" "a \<in> X" using Cons.prems by auto
  show ?case
  proof (cases "lc s a")
    case True
    obtain s' where s': "recompute_depth P a s = Some s'" "deeper {} s s'" using recompute_depth_idle [OF True] by auto
    have "lc s' x" if "x \<in> X" for x using that True Cons.prems(4) deeper_lc [OF s'(2)] by (cases "x = a") auto
    with s' show ?thesis by (auto simp: deeper_def)
  next
    case False
    have ca: "ch s a i \<noteq> Some a" for i using Cons.prems(5) pa by auto
    have l: "lc ?s x" if "x \<in> X - {p}" for x
    proof (cases "x = a")
      case True
      then show ?thesis using lc_set [of s a] ca by simp
    next
      case False
      then have "ch s x i \<noteq> Some a" for i using Cons.prems(5) pa that by auto
      then show ?thesis using lc_set_other [of x a s] False that Cons.prems(4) by auto
    qed
    have "\<exists>s'. recompute_depth P p ?s = Some s' \<and> deeper (set (p # as)) ?s s' \<and> (\<forall>x \<in> X. lc s' x)"
    proof (rule Cons.IH)
      show "chain ?s (p # as)" using pa chain_cong [of "p # as" ?s s] by simp
      show "\<forall>x \<in> X - {p}. lc ?s x" using l by blast
    qed (use Cons.prems in auto)
    with pa False show ?thesis by (subst recompute_depth_step) (auto simp: deeper_def)
  qed
qed

subsection \<open>Adopting a subtree\<close>

text \<open>A step that keeps the depths right on \<open>X\<close> and touches no depth outside.\<close>

definition avl_keeps :: "'n set \<Rightarrow> ('n, 'd) avl_state \<Rightarrow> ('n, 'd) avl_state \<Rightarrow> bool" where
  "avl_keeps X s s' \<longleftrightarrow> (\<forall>x \<in> X. lc s' x) \<and> (\<forall>x. x \<notin> X \<longrightarrow> dp s' x = dp s x)"

lemma lc_link: "x \<noteq> a \<Longrightarrow> lc (avl_link a c i s) x = lc s x"
  by (rule lc_cong) auto

lemma keeps_trans: "avl_keeps X s s1 \<Longrightarrow> avl_keeps X s1 s2 \<Longrightarrow> avl_keeps X s s2"
  by (simp add: avl_keeps_def)

text \<open>A node that adopts recomputes the depths up to the root if it is in the tree, \<open>adopt_up\<close>, \<close>

lemma adopt_up:
  assumes "chain s (a # as)" "distinct (a # as)" "set (a # as) \<subseteq> X" "\<forall>x \<in> X - {a}. lc s x"
    and par: "\<forall>x \<in> X. \<forall>j z. ch s x j = Some z \<and> z \<in> set (a # as) \<longrightarrow> pa s z = Some x"
    and c: "\<forall>z. c = Some z \<longrightarrow> z \<notin> set (a # as)"
  shows "\<exists>s'. avl_adopt P a c i s = Some s' \<and> ch s' = ch (avl_link a c i s) \<and> pa s' = pa (avl_link a c i s) \<and> avl_keeps X s s'"
proof -
  let ?s = "avl_link a c i s"
  have "\<forall>x \<in> set (a # as). pa ?s x = pa s x" using c by auto
  with assms(1) have "chain ?s (a # as)" by (simp only: chain_cong)
  moreover have "\<forall>x \<in> X. \<forall>j z. ch ?s x j = Some z \<and> z \<in> set (a # as) \<longrightarrow> pa ?s z = Some x"
    using par c by (auto split: if_splits)
  moreover have "\<forall>x \<in> X - {a}. lc ?s x" using assms(4) by (simp add: lc_link)
  ultimately obtain s' where "recompute_depth P a ?s = Some s'" "deeper (set (a # as)) ?s s'" "\<forall>x \<in> X. lc s' x"
    using recompute_depth_chain [of ?s a as X P] assms(2,3) by auto
  with assms(3) show ?thesis by (intro exI [of _ s']) (unfold avl_adopt_def deeper_def avl_keeps_def, auto)
qed

text \<open>and stops at its former parent if it has been taken out of the tree, \<open>adopt_out\<close>.\<close>

lemma adopt_out:
  assumes p: "pa s a = Some p" "p \<in> X" "p \<noteq> a" and a: "a \<in> X" "\<forall>x \<in> X. \<forall>j. ch s x j \<noteq> Some a"
    and l: "\<forall>x \<in> X - {a}. lc s x" and c: "c \<noteq> Some a"
  shows "\<exists>s'. avl_adopt P a c i s = Some s' \<and> ch s' = ch (avl_link a c i s) \<and> pa s' = pa (avl_link a c i s) \<and> avl_keeps X s s'"
proof -
  let ?s = "avl_link a c i s"
  have l: "\<forall>x \<in> X - {a}. lc ?s x" using l by (simp add: lc_link)
  have "lc ?s p" "pa ?s a = Some p" "\<forall>x \<in> X. \<forall>j. ch ?s x j \<noteq> Some a" using p l a c by auto
  from recompute_depth_stop [OF this(2,1) p(2) this(3) a(1) l, of P] a(1) show ?thesis
    by (auto simp: avl_adopt_def deeper_def avl_keeps_def)
qed

subsection \<open>Subtrees and their surroundings\<close>

fun tree_at :: "('n \<Rightarrow> bool \<Rightarrow> 'n option) \<Rightarrow> ('n \<Rightarrow> 'n option) \<Rightarrow> 'n \<Rightarrow> 'n option \<Rightarrow> 'n tree \<Rightarrow> bool" where
  "tree_at c p q x Leaf \<longleftrightarrow> x = None"
| "tree_at c p q x (Node l a r) \<longleftrightarrow>
     x = Some a \<and> p a = Some q \<and> tree_at c p a (c a LEFT) l \<and> tree_at c p a (c a RIGHT) r"

fun rt :: "'n tree \<Rightarrow> 'n option" where
  "rt Leaf = None"
| "rt (Node l a r) = Some a"

lemma rt_mk [simp]: "rt (mk i t b u) = Some b"
  by (simp add: mk_def)

lemma rt_in: "rt t = Some a \<Longrightarrow> a \<in> set_tree t"
  by (cases t) auto

lemma tree_at_rt: "tree_at c p q x t \<Longrightarrow> x = rt t"
  by (cases t) auto

lemma tree_at_top: "tree_at c p q x t \<Longrightarrow> rt t = Some z \<or> x = Some z \<Longrightarrow> p z = Some q \<and> z \<in> set_tree t"
  by (cases t) auto

lemma tree_at_mk:
  "tree_at c p q x (mk i t b u) \<longleftrightarrow> x = Some b \<and> p b = Some q \<and> tree_at c p b (c b i) t \<and> tree_at c p b (c b (\<not> i)) u"
  by (cases i) (auto simp: mk_def)

lemma tree_at_move:
  "tree_at c p q x t \<Longrightarrow> distinct (inorder t) \<Longrightarrow> \<forall>y \<in> set_tree t. c' y = c y \<Longrightarrow>
     \<forall>y \<in> set_tree t. p' y = (if rt t = Some y then Some q' else p y) \<Longrightarrow> tree_at c' p' q' x t"
proof (induction t arbitrary: q q' x)
  case (Node l a r)
  have d: "a \<notin> set_tree l" "a \<notin> set_tree r" using Node.prems by auto
  have "tree_at c' p' a (c a LEFT) l"
    by (rule Node.IH(1) [of a]) (use Node.prems d in \<open>auto dest: tree_at_top\<close>)
  moreover have "tree_at c' p' a (c a RIGHT) r"
    by (rule Node.IH(2) [of a]) (use Node.prems d in \<open>auto dest: tree_at_top\<close>)
  ultimately show ?case using Node.prems by auto
qed simp

lemma tree_at_frame:
  "tree_at c p q x t \<Longrightarrow> \<forall>y \<in> set_tree t. c' y = c y \<and> p' y = p y \<Longrightarrow> tree_at c' p' q x t"
  by (induction t arbitrary: q x) auto

lemma tree_at_child:
  "tree_at c p q y t \<Longrightarrow> x \<in> set_tree t \<Longrightarrow> c x i = Some z \<Longrightarrow> p z = Some x \<and> z \<in> set_tree t"
proof (induction t arbitrary: q y)
  case (Node l a r)
  show ?case
  proof (cases "x = a")
    case True
    have "tree_at c p a (c a i) (sub i (Node l a r))" using Node.prems(1) by (cases i) (auto simp: sub_def)
    from tree_at_top [OF this, of z] Node.prems(3) True show ?thesis by (cases i) (auto simp: sub_def)
  next
    case False
    with Node show ?thesis by auto
  qed
qed simp

text \<open>
  The surroundings of a subtree, from its parent up to the root: for each node the side on which
  the subtree is and the tree at the other side.
\<close>

type_synonym 'n ctx = "(bool \<times> 'n \<times> 'n tree) list"

fun plug :: "'n ctx \<Rightarrow> 'n tree \<Rightarrow> 'n tree" where
  "plug [] t = t"
| "plug ((i, b, u) # k) t = plug k (mk i t b u)"

fun hold :: "'n \<Rightarrow> 'n ctx \<Rightarrow> 'n \<times> bool" where
  "hold root [] = (root, LEFT)"
| "hold root ((i, b, u) # k) = (b, i)"

definition up :: "'n \<Rightarrow> 'n ctx \<Rightarrow> 'n list" where
  "up root k = map (\<lambda>(i, b, u). b) k @ [root]"

fun around :: "'n ctx \<Rightarrow> 'n set" where
  "around [] = {}"
| "around ((i, b, u) # k) = insert b (set_tree u) \<union> around k"

fun avl_apart :: "'n ctx \<Rightarrow> bool" where
  "avl_apart [] \<longleftrightarrow> True"
| "avl_apart ((i, b, u) # k) \<longleftrightarrow> b \<notin> set_tree u \<and> distinct (inorder u) \<and> insert b (set_tree u) \<inter> around k = {} \<and> avl_apart k"

fun ctx_at :: "('n \<Rightarrow> bool \<Rightarrow> 'n option) \<Rightarrow> ('n \<Rightarrow> 'n option) \<Rightarrow> 'n \<Rightarrow> 'n ctx \<Rightarrow> bool" where
  "ctx_at c p root [] \<longleftrightarrow> p root = None \<and> c root RIGHT = None"
| "ctx_at c p root ((i, b, u) # k) \<longleftrightarrow>
     (case hold root k of (a, j) \<Rightarrow> c a j = Some b \<and> p b = Some a) \<and> tree_at c p b (c b (\<not> i)) u \<and> ctx_at c p root k"

lemma set_plug [simp]: "set_tree (plug k t) = around k \<union> set_tree t"
  by (induction k t rule: plug.induct) auto

lemma distinct_mk: "distinct (inorder (mk i t b u)) \<longleftrightarrow> distinct (inorder t) \<and> distinct (inorder u) \<and>
    b \<notin> set_tree t \<and> b \<notin> set_tree u \<and> set_tree t \<inter> set_tree u = {}"
  by (auto simp: mk_def)

lemma distinct_plug: "distinct (inorder (plug k t)) \<longleftrightarrow> distinct (inorder t) \<and> avl_apart k \<and> set_tree t \<inter> around k = {}"
  by (induction k t rule: plug.induct) (auto simp: distinct_mk)

lemma height_plug: "height t \<le> height u \<Longrightarrow> height (plug k t) \<le> height (plug k u)"
proof (induction k arbitrary: t u)
  case (Cons f k)
  obtain i b v where "f = (i, b, v)" by (cases f) auto
  with Cons show ?case by (auto intro!: Cons.IH)
qed simp

lemma height_plug_Suc: "height u \<le> height t + 1 \<Longrightarrow> height (plug k u) \<le> height (plug k t) + 1"
proof (induction k arbitrary: t u)
  case (Cons f k)
  obtain i b v where "f = (i, b, v)" by (cases f) auto
  then have "height (mk i u b v) \<le> height (mk i t b v) + 1" using Cons.prems by (simp, linarith)
  from Cons.IH [OF this] show ?case by (simp add: \<open>f = (i, b, v)\<close>)
qed simp

lemma height_le_plug: "height t \<le> height (plug k t)"
proof (induction k arbitrary: t)
  case (Cons f k)
  obtain i b v where f: "f = (i, b, v)" by (cases f) auto
  have "height t \<le> height (mk i t b v)" by simp
  also have "\<dots> \<le> height (plug k (mk i t b v))" by (rule Cons.IH)
  finally show ?case by (simp add: f)
qed simp

lemma plug_at:
  "p root = None \<and> c root RIGHT = None \<and> tree_at c p root (c root LEFT) (plug k t) \<longleftrightarrow>
   ctx_at c p root k \<and> (case hold root k of (a, j) \<Rightarrow> tree_at c p a (c a j) t)"
proof (induction k arbitrary: t)
  case (Cons f k)
  obtain i b v where f: "f = (i, b, v)" by (cases f) auto
  show ?case by (auto simp: f Cons.IH tree_at_mk split: prod.splits)
qed auto

lemma up_simps [simp]: "up root [] = [root]" "up root ((i, b, u) # k) = b # up root k" "up root k \<noteq> []"
  by (auto simp: up_def)

lemma up_hold: "up root k = fst (hold root k) # tl (up root k)"
  by (cases "(root, k)" rule: hold.cases) auto

lemma set_up: "set (up root k) \<subseteq> insert root (around k)"
  by (induction k) auto

lemma hold_in: "fst (hold root k) \<in> insert root (around k)"
  by (cases "(root, k)" rule: hold.cases) auto

lemma distinct_up: "avl_apart k \<Longrightarrow> root \<notin> around k \<Longrightarrow> distinct (up root k)"
proof (induction k rule: avl_apart.induct)
  case (2 i b u k)
  then show ?case using set_up [of root k] by auto
qed simp

lemma chain_up: "ctx_at (ch s) (pa s) root k \<Longrightarrow> chain s (up root k)"
proof (induction k)
  case (Cons f k)
  obtain i b v where f: "f = (i, b, v)" by (cases f) auto
  obtain a j where h: "hold root k = (a, j)" by (cases "hold root k") auto
  have "up root k = a # tl (up root k)" using up_hold [of root k] h by simp
  moreover have "chain s (up root k)" "pa s b = Some a" using Cons f h by auto
  ultimately show ?case by (metis f chain.simps(3) up_simps(2))
qed simp

lemma ctx_at_frame:
  assumes "ctx_at c p root k" "hold root k = (a, j)" "avl_apart k" "root \<notin> around k"
    "\<forall>x \<in> insert root (around k). p' x = p x \<and> (x \<noteq> a \<longrightarrow> c' x = c x)" "c' a (\<not> j) = c a (\<not> j)"
  shows "ctx_at c' p' root k"
  using assms
proof (induction k arbitrary: a j)
  case (Cons f k)
  obtain i b v where f: "f = (i, b, v)" by (cases f) auto
  have ab: "a = b" "j = i" using Cons.prems(2) f by auto
  obtain a' j' where h: "hold root k = (a', j')" by (cases "hold root k") auto
  have a': "a' \<in> insert root (around k)" using hold_in [of root k] h by simp
  have k: "ctx_at c' p' root k"
    by (rule Cons.IH [OF _ h]) (use Cons.prems f ab a' in \<open>auto split: prod.splits\<close>)
  have "tree_at c' p' b (c b (\<not> i)) v"
    by (rule tree_at_frame) (use Cons.prems f ab in auto)
  with k Cons.prems f ab h a' show ?case by auto
qed auto

section \<open>Representation\<close>

text \<open>
  The nodes below \<open>root\<close> form the tree \<open>t\<close>, each in one place and with its own depth, and the depths
  fit into 8 bits. The nodes that a step may touch are those of the tree.
\<close>

definition avl_rep :: "'n \<Rightarrow> ('n, 'd) avl_state \<Rightarrow> 'n tree \<Rightarrow> bool" where
  "avl_rep root s t \<longleftrightarrow> pa s root = None \<and> ch s root RIGHT = None \<and>
     tree_at (ch s) (pa s) root (ch s root LEFT) t \<and> distinct (root # inorder t) \<and>
     (\<forall>x \<in> insert root (set_tree t). lc s x) \<and> height t < 255"

definition untouched :: "'n set \<Rightarrow> ('n, 'd) avl_state \<Rightarrow> ('n, 'd) avl_state \<Rightarrow> bool" where
  "untouched X s s' \<longleftrightarrow> (\<forall>x. x \<notin> X \<longrightarrow> nodes s' x = nodes s x)"

lemma nodes_eq: "nodes s' x = nodes s x \<longleftrightarrow> ch s' x = ch s x \<and> pa s' x = pa s x \<and> dp s' x = dp s x"
  by (auto simp: ch_def pa_def dp_def)

lemma untouched_trans: "untouched X s s1 \<Longrightarrow> untouched X s1 s2 \<Longrightarrow> untouched X s s2"
  by (simp add: untouched_def)

lemma avl_rep_cong: "ch s' = ch s \<Longrightarrow> pa s' = pa s \<Longrightarrow> dp s' = dp s \<Longrightarrow> avl_rep root s' t = avl_rep root s t"
  using lc_cong [of s' _ s] by (simp add: avl_rep_def)

lemma avl_rep_objects [simp]: "avl_rep root (s\<lparr>objects := o'\<rparr>) t = avl_rep root s t"
  by (rule avl_rep_cong) auto

abbreviation whole :: "'n \<Rightarrow> 'n ctx \<Rightarrow> 'n tree \<Rightarrow> 'n set" where
  "whole root k t \<equiv> insert root (around k \<union> set_tree t)"

lemma repD:
  assumes r: "avl_rep root s (plug k t)" and h: "hold root k = (a, j)"
  shows "ctx_at (ch s) (pa s) root k" "tree_at (ch s) (pa s) a (ch s a j) t" "avl_apart k" "root \<notin> around k"
    "distinct (inorder t)" "set_tree t \<inter> insert root (around k) = {}" "\<And>x. x \<in> whole root k t \<Longrightarrow> lc s x" "height t < 255"
    "a \<in> insert root (around k)" "chain s (up root k)" "distinct (up root k)" "set (up root k) \<subseteq> insert root (around k)"
    "up root k = a # tl (up root k)"
    "\<And>x i z. x \<in> whole root k t \<Longrightarrow> ch s x i = Some z \<Longrightarrow> pa s z = Some x \<and> z \<in> around k \<union> set_tree t"
proof -
  have pl: "ctx_at (ch s) (pa s) root k \<and> (case hold root k of (a, j) \<Rightarrow> tree_at (ch s) (pa s) a (ch s a j) t)"
    using r plug_at [of "pa s" root "ch s" k t] by (simp add: avl_rep_def)
  then show "ctx_at (ch s) (pa s) root k" "tree_at (ch s) (pa s) a (ch s a j) t" using h by auto
  have d: "distinct (inorder t) \<and> avl_apart k \<and> set_tree t \<inter> around k = {}" "root \<notin> around k \<union> set_tree t"
    using r by (auto simp: avl_rep_def distinct_plug)
  then show ap: "avl_apart k" "root \<notin> around k" "distinct (inorder t)" "set_tree t \<inter> insert root (around k) = {}" by auto
  show "lc s x" if "x \<in> whole root k t" for x using r that by (auto simp: avl_rep_def)
  show "height t < 255" using r height_le_plug [of t k] by (auto simp: avl_rep_def)
  show "a \<in> insert root (around k)" using hold_in [of root k] h by simp
  show "chain s (up root k)" using pl by (blast intro: chain_up)
  show "distinct (up root k)" by (rule distinct_up [OF ap(1,2)])
  show "set (up root k) \<subseteq> insert root (around k)" by (rule set_up)
  show "up root k = a # tl (up root k)" using up_hold [of root k] h by simp
  fix x i z
  assume x: "x \<in> whole root k t" and z: "ch s x i = Some z"
  have t: "tree_at (ch s) (pa s) root (ch s root LEFT) (plug k t)" and c: "ch s root RIGHT = None"
    using r by (auto simp: avl_rep_def)
  show "pa s z = Some x \<and> z \<in> around k \<union> set_tree t"
  proof (cases "x = root")
    case True
    with z c have "ch s root LEFT = Some z" by (cases i) auto
    with tree_at_top [OF t, of z] True show ?thesis by auto
  next
    case False
    with tree_at_child [OF t _ z] x show ?thesis by auto
  qed
qed

lemma repI:
  assumes "ctx_at (ch s) (pa s) root k" "hold root k = (a, j)" "tree_at (ch s) (pa s) a (ch s a j) t" "avl_apart k"
    "root \<notin> around k" "distinct (inorder t)" "set_tree t \<inter> insert root (around k) = {}" "\<forall>x \<in> whole root k t. lc s x"
    "height (plug k t) < 255"
  shows "avl_rep root s (plug k t)"
  using assms plug_at [of "pa s" root "ch s" k t] by (auto simp: avl_rep_def distinct_plug)

lemma depth_height:
  "tree_at (ch s) (pa s) q x t \<Longrightarrow> \<forall>y \<in> set_tree t. lc s y \<Longrightarrow> height t < 256 \<Longrightarrow>
     (case x of None \<Rightarrow> 0 | Some c \<Rightarrow> uint (dp s c)) = int (height t)"
proof (induction t arbitrary: q x)
  case (Node l a r)
  have "cdep s a LEFT = int (height l)" "cdep s a RIGHT = int (height r)"
    using Node.prems Node.IH(1) [of a "ch s a LEFT"] Node.IH(2) [of a "ch s a RIGHT"] by (auto simp: cdep_def)
  then have "dp s a = word_of_int (int (height (Node l a r)))" using Node.prems(2) by (simp add: lc_def of_nat_max)
  then have "uint (dp s a) = int (height (Node l a r)) mod 256" by (simp only: uint_word_of_int) simp
  then show ?case using Node.prems(1,3) by simp
qed simp

lemma cdep_height:
  assumes r: "avl_rep root s (plug k (mk i t b u))"
  shows "cdep s b i = int (height t)" "cdep s b (\<not> i) = int (height u)"
proof -
  obtain a j where h: "hold root k = (a, j)" by (cases "hold root k") auto
  note d = repD [OF r h]
  show "cdep s b i = int (height t)" "cdep s b (\<not> i) = int (height u)"
    unfolding cdep_def using d(2,7,8) by (auto intro!: depth_height simp: tree_at_mk)
qed

subsection \<open>Rotations\<close>

lemma rotate_index:
  assumes r: "avl_rep root s (plug k t)" and h: "hold root k = (a, j)" and n: "rt t = Some n"
  shows "(if ch s a LEFT = Some n then LEFT else RIGHT) = j"
proof (cases j)
  case False
  then show ?thesis using repD(2) [OF r h] n tree_at_rt by fastforce
next
  case True
  then obtain u k' where k: "k = (True, a, u) # k'" using h by (cases "(root, k)" rule: hold.cases) auto
  have "rt u = ch s a LEFT" using repD(1) [OF r h] k tree_at_rt by fastforce
  moreover have "n \<notin> set_tree u" using repD(6) [OF r h] k rt_in [OF n] by auto
  ultimately show ?thesis using rt_in [of u n] True by auto
qed

text \<open>The first and the last step of a rotation: the root \<open>n\<close> of the subtree adopts a node of the subtree, and the
  holder \<open>a\<close> of the subtree adopts a new root.\<close>

lemma adopt_below:
  assumes r: "avl_rep root s (plug k t)" and h: "hold root k = (a, j)" and n: "n \<in> set_tree t" "pa s n = Some a"
    and c: "\<And>z. c = Some z \<Longrightarrow> z \<in> set_tree t - {n}"
  shows "\<exists>s'. avl_adopt P n c i s = Some s' \<and> ch s' = (ch s)(n := (ch s n)(i := c)) \<and>
    pa s' = (\<lambda>y. if c = Some y then Some n else pa s y) \<and> avl_keeps (whole root k t) s s'"
proof -
  note d = repD [OF r h]
  have "\<exists>s'. avl_adopt P n c i s = Some s' \<and> ch s' = ch (avl_link n c i s) \<and> pa s' = pa (avl_link n c i s) \<and> avl_keeps (whole root k t) s s'"
  proof (rule adopt_up [where as = "up root k"])
    show "chain s (n # up root k)" using d(10,13) n(2) by (metis chain.simps(3))
    show "\<forall>y \<in> whole root k t. \<forall>j z. ch s y j = Some z \<and> z \<in> set (n # up root k) \<longrightarrow> pa s z = Some y" using d(14) by blast
  qed (use d(6,7,11,12) n(1) c in auto)
  then show ?thesis by auto
qed

lemma adopt_hold:
  assumes r: "avl_rep root s (plug k t)" and h: "hold root k = (a, j)" and s': "\<forall>x \<in> whole root k t. lc s' x"
    "\<And>y. y \<in> set (up root k) \<Longrightarrow> pa s' y = pa s y"
    "\<And>y i z. y \<in> whole root k t \<Longrightarrow> ch s' y i = Some z \<Longrightarrow> z \<in> set (up root k) \<Longrightarrow> ch s y i = Some z"
    and c: "c \<notin> set (up root k)"
  shows "\<exists>s''. avl_adopt P a (Some c) j s' = Some s'' \<and> ch s'' = (ch s')(a := (ch s' a)(j := Some c)) \<and>
    pa s'' = (\<lambda>y. if c = y then Some a else pa s' y) \<and> avl_keeps (whole root k t) s' s''"
proof -
  note d = repD [OF r h]
  have "\<exists>s''. avl_adopt P a (Some c) j s' = Some s'' \<and> ch s'' = ch (avl_link a (Some c) j s') \<and>
      pa s'' = pa (avl_link a (Some c) j s') \<and> avl_keeps (whole root k t) s' s''"
  proof (rule adopt_up [where as = "tl (up root k)"], unfold d(13) [symmetric])
    show "chain s' (up root k)" using d(10) s'(2) chain_cong [of "up root k" s' s] by blast
    show "\<forall>y \<in> whole root k t. \<forall>j z. ch s' y j = Some z \<and> z \<in> set (up root k) \<longrightarrow> pa s' z = Some y"
      using s'(2,3) d(14) by (metis (no_types, lifting))
  qed (use d(11,12) c s'(1) in auto)
  then show ?thesis by auto
qed

lemma rotate_simple:
  assumes r: "avl_rep root s (plug k (mk side x n (mk side m b e)))" and h: "hold root k = (a, j)"
    and bias: "bias (nodes s) b = (\<not> side)" and hT: "height (mk side (mk side x n m) b e) \<le> height (mk side x n (mk side m b e))"
  shows "\<exists>s'. rotate_subtree P a n side s = Some s' \<and> avl_rep root s' (plug k (mk side (mk side x n m) b e)) \<and>
    untouched (whole root k (mk side x n (mk side m b e))) s s'"
proof -
  let ?T = "mk side x n (mk side m b e)" let ?X = "whole root k ?T"
  note d = repD [OF r h] and i = rotate_index [OF r h, of n]
  have t: "ch s a j = Some n" "pa s n = Some a" "tree_at (ch s) (pa s) n (ch s n side) x" "ch s n (\<not> side) = Some b"
    "pa s b = Some n" "tree_at (ch s) (pa s) b (ch s b side) m" "tree_at (ch s) (pa s) b (ch s b (\<not> side)) e"
    using d(2) by (auto simp: tree_at_mk)
  have dis: "n \<noteq> b" "n \<notin> set_tree x \<union> set_tree m \<union> set_tree e" "b \<notin> set_tree x \<union> set_tree m \<union> set_tree e"
    "set_tree x \<inter> set_tree m = {}" "set_tree x \<inter> set_tree e = {}" "set_tree m \<inter> set_tree e = {}"
    "distinct (inorder x)" "distinct (inorder m)" "distinct (inorder e)"
    using d(5) by (auto simp: distinct_mk)
  have out: "y \<notin> insert root (around k) \<and> y \<notin> set (up root k)" if "y \<in> {n, b} \<union> set_tree x \<union> set_tree m \<union> set_tree e" for y
    using d(6,12) that by auto
  have rts: "rt m = ch s b side" "rt x = ch s n side" "rt e = ch s b (\<not> side)"
    using tree_at_rt t(3,6,7) by fastforce+
  note rin = rt_in [of m] rt_in [of x] rt_in [of e]
  obtain s1 where s1: "avl_adopt P n (rt m) (\<not> side) s = Some s1" "ch s1 = (ch s)(n := (ch s n)(\<not> side := rt m))"
    "pa s1 = (\<lambda>y. if rt m = Some y then Some n else pa s y)" "avl_keeps ?X s s1"
    using adopt_below [OF r h _ t(2), of "rt m" P "\<not> side"] rin(1) dis(2) by auto
  have "\<exists>s2. avl_adopt P b (Some n) side s1 = Some s2 \<and> ch s2 = ch (avl_link b (Some n) side s1) \<and>
      pa s2 = pa (avl_link b (Some n) side s1) \<and> avl_keeps ?X s1 s2"
  proof (rule adopt_out)
    show "pa s1 b = Some n" using s1(3) t(5) rin dis by auto
    show "\<forall>y \<in> ?X. \<forall>j. ch s1 y j \<noteq> Some b"
    proof (intro ballI allI)
      fix y i
      assume y: "y \<in> ?X"
      have "ch s y i = Some b \<Longrightarrow> y = n" using d(14) [OF y] t(5) by auto
      moreover have "rt m \<noteq> Some b" "rt x \<noteq> Some b" using rin dis by blast+
      ultimately show "ch s1 y i \<noteq> Some b" using s1(2) rts(2) by (cases "i = side") auto
    qed
  qed (use dis s1(4) in \<open>auto simp: avl_keeps_def\<close>)
  then obtain s2 where s2: "avl_adopt P b (Some n) side s1 = Some s2" "ch s2 = (ch s1)(b := (ch s1 b)(side := Some n))"
    "pa s2 = (\<lambda>y. if n = y then Some b else pa s1 y)" "avl_keeps ?X s1 s2" by auto
  have "ch s y i = Some z" if "ch s2 y i = Some z" "z \<in> set (up root k)" for y i z
    using that s2(2) s1(2) out rin by (auto split: if_splits)
  moreover have "pa s2 y = pa s y" if "y \<in> set (up root k)" for y using that s2(3) s1(3) out rin by auto
  ultimately obtain s3 where s3: "avl_adopt P a (Some b) j s2 = Some s3" "ch s3 = (ch s2)(a := (ch s2 a)(j := Some b))"
    "pa s3 = (\<lambda>y. if b = y then Some a else pa s2 y)" "avl_keeps ?X s2 s3"
    using adopt_hold [OF r h, of s2 b P] s2(4) out by (auto simp: avl_keeps_def)
  note cs = s3(2,3) s2(2,3) s1(2,3)
  have k3: "avl_keeps ?X s s3" using s1(4) s2(4) s3(4) by (blast intro: keeps_trans)
  have an: "a \<notin> {n, b} \<union> set_tree x \<union> set_tree m \<union> set_tree e" using d(9) out by blast
  have "tree_at (ch s3) (pa s3) n (ch s n side) x" "tree_at (ch s3) (pa s3) b (ch s b (\<not> side)) e"
    "tree_at (ch s3) (pa s3) n (ch s b side) m"
  proof -
    show "tree_at (ch s3) (pa s3) n (ch s n side) x" by (rule tree_at_frame [OF t(3)]) (use cs dis an rin in auto)
    show "tree_at (ch s3) (pa s3) b (ch s b (\<not> side)) e" by (rule tree_at_frame [OF t(7)]) (use cs dis an rin in auto)
    show "tree_at (ch s3) (pa s3) n (ch s b side) m"
      by (rule tree_at_move [OF t(6) dis(8)]) (use cs dis an rin in auto)
  qed
  then have "tree_at (ch s3) (pa s3) a (ch s3 a j) (mk side (mk side x n m) b e)"
    using cs dis an rts by (auto simp: tree_at_mk)
  moreover have "ctx_at (ch s3) (pa s3) root k"
    by (rule ctx_at_frame [OF d(1) h d(3,4)]) (use cs out rin an in auto)
  moreover have "height (plug k (mk side (mk side x n m) b e)) < 255"
    using r height_plug [OF hT, of k] by (simp add: avl_rep_def)
  ultimately have "avl_rep root s3 (plug k (mk side (mk side x n m) b e))"
    using d(3-6) k3 h by (intro repI) (auto simp: distinct_mk avl_keeps_def)
  moreover have "untouched ?X s s3"
    using k3 cs d(9) rin by (auto simp: untouched_def nodes_eq avl_keeps_def)
  ultimately show ?thesis
    using s1(1) s2(1) s3(1) bias i t rts by (auto simp: rotate_subtree_def child_simps Let_def)
qed

lemma rotate_double:
  assumes r: "avl_rep root s (plug k (mk side x n (mk side (mk side m1 c m2) b e)))" and h: "hold root k = (a, j)"
    and bias: "bias (nodes s) b \<noteq> (\<not> side)"
    and hT: "height (mk side (mk side x n m1) c (mk side m2 b e)) \<le> height (mk side x n (mk side (mk side m1 c m2) b e))"
  shows "\<exists>s'. rotate_subtree P a n side s = Some s' \<and> avl_rep root s' (plug k (mk side (mk side x n m1) c (mk side m2 b e))) \<and>
    untouched (whole root k (mk side x n (mk side (mk side m1 c m2) b e))) s s'"
proof -
  let ?T = "mk side x n (mk side (mk side m1 c m2) b e)" let ?X = "whole root k ?T"
  note d = repD [OF r h] and i = rotate_index [OF r h, of n]
  have t: "ch s a j = Some n" "pa s n = Some a" "tree_at (ch s) (pa s) n (ch s n side) x" "ch s n (\<not> side) = Some b"
    "pa s b = Some n" "ch s b side = Some c" "pa s c = Some b" "tree_at (ch s) (pa s) c (ch s c side) m1"
    "tree_at (ch s) (pa s) c (ch s c (\<not> side)) m2" "tree_at (ch s) (pa s) b (ch s b (\<not> side)) e"
    using d(2) by (auto simp: tree_at_mk)
  let ?U = "set_tree x \<union> set_tree m1 \<union> set_tree m2 \<union> set_tree e"
  have dis: "n \<noteq> b" "n \<noteq> c" "b \<noteq> c" "n \<notin> ?U" "b \<notin> ?U" "c \<notin> ?U"
    "set_tree x \<inter> (set_tree m1 \<union> set_tree m2 \<union> set_tree e) = {}" "set_tree m1 \<inter> (set_tree m2 \<union> set_tree e) = {}" "set_tree m2 \<inter> set_tree e = {}"
    "distinct (inorder x)" "distinct (inorder m1)" "distinct (inorder m2)" "distinct (inorder e)"
    using d(5) by (auto simp: distinct_mk)
  have out: "y \<notin> insert root (around k) \<and> y \<notin> set (up root k)" if "y \<in> {n, b, c} \<union> ?U" for y
    using d(6,12) that by auto
  have rts: "rt m1 = ch s c side" "rt m2 = ch s c (\<not> side)" "rt x = ch s n side" "rt e = ch s b (\<not> side)"
    using tree_at_rt t(3,8-10) by fastforce+
  note rin = rt_in [of m1] rt_in [of m2] rt_in [of x] rt_in [of e]
  have rne: "rt v \<noteq> Some b" "rt v \<noteq> Some c" "rt v \<noteq> Some n" if "v \<in> {x, m1, m2, e}" for v
    using that dis rin by auto
  note rne1 = rne [of x, simplified] rne [of m1, simplified] rne [of m2, simplified] rne [of e, simplified]
  have only: "ch s y i = Some b \<Longrightarrow> y = n" "ch s y i = Some c \<Longrightarrow> y = b" if "y \<in> ?X" for y i
    using d(14) [OF that] t(5,7) by auto
  obtain s1 where s1: "avl_adopt P n (rt m1) (\<not> side) s = Some s1" "ch s1 = (ch s)(n := (ch s n)(\<not> side := rt m1))"
    "pa s1 = (\<lambda>y. if rt m1 = Some y then Some n else pa s y)" "avl_keeps ?X s s1"
    using adopt_below [OF r h _ t(2), of "rt m1" P "\<not> side"] rin(1) dis(4) by auto
  have "ch s1 y i \<noteq> Some b" if "y \<in> ?X" for y i
    using only(1) [OF that, of i] s1(2) rne1(1,4) rts(3) by (cases "i = side") auto
  then have "\<exists>s2. avl_adopt P b (rt m2) side s1 = Some s2 \<and> ch s2 = ch (avl_link b (rt m2) side s1) \<and>
      pa s2 = pa (avl_link b (rt m2) side s1) \<and> avl_keeps ?X s1 s2"
    by (intro adopt_out [where p = n]) (use s1(3,4) t(5) rne1 dis(1-3) in \<open>auto simp: avl_keeps_def\<close>)
  then obtain s2 where s2: "avl_adopt P b (rt m2) side s1 = Some s2" "ch s2 = (ch s1)(b := (ch s1 b)(side := rt m2))"
    "pa s2 = (\<lambda>y. if rt m2 = Some y then Some b else pa s1 y)" "avl_keeps ?X s1 s2" by auto
  have c2: "ch s2 y i \<noteq> Some c" if "y \<in> ?X" for y i
    using only(2) [OF that, of i] s2(2) s1(2) rne1(2,5,8,11) rts(4) by (cases "i = side") auto
  then have "\<exists>s3. avl_adopt P c (Some n) side s2 = Some s3 \<and> ch s3 = ch (avl_link c (Some n) side s2) \<and>
      pa s3 = pa (avl_link c (Some n) side s2) \<and> avl_keeps ?X s2 s3"
    by (intro adopt_out [where p = b]) (use s2(3,4) s1(3) t(7) rne1 dis(1-3) in \<open>auto simp: avl_keeps_def\<close>)
  then obtain s3 where s3: "avl_adopt P c (Some n) side s2 = Some s3" "ch s3 = (ch s2)(c := (ch s2 c)(side := Some n))"
    "pa s3 = (\<lambda>y. if n = y then Some c else pa s2 y)" "avl_keeps ?X s2 s3" by auto
  have "ch s3 y i \<noteq> Some c" if "y \<in> ?X" for y i
    using c2 [OF that, of i] s3(2) dis(2) by auto
  then have "\<exists>s4. avl_adopt P c (Some b) (\<not> side) s3 = Some s4 \<and> ch s4 = ch (avl_link c (Some b) (\<not> side) s3) \<and>
      pa s4 = pa (avl_link c (Some b) (\<not> side) s3) \<and> avl_keeps ?X s3 s4"
    by (intro adopt_out [where p = b]) (use s3(3,4) s2(3) s1(3) t(7) rne1 dis(1-3) in \<open>auto simp: avl_keeps_def\<close>)
  then obtain s4 where s4: "avl_adopt P c (Some b) (\<not> side) s3 = Some s4" "ch s4 = (ch s3)(c := (ch s3 c)(\<not> side := Some b))"
    "pa s4 = (\<lambda>y. if b = y then Some c else pa s3 y)" "avl_keeps ?X s3 s4" by auto
  note cs = s4(2,3) s3(2,3) s2(2,3) s1(2,3)
  have "ch s y i = Some z" if "ch s4 y i = Some z" "z \<in> set (up root k)" for y i z
    using that cs out rin by (auto split: if_splits)
  moreover have "pa s4 y = pa s y" if "y \<in> set (up root k)" for y using that cs out rin by auto
  ultimately obtain s5 where s5: "avl_adopt P a (Some c) j s4 = Some s5" "ch s5 = (ch s4)(a := (ch s4 a)(j := Some c))"
    "pa s5 = (\<lambda>y. if c = y then Some a else pa s4 y)" "avl_keeps ?X s4 s5"
    using adopt_hold [OF r h, of s4 c P] s4(4) out by (auto simp: avl_keeps_def)
  have k5: "avl_keeps ?X s s5" using s1(4) s2(4) s3(4) s4(4) s5(4) by (blast intro: keeps_trans)
  have an: "a \<notin> {n, b, c} \<union> ?U" using d(9) out by blast
  have c5: "ch s5 n = (ch s n)(\<not> side := rt m1)" "ch s5 b = (ch s b)(side := rt m2)"
    "ch s5 c = (\<lambda>i. if i = side then Some n else Some b)" "ch s5 a = (ch s a)(j := Some c)"
    "\<And>y. y \<notin> {n, b, c, a} \<Longrightarrow> ch s5 y = ch s y"
    and p5: "pa s5 c = Some a" "pa s5 b = Some c" "pa s5 n = Some c"
    "\<And>y. y \<notin> {n, b, c} \<Longrightarrow> pa s5 y = (if rt m2 = Some y then Some b else if rt m1 = Some y then Some n else pa s y)"
    using dis(1-3) an by (simp_all add: cs s5(2,3)) (auto simp: fun_eq_iff)
  have nU: "y \<notin> {n, b, c, a}" if "y \<in> ?U" for y using that dis(4-6) an by auto
  then have sep: "\<forall>y \<in> ?U. ch s5 y = ch s y" using c5(5) by (intro ballI) simp
  have pU: "pa s5 y = (if rt m2 = Some y then Some b else if rt m1 = Some y then Some n else pa s y)" if "y \<in> ?U" for y
    using p5(4) nU [OF that] by simp
  have r1: "rt m1 \<noteq> Some y" if "y \<in> set_tree x \<union> set_tree e \<union> set_tree m2" for y using rin(1) [of y] that dis(7,8) by auto
  have r2: "rt m2 \<noteq> Some y" if "y \<in> set_tree x \<union> set_tree e \<union> set_tree m1" for y using rin(2) [of y] that dis(7-9) by auto
  have "\<forall>y \<in> set_tree x \<union> set_tree e. pa s5 y = pa s y" using pU r1 r2 by (intro ballI, elim UnE) simp_all
  then have "tree_at (ch s5) (pa s5) n (ch s n side) x" "tree_at (ch s5) (pa s5) b (ch s b (\<not> side)) e"
    using sep by (auto intro!: tree_at_frame [OF t(3)] tree_at_frame [OF t(10)])
  moreover have "\<forall>y \<in> set_tree m1. pa s5 y = (if rt m1 = Some y then Some n else pa s y)"
    using pU r2 by (intro ballI) simp
  then have "tree_at (ch s5) (pa s5) n (ch s c side) m1" using sep by (intro tree_at_move [OF t(8) dis(11)]) auto
  moreover have "\<forall>y \<in> set_tree m2. pa s5 y = (if rt m2 = Some y then Some b else pa s y)"
    using pU r1 by (intro ballI) simp
  then have "tree_at (ch s5) (pa s5) b (ch s c (\<not> side)) m2" using sep by (intro tree_at_move [OF t(9) dis(12)]) auto
  ultimately have "tree_at (ch s5) (pa s5) a (ch s5 a j) (mk side (mk side x n m1) c (mk side m2 b e))"
    using c5(1-4) p5(1-3) rts by (simp add: tree_at_mk)
  moreover have "\<forall>y \<in> insert root (around k). pa s5 y = pa s y \<and> (y \<noteq> a \<longrightarrow> ch s5 y = ch s y)"
  proof
    fix y
    assume "y \<in> insert root (around k)"
    then have y: "y \<notin> {n, b, c} \<union> ?U" using out [of y] by blast
    then have "rt m1 \<noteq> Some y" "rt m2 \<noteq> Some y" using rin(1,2) [of y] by blast+
    with y show "pa s5 y = pa s y \<and> (y \<noteq> a \<longrightarrow> ch s5 y = ch s y)" using c5(5) [of y] p5(4) [of y] by simp
  qed
  then have "ctx_at (ch s5) (pa s5) root k" using c5(4) by (intro ctx_at_frame [OF d(1) h d(3,4)]) auto
  moreover have "height (plug k (mk side (mk side x n m1) c (mk side m2 b e))) < 255"
    using r height_plug [OF hT, of k] by (simp add: avl_rep_def)
  ultimately have "avl_rep root s5 (plug k (mk side (mk side x n m1) c (mk side m2 b e)))"
    using d(3-6) k5 h by (intro repI) (auto simp: distinct_mk avl_keeps_def)
  moreover have "untouched ?X s s5"
    using k5 c5(5) p5(4) d(9) rin(1,2) by (auto simp: untouched_def nodes_eq avl_keeps_def)
  ultimately show ?thesis
    using s1(1) s2(1) s3(1) s4(1) s5(1) bias i t rts by (auto simp: rotate_subtree_def child_simps Let_def)
qed

lemma mk_swap: "mk (\<not> i) u b t = mk i t b u"
  by (simp add: mk_def)

lemma mk_sub: "mk i (sub i (Node l n r)) n (sub (\<not> i) (Node l n r)) = Node l n r"
  by (simp add: mk_def sub_def)

lemma rebalance_spec:
  assumes r: "avl_rep root s (plug k (Node l n u))" and h: "hold root k = (a, j)"
  shows "\<exists>s'. rebalance_subtree P a n s = Some s' \<and> avl_rep root s' (plug k (rebal (Node l n u))) \<and>
    untouched (whole root k (Node l n u)) s s'"
proof -
  have hd: "cdep s n LEFT = int (height l)" "cdep s n RIGHT = int (height u)"
    using cdep_height [of root s k LEFT l n u] r by (auto simp: mk_def)
  define side where "side = (height u < height l)"
  have v: "(cdep s n RIGHT - cdep s n LEFT < 0) = side" unfolding hd side_def by linarith
  show ?thesis
  proof (cases "height l < height u + 2 \<and> height u < height l + 2")
    case True
    then show ?thesis using r by (auto simp: rebalance_subtree_def child_depth_cdep hd untouched_def Let_def)
  next
    case False
    then have reb: "rebalance_subtree P a n s = rotate_subtree P a n side s" "rebal (Node l n u) = rot side (Node l n u)"
      unfolding rebalance_subtree_def child_depth_cdep Let_def v by (auto simp: hd side_def)
    define x d where xd: "x = sub side (Node l n u)" "d = sub (\<not> side) (Node l n u)"
    have T: "Node l n u = mk side x n d" using mk_sub [of side l n u] by (simp add: xd)
    have hx: "height x + 2 \<le> height d" using False by (cases side) (auto simp: xd sub_def side_def)
    then obtain dl b dr where dn: "d = Node dl b dr" by (cases d) auto
    define m e where me: "m = sub side d" "e = sub (\<not> side) d"
    have D: "d = mk side m b e" using mk_sub [of side dl b dr] by (simp add: me dn)
    have "avl_rep root s (plug ((\<not> side, n, x) # k) (mk side m b e))" using r by (simp add: T D mk_swap)
    from cdep_height [OF this] have bias: "bias (nodes s) b = (if side then height e < height m else height m < height e)"
      by (cases side) (auto simp: bias_def child_depth_cdep)
    show ?thesis
    proof (cases "bias (nodes s) b = (\<not> side)")
      case True
      have R: "rot side (Node l n u) = mk side (mk side x n m) b e"
        using True bias unfolding T D by (cases side) (auto simp: rot_def mk_def sub_def)
      have "height (mk side (mk side x n m) b e) \<le> height (mk side x n d)"
        using hx True bias unfolding D by (cases side) (auto simp: not_less)
      from rotate_simple [OF r [unfolded T D] h True this [unfolded D], of P] show ?thesis
        unfolding reb R unfolding T D .
    next
      case False
      with bias have me': "height e \<le> height m" by (cases side) auto
      then have "m \<noteq> Leaf" using hx by (auto simp: D)
      then obtain c m1 m2 where M: "m = mk side m1 c m2" using mk_sub by (metis neq_Leaf_iff)
      have R: "rot side (Node l n u) = mk side (mk side x n m1) c (mk side m2 b e)"
        using False bias unfolding T D M by (cases side) (auto simp: rot_def mk_def sub_def)
      have "height (mk side (mk side x n m1) c (mk side m2 b e)) \<le> height (mk side x n d)"
        using hx me' unfolding D M by simp linarith
      from rotate_double [OF r [unfolded T D M] h _ this [unfolded D M], of P] False show ?thesis
        unfolding reb R unfolding T D M by blast
    qed
  qed
qed

lemma recompute_depth_rep:
  assumes r: "avl_rep root s t" and a: "a \<in> insert root (set_tree t)"
  shows "\<exists>s'. recompute_depth P a s = Some s' \<and> avl_rep root s' t \<and> pa s' = pa s \<and> untouched {} s s'"
proof -
  obtain s' where s': "recompute_depth P a s = Some s'" "deeper {} s s'"
    using recompute_depth_idle [of s a P] r a by (auto simp: avl_rep_def)
  then have "ch s' = ch s \<and> pa s' = pa s \<and> dp s' = dp s" by (auto simp: deeper_def)
  with s' r show ?thesis using avl_rep_cong [of s' s root t] by (auto simp: untouched_def nodes_eq)
qed

section \<open>Insertion\<close>

text \<open>A node that may be inserted: without children and with the depth of a leaf.\<close>

definition fresh_node :: "('n, 'd) avl_state \<Rightarrow> 'n \<Rightarrow> bool" where
  "fresh_node s n \<longleftrightarrow> (\<forall>i. child (nodes s n) i = None) \<and> depth (nodes s n) = 1"

lemma fresh_nodeD: "fresh_node s n \<Longrightarrow> ch s n i = None" "fresh_node s n \<Longrightarrow> lc s n"
  by (auto simp: fresh_node_def child_simps lc_def cdep_def)

lemma adopt_leaf:
  assumes r: "avl_rep root s (plug k Leaf)" and h: "hold root k = (a, j)" and n: "n \<notin> whole root k Leaf" "fresh_node s n"
    and ht: "height (plug k Leaf) < 254"
  shows "\<exists>s'. avl_adopt P a (Some n) j s = Some s' \<and> avl_rep root s' (plug k (Node Leaf n Leaf)) \<and>
    untouched (insert n (whole root k Leaf)) s s'"
proof -
  let ?X = "insert n (whole root k Leaf)"
  note d = repD [OF r h] and f = fresh_nodeD [OF n(2)]
  have "\<exists>s'. avl_adopt P a (Some n) j s = Some s' \<and> ch s' = ch (avl_link a (Some n) j s) \<and>
      pa s' = pa (avl_link a (Some n) j s) \<and> avl_keeps ?X s s'"
  proof (rule adopt_up [where as = "tl (up root k)"], unfold d(13) [symmetric])
    show "\<forall>x \<in> ?X. \<forall>j z. ch s x j = Some z \<and> z \<in> set (up root k) \<longrightarrow> pa s z = Some x" using d(14) f(1) by auto
    show "\<forall>x \<in> ?X - {a}. lc s x" using d(7) f(2) by auto
  qed (use d(10-12) n(1) in auto)
  then obtain s' where s': "avl_adopt P a (Some n) j s = Some s'" "ch s' = (ch s)(a := (ch s a)(j := Some n))"
    "pa s' = (\<lambda>x. if n = x then Some a else pa s x)" "avl_keeps ?X s s'" by auto
  have an: "a \<noteq> n" using d(9) n(1) by auto
  have "ctx_at (ch s') (pa s') root k" by (rule ctx_at_frame [OF d(1) h d(3,4)]) (use s' n(1) in auto)
  moreover have "tree_at (ch s') (pa s') a (ch s' a j) (Node Leaf n Leaf)" using s' an f(1) by simp
  moreover have "height (plug k (Node Leaf n Leaf)) < 255" using height_plug_Suc [of "Node Leaf n Leaf" Leaf k] ht by simp
  ultimately have "avl_rep root s' (plug k (Node Leaf n Leaf))"
    using d(3,4) h n(1) s'(4) by (intro repI) (auto simp: avl_keeps_def)
  moreover have "untouched ?X s s'" using s' d(9) by (auto simp: untouched_def nodes_eq avl_keeps_def)
  ultimately show ?thesis using s'(1) by blast
qed

lemma untouched_mono: "untouched X s s' \<Longrightarrow> X \<subseteq> Y \<Longrightarrow> untouched Y s s'"
  by (auto simp: untouched_def)

lemma insert_spec:
  assumes "avl_rep root s (plug k t)" "hold root k = (a, j)" "n \<notin> whole root k t" "fresh_node s n" "height (plug k t) < 254"
  shows "\<exists>s'. (case rt t of Some b \<Rightarrow> avl_insert P b n s | None \<Rightarrow> avl_adopt P a (Some n) j s) = Some s' \<and>
    avl_rep root s' (plug k (ins (higher P (objects s)) n t)) \<and> untouched (insert n (whole root k t)) s s'"
  using assms
proof (induction t arbitrary: k a j)
  case Leaf
  with adopt_leaf [of root s k a j n P] show ?case by simp
next
  case (Node l b u)
  let ?i = "higher P (objects s) b n" let ?T = "Node l b u"
  define t v where tv: "t = sub ?i ?T" "v = sub (\<not> ?i) ?T"
  have T: "mk ?i t b v = ?T" using mk_sub [of ?i l b u] by (simp add: tv)
  let ?k = "(?i, b, v) # k"
  note d = repD [OF Node.prems(1,2)]
  have nb: "n \<noteq> b" and pb: "pa s b = Some a" using Node.prems(3) d(2) by auto
  have rep: "avl_rep root s (plug ?k t)" using Node.prems(1) T by simp
  have w: "whole root ?k t = whole root k ?T" using T mk_simps(2) [of ?i t b v] by auto
  have "\<exists>s1. (case rt t of Some b' \<Rightarrow> avl_insert P b' n s | None \<Rightarrow> avl_adopt P b (Some n) ?i s) = Some s1 \<and>
      avl_rep root s1 (plug ?k (ins (higher P (objects s)) n t)) \<and> untouched (insert n (whole root ?k t)) s s1"
    using Node.IH(1) [of ?k b ?i] Node.IH(2) [of ?k b ?i] Node.prems(3-5) rep w T unfolding tv
    by (cases ?i) (simp_all add: sub_def)
  then obtain s1 where s1: "(case rt t of Some b' \<Rightarrow> avl_insert P b' n s | None \<Rightarrow> avl_adopt P b (Some n) ?i s) = Some s1"
    "avl_rep root s1 (plug k (mk ?i (ins (higher P (objects s)) n t) b v))" "untouched (insert n (whole root k ?T)) s s1"
    unfolding w by auto
  obtain s2 where s2: "recompute_depth P b s1 = Some s2" "avl_rep root s2 (plug k (mk ?i (ins (higher P (objects s)) n t) b v))"
      "untouched {} s1 s2"
    using recompute_depth_rep [OF s1(2), of b P] by auto
  have pb2: "pa s2 b = Some a" using repD(2) [OF s2(2) Node.prems(2)] by (simp add: tree_at_mk)
  obtain l' u' where m: "mk ?i (ins (higher P (objects s)) n t) b v = Node l' b u'" by (cases ?i) (auto simp: mk_def)
  obtain s3 where s3: "rebalance_subtree P a b s2 = Some s3" "avl_rep root s3 (plug k (rebal (Node l' b u')))"
      "untouched (whole root k (Node l' b u')) s2 s3"
    using rebalance_spec [OF _ Node.prems(2), of s2 l' b u' P] s2(2) m by auto
  have "rebal (Node l' b u') = ins (higher P (objects s)) n ?T" using m by (cases ?i) (auto simp: mk_def tv sub_def)
  moreover have "tree_at (ch s) (pa s) a (ch s a j) (mk ?i t b v)" using d(2) unfolding T .
  then have "rt t = ch s b ?i" using tree_at_rt [of "ch s" "pa s" b "ch s b ?i" t] unfolding tree_at_mk by simp
  then have "avl_insert P b n s = Some s3"
    using s1(1) s2(1) s3(1) nb pb pb2 by (subst avl_insert.simps) (simp add: child_simps)
  moreover have "set_tree (Node l' b u') \<subseteq> insert n (set_tree ?T)" using m [symmetric] T [symmetric] by auto
  then have "untouched (insert n (whole root k ?T)) s s3"
    using s1(3) s2(3) s3(3) by (intro untouched_trans [OF s1(3)] untouched_trans [OF untouched_mono [OF s2(3)]] untouched_mono [OF s3(3)]) auto
  ultimately show ?case using s3(2) by simp
qed

end
