(* ===== verification/Avl_Removal.thy ===== *)
theory Avl_Removal
  imports Avl_Nodes
begin

text \<open>
  Removal of a node: its predecessor takes its place, and the way from there to the root is
  rebalanced, but not always. The properties of the tree are at the end.
\<close>

section \<open>Removal\<close>

text \<open>
  A subtree of the tree at the focus, or none, takes the place of that tree. The nodes that are left
  out keep their pointers and depths.
\<close>

lemma graft:
  assumes r: "avl_rep root s (plug k t)" and h: "hold root k = (a, j)" and t': "tree_at (ch s) (pa s) q x t'"
    and sub: "set_tree t' \<subseteq> set_tree t" "distinct (inorder t')" "height t' \<le> height t"
  shows "\<exists>s'. avl_adopt P a (rt t') j s = Some s' \<and> ch s' = ch (avl_link a (rt t') j s) \<and> pa s' = pa (avl_link a (rt t') j s) \<and>
    avl_rep root s' (plug k t') \<and> avl_keeps (whole root k t) s s'"
proof -
  let ?X = "whole root k t"
  note d = repD [OF r h] and top = rt_in [of t']
  have out: "rt t' \<noteq> Some z" if "z \<in> insert root (around k)" for z using top [of z] that d(6) sub(1) by auto
  have "\<exists>s'. avl_adopt P a (rt t') j s = Some s' \<and> ch s' = ch (avl_link a (rt t') j s) \<and>
      pa s' = pa (avl_link a (rt t') j s) \<and> avl_keeps ?X s s'"
  proof (rule adopt_up [where as = "tl (up root k)"], unfold d(13) [symmetric])
    show "\<forall>x \<in> ?X. \<forall>j z. ch s x j = Some z \<and> z \<in> set (up root k) \<longrightarrow> pa s z = Some x" using d(14) by blast
    show "\<forall>z. rt t' = Some z \<longrightarrow> z \<notin> set (up root k)" using out d(12) by auto
  qed (use d(7,10-12) in auto)
  then obtain s' where s': "avl_adopt P a (rt t') j s = Some s'" "ch s' = ch (avl_link a (rt t') j s)"
    "pa s' = pa (avl_link a (rt t') j s)" "avl_keeps ?X s s'" by auto
  have ne: "a \<notin> set_tree t'" using d(6,9) sub(1) by auto
  have "ctx_at (ch s') (pa s') root k" by (rule ctx_at_frame [OF d(1) h d(3,4)]) (use s'(2,3) out in auto)
  moreover have "tree_at (ch s') (pa s') a x t'" by (rule tree_at_move [OF t' sub(2)]) (use s'(2,3) ne in auto)
  then have "tree_at (ch s') (pa s') a (ch s' a j) t'" using tree_at_rt [OF t'] s'(2) by simp
  moreover have "height (plug k t') < 255" using r height_plug [OF sub(3), of k] by (simp add: avl_rep_def)
  moreover have "set_tree t' \<inter> insert root (around k) = {}" "\<forall>x \<in> whole root k t'. lc s' x"
    using d(6) sub(1) s'(4) by (auto simp: avl_keeps_def)
  ultimately have "avl_rep root s' (plug k t')" using d(3,4) h sub(2) by (intro repI) auto
  with s' show ?thesis by blast
qed

text \<open>Whichever side of its parent a node is at, the loop over both sides replaces it once.\<close>

lemma replace_both:
  assumes a: "pa s a = Some p" "ch s p j = Some a" "ch s p (\<not> j) \<noteq> Some a" "p \<noteq> a" "c \<noteq> Some a"
    and s': "avl_adopt P p c j s = Some s'" "ch s' = ch (avl_link p c j s)" "pa s' = pa (avl_link p c j s)"
  shows "replace_child P a c LEFT s = Some (if j then s else s')"
    "replace_child P a c RIGHT (if j then s else s') = Some s'"
  using assms by (cases j; simp add: replace_child_def child_simps)+

fun rebal_up :: "'n ctx \<Rightarrow> 'n tree \<Rightarrow> 'n tree" where
  "rebal_up [] t = rebal t"
| "rebal_up ((i, b, u) # k) t = rebal_up k (mk i (rebal t) b u)"

lemma rebalance_up_spec:
  assumes "avl_rep root s (plug k t)" "rt t = Some q"
  shows "\<exists>s'. rebalance_up P (Some q) s = Some s' \<and> avl_rep root s' (rebal_up k t) \<and> untouched (whole root k t) s s'"
  using assms
proof (induction k arbitrary: t q s)
  case Nil
  obtain l u where t: "t = Node l q u" using Nil.prems(2) by (cases t) auto
  obtain s' where s': "rebalance_subtree P root q s = Some s'" "avl_rep root s' (rebal t)" "untouched (whole root [] t) s s'"
    using rebalance_spec [of root s "[]" l q u root LEFT P] Nil.prems t by auto
  have "pa s q = Some root" "pa s' root = None"
    using repD(2) [of root s "[]" t root LEFT] Nil.prems(1) s'(2) t by (auto simp: avl_rep_def)
  then have "rebalance_up P (Some q) s = Some s'"
    using s'(1) by (subst rebalance_up.simps, simp add: child_simps, subst rebalance_up.simps, simp add: child_simps)
  with s' show ?case by simp
next
  case (Cons f k)
  obtain i b v where f: "f = (i, b, v)" by (cases f) auto
  obtain l u where t: "t = Node l q u" using Cons.prems(2) by (cases t) auto
  obtain s' where s': "rebalance_subtree P b q s = Some s'" "avl_rep root s' (plug (f # k) (rebal t))" "untouched (whole root (f # k) t) s s'"
    using rebalance_spec [of root s "f # k" l q u b i P] Cons.prems(1) t f by auto
  obtain s2 where s2: "rebalance_up P (Some b) s' = Some s2" "avl_rep root s2 (rebal_up k (mk i (rebal t) b v))"
      "untouched (whole root k (mk i (rebal t) b v)) s' s2"
    using Cons.IH [of s' "mk i (rebal t) b v" b] s'(2) f by auto
  have "pa s q = Some b" using repD(2) [OF Cons.prems(1), of b i] f t by auto
  then have "rebalance_up P (Some q) s = Some s2"
    using s'(1) s2(1) by (subst rebalance_up.simps) (simp add: child_simps)
  moreover have "untouched (whole root (f # k) t) s s2"
    using s'(3) s2(3) f by (intro untouched_trans [OF s'(3)] untouched_mono [OF s2(3)]) auto
  ultimately show ?case using s2(2) f by auto
qed

subsection \<open>The path to the rightmost node\<close>

lemma plug_append: "plug (k1 @ k2) t = plug k2 (plug k1 t)"
  by (induction k1 t rule: plug.induct) auto

lemma rebal_up_append: "rebal_up (k1 @ (i, b, u) # k2) t = rebal_up k2 (mk i (rebal_up k1 t) b u)"
  by (induction k1 t rule: rebal_up.induct) auto

lemma around_append [simp]: "around (k1 @ k2) = around k1 \<union> around k2"
  by (induction k1 rule: around.induct) auto

lemma hold_append: "hold root (k1 @ (i, b, u) # k2) = hold b (k1 @ [(i, b, u)])"
  by (cases k1) auto

text \<open>The rightmost node with its left subtree, and the tree without it, rebalanced or not.\<close>

lemma spine:
  assumes "l \<noteq> Leaf"
  shows "\<exists>ks ll m. l = plug ks (Node ll m Leaf) \<and> snd (split_max l) = Some m \<and> (ks = [] \<longleftrightarrow> right l = Leaf) \<and>
    (case ks of [] \<Rightarrow> fst (split_max l) = ll
     | (i, q, v) # ks' \<Rightarrow> i \<and> fst (split_max l) = rebal_up ks' (Node v q ll))"
  using assms
proof (induction l)
  case (Node x b r)
  show ?case
  proof (cases "r = Leaf")
    case True
    then show ?thesis by (intro exI [of _ "[]"] exI [of _ x] exI [of _ b]) auto
  next
    case False
    then obtain ks ll m where s: "r = plug ks (Node ll m Leaf)" "snd (split_max r) = Some m"
      "case ks of [] \<Rightarrow> fst (split_max r) = ll | (i, q, v) # ks' \<Rightarrow> i \<and> fst (split_max r) = rebal_up ks' (Node v q ll)"
      using Node.IH(2) by auto
    have "fst (split_max (Node x b r)) = rebal (Node x b (fst (split_max r)))" using False by (auto split: prod.splits)
    with s(3) have "case ks @ [(True, b, x)] of [] \<Rightarrow> fst (split_max (Node x b r)) = ll
      | (i, q, v) # ks' \<Rightarrow> i \<and> fst (split_max (Node x b r)) = rebal_up ks' (Node v q ll)"
      by (cases ks) (auto simp: rebal_up_append mk_def simp del: rebal.simps)
    with s(1,2) False show ?thesis
      by (intro exI [of _ "ks @ [(True, b, x)]"] exI [of _ ll] exI [of _ m]) (auto simp: plug_append mk_def split: prod.splits)
  qed
qed simp

lemma rightmost_spec:
  "tree_at (ch s) p q (Some l0) l \<Longrightarrow> rightmost (nodes s) l0 = snd (split_max l)"
proof (induction l arbitrary: q l0)
  case (Node x b r)
  show ?case
  proof (cases r)
    case Leaf
    with Node.prems show ?thesis by (subst rightmost.simps) (simp add: child_simps)
  next
    case (Node r1 c r2)
    then have "snd (split_max (Node x b r)) = snd (split_max r)" by (auto split: prod.splits)
    with Node Node.prems Node.IH(2) [of b c] show ?thesis by (subst rightmost.simps) (simp add: child_simps)
  qed
qed simp

subsection \<open>Taking the place of the removed node\<close>

lemma exchange:
  assumes r: "avl_rep root s (plug k (Node l a u))" and h: "hold root k = (p, j)" and m: "m \<notin> whole root k (Node l a u)"
    and lcm: "lc s m" and chm: "\<And>i z. ch s m i = Some z \<Longrightarrow> z \<in> set_tree l"
  shows "\<exists>s2 s4 s5. avl_adopt P p (Some m) j s = Some s2 \<and> ch s2 = ch (avl_link p (Some m) j s) \<and> pa s2 = pa (avl_link p (Some m) j s) \<and>
    avl_adopt P m (rt l) LEFT s2 = Some s4 \<and> ch s4 a = ch s a \<and> avl_adopt P m (rt u) RIGHT s4 = Some s5 \<and>
    avl_rep root s5 (plug k (Node l m u)) \<and> untouched (insert m (whole root k (Node l a u))) s s5"
proof -
  let ?X = "insert m (whole root k (Node l a u))" let ?up = "up root k"
  note d = repD [OF r h]
  have t: "ch s p j = Some a" "pa s a = Some p" "tree_at (ch s) (pa s) a (ch s a LEFT) l" "tree_at (ch s) (pa s) a (ch s a RIGHT) u"
    using d(2) by auto
  have dis: "a \<notin> set_tree l \<union> set_tree u" "set_tree l \<inter> set_tree u = {}" "distinct (inorder l)" "distinct (inorder u)"
    using d(5) by auto
  have out: "y \<notin> insert root (around k)" "y \<notin> set ?up" if "y \<in> {m, a} \<union> set_tree l \<union> set_tree u" for y
    using that d(6,12) m by auto
  have par: "ch s x i = Some z \<Longrightarrow> z \<in> insert m (set ?up) \<Longrightarrow> pa s z = Some x \<and> z \<noteq> m" if "x \<in> ?X" for x i z
    using that d(14) [of x i z] chm [of i z] m out by (cases "x = m") auto
  have pp: "p \<in> ?X" "p \<noteq> m" "p \<noteq> a" using d(9) m out by auto
  have "\<exists>s2. avl_adopt P p (Some m) j s = Some s2 \<and> ch s2 = ch (avl_link p (Some m) j s) \<and> pa s2 = pa (avl_link p (Some m) j s) \<and> avl_keeps ?X s s2"
  proof (rule adopt_up [where as = "tl ?up"], unfold d(13) [symmetric])
    show "\<forall>x \<in> ?X. \<forall>j z. ch s x j = Some z \<and> z \<in> set ?up \<longrightarrow> pa s z = Some x" using par by blast
  qed (use d(7,10-12) lcm out in auto)
  then obtain s2 where s2: "avl_adopt P p (Some m) j s = Some s2" "ch s2 = (ch s)(p := (ch s p)(j := Some m))"
    "pa s2 = (\<lambda>y. if m = y then Some p else pa s y)" "avl_keeps ?X s s2" by auto
  have up: "chain q (m # ?up)" if "pa q m = Some p" "\<forall>y \<in> set ?up. pa q y = pa s y" for q :: "('a, 'b) avl_state"
    using that d(10,13) chain_cong [of ?up q s] by (metis chain.simps(3))
  have du: "distinct (m # ?up)" "set (m # ?up) \<subseteq> ?X" using d(11,12) out by auto
  have "\<exists>s4. avl_adopt P m (rt l) LEFT s2 = Some s4 \<and> ch s4 = ch (avl_link m (rt l) LEFT s2) \<and> pa s4 = pa (avl_link m (rt l) LEFT s2) \<and> avl_keeps ?X s2 s4"
  proof (rule adopt_up [OF up du])
    show "\<forall>x \<in> ?X. \<forall>i z. ch s2 x i = Some z \<and> z \<in> set (m # ?up) \<longrightarrow> pa s2 z = Some x"
      using par s2(2,3) by (auto split: if_splits)
    show "\<forall>z. rt l = Some z \<longrightarrow> z \<notin> set (m # ?up)" using rt_in [of l] out m by auto
  qed (use s2(3,4) out in \<open>auto simp: avl_keeps_def\<close>)
  then obtain s4 where s4: "avl_adopt P m (rt l) LEFT s2 = Some s4" "ch s4 = (ch s2)(m := (ch s2 m)(LEFT := rt l))"
    "pa s4 = (\<lambda>y. if rt l = Some y then Some m else pa s2 y)" "avl_keeps ?X s2 s4" by auto
  have lo: "rt l \<noteq> Some y" "rt u \<noteq> Some y" if "y \<in> insert m (insert a (insert root (around k)))" for y
    using that rt_in [of l y] rt_in [of u y] out m dis(1) by auto
  have lou: "rt l \<noteq> Some y" if "y \<in> set ?up" for y using lo(1) [of y] that d(12) by blast
  have "\<exists>s5. avl_adopt P m (rt u) RIGHT s4 = Some s5 \<and> ch s5 = ch (avl_link m (rt u) RIGHT s4) \<and> pa s5 = pa (avl_link m (rt u) RIGHT s4) \<and> avl_keeps ?X s4 s5"
  proof (rule adopt_up [OF up du])
    show "pa s4 m = Some p" "\<forall>y \<in> set ?up. pa s4 y = pa s y" using s4(3) s2(3) lo(1) lou out by auto
    show "\<forall>x \<in> ?X. \<forall>i z. ch s4 x i = Some z \<and> z \<in> set (m # ?up) \<longrightarrow> pa s4 z = Some x"
    proof (intro ballI allI impI)
      fix x i z
      assume x: "x \<in> ?X" "ch s4 x i = Some z \<and> z \<in> set (m # ?up)"
      then have z: "rt l \<noteq> Some z" using lo d(12) by auto
      with x s4(2) have "ch s2 x i = Some z" by (auto split: if_splits)
      then have "pa s2 z = Some x" using par [OF x(1), of i z] x(2) s2(2,3) by (auto split: if_splits)
      with z s4(3) show "pa s4 z = Some x" by simp
    qed
    show "\<forall>z. rt u = Some z \<longrightarrow> z \<notin> set (m # ?up)" using rt_in [of u] out m by auto
  qed (use s4(4) in \<open>auto simp: avl_keeps_def\<close>)
  then obtain s5 where s5: "avl_adopt P m (rt u) RIGHT s4 = Some s5" "ch s5 = (ch s4)(m := (ch s4 m)(RIGHT := rt u))"
    "pa s5 = (\<lambda>y. if rt u = Some y then Some m else pa s4 y)" "avl_keeps ?X s4 s5" by auto
  have k5: "avl_keeps ?X s s5" using s2(4) s4(4) s5(4) by (blast intro: keeps_trans)
  have c5: "ch s5 p = (ch s p)(j := Some m)" "ch s5 m = (\<lambda>i. if i then rt u else rt l)" "\<And>y. y \<notin> {p, m} \<Longrightarrow> ch s5 y = ch s y"
    and p5: "\<And>y. y \<noteq> m \<Longrightarrow> pa s5 y = (if rt u = Some y \<or> rt l = Some y then Some m else pa s y)" "pa s5 m = Some p"
    using lo pp by (simp_all add: s5(2,3) s4(2,3) s2(2,3)) (auto simp: fun_eq_iff)
  have nt: "y \<notin> {p, m}" if "y \<in> set_tree l \<union> set_tree u" for y using that m d(6,9) by auto
  have sides: "rt u \<noteq> Some y" if "y \<in> set_tree l" for y using that rt_in [of u y] dis(2) by auto
  have sides': "rt l \<noteq> Some y" if "y \<in> set_tree u" for y using that rt_in [of l y] dis(2) by auto
  have "tree_at (ch s5) (pa s5) m (ch s a LEFT) l"
    by (rule tree_at_move [OF t(3) dis(3)]) (use c5(3) p5(1) nt sides in simp_all)
  moreover have "tree_at (ch s5) (pa s5) m (ch s a RIGHT) u"
    by (rule tree_at_move [OF t(4) dis(4)]) (use c5(3) p5(1) nt sides' in simp_all)
  ultimately have "tree_at (ch s5) (pa s5) p (ch s5 p j) (Node l m u)"
    using c5(1,2) p5(2) tree_at_rt [OF t(3)] tree_at_rt [OF t(4)] by simp
  moreover have "pa s5 x = pa s x \<and> (x \<noteq> p \<longrightarrow> ch s5 x = ch s x)" if x: "x \<in> insert root (around k)" for x
    using lo [of x] x m c5(3) [of x] p5(1) [of x] by (cases "x = m") auto
  then have "ctx_at (ch s5) (pa s5) root k" using c5(1) by (intro ctx_at_frame [OF d(1) h d(3,4)]) auto
  moreover have "height (plug k (Node l m u)) < 255"
    using r height_plug [of "Node l m u" "Node l a u" k] by (simp add: avl_rep_def)
  ultimately have "avl_rep root s5 (plug k (Node l m u))"
    using d(3,4,6) h m dis k5 by (intro repI) (auto simp: avl_keeps_def)
  moreover have "nodes s5 x = nodes s x" if x: "x \<notin> ?X" for x
  proof -
    have "x \<noteq> p" "x \<noteq> m" "rt u \<noteq> Some x" "rt l \<noteq> Some x" using x pp(1) rt_in [of u x] rt_in [of l x] by auto
    then show ?thesis using x k5 c5(3) [of x] p5(1) [of x] by (simp add: nodes_eq avl_keeps_def)
  qed
  then have "untouched ?X s s5" by (simp add: untouched_def)
  moreover have "ch s4 a = ch s a" using s4(2) s2(2) m pp by auto
  ultimately show ?thesis using s2 s4(1) s5(1) by (intro exI [of _ s2] exI [of _ s4] exI [of _ s5]) simp
qed

subsection \<open>The whole removal\<close>

lemma exists_plug: "a \<in> set_tree t \<Longrightarrow> \<exists>k l u. t = plug k (Node l a u)"
proof (induction t)
  case (Node l b u)
  consider "a = b" | "a \<in> set_tree l" | "a \<in> set_tree u" using Node.prems by auto
  then show ?case
  proof cases
    case 1
    then show ?thesis by (intro exI [of _ "[]"]) auto
  next
    case 2
    then obtain k x y where "l = plug k (Node x a y)" using Node.IH(1) by blast
    then show ?thesis by (intro exI [of _ "k @ [(False, b, u)]"]) (auto simp: plug_append mk_def)
  next
    case 3
    then obtain k x y where "u = plug k (Node x a y)" using Node.IH(2) by blast
    then show ?thesis by (intro exI [of _ "k @ [(True, b, l)]"]) (auto simp: plug_append mk_def)
  qed
qed simp

lemma del_plug:
  assumes "distinct (inorder (plug k t))" "a \<in> set_tree t" "del a t = (t', f)" "f \<longrightarrow> t' = rebal t2"
  shows "fst (del a (plug k t)) = (if f then rebal_up k t2 else plug k t')"
  using assms
proof (induction k arbitrary: t t' t2)
  case (Cons g k)
  obtain i b v where g: "g = (i, b, v)" by (cases g) auto
  let ?t = "mk i t b v"
  have d: "b \<notin> set_tree t" "set_tree t \<inter> set_tree v = {}" using Cons.prems(1) by (auto simp: g distinct_plug distinct_mk)
  then have ab: "a \<noteq> b" "a \<notin> set_tree v" using Cons.prems(2) by auto
  have "del a ?t = (if f then rebal (mk i t' b v) else mk i t' b v, f)"
    using ab Cons.prems(2,3) by (cases i) (auto simp: mk_def simp del: rebal.simps)
  from Cons.IH [OF _ _ this, of "mk i t' b v"] Cons.prems g show ?case by (cases f) (auto simp del: rebal.simps)
qed auto

lemma set_del: "distinct (inorder t) \<Longrightarrow> set_tree (fst (del a t)) = set_tree t - {a}"
  using inorder_del [of t a] set_inorder [of "fst (del a t)"] by (metis set_inorder set_removeAll)

definition reset_links :: "'n \<Rightarrow> ('n, 'd) avl_state \<Rightarrow> ('n, 'd) avl_state" where
  "reset_links a s = s\<lparr>nodes := (nodes s)(a := (nodes s a)\<lparr>child := (\<lambda>_. None), parent := None\<rparr>)\<rparr>"

lemma avl_rep_frame:
  assumes r: "avl_rep root s t" and f: "\<forall>x \<in> insert root (set_tree t). nodes s' x = nodes s x"
  shows "avl_rep root s' t"
proof -
  have e: "ch s' x = ch s x" "pa s' x = pa s x" "dp s' x = dp s x" if "x \<in> insert root (set_tree t)" for x
    using f that nodes_eq [of s' x s] by auto
  have "tree_at (ch s') (pa s') root (ch s root LEFT) t"
    by (rule tree_at_frame [of "ch s" "pa s"]) (use r e in \<open>auto simp: avl_rep_def\<close>)
  moreover have "lc s' x" if x: "x \<in> insert root (set_tree t)" for x
  proof -
    have "lc s' x = lc s x"
      by (rule lc_cong) (use e [OF x] e(3) x repD(14) [of root s "[]" t root LEFT x] r in auto)
    then show ?thesis using r x by (auto simp: avl_rep_def)
  qed
  ultimately show ?thesis using r e [of root] by (simp add: avl_rep_def)
qed

lemma reset_rep:
  assumes "avl_rep root s t" "a \<notin> insert root (set_tree t)" "untouched X s0 s" "a \<in> X"
  shows "avl_rep root (reset_links a s) t" "untouched X s0 (reset_links a s)"
  using assms by (auto simp: reset_links_def untouched_def intro!: avl_rep_frame [OF assms(1)])

lemma sibling_ne:
  assumes r: "avl_rep root s (plug k (Node l a u))" and h: "hold root k = (p, j)"
  shows "pa s a = Some p" "ch s p j = Some a" "ch s p (\<not> j) \<noteq> Some a" "p \<noteq> a"
proof -
  note d = repD [OF r h]
  show "pa s a = Some p" "ch s p j = Some a" using d(2) by auto
  show "p \<noteq> a" using d(6,9) by auto
  show "ch s p (\<not> j) \<noteq> Some a"
  proof (cases k)
    case Nil
    then show ?thesis using d(1) h by auto
  next
    case (Cons g k')
    then obtain v where "k = (j, p, v) # k'" using h by (cases g) auto
    then show ?thesis using tree_at_top [of "ch s" "pa s" p _ v a] d(1,6) by auto
  qed
qed

lemma remove_no_left:
  assumes r: "avl_rep root s (plug k (Node Leaf a u))"
  shows "\<exists>s'. avl_remove P a s = Some s' \<and> avl_rep root s' (plug k u) \<and> untouched (whole root k (Node Leaf a u)) s s'"
proof -
  obtain p j where h: "hold root k = (p, j)" by (cases "hold root k") auto
  note d = repD [OF r h] and sb = sibling_ne [OF r h]
  have t: "ch s a LEFT = None" "tree_at (ch s) (pa s) a (ch s a RIGHT) u" "rt u = ch s a RIGHT"
    using d(2) tree_at_rt [of "ch s" "pa s" a "ch s a RIGHT" u] by auto
  obtain s1 where s1: "avl_adopt P p (rt u) j s = Some s1" "ch s1 = ch (avl_link p (rt u) j s)" "pa s1 = pa (avl_link p (rt u) j s)"
      "avl_rep root s1 (plug k u)" "avl_keeps (whole root k (Node Leaf a u)) s s1"
    using graft [OF r h t(2)] d(5) by auto
  have ua: "rt u \<noteq> Some a" "a \<notin> insert root (around k \<union> set_tree u)" using rt_in [of u a] d(5,6) by auto
  note rb = replace_both [OF sb ua(1) s1(1-3)]
  have cu: "ch (if j then s else s1) a RIGHT = rt u" using s1(2) sb(4) t(3) by auto
  have "untouched (whole root k (Node Leaf a u)) s s1"
    using s1(2,3,5) d(9) rt_in [of u] by (auto simp: untouched_def nodes_eq avl_keeps_def)
  then have "avl_rep root (reset_links a s1) (plug k u)" "untouched (whole root k (Node Leaf a u)) s (reset_links a s1)"
    using reset_rep [OF s1(4), of a] ua(2) by auto
  moreover have "avl_remove P a s = Some (reset_links a s1)"
    unfolding avl_remove_def child_simps t(1) t(3) [symmetric]
    using rb cu by (simp add: child_simps rebalance_up.simps reset_links_def)
  ultimately show ?thesis by blast
qed

lemma rt_plug: "ks \<noteq> [] \<Longrightarrow> rt (plug ks t) = Some z \<Longrightarrow> z \<in> around ks"
proof (induction ks arbitrary: t)
  case (Cons g ks)
  obtain i b v where g: "g = (i, b, v)" by (cases g) auto
  with Cons show ?case by (cases "ks = []") auto
qed simp

lemma del_left:
  assumes "distinct (inorder (plug k (Node l a u)))" and sp: "l = plug ks (Node ll m Leaf)" "snd (split_max l) = Some m" "ks = [] \<longleftrightarrow> right l = Leaf"
    "case ks of [] \<Rightarrow> fst (split_max l) = ll | (i, q, v) # ks' \<Rightarrow> i \<and> fst (split_max l) = rebal_up ks' (Node v q ll)"
  shows "fst (del a (plug k (Node l a u))) = (case ks of
      [] \<Rightarrow> plug k (Node ll m u)
    | (i, q, v) # ks' \<Rightarrow> rebal_up (ks' @ (LEFT, m, u) # k) (Node v q ll))"
proof (cases ks)
  case Nil
  then have "del a (Node l a u) = (Node ll m u, False)" using sp(1) by (simp add: del_root_def)
  from del_plug [OF assms(1) _ this] show ?thesis by (simp add: Nil)
next
  case (Cons g ks')
  obtain i q v where g: "g = (i, q, v)" by (cases g) auto
  obtain x c y where l: "l = Node x c y" "y \<noteq> Leaf" using sp(3) Cons by (cases l) (use sp(2) in auto)
  have "del a (Node l a u) = (rebal (Node (fst (split_max l)) m u), True)"
    using sp(2) l by (auto simp: del_root_def simp del: rebal.simps split: prod.splits)
  from del_plug [OF assms(1) _ this, of "Node (fst (split_max l)) m u"] sp(4) show ?thesis
    by (simp add: Cons g rebal_up_append mk_def)
qed

lemma remove_left:
  assumes r: "avl_rep root s (plug k (Node l a u))" and l: "l \<noteq> Leaf"
  shows "\<exists>s'. avl_remove P a s = Some s' \<and> avl_rep root s' (fst (del a (plug k (Node l a u)))) \<and>
    untouched (whole root k (Node l a u)) s s'"
proof -
  let ?T = "Node l a u" let ?W = "whole root k ?T"
  obtain p j where h: "hold root k = (p, j)" by (cases "hold root k") auto
  note d = repD [OF r h]
  obtain ks ll m where sp: "l = plug ks (Node ll m Leaf)" "snd (split_max l) = Some m" "ks = [] \<longleftrightarrow> right l = Leaf"
    "case ks of [] \<Rightarrow> fst (split_max l) = ll | (i, q, v) # ks' \<Rightarrow> i \<and> fst (split_max l) = rebal_up ks' (Node v q ll)"
    using spine [OF l] by auto
  define l' where "l' = plug ks ll"
  let ?k = "ks @ (LEFT, a, u) # k"
  have full: "plug ?k t = plug k (Node (plug ks t) a u)" for t by (simp add: plug_append mk_def)
  obtain q i where hm: "hold root ?k = (q, i)" by (cases "hold root ?k") auto
  have rm: "avl_rep root s (plug ?k (Node ll m Leaf))" using r unfolding full sp(1) .
  note dm = repD [OF rm hm]
  have wm: "whole root ?k (Node ll m Leaf) = ?W" by (auto simp: sp(1))
  have tm: "ch s q i = Some m" "pa s m = Some q" "tree_at (ch s) (pa s) m (ch s m LEFT) ll" "ch s m RIGHT = None"
    "rt ll = ch s m LEFT" using dm(2) tree_at_rt [of "ch s" "pa s" m "ch s m LEFT" ll] by auto
  have dll: "distinct (inorder ll)" "m \<notin> set_tree ll" using dm(5) by auto
  obtain s1 where s1: "avl_adopt P q (rt ll) i s = Some s1" "ch s1 = ch (avl_link q (rt ll) i s)" "pa s1 = pa (avl_link q (rt ll) i s)"
      "avl_rep root s1 (plug k (Node l' a u))" "avl_keeps ?W s s1"
    using graft [OF rm hm tm(3) _ dll(1), of P] unfolding full wm l'_def by auto
  have mq: "q \<noteq> m" "rt ll \<noteq> Some m" using dm(6,9) dll rt_in [of ll m] by auto
  have m1: "ch s1 m = ch s m" "pa s1 m = Some q" using s1(2,3) mq tm(2) by auto
  have mo: "m \<notin> whole root k (Node l' a u)" using dm(5,6) by (auto simp: l'_def)
  have lcm: "lc s1 m" using s1(5) by (auto simp: avl_keeps_def sp(1))
  have chm: "z \<in> set_tree l'" if "ch s1 m i = Some z" for i z
    using that tm(4,5) rt_in [of ll z] m1(1) by (cases i) (auto simp: l'_def)
  obtain s2 s4 s5 where s2: "avl_adopt P p (Some m) j s1 = Some s2" "ch s2 = ch (avl_link p (Some m) j s1)" "pa s2 = pa (avl_link p (Some m) j s1)"
    and s4: "avl_adopt P m (rt l') LEFT s2 = Some s4" "ch s4 a = ch s1 a" and s5: "avl_adopt P m (rt u) RIGHT s4 = Some s5"
      "avl_rep root s5 (plug k (Node l' m u))" "untouched (insert m (whole root k (Node l' a u))) s1 s5"
    using exchange [OF s1(4) h mo lcm, where P = P] chm by blast
  note sb = sibling_ne [OF s1(4) h]
  have "m \<noteq> a" using mo by auto
  note rb = replace_both [OF sb _ s2] 
  have w1: "insert m (whole root k (Node l' a u)) \<subseteq> ?W" "untouched ?W s s1"
    using s1(2,3,5) dm(9) rt_in [of ll] wm by (auto simp: l'_def sp(1) untouched_def nodes_eq avl_keeps_def)
  have ch1: "ch s1 a LEFT = rt l'" "ch s1 a RIGHT = rt u" "p \<noteq> a"
    using repD(2) [OF s1(4) h] tree_at_rt sb(4) by fastforce+
  have chl: "ch s a LEFT = rt l" using d(2) tree_at_rt [of "ch s" "pa s" a "ch s a LEFT" l] by simp
  obtain l0 where l0: "rt l = Some l0" using l by (cases l) auto
  have rmo: "rightmost (nodes s) l0 = Some m"
    using rightmost_spec [of s "pa s" a l0 l] d(2) chl l0 sp(2) by simp
  have kn: "ks = [] \<longleftrightarrow> l0 = m" "ks = [] \<longleftrightarrow> q = a" "ks = [] \<Longrightarrow> i = LEFT" "ks \<noteq> [] \<Longrightarrow> i"
  proof -
    have "a \<notin> set_tree l" "m \<notin> around ks" using d(5) r by (auto simp: sp(1) distinct_plug)
    then show "ks = [] \<longleftrightarrow> l0 = m" "ks = [] \<longleftrightarrow> q = a" "ks = [] \<Longrightarrow> i = LEFT" "ks \<noteq> [] \<Longrightarrow> i"
      using l0 rt_plug [of ks "Node ll m Leaf" l0] hm sp(1,4) by (cases ks; auto)+
  qed
  have isolate: "(if m = l0 then avl_adopt P a (rt ll) LEFT s else avl_adopt P q (rt ll) RIGHT s) = Some s1"
    using kn s1(1) by (cases "ks = []") auto
  obtain s6 where s6: "rebalance_up P (if q \<noteq> a then Some q else None) s5 = Some s6"
    "avl_rep root s6 (fst (del a (plug k ?T)))" "untouched ?W s5 s6"
  proof (cases ks)
    case Nil
    with s5(2) show ?thesis using that [of s5] kn(2) del_left [OF _ sp, of k a u] r
      by (simp add: rebalance_up.simps untouched_def l'_def avl_rep_def)
  next
    case (Cons g ks')
    then obtain v where g: "g = (True, q, v)" using hm sp(4) by (cases g) auto
    have "avl_rep root s5 (plug (ks' @ (LEFT, m, u) # k) (Node v q ll))"
      using s5(2) by (simp add: l'_def Cons g plug_append mk_def)
    from rebalance_up_spec [OF this, of q P] obtain s' where s': "rebalance_up P (Some q) s5 = Some s'"
      "avl_rep root s' (rebal_up (ks' @ (LEFT, m, u) # k) (Node v q ll))"
      "untouched (whole root (ks' @ (LEFT, m, u) # k) (Node v q ll)) s5 s'" by auto
    have "fst (del a (plug k ?T)) = rebal_up (ks' @ (LEFT, m, u) # k) (Node v q ll)"
      using del_left [OF _ sp, of k a u] r Cons g by (simp add: avl_rep_def)
    moreover have "untouched ?W s5 s'" by (rule untouched_mono [OF s'(3)]) (auto simp: sp(1) Cons g)
    ultimately show ?thesis using that [of s'] s' kn(2) Cons by simp
  qed
  have "a \<notin> insert root (set_tree (fst (del a (plug k ?T))))"
    using set_del [of "plug k ?T" a] d(6) r by (auto simp: avl_rep_def)
  moreover have "untouched ?W s s6"
    by (intro untouched_trans [OF w1(2)] untouched_trans [OF untouched_mono [OF s5(3) w1(1)]] s6(3))
  ultimately have "avl_rep root (reset_links a s6) (fst (del a (plug k ?T)))" "untouched ?W s (reset_links a s6)"
    using reset_rep [OF s6(2), of a ?W s] by auto
  moreover have "avl_remove P a s = Some (reset_links a s6)"
    unfolding avl_remove_def child_simps chl l0 option.case rmo bind.bind_lunit tm(5) [symmetric] tm(2) isolate Let_def m1(2)
    using rb \<open>m \<noteq> a\<close> s4 ch1 s5(1) s6(1) s2(2) sb(4) by (simp add: child_simps reset_links_def)
  ultimately show ?thesis by blast
qed

lemma avl_remove_rep:
  assumes r: "avl_rep root s t" and a: "a \<in> set_tree t"
  shows "\<exists>s'. avl_remove P a s = Some s' \<and> avl_rep root s' (fst (del a t)) \<and>
    untouched (insert root (set_tree t)) s s' \<and> (\<forall>i. child (nodes s' a) i = None) \<and> parent (nodes s' a) = None"
proof -
  obtain k l u where t: "t = plug k (Node l a u)" using exists_plug [OF a] by blast
  have "\<exists>s'. avl_remove P a s = Some s' \<and> avl_rep root s' (fst (del a t)) \<and> untouched (insert root (set_tree t)) s s'"
  proof (cases "l = Leaf")
    case True
    have "del a (Node Leaf a u) = (u, False)" by (simp add: del_root_def)
    then have "fst (del a t) = plug k u" using r del_plug [of k "Node Leaf a u" a u False] by (simp add: t True avl_rep_def)
    with remove_no_left [of root s k a u P] r show ?thesis by (simp add: t True)
  next
    case False
    with remove_left [of root s k l a u P] r show ?thesis by (simp add: t)
  qed
  moreover have "(\<forall>i. child (nodes s' a) i = None) \<and> parent (nodes s' a) = None" if "avl_remove P a s = Some s'" for s'
    using that by (auto simp: avl_remove_def split: Option.bind_splits)
  ultimately show ?thesis by blast
qed

lemma avl_insert_rep:
  assumes r: "avl_rep root s t" and n: "n \<notin> insert root (set_tree t)" "fresh_node s n" and h: "height t < 254"
  shows "\<exists>s'. avl_insert P root n s = Some s' \<and> avl_rep root s' (ins (higher P (objects s)) n t) \<and>
    untouched (insert n (insert root (set_tree t))) s s'"
proof -
  obtain s1 where s1: "(case rt t of Some b \<Rightarrow> avl_insert P b n s | None \<Rightarrow> avl_adopt P root (Some n) LEFT s) = Some s1"
    "avl_rep root s1 (ins (higher P (objects s)) n t)" "untouched (insert n (insert root (set_tree t))) s s1"
    using insert_spec [of root s "[]" t root LEFT n P] assms by auto
  obtain s2 where s2: "recompute_depth P root s1 = Some s2" "avl_rep root s2 (ins (higher P (objects s)) n t)" "untouched {} s1 s2" "pa s2 = pa s1"
    using recompute_depth_rep [OF s1(2), of root P] by auto
  have "pa s root = None" "rt t = ch s root LEFT" "pa s2 root = None"
    using r s2(2) tree_at_rt [of "ch s" "pa s" root "ch s root LEFT" t] by (auto simp: avl_rep_def)
  then have "avl_insert P root n s = Some s2"
    using s1(1) s2(1) n(1) by (subst avl_insert.simps) (simp add: child_simps)
  with s1(3) s2(2,3) show ?thesis by (auto simp: untouched_def)
qed

lemma avl_for_each_rep:
  "tree_at (ch s) p q x t \<Longrightarrow> avl_for_each (nodes s) f x e = Some (fold f (inorder t) e)"
proof (induction t arbitrary: q x e)
  case Leaf
  then show ?case by (subst avl_for_each.simps) simp
next
  case (Node l a r)
  then have "avl_for_each (nodes s) f (ch s a LEFT) e = Some (fold f (inorder l) e)"
    "avl_for_each (nodes s) f (ch s a RIGHT) e' = Some (fold f (inorder r) e')" for e' by auto
  with Node.prems show ?case by (subst avl_for_each.simps) (simp add: child_simps)
qed

lemma avl_first_each:
  "avl_rep root s t \<Longrightarrow> avl_for_each (nodes s) f (avl_first root s) e = Some (fold f (inorder t) e)"
  by (auto simp: avl_rep_def avl_first_def child_simps intro!: avl_for_each_rep)

subsection \<open>Runs\<close>

text \<open>A client that constructs and inserts nodes, and removes them.\<close>

datatype 'n avl_cmd = Construct_insert 'n | Reinsert 'n | Remove 'n

fun avl_exec :: "('n, 'd) policy \<Rightarrow> 'n \<Rightarrow> 'n avl_cmd \<Rightarrow> ('n, 'd) avl_state \<Rightarrow> ('n, 'd) avl_state option" where
  "avl_exec P root (Construct_insert n) s = avl_insert P root n (s\<lparr>nodes := (nodes s)(n := avl_node_init)\<rparr>)"
| "avl_exec P root (Reinsert n) s = avl_insert P root n s"
| "avl_exec P root (Remove n) s = avl_remove P n s"

fun avl_run :: "('n, 'd) policy \<Rightarrow> 'n \<Rightarrow> 'n avl_cmd list \<Rightarrow> ('n, 'd) avl_state \<Rightarrow> ('n, 'd) avl_state option" where
  "avl_run P root [] s = Some s"
| "avl_run P root (c # cs) s = do { s1 \<leftarrow> avl_exec P root c s; avl_run P root cs s1 }"

definition by_number :: "(nat, unit) policy" where
  "by_number = \<lparr>higher = (\<lambda>_ x y. x \<le> y), recompute = (\<lambda>_ _ d. d)\<rparr>"

definition no_nodes :: "(nat, unit) avl_state" where
  "no_nodes = \<lparr>nodes = (\<lambda>_. avl_node_init), objects = ()\<rparr>"

section \<open>Properties\<close>

lemma height_split_max: "height (fst (split_max t)) \<le> height t"
proof (induction t)
  case (Node l a r)
  obtain r' n where "split_max r = (r', n)" by fastforce
  with Node height_rebal [of "Node l a r'"] show ?case by (auto simp del: rebal.simps)
qed simp

lemma height_del: "height (fst (del a t)) \<le> height t"
proof (induction t)
  case (Node l b r)
  have "height (fst (del_root l r)) \<le> height (Node l b r)"
  proof (cases l)
    case (Node ll c lr)
    obtain l' n where s: "split_max l = (l', n)" by fastforce
    with height_split_max [of l] have "height l' \<le> height l" by simp
    then have "height (rebal (Node l' n' r)) \<le> height (Node l b r)" for n'
      using height_rebal [of "Node l' n' r"] by (simp del: rebal.simps)
    with s Node show ?thesis by (auto simp: del_root_def simp del: rebal.simps split: option.splits)
  qed (simp add: del_root_def)
  moreover obtain l' fl where "del a l = (l', fl)" by fastforce
  moreover obtain r' fr where "del a r = (r', fr)" by fastforce
  ultimately show ?case
    using Node.IH height_rebal [of "Node l' b r"] height_rebal [of "Node l b r'"] by (auto simp del: rebal.simps)
qed simp

text \<open>A balanced tree with a node for every address of a 64-bit machine has less than 130 levels.\<close>

lemma avl_size: "avl t \<Longrightarrow> 2 ^ (height t div 2) \<le> size1 t"
proof (induction "height t" arbitrary: t rule: less_induct)
  case less
  show ?case
  proof (cases t)
    case (Node l a r)
    then have b: "avl l" "avl r" "height l \<le> height r + 1" "height r \<le> height l + 1" using less.prems by auto
    have hl: "2 ^ (height l div 2) \<le> size1 l" "2 ^ (height r div 2) \<le> size1 r"
      using less.hyps [of l] less.hyps [of r] b Node by auto
    have "height t \<le> height l + 2" "height t \<le> height r + 2" using b Node by auto
    then have "height t div 2 \<le> height l div 2 + 1" "height t div 2 \<le> height r div 2 + 1" by auto
    then have p: "2 ^ (height t div 2) \<le> 2 * (2 :: nat) ^ (height l div 2)" "2 ^ (height t div 2) \<le> 2 * (2 :: nat) ^ (height r div 2)"
      using power_increasing [of "height t div 2" "height l div 2 + 1" "2 :: nat"]
        power_increasing [of "height t div 2" "height r div 2 + 1" "2 :: nat"] by simp_all
    then show ?thesis using hl by (simp add: Node)
  qed simp
qed

lemma avl_height:
  assumes "avl t" "size t < 2 ^ 64"
  shows "height t < 130"
proof (rule ccontr)
  assume "\<not> height t < 130"
  then have "65 \<le> height t div 2" by simp
  then have "(2 :: nat) ^ 65 \<le> 2 ^ (height t div 2)" by (rule power_increasing) simp
  also have "\<dots> \<le> size1 t" by (rule avl_size [OF assms(1)])
  finally show False using assms(2) by (simp add: size1_size)
qed

text \<open>
  \<^bold>\<open>C12.\<close> Inserting a fresh node into a tree that is sorted by a total and transitive order, and that
  is balanced or at least not higher than a depth can tell, always returns. The nodes then form a
  tree whose nodes in order are the old ones with the new one behind all those that are not higher;
  every depth is the height of its subtree; a balanced tree stays balanced; no node outside the tree
  is touched; and a traversal visits the nodes in this order. (\<^verbatim>\<open>base/include/util/avl_tree.h\<close>, \<^verbatim>\<open>base/src/lib/base/avl_tree.cc\<close>)
\<close>

theorem avl_insert_correct:
  assumes "avl_rep root s t" "n \<notin> insert root (set_tree t)" "fresh_node s n"
    and "height t < 254 \<or> avl t \<and> size t < 2 ^ 64"
    and "\<forall>x y z. higher P (objects s) x y \<longrightarrow> higher P (objects s) y z \<longrightarrow> higher P (objects s) x z"
    and "\<forall>x y. higher P (objects s) x y \<or> higher P (objects s) y x"
    and "sorted_wrt (higher P (objects s)) (inorder t)"
  shows "\<exists>s' t'. avl_insert P root n s = Some s' \<and> avl_rep root s' t' \<and>
    inorder t' = ins_list (higher P (objects s)) n (inorder t) \<and> sorted_wrt (higher P (objects s)) (inorder t') \<and>
    (avl t \<longrightarrow> avl t') \<and> untouched (insert n (insert root (set_tree t))) s s' \<and>
    avl_for_each (nodes s') f (avl_first root s') e = Some (fold f (inorder t') e)"
proof -
  let ?hi = "higher P (objects s)"
  have "height t < 254" using assms(4) avl_height [of t] by auto
  then obtain s' where s': "avl_insert P root n s = Some s'" "avl_rep root s' (ins ?hi n t)"
      "untouched (insert n (insert root (set_tree t))) s s'"
    using avl_insert_rep [OF assms(1-3)] by blast
  have i: "inorder (ins ?hi n t) = ins_list ?hi n (inorder t)"
    by (rule inorder_ins) (use assms(5,7) in blast)+
  moreover have "sorted_wrt ?hi (ins_list ?hi n (inorder t))"
    by (rule ins_list_sorted) (use assms(5-7) in blast)+
  ultimately show ?thesis using s' avl_ins [of t ?hi n] avl_first_each [OF s'(2), of f e] by (intro exI [of _ s'] exI [of _ "ins ?hi n t"]) simp
qed

text \<open>
  \<^bold>\<open>C13.\<close> Removing a node of the tree always returns. The nodes that remain form a tree with the same
  nodes in the same order but the removed one, with correct depths and not higher than before; the
  removed node is left without pointers, no node outside the tree is touched, and a traversal visits
  the remaining nodes in order.
\<close>

theorem avl_remove_correct:
  assumes "avl_rep root s t" "a \<in> set_tree t"
  shows "\<exists>s' t'. avl_remove P a s = Some s' \<and> avl_rep root s' t' \<and> inorder t' = removeAll a (inorder t) \<and>
    height t' \<le> height t \<and> untouched (insert root (set_tree t)) s s' \<and>
    (\<forall>i. child (nodes s' a) i = None) \<and> parent (nodes s' a) = None \<and>
    avl_for_each (nodes s') f (avl_first root s') e = Some (fold f (inorder t') e)"
proof -
  have "distinct (inorder t)" using assms(1) by (simp add: avl_rep_def)
  from inorder_del [OF this] height_del [of a t] avl_remove_rep [OF assms, of P] show ?thesis by (auto intro: avl_first_each)
qed

fun cmd_tree :: "'n avl_cmd \<Rightarrow> ('n \<Rightarrow> 'n \<Rightarrow> bool) \<Rightarrow> 'n tree \<Rightarrow> 'n tree" where
  "cmd_tree (Construct_insert n) hi t = ins hi n t"
| "cmd_tree (Reinsert n) hi t = ins hi n t"
| "cmd_tree (Remove n) hi t = fst (del n t)"

fun cmd_ok :: "'n \<Rightarrow> 'n avl_cmd \<Rightarrow> 'n tree \<Rightarrow> bool" where
  "cmd_ok root (Construct_insert n) t \<longleftrightarrow> n \<noteq> root \<and> n \<notin> set_tree t \<and> height t < 254"
| "cmd_ok root (Reinsert n) t \<longleftrightarrow> False"
| "cmd_ok root (Remove n) t \<longleftrightarrow> n \<in> set_tree t"

fun cmds_ok :: "'n \<Rightarrow> ('n \<Rightarrow> 'n \<Rightarrow> bool) \<Rightarrow> 'n avl_cmd list \<Rightarrow> 'n tree \<Rightarrow> bool" where
  "cmds_ok root hi [] t \<longleftrightarrow> True"
| "cmds_ok root hi (c # cs) t \<longleftrightarrow> cmd_ok root c t \<and> cmds_ok root hi cs (cmd_tree c hi t)"

lemma avl_exec_rep:
  assumes "avl_rep root s t" "cmd_ok root c t" "higher P (objects s) = hi"
  shows "\<exists>s'. avl_exec P root c s = Some s' \<and> avl_rep root s' (cmd_tree c hi t)"
proof (cases c)
  case (Construct_insert n)
  let ?s = "s\<lparr>nodes := (nodes s)(n := avl_node_init)\<rparr>"
  have "avl_rep root ?s t" by (rule avl_rep_frame [OF assms(1)]) (use assms(2) Construct_insert in auto)
  moreover have "fresh_node ?s n" by (simp add: fresh_node_def avl_node_init_def)
  ultimately show ?thesis
    using avl_insert_rep [of root ?s t n P] assms(2,3) Construct_insert by auto
next
  case (Remove n)
  then show ?thesis using avl_remove_rep [of root s t n P] assms by auto
qed (use assms(2) in auto)

lemma avl_run_rep:
  assumes "avl_rep root s t" "cmds_ok root hi cs t" "\<And>d. higher P d = hi"
  shows "\<exists>s'. avl_run P root cs s = Some s' \<and> avl_rep root s' (fold (\<lambda>c. cmd_tree c hi) cs t)"
  using assms(1,2)
proof (induction cs arbitrary: s t)
  case (Cons c cs)
  then obtain s1 where s1: "avl_exec P root c s = Some s1" "avl_rep root s1 (cmd_tree c hi t)"
    using avl_exec_rep [of root s t c P hi] assms(3) by auto
  with Cons.IH [of s1 "cmd_tree c hi t"] Cons.prems(2) show ?case by auto
qed simp

lemma no_nodes_rep: "avl_rep 0 no_nodes Leaf"
  by (simp add: avl_rep_def no_nodes_def avl_node_init_def ch_def pa_def dp_def lc_def cdep_def)

theorem avl_insert_correct_witness:
  "\<exists>s' t'. avl_insert by_number 0 3 no_nodes = Some s' \<and> avl_rep 0 s' t' \<and> inorder t' = [3] \<and> avl t'"
proof -
  have "fresh_node no_nodes 3" by (simp add: fresh_node_def no_nodes_def avl_node_init_def)
  from avl_insert_correct [of 0 no_nodes Leaf 3 by_number, OF no_nodes_rep _ this] show ?thesis
    by (fastforce simp: by_number_def ins_list_def)
qed

theorem avl_remove_correct_witness:
  "\<exists>s s' t'. avl_run by_number 0 (map Construct_insert [2, 1, 3]) no_nodes = Some s \<and> avl_remove by_number 2 s = Some s' \<and>
     avl_rep 0 s' t' \<and> inorder t' = [1, 3]"
proof -
  let ?t = "Node (Node Leaf 1 Leaf) 2 (Node Leaf (3 :: nat) Leaf)"
  obtain s where s: "avl_run by_number 0 (map Construct_insert [2, 1, 3]) no_nodes = Some s" "avl_rep 0 s ?t"
    using avl_run_rep [OF no_nodes_rep, of "(\<le>)" "map Construct_insert [2, 1, 3]" by_number] by (auto simp: by_number_def)
  from avl_remove_correct [OF s(2), of 2 by_number] s(1) show ?thesis by fastforce
qed

lemma avl_plug: "avl (plug k t) \<Longrightarrow> avl t"
  by (induction k t rule: plug.induct) (auto simp: mk_def split: if_splits)

text \<open>
  \<^bold>\<open>C14.\<close> Removing a node \<open>a\<close> that has no left subtree, or whose left child has no right subtree, rotates nothing,
  wherever the node is in the tree (\<open>k\<close>): the right subtree takes its place, or its left child does. So if the
  sibling of \<open>a\<close> is then higher by two or more than what has taken the place of \<open>a\<close>, the tree is not balanced any more,
  even if it was before.
\<close>

theorem avl_remove_unbalanced:
  assumes r: "avl_rep root s (plug k (Node l a u))" and l: "l = Leaf \<or> right l = Leaf"
  defines "t' \<equiv> (case l of Leaf \<Rightarrow> u | Node ll c _ \<Rightarrow> Node ll c u)"
  shows "\<exists>s'. avl_remove P a s = Some s' \<and> avl_rep root s' (plug k t') \<and>
    (\<forall>i b v k'. k = (i, b, v) # k' \<and> height t' + 1 < height v \<longrightarrow> \<not> avl (plug k t'))"
proof -
  have "del a (Node l a u) = (t', False)" using l by (cases l) (auto simp: del_root_def t'_def)
  then have "fst (del a (plug k (Node l a u))) = plug k t'"
    using r del_plug [of k "Node l a u" a t' False] by (simp add: avl_rep_def)
  moreover have "a \<in> set_tree (plug k (Node l a u))" by (simp add: set_plug)
  moreover have "\<not> avl (plug ((i, b, v) # k') t')" if "height t' + 1 < height v" for i b v k'
    using avl_plug [of k' "mk i t' b v"] that by (auto simp: mk_def split: if_splits)
  ultimately show ?thesis using avl_remove_rep [OF r, of a P] by auto
qed

theorem avl_remove_unbalanced_witness:
  "\<exists>s s' t t'. avl_run by_number 0 (map Construct_insert [2, 1, 3, 4]) no_nodes = Some s \<and> avl_rep 0 s t \<and> avl t \<and>
     avl_remove by_number 1 s = Some s' \<and> avl_rep 0 s' t' \<and> \<not> avl t' \<and> height t' = size t'"
proof -
  let ?v = "Node Leaf 3 (Node Leaf (4 :: nat) Leaf)" let ?k = "[(LEFT, 2, ?v)]"
  obtain s where s: "avl_run by_number 0 (map Construct_insert [2, 1, 3, 4]) no_nodes = Some s" "avl_rep 0 s (plug ?k (Node Leaf 1 Leaf))"
    using avl_run_rep [OF no_nodes_rep, of "(\<le>)" "map Construct_insert [2, 1, 3, 4]" by_number] by (auto simp: by_number_def mk_def)
  from avl_remove_unbalanced [OF s(2), of by_number] obtain s' where
    "avl_remove by_number 1 s = Some s'" "avl_rep 0 s' (plug ?k Leaf)" "\<not> avl (plug ?k Leaf)" by auto
  moreover have "avl (plug ?k (Node Leaf 1 Leaf))" "height (plug ?k Leaf) = size (plug ?k Leaf)" by (simp_all add: mk_def)
  ultimately show ?thesis using s by blast
qed

text \<open>
  Removal resets the pointers of a node but not its depth. A leaf that had children when it was
  removed and is inserted again keeps the depth of then, and the tree is rotated although it is
  balanced; a newly constructed node is inserted with depth 1 and without rotation.
\<close>

theorem avl_reinsert_stale_depth:
  "map_option (\<lambda>s. (avl_first 0 s, depth (nodes s 5), child (nodes s 5) LEFT, child (nodes s 5) RIGHT))
     (avl_run by_number 0 (map Construct_insert [5, 3, 6, 2, 4] @ [Remove 6, Remove 5, Reinsert 5]) no_nodes) =
     Some (Some 4, 3, None, None) \<and>
   map_option (\<lambda>s. (avl_first 0 s, depth (nodes s 5), child (nodes s 5) LEFT, child (nodes s 5) RIGHT))
     (avl_run by_number 0 (map Construct_insert [5, 3, 6, 2, 4] @ [Remove 6, Remove 5, Construct_insert 5]) no_nodes) =
     Some (Some 3, 1, None, None)"
  by code_simp

end
