(* ===== verification/Range_Allocator.thy ===== *)
theory Range_Allocator
  imports Avl_Removal
begin

text \<open>
  \<^verbatim>\<open>base/include/base/allocator_avl.h\<close> and \<^verbatim>\<open>base/src/lib/base/allocator_avl.cc\<close>: the allocator of
  address ranges, by which core hands out physical memory, virtual addresses, I/O ports and
  interrupts. Its blocks, free or used, are nodes of an AVL tree ordered by address; every block
  keeps the size of the biggest free block of its subtree. The blocks come from a meta-data
  allocator, an argument of the model, which may refuse any request; the model follows every one of
  these errors. Addresses and sizes are machine words.
\<close>

section \<open>Blocks\<close>

datatype ra_alloc_error = OUT_OF_RAM | OUT_OF_CAPS | DENIED

record ra_block =
  b_addr :: addr_t
  b_size :: size_t
  b_used :: bool
  b_max_avail :: size_t

definition new_block :: "addr_t \<Rightarrow> size_t \<Rightarrow> bool \<Rightarrow> ra_block" where
  "new_block a n u = \<lparr>b_addr = a, b_size = n, b_used = u, b_max_avail = if u then 0 else n\<rparr>"

definition avail :: "ra_block \<Rightarrow> size_t" where
  "avail b = (if b_used b then 0 else b_size b)"

definition child_max_avail :: "('b \<Rightarrow> 'b avl_node) \<Rightarrow> ('b \<Rightarrow> ra_block) \<Rightarrow> 'b \<Rightarrow> bool \<Rightarrow> size_t" where
  "child_max_avail m d b i = (case child (m b) i of None \<Rightarrow> 0 | Some c \<Rightarrow> b_max_avail (d c))"

definition block_recompute :: "('b \<Rightarrow> 'b avl_node) \<Rightarrow> 'b \<Rightarrow> ('b \<Rightarrow> ra_block) \<Rightarrow> 'b \<Rightarrow> ra_block" where
  "block_recompute m b d = d(b := (d b)\<lparr>b_max_avail :=
     max (avail (d b)) (max (child_max_avail m d b LEFT) (child_max_avail m d b RIGHT))\<rparr>)"

definition block_higher :: "('b \<Rightarrow> ra_block) \<Rightarrow> 'b \<Rightarrow> 'b \<Rightarrow> bool" where
  "block_higher d b c \<longleftrightarrow> b_addr (d c) \<ge> b_addr (d b)"

definition block_policy :: "('b, 'b \<Rightarrow> ra_block) policy" where
  "block_policy = \<lparr>higher = block_higher, recompute = block_recompute\<rparr>"

record addr_range =
  r_start :: addr_t
  r_end :: addr_t

definition sum_in_range :: "addr_t \<Rightarrow> addr_t \<Rightarrow> bool" where
  "sum_in_range a n \<longleftrightarrow> a + n - 1 \<ge> a"

definition fits :: "ra_block \<Rightarrow> size_t \<Rightarrow> nat \<Rightarrow> addr_range \<Rightarrow> bool" where
  "fits b n align rg =
     (let a = align_addr (max (b_addr b) (r_start rg)) align
      in a \<ge> b_addr b \<and> sum_in_range a n \<and> a - b_addr b + n \<le> avail b \<and> a + n - 1 \<le> r_end rg)"

text \<open>
  The searches return the block found, if any, inside an \<open>option\<close> of the recursion that returns.
\<close>

partial_function (option) find_best_fit ::
    "('b \<Rightarrow> 'b avl_node) \<Rightarrow> ('b \<Rightarrow> ra_block) \<Rightarrow> size_t \<Rightarrow> nat \<Rightarrow> addr_range \<Rightarrow> 'b \<Rightarrow> 'b option option" where
  "find_best_fit m d n align rg b =
     (let side = child_max_avail m d b RIGHT < child_max_avail m d b LEFT;
          self = (if fits (d b) n align rg then Some b else None)
      in do {
        r0 \<leftarrow> (if child_max_avail m d b side < n then Some None
               else case child (m b) side of
                      None \<Rightarrow> Some None
                    | Some c \<Rightarrow> find_best_fit m d n align rg c);
        case r0 of
          Some r \<Rightarrow> Some (Some (if fits (d b) n align rg \<and> n < b_size (d r) then b else r))
        | None \<Rightarrow> do {
            r1 \<leftarrow> (if child_max_avail m d b (\<not> side) < n then Some None
                   else case child (m b) (\<not> side) of
                          None \<Rightarrow> Some None
                        | Some c \<Rightarrow> find_best_fit m d n align rg c);
            case r1 of
              Some r \<Rightarrow> Some (Some (if fits (d b) n align rg \<and> n < b_size (d r) then b else r))
            | None \<Rightarrow> Some self
          }
      })"

partial_function (option) find_by_address ::
    "('b \<Rightarrow> 'b avl_node) \<Rightarrow> ('b \<Rightarrow> ra_block) \<Rightarrow> addr_t \<Rightarrow> size_t \<Rightarrow> bool \<Rightarrow> 'b \<Rightarrow> 'b option option" where
  "find_by_address m d a n0 overlap b =
     (let n = (if n0 \<noteq> 0 then n0 else 1)
      in if overlap \<and> a + n - 1 \<ge> b_addr (d b) \<and> b_addr (d b) + b_size (d b) - 1 \<ge> a then Some (Some b)
         else if a \<ge> b_addr (d b) \<and> a + n - 1 \<le> b_addr (d b) + b_size (d b) - 1 then Some (Some b)
         else case child (m b) (a \<ge> b_addr (d b)) of
                None \<Rightarrow> Some None
              | Some c \<Rightarrow> find_by_address m d a n overlap c)"

partial_function (option) avail_in_subtree ::
    "('b \<Rightarrow> 'b avl_node) \<Rightarrow> ('b \<Rightarrow> ra_block) \<Rightarrow> 'b \<Rightarrow> size_t option" where
  "avail_in_subtree m d b = do {
     l \<leftarrow> (case child (m b) LEFT of None \<Rightarrow> Some 0 | Some c \<Rightarrow> avail_in_subtree m d c);
     r \<leftarrow> (case child (m b) RIGHT of None \<Rightarrow> Some 0 | Some c \<Rightarrow> avail_in_subtree m d c);
     Some (avail (d b) + l + r)
   }"

partial_function (option) find_any_block ::
    "bool \<Rightarrow> ('b \<Rightarrow> 'b avl_node) \<Rightarrow> ('b \<Rightarrow> ra_block) \<Rightarrow> 'b option \<Rightarrow> 'b option option" where
  "find_any_block used m d p = (case p of
     None \<Rightarrow> Some None
   | Some b \<Rightarrow>
       if b_used (d b) = used then Some (Some b)
       else do {
         l \<leftarrow> find_any_block used m d (child (m b) LEFT);
         case l of
           Some r \<Rightarrow> Some (Some r)
         | None \<Rightarrow> find_any_block used m d (child (m b) RIGHT)
       })"

declare find_best_fit.simps [code] find_by_address.simps [code] avail_in_subtree.simps [code] find_any_block.simps [code]

section \<open>The allocator\<close>

text \<open>The meta-data allocator: \<^verbatim>\<open>try_alloc\<close> and \<^verbatim>\<open>free\<close> for objects of the size of a block.\<close>

record ('b, 'm) md_alloc =
  md_try_alloc :: "'m \<Rightarrow> (ra_alloc_error + 'b) \<times> 'm"
  md_free :: "'b \<Rightarrow> 'm \<Rightarrow> 'm"

text \<open>The object, its tree \<open>r\<close> being a node itself.\<close>

record ('b, 'm) allocator =
  addr_tree :: "('b, 'b \<Rightarrow> ra_block) avl_state"
  md :: 'm

definition allocator_construct :: "'b \<Rightarrow> ('b \<Rightarrow> 'b avl_node) \<Rightarrow> ('b \<Rightarrow> ra_block) \<Rightarrow> 'm \<Rightarrow> ('b, 'm) allocator" where
  "allocator_construct r m d mds = \<lparr>addr_tree = \<lparr>nodes = m(r := avl_node_init), objects = d\<rparr>, md = mds\<rparr>"

definition construct_block :: "'b \<Rightarrow> ra_block \<Rightarrow> ('b, 'm) allocator \<Rightarrow> ('b, 'm) allocator" where
  "construct_block b v s = s\<lparr>addr_tree :=
     \<lparr>nodes = (nodes (addr_tree s))(b := avl_node_init), objects = (objects (addr_tree s))(b := v)\<rparr>\<rparr>"

definition free_metadata :: "('b, 'm) md_alloc \<Rightarrow> 'b \<Rightarrow> ('b, 'm) allocator \<Rightarrow> ('b, 'm) allocator" where
  "free_metadata M b s = s\<lparr>md := md_free M b (md s)\<rparr>"

definition alloc_block_metadata :: "('b, 'm) md_alloc \<Rightarrow> ('b, 'm) allocator \<Rightarrow> (ra_alloc_error + 'b) \<times> ('b, 'm) allocator" where
  "alloc_block_metadata M s = (case md_try_alloc M (md s) of
     (Inl e, m) \<Rightarrow> (Inl e, s\<lparr>md := m\<rparr>)
   | (Inr b, m) \<Rightarrow> (Inr b, construct_block b (new_block 0 0 False) (s\<lparr>md := m\<rparr>)))"

definition alloc_two_blocks_metadata ::
    "('b, 'm) md_alloc \<Rightarrow> ('b, 'm) allocator \<Rightarrow> (ra_alloc_error + 'b \<times> 'b) \<times> ('b, 'm) allocator" where
  "alloc_two_blocks_metadata M s = (case alloc_block_metadata M s of
     (Inl e, s1) \<Rightarrow> (Inl e, s1)
   | (Inr b1, s1) \<Rightarrow> (case alloc_block_metadata M s1 of
       (Inl e, s2) \<Rightarrow> (Inl e, free_metadata M b1 s2)
     | (Inr b2, s2) \<Rightarrow> (Inr (b1, b2), s2)))"

definition add_block ::
    "'b \<Rightarrow> 'b \<Rightarrow> addr_t \<Rightarrow> size_t \<Rightarrow> bool \<Rightarrow> ('b, 'm) allocator \<Rightarrow> ('b, 'm) allocator option" where
  "add_block r b a n u s =
     (let s1 = construct_block b (new_block a n u) s
      in do { t \<leftarrow> avl_insert block_policy r b (addr_tree s1); Some (s1\<lparr>addr_tree := t\<rparr>) })"

definition destroy_block :: "('b, 'm) md_alloc \<Rightarrow> 'b \<Rightarrow> ('b, 'm) allocator \<Rightarrow> ('b, 'm) allocator option" where
  "destroy_block M b s = do {
     t \<leftarrow> avl_remove block_policy b (addr_tree s);
     Some (free_metadata M b (s\<lparr>addr_tree := t\<rparr>))
   }"

definition cut_from_block ::
    "('b, 'm) md_alloc \<Rightarrow> 'b \<Rightarrow> 'b \<Rightarrow> addr_t \<Rightarrow> size_t \<Rightarrow> 'b \<times> 'b \<Rightarrow> ('b, 'm) allocator \<Rightarrow> ('b, 'm) allocator option" where
  "cut_from_block M r b a n = (\<lambda>(b1, b2) s.
     let v = objects (addr_tree s) b;
         padding = (if a > b_addr v then a - b_addr v else 0);
         bsz = (if b_size v > padding then b_size v - padding else 0);
         remaining0 = (if bsz > n then bsz - n else 0);
         remaining = (if b_addr v = 0 \<and> b_size v = 0 then b_size v - n - padding else remaining0);
         orig_addr = b_addr v
     in do {
       s1 \<leftarrow> destroy_block M b s;
       s2 \<leftarrow> (if padding > 0 then add_block r b1 orig_addr padding False s1 else Some (free_metadata M b1 s1));
       if remaining > 0 then add_block r b2 (a + n) remaining False s2 else Some (free_metadata M b2 s2)
     })"

definition lookup :: "'b \<Rightarrow> addr_t \<Rightarrow> size_t \<Rightarrow> bool \<Rightarrow> ('b, 'm) allocator \<Rightarrow> 'b option option" where
  "lookup r a n overlap s = (case avl_first r (addr_tree s) of
     None \<Rightarrow> Some None
   | Some b \<Rightarrow> find_by_address (nodes (addr_tree s)) (objects (addr_tree s)) a n overlap b)"

text \<open>
  A free neighbour is merged into a new range. The last part is the same whether or not there was one.
\<close>

definition add_range ::
    "('b, 'm) md_alloc \<Rightarrow> 'b \<Rightarrow> addr_t \<Rightarrow> size_t \<Rightarrow> ('b, 'm) allocator \<Rightarrow> ((ra_alloc_error + unit) \<times> ('b, 'm) allocator) option" where
  "add_range M r a n s =
     (if n = 0 then Some (Inl DENIED, s)
      else do {
        c \<leftarrow> lookup r a n True s;
        if c \<noteq> None then Some (Inl DENIED, s)
        else (case alloc_block_metadata M s of
                (Inl e, s1) \<Rightarrow> Some (Inl e, s1)
              | (Inr nb, s1) \<Rightarrow> do {
                  p \<leftarrow> (if a \<noteq> 0 then lookup r (a - 1) 0 False s1 else Some None);
                  (a2, n2, s2) \<leftarrow>
                    (case p of
                       Some b \<Rightarrow>
                         let v = objects (addr_tree s1) b
                         in if \<not> b_used v
                            then do { s2 \<leftarrow> destroy_block M b s1; Some (b_addr v, n + b_size v, s2) }
                            else Some (a, n, s1)
                     | None \<Rightarrow> Some (a, n, s1));
                  q \<leftarrow> lookup r (a2 + n2) 0 False s2;
                  (n3, s3) \<leftarrow>
                    (case q of
                       Some b \<Rightarrow>
                         let v = objects (addr_tree s2) b
                         in if \<not> b_used v
                            then do { s3 \<leftarrow> destroy_block M b s2; Some (n2 + b_size v, s3) }
                            else Some (n2, s2)
                     | None \<Rightarrow> Some (n2, s2));
                  s4 \<leftarrow> add_block r nb a2 n3 False s3;
                  Some (Inr (), s4)
                })
      })"

text \<open>The loop of \<^verbatim>\<open>remove_range\<close> without the check of the size.\<close>

partial_function (option) remove_range_loop ::
    "('b, 'm) md_alloc \<Rightarrow> 'b \<Rightarrow> addr_t \<Rightarrow> size_t \<Rightarrow> ('b, 'm) allocator \<Rightarrow> ((ra_alloc_error + unit) \<times> ('b, 'm) allocator) option" where
  "remove_range_loop M r base n s = (case alloc_two_blocks_metadata M s of
     (Inl e, s1) \<Rightarrow> Some (Inl e, s1)
   | (Inr (b1, b2), s1) \<Rightarrow> do {
       p \<leftarrow> lookup r base n True s1;
       case p of
         None \<Rightarrow> Some (Inr (), free_metadata M b2 (free_metadata M b1 s1))
       | Some b \<Rightarrow>
           let v = objects (addr_tree s1) b
           in if avail v = 0 then Some (Inl DENIED, free_metadata M b2 (free_metadata M b1 s1))
              else let beg = max base (b_addr v);
                       en = min (base + n - 1) (b_addr v + b_size v - 1)
                   in do {
                     s2 \<leftarrow> cut_from_block M r b beg (en - beg + 1) (b1, b2) s1;
                     remove_range_loop M r base n s2
                   }
     })"

definition remove_range ::
    "('b, 'm) md_alloc \<Rightarrow> 'b \<Rightarrow> addr_t \<Rightarrow> size_t \<Rightarrow> ('b, 'm) allocator \<Rightarrow> ((ra_alloc_error + unit) \<times> ('b, 'm) allocator) option" where
  "remove_range M r base n s = (if n = 0 then Some (Inl DENIED, s) else remove_range_loop M r base n s)"

definition allocate ::
    "('b, 'm) md_alloc \<Rightarrow> 'b \<Rightarrow> size_t \<Rightarrow> nat \<Rightarrow> addr_range \<Rightarrow> (('b \<Rightarrow> 'b avl_node) \<Rightarrow> ('b \<Rightarrow> ra_block) \<Rightarrow> 'b \<Rightarrow> 'b option option) \<Rightarrow>
     ('b, 'm) allocator \<Rightarrow> ((ra_alloc_error + addr_t) \<times> ('b, 'm) allocator) option" where
  "allocate M r n align rg search s = (case alloc_two_blocks_metadata M s of
     (Inl e, s1) \<Rightarrow> Some (Inl e, s1)
   | (Inr (b1, b2), s1) \<Rightarrow> do {
       p \<leftarrow> (case avl_first r (addr_tree s1) of
              None \<Rightarrow> Some None
            | Some b \<Rightarrow> search (nodes (addr_tree s1)) (objects (addr_tree s1)) b);
       case p of
         None \<Rightarrow> Some (Inl DENIED, free_metadata M b2 (free_metadata M b1 s1))
       | Some b \<Rightarrow>
           let v = objects (addr_tree s1) b
           in if b_used v then Some (Inl DENIED, free_metadata M b2 (free_metadata M b1 s1))
              else let a = align_addr (max (b_addr v) (r_start rg)) align
                   in do {
                     s2 \<leftarrow> cut_from_block M r b a n (b1, b2) s1;
                     case alloc_block_metadata M s2 of
                       (Inl e, s3) \<Rightarrow> Some (Inl e, s3)
                     | (Inr nb, s3) \<Rightarrow> do { s4 \<leftarrow> add_block r nb a n True s3; Some (Inr a, s4) }
                   }
     })"

definition alloc_aligned ::
    "('b, 'm) md_alloc \<Rightarrow> 'b \<Rightarrow> size_t \<Rightarrow> nat \<Rightarrow> addr_range \<Rightarrow> ('b, 'm) allocator \<Rightarrow> ((ra_alloc_error + addr_t) \<times> ('b, 'm) allocator) option" where
  "alloc_aligned M r n align rg = allocate M r n align rg (\<lambda>m d. find_best_fit m d n align rg)"

definition ra_alloc_addr ::
    "('b, 'm) md_alloc \<Rightarrow> 'b \<Rightarrow> size_t \<Rightarrow> addr_t \<Rightarrow> ('b, 'm) allocator \<Rightarrow> ((ra_alloc_error + addr_t) \<times> ('b, 'm) allocator) option" where
  "ra_alloc_addr M r n a s =
     (if \<not> sum_in_range a n then Some (Inl DENIED, s)
      else allocate M r n 0 \<lparr>r_start = a, r_end = a + n - 1\<rparr> (\<lambda>m d. find_by_address m d a n False) s)"

definition try_alloc ::
    "('b, 'm) md_alloc \<Rightarrow> 'b \<Rightarrow> size_t \<Rightarrow> ('b, 'm) allocator \<Rightarrow> ((ra_alloc_error + addr_t) \<times> ('b, 'm) allocator) option" where
  "try_alloc M r n = alloc_aligned M r n 3 \<lparr>r_start = 0, r_end = all_ones\<rparr>"

definition ra_free :: "('b, 'm) md_alloc \<Rightarrow> 'b \<Rightarrow> addr_t \<Rightarrow> ('b, 'm) allocator \<Rightarrow> ('b, 'm) allocator option" where
  "ra_free M r a s = do {
     p \<leftarrow> lookup r a 0 False s;
     case p of
       None \<Rightarrow> Some s
     | Some b \<Rightarrow>
         let v = objects (addr_tree s) b
         in if \<not> b_used v then Some s
            else do {
              s1 \<leftarrow> destroy_block M b s;
              (res, s2) \<leftarrow> add_range M r (b_addr v) (b_size v) s1;
              Some s2
            }
   }"

datatype size_at_error = UNKNOWN_ADDR | MISMATCHING_ADDR

definition size_at :: "'b \<Rightarrow> addr_t \<Rightarrow> ('b, 'm) allocator \<Rightarrow> (size_at_error + size_t) option" where
  "size_at r a s = do {
     p \<leftarrow> lookup r a 0 False s;
     Some (case p of
       None \<Rightarrow> Inl UNKNOWN_ADDR
     | Some b \<Rightarrow>
         let v = objects (addr_tree s) b
         in if b_addr v \<noteq> a then Inl MISMATCHING_ADDR
            else if b_used v then Inr (b_size v) else Inl UNKNOWN_ADDR)
   }"

definition any_block_addr :: "'b \<Rightarrow> ('b, 'm) allocator \<Rightarrow> (bool \<times> addr_t) option" where
  "any_block_addr r s = do {
     p \<leftarrow> find_any_block True (nodes (addr_tree s)) (objects (addr_tree s)) (avl_first r (addr_tree s));
     Some (case p of None \<Rightarrow> (False, 0) | Some b \<Rightarrow> (True, b_addr (objects (addr_tree s) b)))
   }"

definition total_avail :: "'b \<Rightarrow> ('b, 'm) allocator \<Rightarrow> size_t option" where
  "total_avail r s = (case avl_first r (addr_tree s) of
     None \<Rightarrow> Some 0
   | Some b \<Rightarrow> avail_in_subtree (nodes (addr_tree s)) (objects (addr_tree s)) b)"

definition valid_addr :: "'b \<Rightarrow> addr_t \<Rightarrow> ('b, 'm) allocator \<Rightarrow> bool option" where
  "valid_addr r a s = do { p \<leftarrow> lookup r a 0 False s; Some (p \<noteq> None) }"

subsection \<open>Destruction\<close>

text \<open>
  \<^verbatim>\<open>_revert_block_ranges\<close> with the function that picks a block; the flag tells whether there was one.
\<close>

partial_function (option) revert_block_ranges ::
    "('b, 'm) md_alloc \<Rightarrow> 'b \<Rightarrow> (('b, 'm) allocator \<Rightarrow> 'b option option) \<Rightarrow> nat \<Rightarrow> ('b, 'm) allocator \<Rightarrow> (bool \<times> ('b, 'm) allocator) option" where
  "revert_block_ranges M r any blocks s = do {
     p \<leftarrow> any s;
     case p of
       None \<Rightarrow> Some (blocks > 0, s)
     | Some b \<Rightarrow>
         let v = objects (addr_tree s) b
         in do {
           (res, s1) \<leftarrow> remove_range M r (b_addr v) (b_size v) s;
           case res of
             Inr _ \<Rightarrow> revert_block_ranges M r any (blocks + 1) s1
           | Inl e \<Rightarrow>
               if e = DENIED then do { s2 \<leftarrow> destroy_block M b s1; revert_block_ranges M r any (blocks + 1) s2 }
               else Some (blocks + 1 > 0, s1)
         }
   }"

definition revert_unused_ranges :: "('b, 'm) md_alloc \<Rightarrow> 'b \<Rightarrow> ('b, 'm) allocator \<Rightarrow> (bool \<times> ('b, 'm) allocator) option" where
  "revert_unused_ranges M r = revert_block_ranges M r
     (\<lambda>s. find_any_block False (nodes (addr_tree s)) (objects (addr_tree s)) (avl_first r (addr_tree s))) 0"

partial_function (option) revert_allocations ::
    "('b, 'm) md_alloc \<Rightarrow> 'b \<Rightarrow> ('b, 'm) allocator \<Rightarrow> ('b, 'm) allocator option" where
  "revert_allocations M r s = do {
     (found, a) \<leftarrow> any_block_addr r s;
     if \<not> found then Some s else do { s1 \<leftarrow> ra_free M r a s; revert_allocations M r s1 }
   }"

definition revert_allocations_and_ranges :: "('b, 'm) md_alloc \<Rightarrow> 'b \<Rightarrow> ('b, 'm) allocator \<Rightarrow> ('b, 'm) allocator option" where
  "revert_allocations_and_ranges M r s = do {
     s1 \<leftarrow> revert_allocations M r s;
     (any, s2) \<leftarrow> revert_block_ranges M r (\<lambda>s. Some (avl_first r (addr_tree s))) 0 s1;
     Some s2
   }"

declare remove_range_loop.simps [code] revert_block_ranges.simps [code] revert_allocations.simps [code]

end
