(* ===== verification/Range_Blocks.thy ===== *)
theory Range_Blocks
  imports Range_Allocator
begin

text \<open>
  The range allocator as a set of extents. The tree operations keep address, size and use of every
  block, because the hook by which they recompute the free sizes does (locale \<open>quiet_hook\<close>). A
  represented allocator has blocks that do not overlap and are sorted by address; looking up, adding
  and destroying a block, cutting a range out of a block and adding a range are described on the set.
\<close>

section \<open>What the tree operations do to the blocks\<close>

text \<open>
  The tree operations change the objects only through the hook. What the hook keeps, they keep.
\<close>

locale quiet_hook =
  fixes P :: "('n, 'd) policy" and obs :: "'d \<Rightarrow> 'o"
  assumes hook: "obs (recompute P m n d) = obs d"
begin

lemma recompute_depth_obs:
  assumes "recompute_depth P a s = Some s'"
  shows "obs (objects s') = obs (objects s)"
proof -
  let ?K = "\<lambda>x s'. fst (fst x) = P \<longrightarrow> obs (objects s') = obs (objects (snd x))"
  have "?K ((P, a), s) s'"
  proof (rule recompute_depth.raw_induct [OF _ assms, of ?K])
    fix f :: "('n, 'd) policy \<Rightarrow> 'n \<Rightarrow> ('n, 'd) avl_state \<Rightarrow> ('n, 'd) avl_state option"
      and Q a and s s' :: "('n, 'd) avl_state"
    assume IH: "\<And>Q a s s'. f Q a s = Some s' \<Longrightarrow> ?K ((Q, a), s) s'"
    let ?s = "set_depth a (new_depth (nodes s) a) s"
    assume "(let s1 = ?s in (case parent (nodes s1 a) of None \<Rightarrow> Some s1
        | Some p \<Rightarrow> if depth (nodes s1 a) \<noteq> depth (nodes s a) then f Q p s1 else Some s1) \<bind>
        (\<lambda>s2. Some (if parent (nodes s2 a) \<noteq> None then s2\<lparr>objects := recompute Q (nodes s2) a (objects s2)\<rparr> else s2))) = Some s'"
    moreover have "obs (objects u') = obs (objects u)" if "f P x u = Some u'" for x u u' using IH [OF that] by simp
    ultimately show "?K ((Q, a), s) s'"
      by (auto simp: Let_def hook split: option.splits Option.bind_splits if_splits)
  qed
  then show ?thesis by simp
qed

lemma adopt_obs: "avl_adopt P a c i s = Some s' \<Longrightarrow> obs (objects s') = obs (objects s)"
  unfolding avl_adopt_def by (drule recompute_depth_obs) simp

lemma rotate_obs: "rotate_subtree P a n side s = Some s' \<Longrightarrow> obs (objects s') = obs (objects s)"
  by (auto simp: rotate_subtree_def Let_def dest!: adopt_obs split: Option.bind_splits option.splits if_splits)

lemma rebalance_obs: "rebalance_subtree P a n s = Some s' \<Longrightarrow> obs (objects s') = obs (objects s)"
  by (auto simp: rebalance_subtree_def Let_def dest!: rotate_obs split: if_splits)

lemma replace_child_obs: "replace_child P a c i s = Some s' \<Longrightarrow> obs (objects s') = obs (objects s)"
  by (auto simp: replace_child_def dest!: adopt_obs split: Option.bind_splits if_splits)

lemma rebalance_up_obs:
  assumes "rebalance_up P lp s = Some s'"
  shows "obs (objects s') = obs (objects s)"
proof -
  let ?K = "\<lambda>x s'. fst (fst x) = P \<longrightarrow> obs (objects s') = obs (objects (snd x))"
  have "?K ((P, lp), s) s'"
  proof (rule rebalance_up.raw_induct [OF _ assms, of ?K])
    fix f :: "('n, 'd) policy \<Rightarrow> 'n option \<Rightarrow> ('n, 'd) avl_state \<Rightarrow> ('n, 'd) avl_state option" and Q lp s s'
    assume IH: "\<And>Q lp s s'. f Q lp s = Some s' \<Longrightarrow> ?K ((Q, lp), s) s'"
    assume "(case lp of None \<Rightarrow> Some s | Some l \<Rightarrow> case parent (nodes s l) of None \<Rightarrow> Some s
        | Some lpp \<Rightarrow> rebalance_subtree Q lpp l s \<bind> f Q (Some lpp)) = Some s'"
    moreover have "obs (objects u') = obs (objects u)" if "f P q u = Some u'" for q u u' using IH [OF that] by simp
    ultimately show "?K ((Q, lp), s) s'"
      by (auto split: option.splits Option.bind_splits dest!: rebalance_obs)
  qed
  then show ?thesis by simp
qed

lemma insert_obs:
  assumes "avl_insert P a n s = Some s'"
  shows "obs (objects s') = obs (objects s)"
proof -
  let ?K = "\<lambda>x s'. fst (fst (fst x)) = P \<longrightarrow> obs (objects s') = obs (objects (snd x))"
  have "?K (((P, a), n), s) s'"
  proof (rule avl_insert.raw_induct [OF _ assms, of ?K])
    fix f :: "('n, 'd) policy \<Rightarrow> 'n \<Rightarrow> 'n \<Rightarrow> ('n, 'd) avl_state \<Rightarrow> ('n, 'd) avl_state option" and Q a n s s'
    assume IH: "\<And>Q a n s s'. f Q a n s = Some s' \<Longrightarrow> ?K (((Q, a), n), s) s'"
    assume "(if n = a then Some s
       else let i = if parent (nodes s a) \<noteq> None then higher Q (objects s) a n else False
            in (case child (nodes s a) i of None \<Rightarrow> avl_adopt Q a (Some n) i s | Some c \<Rightarrow> f Q c n s) \<bind>
               (\<lambda>s1. recompute_depth Q a s1 \<bind>
                     (\<lambda>s2. case parent (nodes s2 a) of None \<Rightarrow> Some s2 | Some p \<Rightarrow> rebalance_subtree Q p a s2))) = Some s'"
    moreover have "obs (objects u') = obs (objects u)" if "f P x y u = Some u'" for x y u u' using IH [OF that] by simp
    ultimately show "?K (((Q, a), n), s) s'"
      by (auto simp: Let_def split: if_splits option.splits Option.bind_splits
          dest!: rebalance_obs recompute_depth_obs adopt_obs)
  qed
  then show ?thesis by simp
qed

lemma remove_obs: "avl_remove P a s = Some s' \<Longrightarrow> obs (objects s') = obs (objects s)"
  by (auto simp: avl_remove_def Let_def split: option.splits Option.bind_splits if_splits
      dest!: rebalance_up_obs adopt_obs replace_child_obs)

end

text \<open>What is fixed about a block: address, size and whether it is used.\<close>

type_synonym extent = "addr_t \<times> size_t \<times> bool"

definition extent_of :: "ra_block \<Rightarrow> extent" where
  "extent_of v = (b_addr v, b_size v, b_used v)"

definition extents :: "('b \<Rightarrow> ra_block) \<Rightarrow> 'b \<Rightarrow> extent" where
  "extents d = (\<lambda>b. extent_of (d b))"

interpretation blocks: quiet_hook block_policy extents
  by unfold_locales (auto simp: block_policy_def block_recompute_def extents_def extent_of_def fun_eq_iff)

section \<open>Extents\<close>

fun rng :: "extent \<Rightarrow> nat set" where
  "rng (a, n, u) = {unat a ..< unat a + unat n}"

abbreviation addrs :: "addr_t \<Rightarrow> size_t \<Rightarrow> nat set" where
  "addrs a n \<equiv> {unat a ..< unat a + unat n}"

text \<open>Blocks are not empty, end below the top of the address space and do not overlap.\<close>

fun proper :: "extent \<Rightarrow> bool" where
  "proper (a, n, u) \<longleftrightarrow> n \<noteq> 0 \<and> unat a + unat n < 2 ^ 64"

definition sound :: "extent set \<Rightarrow> bool" where
  "sound B \<longleftrightarrow> (\<forall>x \<in> B. proper x) \<and> (\<forall>x \<in> B. \<forall>y \<in> B. x \<noteq> y \<longrightarrow> rng x \<inter> rng y = {})"

definition before :: "('b \<Rightarrow> ra_block) \<Rightarrow> 'b \<Rightarrow> 'b \<Rightarrow> bool" where
  "before d x y \<longleftrightarrow> unat (b_addr (d x)) + unat (b_size (d x)) \<le> unat (b_addr (d y))"

lemma unat_pos: "0 < unat n \<longleftrightarrow> n \<noteq> (0 :: 64 word)"
  by (simp add: unat_gt_0)

lemma unat_last: "n \<noteq> 0 \<Longrightarrow> unat a + unat n \<le> 2 ^ 64 \<Longrightarrow> unat (a + n - 1) = unat a + unat n - 1" for a n :: "64 word"
proof -
  assume n: "n \<noteq> 0" and s: "unat a + unat n \<le> 2 ^ 64"
  have p: "0 < unat n" using n by (simp add: unat_pos)
  have "unat (n - 1) = unat n - 1" using n by (simp add: unat_minus_one)
  moreover from this have "unat (a + (n - 1)) = unat a + unat (n - 1)" using s p by (intro unat_add_no_wrap) simp
  ultimately show ?thesis using p by (simp add: add_diff_eq)
qed

lemma bst_inorder: "sorted_wrt Q (inorder t) \<Longrightarrow> bst_wrt Q t"
  by (induction t) (auto simp: sorted_wrt_append)

lemma sorted_wrt_distinct:
  "sorted_wrt Q xs \<Longrightarrow> distinct xs \<Longrightarrow> (\<And>x y. x \<in> set xs \<Longrightarrow> y \<in> set xs \<Longrightarrow> x \<noteq> y \<Longrightarrow> Q x y \<Longrightarrow> R x y) \<Longrightarrow> sorted_wrt R xs"
  by (induction xs) auto

lemma before_sorted:
  assumes s: "sorted_wrt (block_higher d) (inorder t)" "distinct (inorder t)" "inj_on (extents d) (set_tree t)"
    and so: "sound (extents d ` set_tree t)"
  shows "sorted_wrt (before d) (inorder t)"
proof -
  have "before d x y" if x: "x \<in> set_tree t" "y \<in> set_tree t" "x \<noteq> y" "block_higher d x y" for x y
  proof -
    have "extents d x \<noteq> extents d y" using s(3) x by (auto dest: inj_onD)
    then have "rng (extents d x) \<inter> rng (extents d y) = {}" "proper (extents d y)" using so x by (auto simp: sound_def)
    moreover have "unat (b_addr (d x)) \<le> unat (b_addr (d y))" using x(4) by (simp add: block_higher_def word_le_nat_alt)
    moreover have "unat (b_addr (d y)) \<in> rng (extents d y)" using calculation(2) unat_pos by (simp add: extents_def extent_of_def)
    ultimately have "unat (b_addr (d y)) \<notin> rng (extents d x)" "unat (b_addr (d x)) \<le> unat (b_addr (d y))" by auto
    then show ?thesis by (simp add: extents_def extent_of_def before_def)
  qed
  then show ?thesis by (intro sorted_wrt_distinct [OF s(1,2)]) auto
qed

subsection \<open>Finding a block by address\<close>

definition hit :: "bool \<Rightarrow> addr_t \<Rightarrow> size_t \<Rightarrow> extent \<Rightarrow> bool" where
  "hit overlap a n x \<longleftrightarrow> (if overlap then rng x \<inter> addrs a n \<noteq> {} else addrs a n \<subseteq> rng x)"

definition found :: "('b \<Rightarrow> ra_block) \<Rightarrow> 'b set \<Rightarrow> (extent \<Rightarrow> bool) \<Rightarrow> 'b option \<Rightarrow> bool" where
  "found d X Q p \<longleftrightarrow> (case p of None \<Rightarrow> (\<forall>x \<in> X. \<not> Q (extents d x)) | Some b \<Rightarrow> b \<in> X \<and> Q (extents d b))"

lemma tree_at_None: "tree_at c p q None t \<longleftrightarrow> t = Leaf"
  by (cases t) auto

lemma find_by_address_spec:
  assumes "tree_at (ch s) p q (Some b) t" "bst_wrt (before d) t" "\<forall>x \<in> set_tree t. proper (extents d x)"
    and n: "n \<noteq> 0" "unat a + unat n \<le> 2 ^ 64"
  shows "\<exists>r. find_by_address (nodes s) d a n ov b = Some r \<and> found d (set_tree t) (hit ov a n) r"
  using assms(1-3)
proof (induction t arbitrary: q b)
  case (Node l c u)
  have b: "b = c" "tree_at (ch s) p b (ch s b LEFT) l" "tree_at (ch s) p b (ch s b RIGHT) u" using Node.prems(1) by auto
  let ?A = "unat (b_addr (d b))" let ?S = "unat (b_size (d b))" let ?a = "unat a" let ?n = "unat n"
  have pb: "0 < ?S" "?A + ?S < 2 ^ 64" "0 < ?n" using Node.prems(3) b n(1) by (auto simp: extents_def extent_of_def unat_pos)
  have w: "(b_addr (d b) \<le> a + n - 1) = (?A \<le> ?a + ?n - 1)" "(a \<le> b_addr (d b) + b_size (d b) - 1) = (?a \<le> ?A + ?S - 1)"
    "(a + n - 1 \<le> b_addr (d b) + b_size (d b) - 1) = (?a + ?n - 1 \<le> ?A + ?S - 1)" "(b_addr (d b) \<le> a) = (?A \<le> ?a)"
    using unat_last [OF n] unat_last [of "b_size (d b)" "b_addr (d b)"] pb by (simp_all add: word_le_nat_alt unat_pos)
  have hb: "hit ov a n (extents d b) \<longleftrightarrow> ov \<and> ?A \<le> ?a + ?n - 1 \<and> ?a \<le> ?A + ?S - 1 \<or> ?A \<le> ?a \<and> ?a + ?n - 1 \<le> ?A + ?S - 1"
    using pb by (auto simp: hit_def extents_def extent_of_def disjoint_iff ivl_subset)
  show ?case
  proof (cases "hit ov a n (extents d b)")
    case True
    then show ?thesis using hb w b n(1) by (subst find_by_address.simps) (auto simp: found_def Let_def)
  next
    case False
    define side where "side = (?A \<le> ?a)"
    define v where "v = sub side (Node l b u)"
    have step: "find_by_address (nodes s) d a n ov b = (case ch s b side of None \<Rightarrow> Some None | Some c \<Rightarrow> find_by_address (nodes s) d a n ov c)"
      using False hb w n(1) by (subst find_by_address.simps) (auto simp: Let_def side_def child_simps)
    have other: "\<not> hit ov a n (extents d x)" if "x \<in> set_tree (sub (\<not> side) (Node l b u))" for x
    proof -
      have "proper (extents d x)" using that Node.prems(3) b by (auto simp: sub_def split: if_splits)
      then have "0 < unat (b_size (d x))" by (auto simp: extents_def extent_of_def unat_pos)
      moreover have "if side then before d x b else before d b x" using that Node.prems(2) b by (auto simp: sub_def split: if_splits)
      ultimately show ?thesis using False hb pb unfolding side_def hit_def before_def extents_def extent_of_def rng.simps
        by (auto simp: disjoint_iff split: if_splits)
    qed
    have "\<exists>r. (case ch s b side of None \<Rightarrow> Some None | Some c \<Rightarrow> find_by_address (nodes s) d a n ov c) = Some r \<and> found d (set_tree v) (hit ov a n) r"
    proof (cases "ch s b side")
      case None
      then have "v = Leaf" using b by (cases side) (auto simp: v_def sub_def tree_at_None)
      with None show ?thesis by (simp add: found_def)
    next
      case (Some c')
      then show ?thesis
        using b Node.IH(1) [of b c'] Node.IH(2) [of b c'] Node.prems(2,3) by (cases side) (auto simp: v_def sub_def)
    qed
    then show ?thesis using step other False b
      by (cases side) (auto simp: found_def v_def sub_def split: option.splits)
  qed
qed simp

section \<open>The allocator as a set of extents\<close>

text \<open>
  The laws of the meta-data allocator: it hands out objects that are not live, and an object lives
  until it is freed. It may refuse a request at any time.
\<close>

definition md_laws :: "('b, 'm) md_alloc \<Rightarrow> ('m \<Rightarrow> 'b set) \<Rightarrow> bool" where
  "md_laws M live \<longleftrightarrow>
     (\<forall>m b m'. md_try_alloc M m = (Inr b, m') \<longrightarrow> b \<notin> live m \<and> live m' = insert b (live m)) \<and>
     (\<forall>m e m'. md_try_alloc M m = (Inl e, m') \<longrightarrow> live m' = live m) \<and>
     (\<forall>m b. live (md_free M b m) = live m - {b})"

abbreviation exts :: "('b, 'm) allocator \<Rightarrow> 'b \<Rightarrow> extent" where
  "exts s \<equiv> extents (objects (addr_tree s))"

definition blocks :: "('b, 'm) allocator \<Rightarrow> 'b tree \<Rightarrow> extent set" where
  "blocks s t = exts s ` set_tree t"

definition ra_rep :: "('m \<Rightarrow> 'b set) \<Rightarrow> 'b \<Rightarrow> ('b, 'm) allocator \<Rightarrow> 'b tree \<Rightarrow> bool" where
  "ra_rep live r s t \<longleftrightarrow> avl_rep r (addr_tree s) t \<and> sorted_wrt (\<lambda>x y. fst (exts s x) \<le> fst (exts s y)) (inorder t) \<and>
     inj_on (exts s) (set_tree t) \<and> sound (blocks s t) \<and> insert r (set_tree t) \<subseteq> live (md s)"

lemma block_higher_exts: "block_higher d = (\<lambda>x y. fst (extents d x) \<le> fst (extents d y))"
  by (simp add: block_higher_def extents_def extent_of_def fun_eq_iff)

lemma exts_fields: "b_addr (objects (addr_tree s) b) = fst (exts s b)" "b_size (objects (addr_tree s) b) = fst (snd (exts s b))"
  "b_used (objects (addr_tree s) b) = snd (snd (exts s b))"
  by (simp_all add: extents_def extent_of_def)

lemma ra_rep_frame:
  assumes r: "ra_rep live r s t" and n: "\<forall>x \<in> insert r (set_tree t). nodes (addr_tree s') x = nodes (addr_tree s) x"
    and e: "\<forall>x \<in> set_tree t. exts s' x = exts s x" and l: "insert r (set_tree t) \<subseteq> live (md s')"
  shows "ra_rep live r s' t" "blocks s' t = blocks s t"
proof -
  show b: "blocks s' t = blocks s t" using e by (auto simp: blocks_def)
  have "avl_rep r (addr_tree s') t" using r n avl_rep_frame [of r "addr_tree s" t "addr_tree s'"] by (simp add: ra_rep_def)
  moreover have "sorted_wrt (\<lambda>x y. fst (exts s' x) \<le> fst (exts s' y)) (inorder t)"
    by (rule sorted_wrt_mono_rel [of _ "\<lambda>x y. fst (exts s x) \<le> fst (exts s y)"]) (use r e in \<open>auto simp: ra_rep_def\<close>)
  moreover have "inj_on (exts s') (set_tree t)" using r e inj_on_cong [of "set_tree t" "exts s'" "exts s"] by (simp add: ra_rep_def)
  ultimately show "ra_rep live r s' t" using r l b by (simp add: ra_rep_def)
qed

lemma ra_repD:
  assumes "ra_rep live r s t"
  shows "avl_rep r (addr_tree s) t" "bst_wrt (before (objects (addr_tree s))) t" "\<And>x. x \<in> set_tree t \<Longrightarrow> proper (exts s x)"
    "insert r (set_tree t) \<subseteq> live (md s)" "r \<notin> set_tree t" "sound (blocks s t)" "inj_on (exts s) (set_tree t)"
    "tree_at (ch (addr_tree s)) (pa (addr_tree s)) r (ch (addr_tree s) r LEFT) t"
proof -
  show "avl_rep r (addr_tree s) t" "insert r (set_tree t) \<subseteq> live (md s)" "r \<notin> set_tree t" "sound (blocks s t)" "inj_on (exts s) (set_tree t)"
    "tree_at (ch (addr_tree s)) (pa (addr_tree s)) r (ch (addr_tree s) r LEFT) t"
    using assms by (auto simp: ra_rep_def avl_rep_def)
  show "proper (exts s x)" if "x \<in> set_tree t" for x using assms that by (auto simp: ra_rep_def sound_def blocks_def)
  show "bst_wrt (before (objects (addr_tree s))) t"
    by (rule bst_inorder, rule before_sorted) (use assms in \<open>auto simp: ra_rep_def avl_rep_def blocks_def block_higher_exts\<close>)
qed

lemma lookup_spec:
  assumes r: "ra_rep live r s t" and n: "unat a + unat (if n = 0 then 1 else n) \<le> 2 ^ 64"
  shows "\<exists>p. lookup r a n ov s = Some p \<and>
    found (objects (addr_tree s)) (set_tree t) (hit ov a (if n = 0 then 1 else n)) p"
proof -
  note d = ra_repD [OF r]
  define k where "k = (if n = 0 then 1 else n)"
  have nz: "find_by_address m o' a n ov b = find_by_address m o' a k ov b" for m o' b
  proof (cases "n = 0")
    case True
    show ?thesis unfolding True k_def find_by_address.simps [of m o' a 0 ov b] if_P [OF refl] find_by_address.simps [of m o' a 1 ov b] by simp
  qed (simp add: k_def)
  show ?thesis
  proof (cases "ch (addr_tree s) r LEFT")
    case None
    then show ?thesis using d(8) by (simp add: lookup_def avl_first_def child_simps tree_at_None found_def)
  next
    case (Some b)
    have "k \<noteq> 0" by (simp add: k_def)
    with Some d(8) find_by_address_spec [of "addr_tree s" "pa (addr_tree s)" r b t, OF _ d(2) _ this, of a ov] d(3) n
    show ?thesis unfolding lookup_def avl_first_def child_simps k_def [symmetric] by (simp add: nz)
  qed
qed

subsection \<open>Meta data\<close>

lemma construct_block_simps [simp]:
  "objects (addr_tree (construct_block b v s)) = (objects (addr_tree s))(b := v)"
  "nodes (addr_tree (construct_block b v s)) = (nodes (addr_tree s))(b := avl_node_init)" "md (construct_block b v s) = md s"
  "addr_tree (free_metadata M b s) = addr_tree s" "md (free_metadata M b s) = md_free M b (md s)"
  by (simp_all add: construct_block_def free_metadata_def)

lemma construct_rep:
  assumes r: "ra_rep live r s t" and b: "b \<notin> insert r (set_tree t)"
  shows "ra_rep live r (construct_block b v s) t" "blocks (construct_block b v s) t = blocks s t"
  by (rule ra_rep_frame [OF r]; use b ra_repD(4) [OF r] in \<open>auto simp: extents_def\<close>)+

lemma free_metadata_rep:
  assumes M: "md_laws M live" and r: "ra_rep live r s t" and b: "b \<notin> insert r (set_tree t)"
  shows "ra_rep live r (free_metadata M b s) t" "blocks (free_metadata M b s) t = blocks s t"
    "live (md (free_metadata M b s)) = live (md s) - {b}"
proof -
  show l: "live (md (free_metadata M b s)) = live (md s) - {b}" using M by (simp add: md_laws_def)
  show "ra_rep live r (free_metadata M b s) t" "blocks (free_metadata M b s) t = blocks s t"
    by (rule ra_rep_frame [OF r]; use l b ra_repD(4) [OF r] in auto)+
qed

lemma alloc_metadata_rep:
  assumes M: "md_laws M live" and r: "ra_rep live r s t" and s': "alloc_block_metadata M s = (x, s')"
  shows "ra_rep live r s' t" "blocks s' t = blocks s t"
    "case x of Inl e \<Rightarrow> live (md s') = live (md s)
     | Inr b \<Rightarrow> b \<notin> live (md s) \<and> b \<notin> insert r (set_tree t) \<and> live (md s') = insert b (live (md s))"
proof -
  obtain y m where y: "md_try_alloc M (md s) = (y, m)" by fastforce
  let ?s = "s\<lparr>md := m\<rparr>"
  have l: "live (md s) \<subseteq> live m" "case y of Inl e \<Rightarrow> live m = live (md s) | Inr b \<Rightarrow> b \<notin> live (md s) \<and> live m = insert b (live (md s))"
    using M y unfolding md_laws_def by (cases y; auto)+
  have k: "ra_rep live r ?s t" "blocks ?s t = blocks s t"
    by (rule ra_rep_frame [OF r]; use l(1) ra_repD(4) [OF r] in auto)+
  have e: "x = y" "s' = (case y of Inl _ \<Rightarrow> ?s | Inr b \<Rightarrow> construct_block b (new_block 0 0 False) ?s)"
    using s' y by (auto simp: alloc_block_metadata_def split: sum.splits)
  have n: "b \<notin> insert r (set_tree t)" if "y = Inr b" for b using that l(2) ra_repD(4) [OF r] by auto
  show "ra_rep live r s' t" "blocks s' t = blocks s t"
    using k construct_rep [OF k(1)] n by (auto simp: e split: sum.splits)
  show "case x of Inl e \<Rightarrow> live (md s') = live (md s)
     | Inr b \<Rightarrow> b \<notin> live (md s) \<and> b \<notin> insert r (set_tree t) \<and> live (md s') = insert b (live (md s))"
    using l(2) n by (auto simp: e split: sum.splits)
qed

lemma alloc_two_rep:
  assumes M: "md_laws M live" and r: "ra_rep live r s t" and s': "alloc_two_blocks_metadata M s = (x, s')"
  shows "ra_rep live r s' t" "blocks s' t = blocks s t"
    "case x of Inl e \<Rightarrow> live (md s') = live (md s)
     | Inr (b1, b2) \<Rightarrow> b1 \<noteq> b2 \<and> {b1, b2} \<inter> insert r (set_tree t) = {} \<and> {b1, b2} \<inter> live (md s) = {} \<and>
         live (md s') = {b1, b2} \<union> live (md s)"
proof -
  obtain x1 s1 where s1: "alloc_block_metadata M s = (x1, s1)" by fastforce
  obtain x2 s2 where s2: "alloc_block_metadata M s1 = (x2, s2)" by fastforce
  note a = alloc_metadata_rep [OF M r s1] and b = alloc_metadata_rep [OF M alloc_metadata_rep(1) [OF M r s1] s2]
  have f: "ra_rep live r (free_metadata M b1 s2) t" "blocks (free_metadata M b1 s2) t = blocks s t"
    "live (md (free_metadata M b1 s2)) = live (md s2) - {b1}" if "x1 = Inr b1" for b1
    using free_metadata_rep [OF M b(1), of b1] a b that by auto
  show "ra_rep live r s' t" "blocks s' t = blocks s t"
    using s' s1 s2 a b f by (auto simp: alloc_two_blocks_metadata_def split: sum.splits)
  show "case x of Inl e \<Rightarrow> live (md s') = live (md s)
     | Inr (b1, b2) \<Rightarrow> b1 \<noteq> b2 \<and> {b1, b2} \<inter> insert r (set_tree t) = {} \<and> {b1, b2} \<inter> live (md s) = {} \<and>
         live (md s') = {b1, b2} \<union> live (md s)"
    using s' s1 s2 a(3) b(3) f(3) by (auto simp: alloc_two_blocks_metadata_def split: sum.splits)
qed

subsection \<open>Adding and destroying blocks\<close>

lemma height_ins: "height (ins hi n t) \<le> height t + 1"
proof (induction t)
  case (Node l a r)
  then have "height (Node l a (ins hi n r)) \<le> height (Node l a r) + 1" "height (Node (ins hi n l) a r) \<le> height (Node l a r) + 1"
    by simp_all linarith+
  with height_rebal [of "Node l a (ins hi n r)"] height_rebal [of "Node (ins hi n l) a r"] show ?case
    by (simp del: rebal.simps height_tree.simps)
qed simp

lemma add_block_spec:
  assumes r: "ra_rep live r s t" and b: "b \<notin> insert r (set_tree t)" "b \<in> live (md s)" and h: "height t < 254"
    and x: "proper (a, n, u)" "\<forall>y \<in> blocks s t. rng y \<inter> addrs a n = {}"
  shows "\<exists>s' t'. add_block r b a n u s = Some s' \<and> ra_rep live r s' t' \<and> set_tree t' = insert b (set_tree t) \<and>
    blocks s' t' = insert (a, n, u) (blocks s t) \<and> md s' = md s \<and> height t' \<le> height t + 1"
proof -
  let ?s = "construct_block b (new_block a n u) s" let ?hi = "block_higher (objects (addr_tree ?s))"
  note c = construct_rep [OF r b(1), of "new_block a n u"] and d = ra_repD [OF r]
  have "fresh_node (addr_tree ?s) b" by (simp add: fresh_node_def avl_node_init_def)
  moreover have p: "higher block_policy = block_higher" by (simp add: block_policy_def)
  ultimately obtain w where w: "avl_insert block_policy r b (addr_tree ?s) = Some w" "avl_rep r w (ins ?hi b t)"
    using avl_insert_rep [OF ra_repD(1) [OF c(1)] b(1) _ h, of block_policy] by (auto simp: p)
  let ?s' = "?s\<lparr>addr_tree := w\<rparr>" let ?t = "ins ?hi b t"
  have e: "exts ?s' = exts ?s" using blocks.insert_obs [OF w(1)] by simp
  have eb: "exts ?s b = (a, n, u)" "\<And>y. y \<in> set_tree t \<Longrightarrow> exts ?s y = exts s y"
    using b(1) by (auto simp: extents_def extent_of_def new_block_def)
  have bl: "blocks ?s' ?t = insert (a, n, u) (blocks s t)" using e eb by (auto simp: blocks_def)
  have "sorted_wrt ?hi (inorder t)" using c(1) by (simp add: ra_rep_def block_higher_exts)
  then have "sorted_wrt ?hi (ins_list ?hi b (inorder t))"
    by (rule ins_list_sorted [rotated 2]) (auto simp: block_higher_def)
  then have "sorted_wrt ?hi (inorder ?t)"
    using inorder_ins [of ?hi b t] \<open>sorted_wrt ?hi (inorder t)\<close> by (simp add: block_higher_def)
  then have so: "sorted_wrt (\<lambda>x y. fst (exts ?s' x) \<le> fst (exts ?s' y)) (inorder ?t)" unfolding e by (simp add: block_higher_exts)
  have new: "(a, n, u) \<notin> blocks s t"
  proof
    assume "(a, n, u) \<in> blocks s t"
    with x(2) have "addrs a n = {}" by fastforce
    with x(1) show False using unat_pos [of n] by simp
  qed
  then have "inj_on (exts ?s) (insert b (set_tree t))"
    using d(7) eb inj_on_cong [of "set_tree t" "exts ?s" "exts s"] b(1) by (auto simp: inj_on_insert blocks_def image_iff)
  moreover have "sound (insert (a, n, u) (blocks s t))"
    using d(6) x unfolding sound_def by (auto simp: disjoint_iff)
  ultimately have "ra_rep live r ?s' ?t" using w(2) so bl d(4) b(2) e by (simp add: ra_rep_def)
  then show ?thesis using w(1) bl height_ins [of ?hi b t] by (intro exI [of _ ?s'] exI [of _ ?t]) (simp add: add_block_def)
qed

lemma destroy_block_spec:
  assumes M: "md_laws M live" and r: "ra_rep live r s t" and b: "b \<in> set_tree t"
  shows "\<exists>s' t'. destroy_block M b s = Some s' \<and> ra_rep live r s' t' \<and> set_tree t' = set_tree t - {b} \<and> exts s' = exts s \<and>
    blocks s' t' = blocks s t - {exts s b} \<and> live (md s') = live (md s) - {b} \<and> height t' \<le> height t"
proof -
  note d = ra_repD [OF r]
  obtain w where w: "avl_remove block_policy b (addr_tree s) = Some w" "avl_rep r w (fst (del b t))"
    using avl_remove_rep [OF d(1) b, of block_policy] by auto
  let ?s = "free_metadata M b (s\<lparr>addr_tree := w\<rparr>)" let ?t = "fst (del b t)"
  have e: "exts ?s = exts s" using blocks.remove_obs [OF w(1)] by simp
  have dt: "distinct (inorder t)" using d(1) by (simp add: avl_rep_def)
  have t: "set_tree ?t = set_tree t - {b}" "inorder ?t = removeAll b (inorder t)" using set_del [OF dt] inorder_del [OF dt] by auto
  have bl: "blocks ?s ?t = blocks s t - {exts s b}"
    unfolding blocks_def e t(1) using inj_on_image_set_diff [OF d(7), of "set_tree t" "{b}"] b by auto
  have lv: "live (md ?s) = live (md s) - {b}" using M by (simp add: md_laws_def)
  have "sorted_wrt (\<lambda>x y. fst (exts s x) \<le> fst (exts s y)) (removeAll b (inorder t))"
    using r by (simp add: ra_rep_def removeAll_filter_not_eq sorted_wrt_filter)
  moreover have "inj_on (exts s) (set_tree t - {b})" using d(7) by (rule inj_on_subset) auto
  moreover have "sound (blocks s t - {exts s b})" using d(6) by (auto simp: sound_def)
  moreover have "insert r (set_tree t - {b}) \<subseteq> live (md ?s)" using d(4,5) b lv by auto
  ultimately have "ra_rep live r ?s ?t" unfolding ra_rep_def e bl t using w(2) by simp
  then show ?thesis using w(1) e bl lv t(1) height_del [of b t]
    by (intro exI [of _ ?s] exI [of _ ?t]) (simp add: destroy_block_def)
qed

subsection \<open>Cutting a range out of a block\<close>

definition remainders :: "extent \<Rightarrow> addr_t \<Rightarrow> size_t \<Rightarrow> extent set" where
  "remainders = (\<lambda>(A, S, u) a n.
     (if A < a then {(A, a - A, False)} else {}) \<union>
     (if unat a + unat n < unat A + unat S then {(a + n, A + S - (a + n), False)} else {}))"

lemma remainders_rng:
  assumes x: "proper (A, S, u)" and a: "A \<le> a" "n \<noteq> 0" "unat a + unat n \<le> unat A + unat S"
  shows "\<forall>x \<in> remainders (A, S, u) a n. proper x \<and> \<not> snd (snd x) \<and> rng x \<subseteq> rng (A, S, u)"
    "\<Union> (rng ` remainders (A, S, u) a n) = rng (A, S, u) - addrs a n"
    "A < a \<Longrightarrow> rng (A, a - A, u') \<inter> rng (a + n, A + S - (a + n), v') = {}"
proof -
  have w: "unat (a - A) = unat a - unat A" "unat (a + n) = unat a + unat n" "unat (A + S) = unat A + unat S"
    using x a by (auto simp: unat_sub_le intro!: unat_add_no_wrap)
  have w2: "unat (A + S - (a + n)) = unat A + unat S - (unat a + unat n)"
    using w a(3) by (subst unat_sub_le) (simp_all add: word_le_nat_alt)
  have n: "0 < unat n" "unat A \<le> unat a" using a by (auto simp: unat_pos word_le_nat_alt)
  have nz: "a - A \<noteq> 0" if "A < a" using that by auto
  have nz2: "A + S - (a + n) \<noteq> 0" if "unat a + unat n < unat A + unat S"
    using that w2 by (metis less_not_refl zero_less_diff unat_0)
  show "\<forall>x \<in> remainders (A, S, u) a n. proper x \<and> \<not> snd (snd x) \<and> rng x \<subseteq> rng (A, S, u)"
    using x n w w2 nz nz2 a(3) by (auto simp: remainders_def)
  show "\<Union> (rng ` remainders (A, S, u) a n) = rng (A, S, u) - addrs a n"
    using x n w w2 a(3) by (auto simp: remainders_def word_less_nat_alt)
  show "rng (A, a - A, u') \<inter> rng (a + n, A + S - (a + n), v') = {}"
    using n w by auto
qed

lemma soundD: "sound B \<Longrightarrow> x \<in> B \<Longrightarrow> y \<in> B \<Longrightarrow> x \<noteq> y \<Longrightarrow> rng x \<inter> rng y = {}"
  by (simp add: sound_def)

text \<open>The sizes of the remaining parts as the code computes them.\<close>

lemma cut_sizes:
  fixes A S a n :: "64 word"
  assumes x: "proper (A, S, u)" and a: "A \<le> a" "n \<noteq> 0" "unat a + unat n \<le> unat A + unat S"
  shows "(if a > A then a - A else 0) = a - A" "0 < a - A \<longleftrightarrow> A < a" "S > a - A"
    "(if S - (a - A) > n then S - (a - A) - n else 0) = (if unat a + unat n < unat A + unat S then A + S - (a + n) else 0)"
    "unat a + unat n < unat A + unat S \<Longrightarrow> 0 < A + S - (a + n)"
proof -
  show "(if a > A then a - A else 0) = a - A" using a(1) by auto
  have w: "unat (a - A) = unat a - unat A" "0 < unat n" "unat A \<le> unat a"
    using a by (auto simp: unat_sub_le unat_pos word_le_nat_alt)
  show "0 < a - A \<longleftrightarrow> A < a" using a(1) by (auto simp: word_less_nat_alt w(1))
  show "S > a - A" using w a(3) by (auto simp: word_less_nat_alt)
  then have ub: "unat (S - (a - A)) = unat S - (unat a - unat A)" using w by (subst unat_sub_le) auto
  have "S - (a - A) > n \<longleftrightarrow> unat a + unat n < unat A + unat S" using ub w a(3) by (auto simp: word_less_nat_alt)
  moreover have e: "S - (a - A) - n = A + S - (a + n)" by simp
  ultimately show "(if S - (a - A) > n then S - (a - A) - n else 0) = (if unat a + unat n < unat A + unat S then A + S - (a + n) else 0)"
    by (simp only: if_split) auto
  show "0 < A + S - (a + n)" if "unat a + unat n < unat A + unat S"
  proof -
    have "S - (a - A) > n" using that ub w a(3) by (auto simp: word_less_nat_alt)
    then have "unat (S - (a - A) - n) = unat (S - (a - A)) - unat n" "unat n < unat (S - (a - A))"
      using unat_sub_le [of n "S - (a - A)"] by (simp_all only: word_less_nat_alt word_le_nat_alt less_imp_le)
    then have "0 < S - (a - A) - n" unfolding word_less_nat_alt by simp
    then show ?thesis by (simp only: e)
  qed
qed

text \<open>A block for what remains, or the meta data given back if nothing does.\<close>

lemma put_rest:
  assumes M: "md_laws M live" and r: "ra_rep live r s t" and b: "b \<notin> insert r (set_tree t)" "b \<in> live (md s)" and h: "height t < 254"
    and x: "c \<Longrightarrow> proper (a, n, False)" "c \<Longrightarrow> \<forall>y \<in> blocks s t. rng y \<inter> addrs a n = {}"
  shows "\<exists>s' t'. (if c then add_block r b a n False s else Some (free_metadata M b s)) = Some s' \<and> ra_rep live r s' t' \<and>
    set_tree t' \<subseteq> insert b (set_tree t) \<and> blocks s' t' = (if c then {(a, n, False)} else {}) \<union> blocks s t \<and>
    live (md s) - {b} \<subseteq> live (md s') \<and> height t' \<le> height t + of_bool c"
proof (cases c)
  case True
  then show ?thesis using add_block_spec [OF r b h x(1) x(2)] by fastforce
next
  case False
  then show ?thesis using free_metadata_rep [OF M r b(1)] by (intro exI [of _ "free_metadata M b s"] exI [of _ t]) auto
qed

lemma cut_from_block_parts:
  assumes v: "exts s b = (A, S, u)" "proper (A, S, u)" and a: "A \<le> a" "n \<noteq> 0" "unat a + unat n \<le> unat A + unat S"
    and s: "destroy_block M b s = Some s1" "(if A < a then add_block r b1 A (a - A) False s1 else Some (free_metadata M b1 s1)) = Some s2"
      "(if unat a + unat n < unat A + unat S then add_block r b2 (a + n) (A + S - (a + n)) False s2 else Some (free_metadata M b2 s2)) = Some s3"
  shows "cut_from_block M r b a n (b1, b2) s = Some s3"
proof -
  note cs = cut_sizes [OF v(2) a]
  have w: "b_addr (objects (addr_tree s) b) = A" "b_size (objects (addr_tree s) b) = S" using exts_fields [of s b] v(1) by auto
  have whole: "\<not> (A = 0 \<and> S = 0)" using v(2) by simp
  show ?thesis
    unfolding cut_from_block_def Let_def split w cs(1) if_P [OF cs(3)] cs(4) if_not_P [OF whole] using s cs(2,5)
    by (cases "A < a"; cases "unat a + unat n < unat A + unat S") simp_all
qed

lemma cut_spec:
  assumes M: "md_laws M live" and r: "ra_rep live r s t" and b: "b \<in> set_tree t" "exts s b = (A, S, u)"
    and a: "A \<le> a" "n \<noteq> 0" "unat a + unat n \<le> unat A + unat S" and h: "height t < 253"
    and m: "b1 \<noteq> b2" "{b1, b2} \<inter> insert r (set_tree t) = {}" "{b1, b2} \<subseteq> live (md s)"
  shows "\<exists>s' t'. cut_from_block M r b a n (b1, b2) s = Some s' \<and> ra_rep live r s' t' \<and>
    blocks s' t' = blocks s t - {(A, S, u)} \<union> remainders (A, S, u) a n \<and>
    height t' \<le> height t + of_bool (A < a) + of_bool (unat a + unat n < unat A + unat S)"
proof -
  note d = ra_repD [OF r]
  have x: "proper (A, S, u)" using d(3) [OF b(1)] b(2) by simp
  note rm = remainders_rng [OF x a]
  have xb: "(A, S, u) \<in> blocks s t" using b by (force simp: blocks_def)
  obtain s1 t1 where s1: "destroy_block M b s = Some s1" "ra_rep live r s1 t1" "set_tree t1 = set_tree t - {b}"
      "blocks s1 t1 = blocks s t - {(A, S, u)}" "live (md s1) = live (md s) - {b}" "height t1 \<le> height t"
    using destroy_block_spec [OF M r b(1)] b(2) by auto
  have clear: "rng y \<inter> rng (A, S, u) = {}" if "y \<in> blocks s1 t1" for y
    using soundD [OF d(6) _ xb, of y] that s1(4) by simp
  define pad where "pad = (A < a)"
  define rest where "rest = (unat a + unat n < unat A + unat S)"
  have p: "proper (A, a - A, False)" "rng (A, a - A, False) \<subseteq> rng (A, S, u)" if pad
    using rm(1) that by (auto simp: pad_def remainders_def)
  have q: "proper (a + n, A + S - (a + n), False)" "rng (a + n, A + S - (a + n), False) \<subseteq> rng (A, S, u)" if rest
    using rm(1) that by (auto simp: rest_def remainders_def)
  have "b1 \<notin> insert r (set_tree t1)" "b1 \<in> live (md s1)" "height t1 < 254" using m(2,3) b(1) s1(3,5,6) h by auto
  moreover have "\<forall>y \<in> blocks s1 t1. rng y \<inter> addrs A (a - A) = {}" if pad using clear p(2) [OF that] by fastforce
  ultimately obtain s2 t2 where s2: "(if pad then add_block r b1 A (a - A) False s1 else Some (free_metadata M b1 s1)) = Some s2"
      "ra_rep live r s2 t2" "set_tree t2 \<subseteq> insert b1 (set_tree t1)" "live (md s1) - {b1} \<subseteq> live (md s2)" "height t2 \<le> height t1 + of_bool pad"
      "blocks s2 t2 = (if pad then {(A, a - A, False)} else {}) \<union> blocks s1 t1"
    using put_rest [OF M s1(2), of b1 pad A "a - A"] p(1) by blast
  have "b2 \<notin> insert r (set_tree t2)" "b2 \<in> live (md s2)" "height t2 < 254"
    using s2(3,4,5) s1(3,5,6) m b(1) h by (auto simp: of_bool_def split: if_splits)
  moreover have "\<forall>y \<in> blocks s2 t2. rng y \<inter> addrs (a + n) (A + S - (a + n)) = {}" if rest
  proof -
    have "rng y \<inter> rng (a + n, A + S - (a + n), False) = {}" if "y \<in> blocks s1 t1" for y using clear [OF that] q(2) [OF \<open>rest\<close>] by blast
    moreover have "rng (A, a - A, False) \<inter> rng (a + n, A + S - (a + n), False) = {}" if pad using rm(3) that unfolding pad_def by blast
    ultimately show ?thesis unfolding s2(6) rng.simps by (cases pad) auto
  qed
  ultimately obtain s3 t3 where s3: "(if rest then add_block r b2 (a + n) (A + S - (a + n)) False s2 else Some (free_metadata M b2 s2)) = Some s3"
      "ra_rep live r s3 t3" "height t3 \<le> height t2 + of_bool rest"
      "blocks s3 t3 = (if rest then {(a + n, A + S - (a + n), False)} else {}) \<union> blocks s2 t2"
    using put_rest [OF M s2(2), of b2 rest "a + n" "A + S - (a + n)"] q(1) by blast
  have "blocks s3 t3 = blocks s t - {(A, S, u)} \<union> remainders (A, S, u) a n"
    using s3(4) s2(6) s1(4) by (auto simp: remainders_def pad_def rest_def)
  moreover have "height t3 \<le> height t + of_bool pad + of_bool rest" using s3(3) s2(5) s1(6) by linarith
  ultimately show ?thesis
    using cut_from_block_parts [OF b(2) x a s1(1) s2(1) [unfolded pad_def] s3(1) [unfolded rest_def]] s3(2) unfolding pad_def rest_def by blast
qed

subsection \<open>Free and used addresses\<close>

definition free_of :: "extent set \<Rightarrow> nat set" where
  "free_of B = \<Union> (rng ` {x \<in> B. \<not> snd (snd x)})"

definition used_of :: "extent set \<Rightarrow> (addr_t \<times> size_t) set" where
  "used_of B = {(a, n). (a, n, True) \<in> B}"

lemma free_of_simps:
  "free_of (insert (a, n, False) B) = addrs a n \<union> free_of B" "free_of (insert (a, n, True) B) = free_of B"
  "used_of (insert (a, n, False) B) = used_of B" "used_of (insert (a, n, True) B) = insert (a, n) (used_of B)"
  by (auto simp: free_of_def used_of_def)

text \<open>The bytes of a block that is taken out of a set without overlaps.\<close>

lemma free_of_minus:
  assumes "sound B" "C \<subseteq> B" "\<forall>x \<in> C. \<not> snd (snd x)"
  shows "free_of (B - C) = free_of B - \<Union> (rng ` C)" "used_of (B - C) = used_of B" "\<Union> (rng ` C) \<subseteq> free_of B"
proof -
  show "used_of (B - C) = used_of B" using assms(3) by (auto simp: used_of_def)
  show "\<Union> (rng ` C) \<subseteq> free_of B" using assms(2,3) unfolding free_of_def by blast
  have "rng x \<inter> rng y = {}" if "x \<in> B - C" "y \<in> C" for x y
    using soundD [OF assms(1), of x y] that assms(2) by blast
  then show "free_of (B - C) = free_of B - \<Union> (rng ` C)" unfolding free_of_def by blast
qed

text \<open>No free block ends where another one starts: free neighbours are always merged.\<close>

definition ends_at :: "extent set \<Rightarrow> nat \<Rightarrow> bool" where
  "ends_at B k \<longleftrightarrow> (\<exists>(a, n, u) \<in> B. \<not> u \<and> unat a + unat n = k)"

definition starts_at :: "extent set \<Rightarrow> nat \<Rightarrow> bool" where
  "starts_at B k \<longleftrightarrow> (\<exists>(a, n, u) \<in> B. \<not> u \<and> unat a = k)"

definition maximal :: "extent set \<Rightarrow> bool" where
  "maximal B \<longleftrightarrow> (\<forall>k. \<not> (ends_at B k \<and> starts_at B k))"

lemma ends_at_simps:
  "ends_at (insert (a, n, u) B) k \<longleftrightarrow> \<not> u \<and> unat a + unat n = k \<or> ends_at B k" "ends_at {} k \<longleftrightarrow> False"
  "starts_at (insert (a, n, u) B) k \<longleftrightarrow> \<not> u \<and> unat a = k \<or> starts_at B k" "starts_at {} k \<longleftrightarrow> False"
  "ends_at (B \<union> C) k \<longleftrightarrow> ends_at B k \<or> ends_at C k" "starts_at (B \<union> C) k \<longleftrightarrow> starts_at B k \<or> starts_at C k"
  by (auto simp: ends_at_def starts_at_def)

lemma ends_at_mono: "ends_at B k \<Longrightarrow> B \<subseteq> C \<Longrightarrow> ends_at C k" "starts_at B k \<Longrightarrow> B \<subseteq> C \<Longrightarrow> starts_at C k"
  "maximal C \<Longrightarrow> B \<subseteq> C \<Longrightarrow> maximal B"
  by (auto simp: ends_at_def starts_at_def maximal_def split_beta)

lemma maximal_insert:
  assumes "maximal B" "n \<noteq> 0" "\<not> u \<Longrightarrow> \<not> ends_at B (unat a)" "\<not> u \<Longrightarrow> \<not> starts_at B (unat a + unat n)"
  shows "maximal (insert (a, n, u) B)"
  using assms unat_pos [of n] unfolding maximal_def ends_at_simps by auto

subsection \<open>Adding a range\<close>

text \<open>One neighbour \<open>b\<close> of a range, if it is free, is destroyed and becomes part of the range.\<close>

definition merged :: "('m \<Rightarrow> 'b set) \<Rightarrow> 'b \<Rightarrow> addr_t \<Rightarrow> size_t \<Rightarrow> ('b, 'm) allocator \<Rightarrow> 'b tree \<Rightarrow> addr_t \<Rightarrow> size_t \<Rightarrow> ('b, 'm) allocator \<Rightarrow> 'b tree \<Rightarrow> bool" where
  "merged live r a n s t a' n' s' t' \<longleftrightarrow> (\<exists>C. ra_rep live r s' t' \<and> set_tree t' \<subseteq> set_tree t \<and> live (md s) - set_tree t \<subseteq> live (md s') \<and>
     C \<subseteq> blocks s t \<and> blocks s' t' = blocks s t - C \<and> (\<forall>x \<in> C. \<not> snd (snd x)) \<and> n' \<noteq> 0 \<and>
     unat a' + unat n' < 2 ^ 64 \<and> addrs a' n' = addrs a n \<union> \<Union> (rng ` C) \<and> height t' \<le> height t)"

lemma merged_refl:
  assumes "ra_rep live r s t" "n \<noteq> 0" "unat a + unat n < 2 ^ 64"
  shows "merged live r a n s t a n s t"
  unfolding merged_def using assms by (intro exI [of _ "{}"]) auto

lemma merge_step:
  assumes M: "md_laws M live" and r: "ra_rep live r s t" and b: "b \<in> set_tree t" "exts s b = (A, S, False)"
    and n': "n' \<noteq> 0" "unat a' + unat n' < 2 ^ 64" "addrs a' n' = addrs a n \<union> rng (A, S, False)"
  shows "\<exists>s' t'. destroy_block M b s = Some s' \<and> merged live r a n s t a' n' s' t' \<and> blocks s' t' = blocks s t - {(A, S, False)}"
proof -
  obtain s' t' where s': "destroy_block M b s = Some s'" "ra_rep live r s' t'" "set_tree t' = set_tree t - {b}"
      "blocks s' t' = blocks s t - {(A, S, False)}" "live (md s') = live (md s) - {b}" "height t' \<le> height t"
    using destroy_block_spec [OF M r b(1)] b(2) by auto
  have "(A, S, False) \<in> blocks s t" using b by (force simp: blocks_def)
  then show ?thesis using s' b(1) n' unfolding merged_def
    by (intro exI [of _ s'] exI [of _ t'] conjI exI [of _ "{(A, S, False)}"]) auto
qed

lemma end_in:
  assumes "sound B" "ends_at B k"
  shows "0 < k \<and> (\<exists>x \<in> B. \<not> snd (snd x) \<and> k - 1 \<in> rng x)"
proof -
  obtain a n where x: "(a, n, False) \<in> B" "unat a + unat n = k" using assms(2) by (auto simp: ends_at_def)
  then have "0 < unat n" using assms(1) by (auto simp: sound_def unat_pos)
  with x show ?thesis by (intro conjI bexI [of _ "(a, n, False)"]) auto
qed

lemma end_pos: "sound B \<Longrightarrow> \<not> ends_at B 0"
  using end_in [of B 0] by auto

lemma start_in:
  assumes "sound B" "starts_at B k"
  shows "\<exists>x \<in> B. \<not> snd (snd x) \<and> k \<in> rng x"
proof -
  obtain a n where x: "(a, n, False) \<in> B" "unat a = k" using assms(2) by (auto simp: starts_at_def)
  then have "0 < unat n" using assms(1) by (auto simp: sound_def unat_pos)
  with x show ?thesis by (intro bexI [of _ "(a, n, False)"]) auto
qed

lemma found_at:
  assumes r: "ra_rep live r s t" and p: "found (objects (addr_tree s)) (set_tree t) (hit False a 1) p"
    and x: "x \<in> blocks s t" "unat a \<in> rng x"
  shows "\<exists>b. p = Some b \<and> b \<in> set_tree t \<and> exts s b = x"
proof (cases p)
  case None
  then show ?thesis using p x by (auto simp: found_def hit_def blocks_def)
next
  case (Some b)
  then have b: "b \<in> set_tree t" "unat a \<in> rng (exts s b)" using p by (auto simp: found_def hit_def)
  then have "exts s b = x" using soundD [OF ra_repD(6) [OF r] _ x(1), of "exts s b"] x(2) by (auto simp: blocks_def)
  with b(1) Some show ?thesis by blast
qed

lemma not_free_at:
  assumes "ra_rep live r s t" "found (objects (addr_tree s)) (set_tree t) (hit False a 1) p"
    and "\<not> (case p of None \<Rightarrow> False | Some b \<Rightarrow> \<not> b_used (objects (addr_tree s) b))" "x \<in> blocks s t" "\<not> snd (snd x)"
  shows "unat a \<notin> rng x"
  using found_at [OF assms(1,2,4)] assms(3,5) by (auto simp: exts_fields)

lemma merge_pred:
  assumes M: "md_laws M live" and r: "ra_rep live r s t" and n: "n \<noteq> 0" "unat a + unat n < 2 ^ 64"
    and clear: "\<forall>y \<in> blocks s t. rng y \<inter> addrs a n = {}"
  shows "\<exists>a' n' s' t'. (do {
      p \<leftarrow> (if a \<noteq> 0 then lookup r (a - 1) 0 False s else Some None);
      case p of
        Some b \<Rightarrow> let v = objects (addr_tree s) b
                 in if \<not> b_used v then do { s2 \<leftarrow> destroy_block M b s; Some (b_addr v, n + b_size v, s2) } else Some (a, n, s)
      | None \<Rightarrow> Some (a, n, s) }) = Some (a', n', s') \<and> merged live r a n s t a' n' s' t' \<and> unat a' + unat n' = unat a + unat n \<and>
      (maximal (blocks s t) \<longrightarrow> \<not> ends_at (blocks s' t') (unat a'))"
proof (cases "a = 0")
  case True
  then show ?thesis using merged_refl [OF r n] end_pos [OF ra_repD(6) [OF r]] by auto
next
  case False
  then have a1: "unat (a - 1) = unat a - 1" "0 < unat a" by (simp_all add: unat_minus_one unat_pos)
  obtain p where p: "lookup r (a - 1) 0 False s = Some p" "found (objects (addr_tree s)) (set_tree t) (hit False (a - 1) 1) p"
    using lookup_spec [OF r, of "a - 1" 0 False] a1 unat64_bound [of a] by auto
  show ?thesis
  proof (cases "case p of None \<Rightarrow> False | Some b \<Rightarrow> \<not> b_used (objects (addr_tree s) b)")
    case fre: False
    have "\<not> ends_at (blocks s t) (unat a)"
    proof
      assume "ends_at (blocks s t) (unat a)"
      then obtain x where x: "x \<in> blocks s t" "\<not> snd (snd x)" "unat a - 1 \<in> rng x" using end_in [OF ra_repD(6) [OF r]] by metis
      then show False using not_free_at [OF r p(2) fre x(1,2)] a1 by simp
    qed
    then show ?thesis using p(1) fre \<open>a \<noteq> 0\<close> merged_refl [OF r n] by (cases p) (auto simp: Let_def)
  next
    case fre: True
    then obtain b where b: "p = Some b" "\<not> b_used (objects (addr_tree s) b)" by (auto split: option.splits)
    obtain A S where x: "exts s b = (A, S, False)" using b(2) exts_fields(3) [of s b] by (cases "exts s b") auto
    have bt: "b \<in> set_tree t" "unat a - 1 \<in> rng (A, S, False)" using p(2) b(1) x a1 by (auto simp: found_def hit_def)
    then have xb: "(A, S, False) \<in> blocks s t" using x by (force simp: blocks_def)
    with clear have "rng (A, S, False) \<inter> addrs a n = {}" by blast
    then have "unat a \<notin> rng (A, S, False)" using n(1) unat_pos [of n] by auto
    with bt(2) a1(2) have e: "unat A + unat S = unat a" by auto
    have S: "unat (n + S) = unat n + unat S" using e n(2) by (intro unat_add_no_wrap) auto
    have "addrs A (n + S) = addrs a n \<union> rng (A, S, False)" using e S by auto
    moreover have "n + S \<noteq> 0" using S n(1) by (metis add_is_0 unat_0 unat_eq_zero)
    moreover have "unat A + unat (n + S) < 2 ^ 64" using S n(2) e by simp
    ultimately obtain s' t' where s': "destroy_block M b s = Some s'" "merged live r a n s t A (n + S) s' t'" "blocks s' t' = blocks s t - {(A, S, False)}"
      using merge_step [OF M r bt(1) x, of "n + S" A] by blast
    have "\<not> ends_at (blocks s' t') (unat A)" if mx: "maximal (blocks s t)"
    proof
      assume "ends_at (blocks s' t') (unat A)"
      then have "ends_at (blocks s t) (unat A)" using s'(3) ends_at_mono(1) [of "blocks s' t'" _ "blocks s t"] by auto
      moreover have "starts_at (blocks s t) (unat A)" using xb by (force simp: starts_at_def)
      ultimately show False using mx by (auto simp: maximal_def)
    qed
    then show ?thesis using s' p(1) b \<open>a \<noteq> 0\<close> x exts_fields [of s b] S e by (auto simp: Let_def)
  qed
qed

lemma merge_succ:
  assumes M: "md_laws M live" and r: "ra_rep live r s t" and n: "n \<noteq> 0" "unat a + unat n < 2 ^ 64"
    and clear: "\<forall>y \<in> blocks s t. rng y \<inter> addrs a n = {}"
  shows "\<exists>n' s' t'. (do {
      q \<leftarrow> lookup r (a + n) 0 False s;
      case q of
        Some b \<Rightarrow> let v = objects (addr_tree s) b
                 in if \<not> b_used v then do { s3 \<leftarrow> destroy_block M b s; Some (n + b_size v, s3) } else Some (n, s)
      | None \<Rightarrow> Some (n, s) }) = Some (n', s') \<and> merged live r a n s t a n' s' t' \<and>
      (maximal (blocks s t) \<longrightarrow> \<not> starts_at (blocks s' t') (unat a + unat n'))"
proof -
  have an: "unat (a + n) = unat a + unat n" using n(2) by (intro unat_add_no_wrap) simp
  obtain p where p: "lookup r (a + n) 0 False s = Some p" "found (objects (addr_tree s)) (set_tree t) (hit False (a + n) 1) p"
    using lookup_spec [OF r, of "a + n" 0 False] an n(2) by auto
  show ?thesis
  proof (cases "case p of None \<Rightarrow> False | Some b \<Rightarrow> \<not> b_used (objects (addr_tree s) b)")
    case False
    have "\<not> starts_at (blocks s t) (unat a + unat n)"
    proof
      assume "starts_at (blocks s t) (unat a + unat n)"
      then obtain x where x: "x \<in> blocks s t" "\<not> snd (snd x)" "unat a + unat n \<in> rng x" using start_in [OF ra_repD(6) [OF r]] by metis
      then show False using not_free_at [OF r p(2) False x(1,2)] an by simp
    qed
    then show ?thesis using p(1) False merged_refl [OF r n] by (cases p) (auto simp: Let_def)
  next
    case True
    then obtain b where b: "p = Some b" "\<not> b_used (objects (addr_tree s) b)" by (auto split: option.splits)
    obtain A S where x: "exts s b = (A, S, False)" using b(2) exts_fields(3) [of s b] by (cases "exts s b") auto
    have bt: "b \<in> set_tree t" "unat a + unat n \<in> rng (A, S, False)" using p(2) b(1) x an by (auto simp: found_def hit_def)
    then have xb: "(A, S, False) \<in> blocks s t" using x by (force simp: blocks_def)
    with clear ra_repD(3) [OF r bt(1)] x have c: "rng (A, S, False) \<inter> addrs a n = {}" "unat A + unat S < 2 ^ 64" by (auto simp del: rng.simps)
    have "unat a + unat n - 1 \<in> addrs a n" using n(1) unat_pos [of n] by auto
    with c(1) have "unat a + unat n - 1 \<notin> rng (A, S, False)" by blast
    with bt(2) n(1) unat_pos [of n] have e: "unat A = unat a + unat n" by auto
    have S: "unat (n + S) = unat n + unat S" using e c(2) by (intro unat_add_no_wrap) auto
    have "addrs a (n + S) = addrs a n \<union> rng (A, S, False)" using e S by auto
    moreover have "n + S \<noteq> 0" using S n(1) by (metis add_is_0 unat_0 unat_eq_zero)
    moreover have "unat a + unat (n + S) < 2 ^ 64" using S c(2) e by simp
    ultimately obtain s' t' where s': "destroy_block M b s = Some s'" "merged live r a n s t a (n + S) s' t'" "blocks s' t' = blocks s t - {(A, S, False)}"
      using merge_step [OF M r bt(1) x, of "n + S" a] by blast
    have "\<not> starts_at (blocks s' t') (unat a + unat (n + S))" if mx: "maximal (blocks s t)"
    proof
      assume "starts_at (blocks s' t') (unat a + unat (n + S))"
      then have "starts_at (blocks s t) (unat A + unat S)" using s'(3) S e ends_at_mono(2) [of "blocks s' t'" _ "blocks s t"] by (simp add: add.assoc)
      moreover have "ends_at (blocks s t) (unat A + unat S)" using xb by (force simp: ends_at_def)
      ultimately show False using mx by (auto simp: maximal_def)
    qed
    with s' show ?thesis using p(1) b x exts_fields [of s b] by (auto simp: Let_def)
  qed
qed

text \<open>A meta-data allocator that never refuses a request.\<close>

definition md_total :: "('b, 'm) md_alloc \<Rightarrow> bool" where
  "md_total M \<longleftrightarrow> (\<forall>m. \<exists>b m'. md_try_alloc M m = (Inr b, m'))"

lemma metadata_total: "alloc_block_metadata M s = (Inl e, s') \<Longrightarrow> \<not> md_total M"
  by (auto simp: alloc_block_metadata_def md_total_def split: prod.splits sum.splits) (metis Inl_Inr_False Pair_inject)

lemma two_metadata_total: "alloc_two_blocks_metadata M s = (Inl e, s') \<Longrightarrow> \<not> md_total M"
  by (auto simp: alloc_two_blocks_metadata_def dest: metadata_total split: prod.splits sum.splits)

lemma mergedE:
  assumes "merged live r a n s t a' n' s' t'"
  obtains C where "ra_rep live r s' t'" "set_tree t' \<subseteq> set_tree t" "live (md s) - set_tree t \<subseteq> live (md s')"
    "C \<subseteq> blocks s t" "blocks s' t' = blocks s t - C" "\<forall>x \<in> C. \<not> snd (snd x)" "n' \<noteq> 0" "unat a' + unat n' < 2 ^ 64"
    "addrs a' n' = addrs a n \<union> \<Union> (rng ` C)" "height t' \<le> height t"
  using assms unfolding merged_def by (elim exE conjE) (rule that)

lemma clear_minus:
  assumes "sound B" "C \<subseteq> B" "\<forall>y \<in> B. rng y \<inter> I = {}"
  shows "\<forall>y \<in> B - C. rng y \<inter> (I \<union> \<Union> (rng ` C)) = {}"
  using soundD [OF assms(1)] assms(2,3) by blast

lemma merged_trans:
  assumes "merged live r a n s t a1 n1 s1 t1" "merged live r a1 n1 s1 t1 a2 n2 s2 t2"
  shows "merged live r a n s t a2 n2 s2 t2"
proof -
  obtain C D where C: "ra_rep live r s1 t1" "set_tree t1 \<subseteq> set_tree t" "live (md s) - set_tree t \<subseteq> live (md s1)" "C \<subseteq> blocks s t"
      "blocks s1 t1 = blocks s t - C" "\<forall>x \<in> C. \<not> snd (snd x)" "addrs a1 n1 = addrs a n \<union> \<Union> (rng ` C)" "height t1 \<le> height t"
    and D: "ra_rep live r s2 t2" "set_tree t2 \<subseteq> set_tree t1" "live (md s1) - set_tree t1 \<subseteq> live (md s2)" "D \<subseteq> blocks s1 t1"
      "blocks s2 t2 = blocks s1 t1 - D" "\<forall>x \<in> D. \<not> snd (snd x)" "n2 \<noteq> 0" "unat a2 + unat n2 < 2 ^ 64"
      "addrs a2 n2 = addrs a1 n1 \<union> \<Union> (rng ` D)" "height t2 \<le> height t1"
    using assms by (elim mergedE)
  have "live (md s) - set_tree t \<subseteq> live (md s2)" using C(2,3) D(3) by blast
  moreover have "C \<union> D \<subseteq> blocks s t" "blocks s2 t2 = blocks s t - (C \<union> D)" using C(4,5) D(4,5) by auto
  moreover have "addrs a2 n2 = addrs a n \<union> \<Union> (rng ` (C \<union> D))" using C(7) D(9) by auto
  moreover have "\<forall>x \<in> C \<union> D. \<not> snd (snd x)" "height t2 \<le> height t" using C(6,8) D(6,10) by auto
  ultimately show ?thesis unfolding merged_def using D(1,2,7,8) C(2) by blast
qed

lemma merged_clear:
  assumes "ra_rep live r s t" "\<forall>y \<in> blocks s t. rng y \<inter> addrs a n = {}" "merged live r a n s t a' n' s' t'"
  shows "\<forall>y \<in> blocks s' t'. rng y \<inter> addrs a' n' = {}"
  using assms(3)
proof (rule mergedE)
  fix C
  assume C: "C \<subseteq> blocks s t" "blocks s' t' = blocks s t - C" "addrs a' n' = addrs a n \<union> \<Union> (rng ` C)"
  show ?thesis unfolding C(2,3) by (rule clear_minus [OF ra_repD(6) [OF assms(1)] C(1) assms(2)])
qed

lemma merged_rep:
  assumes "merged live r a n s t a' n' s' t'"
  shows "ra_rep live r s' t'" "n' \<noteq> 0" "unat a' + unat n' < 2 ^ 64"
  using assms by (auto elim: mergedE)

lemma merged_subset: "merged live r a n s t a' n' s' t' \<Longrightarrow> blocks s' t' \<subseteq> blocks s t"
  by (erule mergedE) auto

text \<open>The merged range as one free block.\<close>

lemma add_merged:
  assumes r: "ra_rep live r s t" and m: "merged live r a n s t a' n' s' t'" and clear: "\<forall>y \<in> blocks s t. rng y \<inter> addrs a n = {}"
    and nb: "nb \<in> live (md s)" "nb \<notin> insert r (set_tree t)" and h: "height t < 254"
    and ends: "maximal (blocks s t) \<Longrightarrow> \<not> ends_at (blocks s' t') (unat a') \<and> \<not> starts_at (blocks s' t') (unat a' + unat n')"
  shows "\<exists>s'' t''. add_block r nb a' n' False s' = Some s'' \<and> ra_rep live r s'' t'' \<and> height t'' \<le> height t + 1 \<and>
    free_of (blocks s'' t'') = free_of (blocks s t) \<union> addrs a n \<and> used_of (blocks s'' t'') = used_of (blocks s t) \<and>
    (maximal (blocks s t) \<longrightarrow> maximal (blocks s'' t''))"
proof -
  obtain C where C: "ra_rep live r s' t'" "set_tree t' \<subseteq> set_tree t" "live (md s) - set_tree t \<subseteq> live (md s')" "C \<subseteq> blocks s t"
      "blocks s' t' = blocks s t - C" "\<forall>x \<in> C. \<not> snd (snd x)" "n' \<noteq> 0" "unat a' + unat n' < 2 ^ 64"
      "addrs a' n' = addrs a n \<union> \<Union> (rng ` C)" "height t' \<le> height t" using m by (rule mergedE)
  have "nb \<notin> insert r (set_tree t')" "nb \<in> live (md s')" "height t' < 254" using nb C(2,3,10) h by auto
  from add_block_spec [OF C(1) this _ merged_clear [OF r clear m], of False] C(7,8) obtain s'' t'' where
    s: "add_block r nb a' n' False s' = Some s''" "ra_rep live r s'' t''" "blocks s'' t'' = insert (a', n', False) (blocks s' t')" "height t'' \<le> height t' + 1"
    by auto
  note fm = free_of_minus [OF ra_repD(6) [OF r] C(4,6)]
  have "free_of (blocks s'' t'') = free_of (blocks s t) \<union> addrs a n" "used_of (blocks s'' t'') = used_of (blocks s t)"
    unfolding s(3) free_of_simps C(5) fm(1,2) C(9) using fm(3) by auto
  moreover have "maximal (blocks s'' t'')" if mx: "maximal (blocks s t)"
    unfolding s(3) using ends_at_mono(3) [OF mx merged_subset [OF m]] C(7) ends [OF mx] by (intro maximal_insert) auto
  ultimately show ?thesis using s C(10) by (intro exI [of _ s''] exI [of _ t'']) auto
qed

lemma add_range_spec:
  assumes M: "md_laws M live" and r: "ra_rep live r s t" and n: "unat a + unat n < 2 ^ 64" and h: "height t < 254"
  shows "\<exists>x s' t'. add_range M r a n s = Some (x, s') \<and> ra_rep live r s' t' \<and> height t' \<le> height t + 1 \<and>
    (case x of
       Inl e \<Rightarrow> blocks s' t' = blocks s t
     | Inr _ \<Rightarrow> n \<noteq> 0 \<and> (\<forall>y \<in> blocks s t. rng y \<inter> addrs a n = {}) \<and>
         free_of (blocks s' t') = free_of (blocks s t) \<union> addrs a n \<and> used_of (blocks s' t') = used_of (blocks s t) \<and>
         (maximal (blocks s t) \<longrightarrow> maximal (blocks s' t'))) \<and>
    (n = 0 \<or> (\<exists>y \<in> blocks s t. rng y \<inter> addrs a n \<noteq> {}) \<longrightarrow> x = Inl DENIED \<and> s' = s) \<and>
    (n \<noteq> 0 \<and> (\<forall>y \<in> blocks s t. rng y \<inter> addrs a n = {}) \<and> md_total M \<longrightarrow> x = Inr ())"
proof (cases "n = 0")
  case True
  then show ?thesis using r by (intro exI [of _ "Inl DENIED"] exI [of _ s] exI [of _ t]) (simp add: add_range_def)
next
  case nz: False
  obtain c where c: "lookup r a n True s = Some c" "found (objects (addr_tree s)) (set_tree t) (hit True a n) c"
    using lookup_spec [OF r, of a n True] n nz by auto
  show ?thesis
  proof (cases c)
    case (Some b)
    then have "\<exists>y \<in> blocks s t. rng y \<inter> addrs a n \<noteq> {}" using c(2) by (auto simp: found_def hit_def blocks_def)
    then show ?thesis using Some c r nz by (intro exI [of _ "Inl DENIED"] exI [of _ s] exI [of _ t]) (simp add: add_range_def)
  next
    case None
    then have clear: "\<forall>y \<in> blocks s t. rng y \<inter> addrs a n = {}" using c(2) by (auto simp: found_def hit_def blocks_def)
    obtain x s1 where s1: "alloc_block_metadata M s = (x, s1)" by fastforce
    note a1 = alloc_metadata_rep [OF M r s1]
    show ?thesis
    proof (cases x)
      case (Inl e)
      then show ?thesis using c(1) None nz s1 a1 clear metadata_total [of M s e s1]
        by (intro exI [of _ "Inl e"] exI [of _ s1] exI [of _ t]) (auto simp: add_range_def)
    next
      case (Inr nb)
      obtain p a2 n2 s2 t2 where p: "(if a \<noteq> 0 then lookup r (a - 1) 0 False s1 else Some None) = Some p"
        "(case p of None \<Rightarrow> Some (a, n, s1) | Some b \<Rightarrow> let v = objects (addr_tree s1) b
           in if \<not> b_used v then destroy_block M b s1 \<bind> (\<lambda>s2. Some (b_addr v, n + b_size v, s2)) else Some (a, n, s1)) = Some (a2, n2, s2)"
        and m2: "merged live r a n s1 t a2 n2 s2 t2" "maximal (blocks s1 t) \<Longrightarrow> \<not> ends_at (blocks s2 t2) (unat a2)"
        using merge_pred [OF M a1(1) nz n] clear a1(2) by (auto simp: Option.bind_eq_Some_conv)
      note c1 = merged_clear [OF a1(1) clear [folded a1(2)] m2(1)]
      obtain q n3 s3 t3 where q: "lookup r (a2 + n2) 0 False s2 = Some q"
        "(case q of None \<Rightarrow> Some (n2, s2) | Some b \<Rightarrow> let v = objects (addr_tree s2) b
           in if \<not> b_used v then destroy_block M b s2 \<bind> (\<lambda>s3. Some (n2 + b_size v, s3)) else Some (n2, s2)) = Some (n3, s3)"
        and m3: "merged live r a2 n2 s2 t2 a2 n3 s3 t3" "maximal (blocks s2 t2) \<Longrightarrow> \<not> starts_at (blocks s3 t3) (unat a2 + unat n3)"
        using merge_succ [OF M merged_rep [OF m2(1)] c1] by (auto simp: Option.bind_eq_Some_conv)
      have "\<not> ends_at (blocks s3 t3) (unat a2) \<and> \<not> starts_at (blocks s3 t3) (unat a2 + unat n3)" if "maximal (blocks s1 t)"
        using m2(2) [OF that] m3(2) ends_at_mono(1) [OF _ merged_subset [OF m3(1)]] ends_at_mono(3) [OF that merged_subset [OF m2(1)]] by blast
      with add_merged [OF a1(1) merged_trans [OF m2(1) m3(1)] clear [folded a1(2)], of nb] a1(2,3) Inr h obtain s4 t4 where
        s4: "add_block r nb a2 n3 False s3 = Some s4" "ra_rep live r s4 t4" "height t4 \<le> height t + 1"
          "free_of (blocks s4 t4) = free_of (blocks s t) \<union> addrs a n" "used_of (blocks s4 t4) = used_of (blocks s t)"
          "maximal (blocks s t) \<longrightarrow> maximal (blocks s4 t4)" by auto
      have "add_range M r a n s = Some (Inr (), s4)" using nz c(1) None s1 Inr p q s4(1) by (simp add: add_range_def)
      then show ?thesis using s4(2-6) nz clear by (intro exI [of _ "Inr ()"] exI [of _ s4] exI [of _ t4]) auto
    qed
  qed
qed

end
