(* ===== verification/Range_Refinement.thy ===== *)
theory Range_Refinement
  imports Range_Blocks
begin

text \<open>
  The operations of the range allocator as steps of an abstract allocator that knows only the set of
  free addresses and the set of allocations: allocation by size and by address, freeing, adding and
  removing ranges.
\<close>

subsection \<open>Allocation\<close>

lemma find_best_fit_spec:
  assumes "tree_at (ch s) p q (Some b) t"
  shows "\<exists>c. find_best_fit (nodes s) d n align rg b = Some c \<and> (\<forall>x. c = Some x \<longrightarrow> x \<in> set_tree t \<and> fits (d x) n align rg)"
  using assms
proof (induction t arbitrary: q b)
  case (Node l c u)
  have b: "b = c" "tree_at (ch s) p b (ch s b LEFT) l" "tree_at (ch s) p b (ch s b RIGHT) u" using Node.prems by auto
  have "\<exists>x. (case ch s b i of None \<Rightarrow> Some None | Some c \<Rightarrow> find_best_fit (nodes s) d n align rg c) = Some x \<and>
      (\<forall>y. x = Some y \<longrightarrow> y \<in> set_tree (Node l c u) \<and> fits (d y) n align rg)" for i
    using b Node.IH(1) [of b] Node.IH(2) [of b] by (cases i; cases "ch s b i") fastforce+
  then obtain f where f: "(case ch s b i of None \<Rightarrow> Some None | Some c \<Rightarrow> find_best_fit (nodes s) d n align rg c) = Some (f i)"
      "\<And>y. f i = Some y \<Longrightarrow> y \<in> set_tree (Node l c u) \<and> fits (d y) n align rg" for i by metis
  show ?case
    using f b(1) by (subst find_best_fit.simps) (auto simp: Let_def child_simps split: option.splits)
qed simp

text \<open>
  The contract of an allocation: a size that is not zero, and a start of the search that the
  alignment does not carry across the top of the address space.
\<close>

definition request_ok :: "size_t \<Rightarrow> nat \<Rightarrow> addr_range \<Rightarrow> bool" where
  "request_ok n align rg \<longleftrightarrow> n \<noteq> 0 \<and> align < 64 \<and> unat (r_start rg) + 2 ^ align + unat n < 2 ^ 64"

lemma mask_unat:
  assumes "align < 64"
  shows "unat (push_bit align 1 - 1 :: 64 word) = 2 ^ align - 1"
proof -
  have "(1 :: 64 word) \<le> push_bit align 1" by (simp add: push_bit_eq_mult word_le_nat_alt unat_exp [OF assms])
  then have "unat (push_bit align 1 - 1 :: 64 word) = unat (push_bit align 1 :: 64 word) - unat (1 :: 64 word)"
    by (rule unat_sub_le)
  also have "unat (push_bit align 1 :: 64 word) = 2 ^ align" by (simp add: push_bit_eq_mult unat_exp [OF assms])
  finally show ?thesis by simp
qed

lemma align_addr_unat:
  assumes "align < 64" "unat a + 2 ^ align \<le> 2 ^ 64"
  shows "unat (align_addr a align) = (unat a + (2 ^ align - 1)) div 2 ^ align * 2 ^ align" "a \<le> align_addr a align"
    "unat (align_addr a align) < unat a + 2 ^ align"
proof -
  note m = mask_unat [OF assms(1)]
  have "unat (a + (push_bit align 1 - 1)) = unat a + (2 ^ align - 1)"
    using assms(2) by (subst unat_add_no_wrap) (simp_all only: m, simp)
  then show e: "unat (align_addr a align) = (unat a + (2 ^ align - 1)) div 2 ^ align * 2 ^ align"
    unfolding align_addr_def align_down [OF assms(1)] by simp
  let ?x = "unat a + (2 ^ align - 1)"
  have "?x div 2 ^ align * 2 ^ align + ?x mod 2 ^ align = ?x" "?x mod 2 ^ align < 2 ^ align" by (rule div_mult_mod_eq) simp
  then show "a \<le> align_addr a align" "unat (align_addr a align) < unat a + 2 ^ align" unfolding word_le_nat_alt e by linarith+
qed

lemma align_addr_wrap:
  assumes "align < 64" "\<not> unat a + 2 ^ align \<le> 2 ^ 64"
  shows "align_addr a align = 0"
proof -
  note m = mask_unat [OF assms(1)]
  have "unat (a + (push_bit align 1 - 1)) = unat a + (2 ^ align - 1) - 2 ^ 64"
    using assms(2) unat64_bound [of a] power_increasing [of align 64 "2 :: nat"] assms(1)
    unfolding unat_word_ariths m by (simp add: le_mod_geq)
  also have "\<dots> < 2 ^ align" using unat64_bound [of a] zero_less_power [of "2 :: nat" align] by linarith
  finally have "unat (align_addr a align) = 0" unfolding align_addr_def align_down [OF assms(1)] by simp
  then show ?thesis by (simp add: unat_eq_zero)
qed

lemma sum_in_range_iff: "n \<noteq> 0 \<Longrightarrow> sum_in_range a n \<longleftrightarrow> unat a + unat n \<le> 2 ^ 64"
proof -
  assume n: "n \<noteq> 0"
  then have np: "0 < unat n" "unat (n - 1) = unat n - 1" by (simp_all add: unat_pos unat_minus_one)
  show ?thesis
  proof (cases "unat a + unat n \<le> 2 ^ 64")
    case True
    then show ?thesis using unat_last [OF n True] np by (simp add: sum_in_range_def word_le_nat_alt)
  next
    case False
    then have "unat (a + (n - 1)) = unat a + (unat n - 1) - 2 ^ 64"
      using unat64_bound [of a] unat64_bound [of n] np by (simp add: unat_word_ariths le_mod_geq)
    then have "unat (a + n - 1) < unat a" using unat64_bound [of n] np(1) unat64_bound [of a] False by (simp add: add_diff_eq)
    then show ?thesis using False by (simp add: sum_in_range_def word_le_nat_alt)
  qed
qed

lemma fits_facts:
  assumes f: "fits v n align rg" and q: "request_ok n align rg" and v: "extent_of v = (A, S, u)" "proper (A, S, u)"
  defines "a \<equiv> align_addr (max A (r_start rg)) align"
  shows "\<not> u" "A \<le> a" "unat a + unat n \<le> unat A + unat S" "r_start rg \<le> a" "2 ^ align dvd unat a"
    "unat a + unat n - 1 \<le> unat (r_end rg)"
proof -
  have n: "n \<noteq> 0" "align < 64" "unat (r_start rg) + 2 ^ align + unat n < 2 ^ 64" using q by (auto simp: request_ok_def)
  have va: "b_addr v = A" "avail v = (if u then 0 else S)" using v(1) by (auto simp: extent_of_def avail_def)
  have g: "A \<le> a" "sum_in_range a n" "a - A + n \<le> avail v" "a + n - 1 \<le> r_end rg"
    using f by (auto simp: fits_def Let_def va a_def)
  then show "A \<le> a" by simp
  have np: "0 < unat n" using n(1) by (simp add: unat_pos)
  have nowrap: "unat (max A (r_start rg)) + 2 ^ align \<le> 2 ^ 64"
  proof (rule ccontr)
    assume w: "\<not> ?thesis"
    then have "a = 0" unfolding a_def by (rule align_addr_wrap [OF n(2)])
    then have "A = 0" using g(1) by simp
    then show False using w n(3) by simp
  qed
  note al = align_addr_unat [OF n(2) nowrap, folded a_def]
  show "r_start rg \<le> a" using al(2) by simp
  show "2 ^ align dvd unat a" unfolding al(1) by simp
  have s: "unat a + unat n \<le> 2 ^ 64" using g(2) sum_in_range_iff [OF n(1)] by simp
  have aA: "unat (a - A) = unat a - unat A" by (rule unat_sub_le [OF g(1)])
  have lt: "unat a - unat A + unat n < 2 ^ 64"
  proof (cases "unat A = 0")
    case True
    then have "max A (r_start rg) = r_start rg" by (simp add: unat_eq_zero)
    then show ?thesis using al(3) n(3) by simp
  next
    case False
    then show ?thesis using s g(1) by (simp add: word_le_nat_alt)
  qed
  then have "unat (a - A + n) = unat a - unat A + unat n" using aA by (subst unat_add_no_wrap) simp_all
  then have c: "unat a - unat A + unat n \<le> unat (avail v)" using g(3) by (simp add: word_le_nat_alt)
  show u: "\<not> u" using c np va(2) by (cases u) auto
  then show "unat a + unat n \<le> unat A + unat S" using c va(2) g(1) by (simp add: word_le_nat_alt)
  show "unat a + unat n - 1 \<le> unat (r_end rg)" using g(4) unat_last [OF n(1) s] by (simp add: word_le_nat_alt)
qed

text \<open>The free addresses and the allocations.\<close>

type_synonym region = "nat set \<times> (addr_t \<times> size_t) set"

abbreviation region_of :: "extent set \<Rightarrow> region" where
  "region_of B \<equiv> (free_of B, used_of B)"

text \<open>
  An address \<open>a\<close> is cut out of the free block \<open>x\<close>. The search picks a block; if that block is free,
  the aligned address is inside of it.
\<close>

fun inside :: "extent \<Rightarrow> addr_t \<Rightarrow> size_t \<Rightarrow> bool" where
  "inside (A, S, u) a n \<longleftrightarrow> A \<le> a \<and> unat a + unat n \<le> unat A + unat S"

lemma inside_cut:
  assumes B: "sound B" "(A, S, False) \<in> B" and i: "inside (A, S, False) a n" "n \<noteq> 0"
  defines "B' \<equiv> B - {(A, S, False)} \<union> remainders (A, S, False) a n"
  shows "free_of B' = free_of B - addrs a n" "used_of B' = used_of B" "addrs a n \<subseteq> free_of B" "proper (a, n, u)"
    "\<forall>y \<in> B'. rng y \<inter> addrs a n = {}"
proof -
  have x: "proper (A, S, False)" using B by (auto simp: sound_def)
  have i': "A \<le> a" "unat a + unat n \<le> unat A + unat S" "unat A \<le> unat a" using i(1) by (auto simp: word_le_nat_alt)
  note rm = remainders_rng [OF x i'(1) i(2) i'(2)]
  have sp: "addrs a n \<subseteq> rng (A, S, False)" using i' by auto
  have "free_of (remainders (A, S, False) a n) = \<Union> (rng ` remainders (A, S, False) a n)"
    using rm(1) unfolding free_of_def by blast
  then have rem: "free_of (remainders (A, S, False) a n) = rng (A, S, False) - addrs a n" "used_of (remainders (A, S, False) a n) = {}"
    using rm(1,2) by (auto simp: used_of_def)
  have un: "free_of (X \<union> Y) = free_of X \<union> free_of Y" "used_of (X \<union> Y) = used_of X \<union> used_of Y" for X Y
    by (auto simp: free_of_def used_of_def)
  have C: "{(A, S, False)} \<subseteq> B" "\<forall>x \<in> {(A, S, False)}. \<not> snd (snd x)" using B(2) by auto
  note fm = free_of_minus [OF B(1) C]
  show "free_of B' = free_of B - addrs a n" unfolding B'_def un rem fm(1) using fm(3) sp by auto
  show "used_of B' = used_of B" unfolding B'_def un rem fm(2) by simp
  show "addrs a n \<subseteq> free_of B" using fm(3) sp by auto
  show "proper (a, n, u)" using x i' i(2) by simp
  have "rng y \<inter> addrs a n = {}" if "y \<in> B - {(A, S, False)}" for y using soundD [OF B(1) _ B(2), of y] that sp by blast
  moreover have "rng y \<inter> addrs a n = {}" if "y \<in> remainders (A, S, False) a n" for y using rm(2) that by blast
  ultimately show "\<forall>y \<in> B'. rng y \<inter> addrs a n = {}" unfolding B'_def by blast
qed

text \<open>
  What is expected of a search: a block that it returns is used or satisfies \<open>Q\<close>; if it returns no
  block or a used one, the blocks satisfy \<open>N\<close>.
\<close>

definition picks :: "('m \<Rightarrow> 'b set) \<Rightarrow> 'b \<Rightarrow> 'b tree \<Rightarrow> (extent \<Rightarrow> bool) \<Rightarrow> (extent set \<Rightarrow> bool) \<Rightarrow>
    (('b \<Rightarrow> 'b avl_node) \<Rightarrow> ('b \<Rightarrow> ra_block) \<Rightarrow> 'b \<Rightarrow> 'b option option) \<Rightarrow> bool" where
  "picks live r t Q N search \<longleftrightarrow> N {} \<and>
     (\<forall>(s :: ('b, 'm) allocator) b. ra_rep live r s t \<and> ch (addr_tree s) r LEFT = Some b \<longrightarrow>
       (\<exists>p. search (nodes (addr_tree s)) (objects (addr_tree s)) b = Some p \<and>
          (case p of
             None \<Rightarrow> N (blocks s t)
           | Some x \<Rightarrow> x \<in> set_tree t \<and> (if b_used (objects (addr_tree s) x) then N (blocks s t) else Q (exts s x)))))"

lemma maximal_cut:
  assumes B: "sound B" "(A, S, False) \<in> B" "maximal B" and i: "inside (A, S, False) a n" "n \<noteq> 0"
  shows "maximal (B - {(A, S, False)} \<union> remainders (A, S, False) a n)"
proof -
  let ?B = "B - {(A, S, False)}"
  have x: "proper (A, S, False)" using B by (auto simp: sound_def)
  have i': "A \<le> a" "unat a + unat n \<le> unat A + unat S" "unat A \<le> unat a" "0 < unat n" using i by (auto simp: word_le_nat_alt unat_pos)
  have so: "sound ?B" using B(1) by (auto simp: sound_def)
  have out: "k \<notin> rng y" if "y \<in> ?B" "k \<in> rng (A, S, False)" for y k using soundD [OF B(1) _ B(2), of y] that by blast
  have nb: "\<not> ends_at ?B (unat A)" "\<not> starts_at ?B (unat A + unat S)" "\<not> starts_at ?B (unat a)" "\<not> ends_at ?B (unat a + unat n)"
  proof -
    have "starts_at B (unat A)" "ends_at B (unat A + unat S)" using B(2) by (force simp: starts_at_def ends_at_def)+
    then show "\<not> ends_at ?B (unat A)" "\<not> starts_at ?B (unat A + unat S)"
      using B(3) ends_at_mono(1) [of ?B _ B] ends_at_mono(2) [of ?B _ B] by (auto simp: maximal_def)
    have "unat a \<in> rng (A, S, False)" "unat a + unat n - 1 \<in> rng (A, S, False)" using i' by auto
    then show "\<not> starts_at ?B (unat a)" "\<not> ends_at ?B (unat a + unat n)" using start_in [OF so] end_in [OF so] out by blast+
  qed
  have w: "unat (a - A) = unat a - unat A" "unat (a + n) = unat a + unat n" "unat (A + S) = unat A + unat S"
    using x i' by (auto simp: unat_sub_le intro!: unat_add_no_wrap)
  have w2: "unat (A + S - (a + n)) = unat A + unat S - (unat a + unat n)"
    using w i'(2) by (subst unat_sub_le) (simp_all add: word_le_nat_alt)
  define L where "L = (if A < a then insert (A, a - A, False) ?B else ?B)"
  have L: "maximal L" "\<not> ends_at L (unat a + unat n)" "\<not> starts_at L (unat A + unat S)"
  proof -
    have m: "maximal ?B" using B(3) by (rule ends_at_mono(3)) auto
    then show "maximal L" unfolding L_def using nb(1,3) w(1) i'(3) by (auto intro!: maximal_insert)
    show "\<not> ends_at L (unat a + unat n)" "\<not> starts_at L (unat A + unat S)"
      unfolding L_def using nb(2,4) w(1) i' by (auto simp: ends_at_simps)
  qed
  have "B - {(A, S, False)} \<union> remainders (A, S, False) a n =
      (if unat a + unat n < unat A + unat S then insert (a + n, A + S - (a + n), False) L else L)"
    by (auto simp: remainders_def L_def)
  moreover have "A + S - (a + n) \<noteq> 0" if "unat a + unat n < unat A + unat S" using that w2 by (metis less_not_refl zero_less_diff unat_0)
  ultimately show ?thesis using L w(2) w2 by (auto intro!: maximal_insert)
qed

lemma maximal_contains:
  assumes B: "sound B" "maximal B" and i: "addrs a n \<subseteq> free_of B" "n \<noteq> 0"
  shows "\<exists>x \<in> B. \<not> snd (snd x) \<and> addrs a n \<subseteq> rng x"
proof -
  have n: "0 < unat n" using i(2) by (simp add: unat_pos)
  then have "unat a \<in> free_of B" using i(1) by auto
  then obtain A S where x: "(A, S, False) \<in> B" "unat a \<in> rng (A, S, False)" by (auto simp: free_of_def)
  have "unat a + unat n \<le> unat A + unat S"
  proof (rule ccontr)
    assume "\<not> ?thesis"
    then have "unat A + unat S \<in> addrs a n" using x(2) by auto
    then have "unat A + unat S \<in> free_of B" using i(1) by blast
    then obtain A' S' where y: "(A', S', False) \<in> B" "unat A + unat S \<in> rng (A', S', False)" by (auto simp: free_of_def)
    have "(A, S, False) \<noteq> (A', S', False)" using y(2) by auto
    then have d: "rng (A, S, False) \<inter> rng (A', S', False) = {}" using soundD [OF B(1) x(1) y(1)] by blast
    have "unat A + unat S - 1 \<in> rng (A, S, False)" using x(2) by auto
    then have "unat A + unat S - 1 \<notin> rng (A', S', False)" using d by blast
    then have "unat A' = unat A + unat S" using y(2) x(2) by auto
    then have "starts_at B (unat A + unat S)" "ends_at B (unat A + unat S)" using x(1) y(1) by (force simp: starts_at_def ends_at_def)+
    then show False using B(2) by (auto simp: maximal_def)
  qed
  then show ?thesis using x by (intro bexI [of _ "(A, S, False)"]) auto
qed

definition alloc_at :: "nat \<Rightarrow> addr_range \<Rightarrow> extent \<Rightarrow> addr_t" where
  "alloc_at align rg x = align_addr (max (fst x) (r_start rg)) align"

lemma two_metadata_back:
  assumes M: "md_laws M live" and r: "ra_rep live r s t" and s1: "alloc_two_blocks_metadata M s = (Inr (b1, b2), s1)"
  shows "b1 \<noteq> b2" "{b1, b2} \<inter> insert r (set_tree t) = {}" "{b1, b2} \<subseteq> live (md s1)"
    "ra_rep live r (free_metadata M b2 (free_metadata M b1 s1)) t" "blocks (free_metadata M b2 (free_metadata M b1 s1)) t = blocks s t"
proof -
  note a1 = alloc_two_rep [OF M r s1]
  show m: "b1 \<noteq> b2" "{b1, b2} \<inter> insert r (set_tree t) = {}" "{b1, b2} \<subseteq> live (md s1)" using a1(3) by auto
  show "ra_rep live r (free_metadata M b2 (free_metadata M b1 s1)) t" "blocks (free_metadata M b2 (free_metadata M b1 s1)) t = blocks s t"
    using free_metadata_rep [OF M a1(1), of b1] free_metadata_rep [OF M, of r "free_metadata M b1 s1" t b2] m(2) a1(2) by auto
qed

lemma cut_free_spec:
  assumes M: "md_laws M live" and r: "ra_rep live r s t" and b: "b \<in> set_tree t" "exts s b = (A, S, False)"
    and i: "inside (A, S, False) a n" "n \<noteq> 0" and h: "height t < 253"
    and m: "b1 \<noteq> b2" "{b1, b2} \<inter> insert r (set_tree t) = {}" "{b1, b2} \<subseteq> live (md s)"
  shows "\<exists>s' t'. cut_from_block M r b a n (b1, b2) s = Some s' \<and> ra_rep live r s' t' \<and>
    region_of (blocks s' t') = (free_of (blocks s t) - addrs a n, used_of (blocks s t)) \<and> addrs a n \<subseteq> free_of (blocks s t) \<and>
    (maximal (blocks s t) \<longrightarrow> maximal (blocks s' t')) \<and> (\<forall>y \<in> blocks s' t'. rng y \<inter> addrs a n = {}) \<and> proper (a, n, True) \<and>
    height t' \<le> height t + of_bool (A < a) + of_bool (unat a + unat n < unat A + unat S)"
proof -
  have x: "(A, S, False) \<in> blocks s t" using b by (force simp: blocks_def)
  note so = ra_repD(6) [OF r]
  note ic = inside_cut [OF so x i] and mc = maximal_cut [OF so x _ i]
  have i': "A \<le> a" "unat a + unat n \<le> unat A + unat S" using i(1) by simp_all
  from cut_spec [OF M r b i'(1) i(2) i'(2) h m] obtain s' t' where s': "cut_from_block M r b a n (b1, b2) s = Some s'" "ra_rep live r s' t'"
    "blocks s' t' = blocks s t - {(A, S, False)} \<union> remainders (A, S, False) a n"
    "height t' \<le> height t + of_bool (A < a) + of_bool (unat a + unat n < unat A + unat S)" by blast
  then show ?thesis using ic mc by (intro exI [of _ s'] exI [of _ t']) auto
qed

definition alloc_outcome :: "bool \<Rightarrow> (addr_t \<Rightarrow> bool) \<Rightarrow> (extent set \<Rightarrow> bool) \<Rightarrow> size_t \<Rightarrow> extent set \<Rightarrow> ra_alloc_error + addr_t \<Rightarrow> extent set \<Rightarrow> bool" where
  "alloc_outcome tot G N n B x B' \<longleftrightarrow> (case x of
     Inl e \<Rightarrow> B' = B \<and> (N B \<or> \<not> tot) \<or>
       \<not> tot \<and> used_of B' = used_of B \<and> (\<exists>a. G a \<and> addrs a n \<subseteq> free_of B \<and> free_of B' = free_of B - addrs a n) \<and> (maximal B \<longrightarrow> maximal B')
   | Inr a \<Rightarrow> G a \<and> addrs a n \<subseteq> free_of B \<and> free_of B' = free_of B - addrs a n \<and> used_of B' = insert (a, n) (used_of B) \<and>
       (maximal B \<longrightarrow> maximal B'))"

text \<open>The allocation out of the block that the search found.\<close>

lemma allocate_from:
  assumes M: "md_laws M live" and r: "ra_rep live r s1 t" and b: "b \<in> set_tree t" "exts s1 b = (A, S, False)"
    and i: "inside (A, S, False) a n" "G a" "n \<noteq> 0" and h: "height t < 251"
    and m: "b1 \<noteq> b2" "{b1, b2} \<inter> insert r (set_tree t) = {}" "{b1, b2} \<subseteq> live (md s1)"
  shows "\<exists>x s' t'. (do {
        s2 \<leftarrow> cut_from_block M r b a n (b1, b2) s1;
        case alloc_block_metadata M s2 of (Inl e, s3) \<Rightarrow> Some (Inl e, s3)
        | (Inr nb, s3) \<Rightarrow> do { s4 \<leftarrow> add_block r nb a n True s3; Some (Inr a, s4) } }) = Some (x, s') \<and>
    ra_rep live r s' t' \<and> height t' \<le> height t + 3 \<and> alloc_outcome (md_total M) G N n (blocks s1 t) x (blocks s' t')"
    (is "\<exists>x s' t'. ?run = Some (x, s') \<and> ?G x s' t'")
proof -
  obtain s2 t2 where s2: "cut_from_block M r b a n (b1, b2) s1 = Some s2" "ra_rep live r s2 t2"
      "region_of (blocks s2 t2) = (free_of (blocks s1 t) - addrs a n, used_of (blocks s1 t))" "addrs a n \<subseteq> free_of (blocks s1 t)"
      "maximal (blocks s1 t) \<longrightarrow> maximal (blocks s2 t2)" "\<forall>y \<in> blocks s2 t2. rng y \<inter> addrs a n = {}" "proper (a, n, True)"
      "height t2 \<le> height t + of_bool (A < a) + of_bool (unat a + unat n < unat A + unat S)"
    using cut_free_spec [OF M r b i(1,3) _ m] h by auto
  have h2: "height t2 \<le> height t + 2" using s2(8) by (auto simp: of_bool_def split: if_splits)
  obtain y s3 where s3: "alloc_block_metadata M s2 = (y, s3)" by fastforce
  note a3 = alloc_metadata_rep [OF M s2(2) s3]
  show ?thesis
  proof (cases y)
    case (Inl e)
    have "?G (Inl e) s3 t2" using metadata_total [of M s2 e s3] s3 Inl s2(3-5) i(2) a3(1,2) h2 by (auto simp: alloc_outcome_def)
    moreover have "?run = Some (Inl e, s3)" using s2(1) s3 Inl by simp
    ultimately show ?thesis by blast
  next
    case (Inr nb)
    obtain s4 t4 where s4: "add_block r nb a n True s3 = Some s4" "ra_rep live r s4 t4"
        "blocks s4 t4 = insert (a, n, True) (blocks s3 t2)" "height t4 \<le> height t2 + 1"
      using add_block_spec [OF a3(1), of nb a n True] a3(2,3) Inr s2(6,7) h2 h by auto
    have "?G (Inr a) s4 t4" using maximal_insert [of _ n True] s2(3-5) i(2,3) a3(2) s4(2-4) h2 by (simp add: free_of_simps alloc_outcome_def)
    moreover have "?run = Some (Inr a, s4)" using s2(1) s3 Inr s4(1) by simp
    ultimately show ?thesis by blast
  qed
qed

lemma search_result:
  assumes search: "picks live r t Q N search" and r: "ra_rep live r s t"
  shows "\<exists>p. (case avl_first r (addr_tree s) of None \<Rightarrow> Some None | Some b \<Rightarrow> search (nodes (addr_tree s)) (objects (addr_tree s)) b) = Some p \<and>
    (case p of None \<Rightarrow> N (blocks s t)
     | Some x \<Rightarrow> x \<in> set_tree t \<and> (if b_used (objects (addr_tree s) x) then N (blocks s t) else Q (exts s x)))"
proof (cases "ch (addr_tree s) r LEFT")
  case None
  then have "blocks s t = {}" using ra_repD(8) [OF r] by (simp add: tree_at_None blocks_def)
  then show ?thesis using None search by (simp add: picks_def avl_first_def child_simps)
next
  case (Some b)
  from search [unfolded picks_def, THEN conjunct2, rule_format, OF conjI [OF r this]] show ?thesis
    by (simp only: Some option.case avl_first_def child_simps)
qed

lemma allocate_spec:
  assumes M: "md_laws M live" and r: "ra_rep live r s t" and n: "n \<noteq> 0" and h: "height t < 251"
    and search: "picks live r t (\<lambda>x. inside x (alloc_at align rg x) n \<and> G (alloc_at align rg x)) N search"
  shows "\<exists>x s' t'. allocate M r n align rg search s = Some (x, s') \<and> ra_rep live r s' t' \<and> height t' \<le> height t + 3 \<and>
    alloc_outcome (md_total M) G N n (blocks s t) x (blocks s' t')"
    (is "\<exists>x s' t'. _ = Some (x, s') \<and> ?G x s' t'")
proof -
  obtain x s1 where s1: "alloc_two_blocks_metadata M s = (x, s1)" by fastforce
  note a1 = alloc_two_rep [OF M r s1]
  show ?thesis
  proof (cases x)
    case (Inl e)
    then have "allocate M r n align rg search s = Some (Inl e, s1) \<and> ?G (Inl e) s1 t"
      using s1 a1 two_metadata_total [of M s e s1] by (simp add: allocate_def alloc_outcome_def)
    then show ?thesis by blast
  next
    case (Inr p)
    obtain b1 b2 where s1: "alloc_two_blocks_metadata M s = (Inr (b1, b2), s1)" using s1 Inr by (cases p) auto
    note m = two_metadata_back [OF M r s1]
    obtain q where q: "(case avl_first r (addr_tree s1) of None \<Rightarrow> Some None | Some b \<Rightarrow> search (nodes (addr_tree s1)) (objects (addr_tree s1)) b) = Some q"
      "case q of None \<Rightarrow> N (blocks s t) | Some x \<Rightarrow> x \<in> set_tree t \<and> (if b_used (objects (addr_tree s1) x) then N (blocks s t)
         else inside (exts s1 x) (alloc_at align rg (exts s1 x)) n \<and> G (alloc_at align rg (exts s1 x)))"
      using search_result [OF search a1(1)] unfolding a1(2) by blast
    show ?thesis
    proof (cases "case q of None \<Rightarrow> True | Some b \<Rightarrow> b_used (objects (addr_tree s1) b)")
      case True
      then have "allocate M r n align rg search s = Some (Inl DENIED, free_metadata M b2 (free_metadata M b1 s1))" "N (blocks s t)"
        using s1 q by (auto simp: allocate_def split: option.splits)
      then show ?thesis using m(4,5) by (intro exI [of _ "Inl DENIED"] exI conjI) (auto simp: alloc_outcome_def)
    next
      case False
      then obtain b where b: "q = Some b" "\<not> b_used (objects (addr_tree s1) b)" by (cases q) auto
      obtain A S where e: "exts s1 b = (A, S, False)" using b(2) exts_fields(3) [of s1 b] by (cases "exts s1 b") auto
      let ?a = "alloc_at align rg (A, S, False)"
      have "b \<in> set_tree t" "inside (A, S, False) ?a n" "G ?a" using q(2) b by (simp_all add: e)
      moreover have "align_addr (max (b_addr (objects (addr_tree s1) b)) (r_start rg)) align = ?a"
        unfolding exts_fields e by (simp add: alloc_at_def)
      ultimately show ?thesis using allocate_from [OF M a1(1) _ e _ _ n h m(1-3), of ?a G N] s1 q(1) b a1(2)
        by (simp add: allocate_def Let_def)
    qed
  qed
qed

text \<open>What a search by size promises about the address, and what the search by address does.\<close>

definition in_request :: "size_t \<Rightarrow> nat \<Rightarrow> addr_range \<Rightarrow> addr_t \<Rightarrow> bool" where
  "in_request n align rg a \<longleftrightarrow> 2 ^ align dvd unat a \<and> r_start rg \<le> a \<and> unat a + unat n - 1 \<le> unat (r_end rg)"

lemma best_fit_picks:
  fixes live :: "'m \<Rightarrow> 'b set"
  assumes q: "request_ok n align rg"
  shows "picks live r t (\<lambda>x. inside x (alloc_at align rg x) n \<and> in_request n align rg (alloc_at align rg x)) (\<lambda>_. True) (\<lambda>m d. find_best_fit m d n align rg)"
  unfolding picks_def
proof (intro conjI allI impI)
  fix s :: "('b, 'm) allocator" and b
  assume s: "ra_rep live r s t \<and> ch (addr_tree s) r LEFT = Some b"
  note d = ra_repD [OF conjunct1 [OF s]]
  obtain p where p: "find_best_fit (nodes (addr_tree s)) (objects (addr_tree s)) n align rg b = Some p"
      "\<And>x. p = Some x \<Longrightarrow> x \<in> set_tree t \<and> fits (objects (addr_tree s) x) n align rg"
    using find_best_fit_spec [of "addr_tree s" "pa (addr_tree s)" r b t "objects (addr_tree s)" n align rg] d(8) s by auto
  have "inside (exts s x) (alloc_at align rg (exts s x)) n \<and> in_request n align rg (alloc_at align rg (exts s x))" if x: "p = Some x" for x
  proof -
    obtain A S u where e: "exts s x = (A, S, u)" by (cases "exts s x") auto
    then have "extent_of (objects (addr_tree s) x) = (A, S, u)" "proper (A, S, u)" using d(3) [of x] p(2) [OF x] by (auto simp: extents_def)
    from fits_facts [OF _ q this] p(2) [OF x] show ?thesis by (simp add: e alloc_at_def in_request_def)
  qed
  with p show "\<exists>p. find_best_fit (nodes (addr_tree s)) (objects (addr_tree s)) n align rg b = Some p \<and>
      (case p of None \<Rightarrow> True | Some x \<Rightarrow> x \<in> set_tree t \<and> (if b_used (objects (addr_tree s) x) then True
         else inside (exts s x) (alloc_at align rg (exts s x)) n \<and> in_request n align rg (alloc_at align rg (exts s x))))"
    by (auto split: option.splits)
qed simp

lemma by_address_picks:
  fixes live :: "'m \<Rightarrow> 'b set"
  assumes n: "n \<noteq> 0" "unat a + unat n \<le> 2 ^ 64"
  shows "picks live r t (\<lambda>x. inside x (alloc_at 0 \<lparr>r_start = a, r_end = e\<rparr> x) n \<and> alloc_at 0 \<lparr>r_start = a, r_end = e\<rparr> x = a)
    (\<lambda>B. \<not> (\<exists>x \<in> B. \<not> snd (snd x) \<and> addrs a n \<subseteq> rng x)) (\<lambda>m d. find_by_address m d a n False)"
  unfolding picks_def
proof (intro conjI allI impI)
  fix s :: "('b, 'm) allocator" and b
  assume s: "ra_rep live r s t \<and> ch (addr_tree s) r LEFT = Some b"
  note d = ra_repD [OF conjunct1 [OF s]]
  obtain p where p: "find_by_address (nodes (addr_tree s)) (objects (addr_tree s)) a n False b = Some p"
      "found (objects (addr_tree s)) (set_tree t) (hit False a n) p"
    using find_by_address_spec [OF _ d(2) _ n, of "addr_tree s" "pa (addr_tree s)" r b False] d(3,8) s by auto
  have "inside (exts s x) (alloc_at 0 \<lparr>r_start = a, r_end = e\<rparr> (exts s x)) n \<and> alloc_at 0 \<lparr>r_start = a, r_end = e\<rparr> (exts s x) = a"
    if x: "p = Some x" for x
  proof -
    obtain A S u where ex: "exts s x = (A, S, u)" by (cases "exts s x") auto
    then have "unat A \<le> unat a" "unat a + unat n \<le> unat A + unat S"
      using p(2) x n(1) unat_pos [of n] by (auto simp: found_def hit_def ivl_subset)
    moreover then have "max A a = a" by (simp add: word_le_nat_alt)
    ultimately show ?thesis by (simp add: ex alloc_at_def align_addr_def word_le_nat_alt)
  qed
  moreover have "\<not> (\<exists>y \<in> blocks s t. \<not> snd (snd y) \<and> addrs a n \<subseteq> rng y)"
    if N: "case p of None \<Rightarrow> True | Some x \<Rightarrow> b_used (objects (addr_tree s) x)"
  proof
    assume "\<exists>y \<in> blocks s t. \<not> snd (snd y) \<and> addrs a n \<subseteq> rng y"
    then obtain y where y: "y \<in> set_tree t" "\<not> snd (snd (exts s y))" "addrs a n \<subseteq> rng (exts s y)" by (auto simp: blocks_def)
    show False
    proof (cases p)
      case None
      then show False using p(2) y by (auto simp: found_def hit_def)
    next
      case (Some x)
      then have x: "x \<in> set_tree t" "addrs a n \<subseteq> rng (exts s x)" "snd (snd (exts s x))" using p(2) N by (auto simp: found_def hit_def exts_fields)
      have "unat a \<in> addrs a n" using n(1) unat_pos [of n] by simp
      then have "rng (exts s x) \<inter> rng (exts s y) \<noteq> {}" using x y by blast
      moreover have "exts s x \<noteq> exts s y" using x(3) y(2) by auto
      ultimately show False using soundD [OF d(6), of "exts s x" "exts s y"] x(1) y(1) by (auto simp: blocks_def)
    qed
  qed
  ultimately show "\<exists>p. find_by_address (nodes (addr_tree s)) (objects (addr_tree s)) a n False b = Some p \<and>
      (case p of None \<Rightarrow> \<not> (\<exists>y \<in> blocks s t. \<not> snd (snd y) \<and> addrs a n \<subseteq> rng y)
       | Some x \<Rightarrow> x \<in> set_tree t \<and> (if b_used (objects (addr_tree s) x) then \<not> (\<exists>y \<in> blocks s t. \<not> snd (snd y) \<and> addrs a n \<subseteq> rng y)
           else inside (exts s x) (alloc_at 0 \<lparr>r_start = a, r_end = e\<rparr> (exts s x)) n \<and> alloc_at 0 \<lparr>r_start = a, r_end = e\<rparr> (exts s x) = a))"
    using p by (auto simp: found_def split: option.splits)
qed simp

lemmas alloc_aligned_spec = allocate_spec [OF _ _ _ _ best_fit_picks, folded alloc_aligned_def]

lemma alloc_at_addr_spec:
  assumes M: "md_laws M live" and r: "ra_rep live r s t" and n: "n \<noteq> 0" and h: "height t < 251"
  shows "\<exists>x s' t'. ra_alloc_addr M r n a s = Some (x, s') \<and> ra_rep live r s' t' \<and> height t' \<le> height t + 3 \<and>
    alloc_outcome (md_total M) (\<lambda>a'. a' = a) (\<lambda>B. \<not> (\<exists>x \<in> B. \<not> snd (snd x) \<and> addrs a n \<subseteq> rng x)) n (blocks s t) x (blocks s' t')"
proof (cases "unat a + unat n \<le> 2 ^ 64")
  case False
  have "\<not> addrs a n \<subseteq> rng x" if x: "x \<in> blocks s t" for x
  proof
    obtain A S u where e: "x = (A, S, u)" by (cases x) auto
    then have "unat A + unat S < 2 ^ 64" using ra_repD(6) [OF r] x by (auto simp: sound_def)
    moreover assume "addrs a n \<subseteq> rng x"
    ultimately show False using False n unat_pos [of n] by (auto simp: e ivl_subset)
  qed
  then show ?thesis using r False sum_in_range_iff [OF n]
    by (intro exI [of _ "Inl DENIED"] exI [of _ s] exI [of _ t]) (simp add: ra_alloc_addr_def alloc_outcome_def)
next
  case True
  from allocate_spec [OF M r n h by_address_picks [OF n this, of live r t "a + n - 1"]] show ?thesis
    unfolding ra_alloc_addr_def using True sum_in_range_iff [OF n] by simp
qed

section \<open>The abstract allocator\<close>

text \<open>
  The clients of an allocator see a set of free addresses and a set of allocations. The step relation
  says which results each operation may have and what it does to these sets. The flag tells that the
  meta-data allocator never refuses a request; only if it does, an address may get lost: it is neither
  free nor allocated any more.
\<close>

datatype ra_cmd =
    Add_range addr_t size_t
  | Remove_range addr_t size_t
  | Alloc_aligned size_t nat addr_range
  | Alloc_addr size_t addr_t
  | Free addr_t

datatype ra_result = Done | Failed ra_alloc_error | Allocated addr_t

definition taken :: "(addr_t \<times> size_t) set \<Rightarrow> nat set" where
  "taken U = (\<Union>(a, n) \<in> U. addrs a n)"

inductive ra_step :: "bool \<Rightarrow> ra_cmd \<Rightarrow> region \<Rightarrow> ra_result \<Rightarrow> region \<Rightarrow> bool" for tot where
  add_ok: "n \<noteq> 0 \<Longrightarrow> addrs a n \<inter> (F \<union> taken U) = {} \<Longrightarrow> ra_step tot (Add_range a n) (F, U) Done (F \<union> addrs a n, U)"
| add_fails: "n = 0 \<or> addrs a n \<inter> (F \<union> taken U) \<noteq> {} \<or> \<not> tot \<Longrightarrow> ra_step tot (Add_range a n) (F, U) (Failed e) (F, U)"
| remove_ok: "n \<noteq> 0 \<Longrightarrow> addrs a n \<inter> taken U = {} \<Longrightarrow> ra_step tot (Remove_range a n) (F, U) Done (F - addrs a n, U)"
| remove_fails: "n = 0 \<or> addrs a n \<inter> taken U \<noteq> {} \<or> \<not> tot \<Longrightarrow> F - addrs a n \<subseteq> F' \<Longrightarrow> F' \<subseteq> F \<Longrightarrow>
    ra_step tot (Remove_range a n) (F, U) (Failed e) (F', U)"
| alloc_ok: "in_request n align rg a \<Longrightarrow> addrs a n \<subseteq> F \<Longrightarrow>
    ra_step tot (Alloc_aligned n align rg) (F, U) (Allocated a) (F - addrs a n, insert (a, n) U)"
| alloc_fails: "ra_step tot (Alloc_aligned n align rg) (F, U) (Failed e) (F, U)"
| alloc_loses: "in_request n align rg a \<Longrightarrow> addrs a n \<subseteq> F \<Longrightarrow> \<not> tot \<Longrightarrow>
    ra_step tot (Alloc_aligned n align rg) (F, U) (Failed e) (F - addrs a n, U)"
| addr_ok: "addrs a n \<subseteq> F \<Longrightarrow> ra_step tot (Alloc_addr n a) (F, U) (Allocated a) (F - addrs a n, insert (a, n) U)"
| addr_fails: "\<not> addrs a n \<subseteq> F \<or> \<not> tot \<Longrightarrow> ra_step tot (Alloc_addr n a) (F, U) (Failed e) (F, U)"
| addr_loses: "addrs a n \<subseteq> F \<Longrightarrow> \<not> tot \<Longrightarrow> ra_step tot (Alloc_addr n a) (F, U) (Failed e) (F - addrs a n, U)"
| free_ok: "(a', n) \<in> U \<Longrightarrow> unat a \<in> addrs a' n \<Longrightarrow> ra_step tot (Free a) (F, U) Done (F \<union> addrs a' n, U - {(a', n)})"
| free_loses: "(a', n) \<in> U \<Longrightarrow> unat a \<in> addrs a' n \<Longrightarrow> \<not> tot \<Longrightarrow> ra_step tot (Free a) (F, U) Done (F, U - {(a', n)})"
| free_none: "unat a \<notin> taken U \<Longrightarrow> ra_step tot (Free a) (F, U) Done (F, U)"

fun ra_exec :: "('b, 'm) md_alloc \<Rightarrow> 'b \<Rightarrow> ra_cmd \<Rightarrow> ('b, 'm) allocator \<Rightarrow> (ra_result \<times> ('b, 'm) allocator) option" where
  "ra_exec M r (Add_range a n) s =
     map_option (\<lambda>(x, s1). (case x of Inl e \<Rightarrow> Failed e | Inr _ \<Rightarrow> Done, s1)) (add_range M r a n s)"
| "ra_exec M r (Remove_range a n) s =
     map_option (\<lambda>(x, s1). (case x of Inl e \<Rightarrow> Failed e | Inr _ \<Rightarrow> Done, s1)) (remove_range M r a n s)"
| "ra_exec M r (Alloc_aligned n align rg) s =
     map_option (\<lambda>(x, s1). (case x of Inl e \<Rightarrow> Failed e | Inr a \<Rightarrow> Allocated a, s1)) (alloc_aligned M r n align rg s)"
| "ra_exec M r (Alloc_addr n a) s =
     map_option (\<lambda>(x, s1). (case x of Inl e \<Rightarrow> Failed e | Inr a \<Rightarrow> Allocated a, s1)) (ra_alloc_addr M r n a s)"
| "ra_exec M r (Free a) s = map_option (\<lambda>s1. (Done, s1)) (ra_free M r a s)"

lemma taken_iff: "k \<in> taken (used_of B) \<longleftrightarrow> (\<exists>x \<in> B. snd (snd x) \<and> k \<in> rng x)"
proof
  assume "k \<in> taken (used_of B)"
  then obtain a n where "(a, n, True) \<in> B" "k \<in> rng (a, n, True)" by (auto simp: taken_def used_of_def)
  then show "\<exists>x \<in> B. snd (snd x) \<and> k \<in> rng x" by (intro bexI [of _ "(a, n, True)"]) simp_all
next
  assume "\<exists>x \<in> B. snd (snd x) \<and> k \<in> rng x"
  then obtain a n where "(a, n, True) \<in> B" "k \<in> rng (a, n, True)" by auto
  then show "k \<in> taken (used_of B)" by (auto simp: taken_def used_of_def)
qed

lemma covered: "free_of B \<union> taken (used_of B) = \<Union> (rng ` B)"
proof -
  have "k \<in> free_of B \<union> taken (used_of B) \<longleftrightarrow> k \<in> \<Union> (rng ` B)" for k
    unfolding Un_iff taken_iff free_of_def by blast
  then show ?thesis by blast
qed

lemma clear_iff: "(\<forall>y \<in> B. rng y \<inter> I = {}) \<longleftrightarrow> I \<inter> (free_of B \<union> taken (used_of B)) = {}"
  unfolding covered by blast

lemma free_not_taken: "sound B \<Longrightarrow> free_of B \<inter> taken (used_of B) = {}"
proof -
  assume B: "sound B"
  have "False" if k: "k \<in> free_of B" "k \<in> taken (used_of B)" for k
  proof -
    obtain x where x: "x \<in> B" "\<not> snd (snd x)" "k \<in> rng x" using k(1) unfolding free_of_def by blast
    obtain y where y: "y \<in> B" "snd (snd y)" "k \<in> rng y" using k(2) unfolding taken_iff by blast
    have "x \<noteq> y" using x(2) y(2) by auto
    then show False using soundD [OF B x(1) y(1)] x(3) y(3) by blast
  qed
  then show ?thesis by blast
qed

text \<open>One operation: it returns, keeps the representation, refines the abstract step and adds at most \<open>k\<close> levels.\<close>

definition refines :: "nat \<Rightarrow> ('b, 'm) md_alloc \<Rightarrow> ('m \<Rightarrow> 'b set) \<Rightarrow> 'b \<Rightarrow> ra_cmd \<Rightarrow> ('b, 'm) allocator \<Rightarrow> 'b tree \<Rightarrow> bool" where
  "refines k M live r c s t \<longleftrightarrow> (\<exists>x s' t'. ra_exec M r c s = Some (x, s') \<and> ra_rep live r s' t' \<and> maximal (blocks s' t') \<and>
     height t' \<le> height t + k \<and> ra_step (md_total M) c (region_of (blocks s t)) x (region_of (blocks s' t')))"

lemma refinesI:
  "ra_exec M r c s = Some (x, s') \<Longrightarrow> ra_rep live r s' t' \<Longrightarrow> maximal (blocks s' t') \<Longrightarrow> height t' \<le> height t + k \<Longrightarrow>
   ra_step (md_total M) c (region_of (blocks s t)) x (region_of (blocks s' t')) \<Longrightarrow> refines k M live r c s t"
  unfolding refines_def by blast

lemma add_refines:
  assumes M: "md_laws M live" and r: "ra_rep live r s t" "maximal (blocks s t)" and n: "unat a + unat n < 2 ^ 64" and h: "height t < 254"
  shows "refines 1 M live r (Add_range a n) s t"
proof -
  obtain x s' t' where x: "add_range M r a n s = Some (x, s')" "ra_rep live r s' t'" "height t' \<le> height t + 1"
      "case x of Inl e \<Rightarrow> blocks s' t' = blocks s t
       | Inr _ \<Rightarrow> n \<noteq> 0 \<and> (\<forall>y \<in> blocks s t. rng y \<inter> addrs a n = {}) \<and>
           free_of (blocks s' t') = free_of (blocks s t) \<union> addrs a n \<and> used_of (blocks s' t') = used_of (blocks s t) \<and>
           (maximal (blocks s t) \<longrightarrow> maximal (blocks s' t'))"
      "n \<noteq> 0 \<and> (\<forall>y \<in> blocks s t. rng y \<inter> addrs a n = {}) \<and> md_total M \<longrightarrow> x = Inr ()"
    using add_range_spec [OF M r(1) n h] by blast
  note e = x(4,5) [unfolded clear_iff]
  have "maximal (blocks s' t')" "ra_step (md_total M) (Add_range a n) (region_of (blocks s t)) (case x of Inl e \<Rightarrow> Failed e | Inr _ \<Rightarrow> Done) (region_of (blocks s' t'))"
    using e r(2) by (cases x; auto intro: add_ok add_fails)+
  then show ?thesis using x(1-3) by (intro refinesI) auto
qed

lemma alloc_refines:
  assumes M: "md_laws M live" and r: "ra_rep live r s t" "maximal (blocks s t)" and q: "request_ok n align rg" and h: "height t < 251"
  shows "refines 3 M live r (Alloc_aligned n align rg) s t"
proof -
  have "n \<noteq> 0" using q by (simp add: request_ok_def)
  then obtain x s' t' where x: "alloc_aligned M r n align rg s = Some (x, s')" "ra_rep live r s' t'" "height t' \<le> height t + 3"
      "alloc_outcome (md_total M) (in_request n align rg) (\<lambda>_. True) n (blocks s t) x (blocks s' t')"
    using alloc_aligned_spec [OF M r(1) _ h q] by auto
  have "maximal (blocks s' t')"
    "ra_step (md_total M) (Alloc_aligned n align rg) (region_of (blocks s t)) (case x of Inl e \<Rightarrow> Failed e | Inr a \<Rightarrow> Allocated a) (region_of (blocks s' t'))"
    using x(4) r(2) unfolding alloc_outcome_def by (cases x; auto intro: ra_step.intros)+
  then show ?thesis using x(1-3) by (intro refinesI) auto
qed

lemma addr_refines:
  assumes M: "md_laws M live" and r: "ra_rep live r s t" "maximal (blocks s t)" and n: "n \<noteq> 0" and h: "height t < 251"
  shows "refines 3 M live r (Alloc_addr n a) s t"
proof -
  obtain x s' t' where x: "ra_alloc_addr M r n a s = Some (x, s')" "ra_rep live r s' t'" "height t' \<le> height t + 3"
      "alloc_outcome (md_total M) (\<lambda>a'. a' = a) (\<lambda>B. \<not> (\<exists>x \<in> B. \<not> snd (snd x) \<and> addrs a n \<subseteq> rng x)) n (blocks s t) x (blocks s' t')"
    using alloc_at_addr_spec [OF M r(1) n h] by blast
  have "maximal (blocks s' t')"
    "ra_step (md_total M) (Alloc_addr n a) (region_of (blocks s t)) (case x of Inl e \<Rightarrow> Failed e | Inr a \<Rightarrow> Allocated a) (region_of (blocks s' t'))"
    using x(4) r(2) maximal_contains [OF ra_repD(6) [OF r(1)] r(2) _ n, of a] unfolding alloc_outcome_def
    by (cases x; auto intro: ra_step.intros)+
  then show ?thesis using x(1-3) by (intro refinesI) auto
qed

inductive_cases add_stepE: "ra_step tot (Add_range a n) (F, U) x (F', U')"

lemma free_none_refines:
  assumes r: "ra_rep live r s t" "maximal (blocks s t)" and p: "lookup r a 0 False s = Some p"
      "found (objects (addr_tree s)) (set_tree t) (hit False a 1) p" "\<not> (case p of None \<Rightarrow> False | Some b \<Rightarrow> b_used (objects (addr_tree s) b))"
  shows "refines 1 M live r (Free a) s t"
proof -
  have "unat a \<notin> rng x" if "x \<in> blocks s t" "snd (snd x)" for x
    using found_at [OF r(1) p(2) that(1)] that(2) p(3) by (auto simp: exts_fields)
  then have "unat a \<notin> taken (used_of (blocks s t))" unfolding taken_iff by blast
  then have "ra_step (md_total M) (Free a) (region_of (blocks s t)) Done (region_of (blocks s t))" by (rule free_none)
  moreover have "ra_free M r a s = Some s" using p(1,3) by (cases p) (auto simp: ra_free_def Let_def)
  ultimately show ?thesis using r by (intro refinesI [of M r "Free a" s Done s live t t]) auto
qed

lemma minus_used:
  "free_of (B - {(A, S, True)}) = free_of B" "used_of (B - {(A, S, True)}) = used_of B - {(A, S)}"
proof -
  have "{x \<in> B - {(A, S, True)}. \<not> snd (snd x)} = {x \<in> B. \<not> snd (snd x)}" by auto
  then show "free_of (B - {(A, S, True)}) = free_of B" unfolding free_of_def by simp
  show "used_of (B - {(A, S, True)}) = used_of B - {(A, S)}" unfolding used_of_def by auto
qed

lemma free_refines:
  assumes M: "md_laws M live" and r: "ra_rep live r s t" "maximal (blocks s t)" and h: "height t < 254"
  shows "refines 1 M live r (Free a) s t"
proof -
  obtain p where p: "lookup r a 0 False s = Some p" "found (objects (addr_tree s)) (set_tree t) (hit False a 1) p"
    using lookup_spec [OF r(1), of a 0 False] unat64_bound [of a] by auto
  show ?thesis
  proof (cases "case p of None \<Rightarrow> False | Some b \<Rightarrow> b_used (objects (addr_tree s) b)")
    case True
    then obtain b where b: "p = Some b" "b_used (objects (addr_tree s) b)" by (cases p) auto
    obtain A S where e: "exts s b = (A, S, True)" using b(2) exts_fields(3) [of s b] by (cases "exts s b") auto
    have bt: "b \<in> set_tree t" "unat a \<in> addrs A S" using p(2) b(1) e by (auto simp: found_def hit_def)
    have x: "(A, S, True) \<in> blocks s t" using bt(1) e by (force simp: blocks_def)
    then have AS: "unat A + unat S < 2 ^ 64" "(A, S) \<in> used_of (blocks s t)" using ra_repD(6) [OF r(1)] by (auto simp: sound_def used_of_def)
    obtain s1 t1 where s1: "destroy_block M b s = Some s1" "ra_rep live r s1 t1" "blocks s1 t1 = blocks s t - {(A, S, True)}" "height t1 \<le> height t"
      using destroy_block_spec [OF M r(1) bt(1)] e by auto
    have m1: "maximal (blocks s1 t1)" using r(2) by (rule ends_at_mono(3)) (auto simp: s1(3))
    have "height t1 < 254" using s1(4) h by simp
    from add_refines [OF M s1(2) m1 AS(1) this] obtain y s2 t2 where s2: "add_range M r A S s1 = Some (y, s2)" "ra_rep live r s2 t2"
        "maximal (blocks s2 t2)" "height t2 \<le> height t1 + 1"
        "ra_step (md_total M) (Add_range A S) (region_of (blocks s1 t1)) (case y of Inl e \<Rightarrow> Failed e | Inr _ \<Rightarrow> Done) (region_of (blocks s2 t2))"
      unfolding refines_def by auto
    have "\<forall>y \<in> blocks s1 t1. rng y \<inter> addrs A S = {}" using soundD [OF ra_repD(6) [OF r(1)] _ x] s1(3) by auto
    moreover have "S \<noteq> 0" using ra_repD(6) [OF r(1)] x by (auto simp: sound_def)
    ultimately have "ra_step (md_total M) (Free a) (region_of (blocks s t)) Done (region_of (blocks s2 t2))"
      using s2(5) AS(2) bt(2) unfolding clear_iff s1(3) minus_used by (elim add_stepE) (auto intro: free_ok free_loses)
    moreover have "ra_free M r a s = Some s2" using p(1) b s1(1) s2(1) e exts_fields [of s b] by (simp add: ra_free_def Let_def)
    ultimately show ?thesis using s2(2-4) s1(4) by (intro refinesI [of M r "Free a" s Done s2 live t2]) auto
  qed (rule free_none_refines [OF r p])
qed

subsection \<open>Removing a range\<close>

text \<open>
  Each round cuts the part of one free block that is inside of the range. A block sticks out of the
  range at most once at either end, hence the tree grows by at most two levels.
\<close>

definition sticking :: "nat set \<Rightarrow> addr_t \<Rightarrow> size_t \<Rightarrow> nat" where
  "sticking F a n = of_bool (0 < unat a \<and> unat a - 1 \<in> F \<and> unat a \<in> F) +
     of_bool (unat a + unat n - 1 \<in> F \<and> unat a + unat n \<in> F)"

lemma intersect_facts:
  fixes base n A S :: "64 word"
  assumes x: "proper (A, S, False)" and n: "n \<noteq> 0" "unat base + unat n \<le> 2 ^ 64" and o: "rng (A, S, False) \<inter> addrs base n \<noteq> {}"
  defines "beg \<equiv> max base A" and "c \<equiv> min (base + n - 1) (A + S - 1) - max base A + 1"
  shows "inside (A, S, False) beg c" "c \<noteq> 0" "addrs beg c = rng (A, S, False) \<inter> addrs base n"
proof -
  have S: "S \<noteq> 0" "unat A + unat S < 2 ^ 64" "0 < unat S" "0 < unat n" using x n by (auto simp: unat_pos)
  let ?e = "min (base + n - 1) (A + S - 1)"
  have ub: "unat beg = max (unat base) (unat A)" by (simp add: beg_def max_def word_le_nat_alt)
  have ue: "unat ?e = min (unat base + unat n - 1) (unat A + unat S - 1)"
    using unat_last [OF n] unat_last [OF S(1), of A] S(2) by (auto simp: min_def word_le_nat_alt)
  have le: "unat beg \<le> unat ?e" unfolding ub ue using o S(3,4) by (auto simp: disjoint_iff)
  then have d: "unat (?e - beg) = unat ?e - unat beg" by (intro unat_sub_le) (simp add: word_le_nat_alt)
  have uc: "unat c = unat ?e - unat beg + 1"
  proof -
    have "unat ?e + 1 < 2 ^ 64" using ue S(2,3) by linarith
    then show ?thesis unfolding c_def beg_def [symmetric] using d by (subst unat_add_no_wrap) auto
  qed
  then show "c \<noteq> 0" by auto
  have "unat beg + unat c = unat ?e + 1" using uc le by simp
  then have "unat beg + unat c \<le> unat A + unat S" using ue S(3) by linarith
  then show "inside (A, S, False) beg c" using ub by (simp add: word_le_nat_alt)
  have "unat beg + unat c = min (unat base + unat n) (unat A + unat S)" using uc le ue S(3,4) by linarith
  then show "addrs beg c = rng (A, S, False) \<inter> addrs base n" unfolding ub [symmetric] by (auto simp: ub)
qed

inductive_cases remove_stepE: "ra_step tot (Remove_range a n) (F, U) x (F', U')"

lemma remove_step_part:
  assumes "ra_step tot (Remove_range a n) (F - R \<inter> addrs a n, U) x (F', U')"
  shows "ra_step tot (Remove_range a n) (F, U) x (F', U')"
proof -
  have e: "F - R \<inter> addrs a n - addrs a n = F - addrs a n" by blast
  show ?thesis using assms by (elim remove_stepE) (simp_all only: e, auto intro!: remove_ok remove_fails)
qed

lemma sticking_cut:
  fixes base n A S :: "64 word"
  assumes "rng (A, S, False) \<inter> addrs base n \<noteq> {}" "rng (A, S, False) \<subseteq> F" "n \<noteq> 0" "addrs beg c = rng (A, S, False) \<inter> addrs base n" "beg = max base A"
  shows "of_bool (A < beg) + of_bool (unat beg + unat c < unat A + unat S) + sticking (F - rng (A, S, False) \<inter> addrs base n) base n \<le> sticking F base n"
proof -
  have n: "0 < unat n" using assms(3) by (simp add: unat_pos)
  have "0 < unat base \<and> unat base - 1 \<in> rng (A, S, False) \<and> unat base \<in> rng (A, S, False)" if "A < beg"
    using that assms(1,5) by (auto simp: disjoint_iff word_less_nat_alt max_def split: if_splits)
  moreover have "unat base + unat n - 1 \<in> rng (A, S, False) \<and> unat base + unat n \<in> rng (A, S, False)"
    if "unat beg + unat c < unat A + unat S"
  proof -
    have "unat beg + unat c \<notin> addrs beg c" by simp
    moreover have "unat A \<le> unat beg + unat c" "unat base \<le> unat beg + unat c" using assms(5) by (auto simp: max_def word_le_nat_alt)
    ultimately have "unat base + unat n \<le> unat beg + unat c" using that assms(4) by auto
    then show ?thesis using assms(1) that n by (auto simp: disjoint_iff)
  qed
  ultimately have k: "A < beg \<Longrightarrow> 0 < unat base \<and> unat base - 1 \<in> F \<and> unat base \<in> F \<and> unat base \<in> rng (A, S, False) \<inter> addrs base n"
    "unat beg + unat c < unat A + unat S \<Longrightarrow> unat base + unat n - 1 \<in> F \<and> unat base + unat n \<in> F \<and> unat base + unat n - 1 \<in> rng (A, S, False) \<inter> addrs base n"
    using assms(2) n by auto
  let ?F = "F - rng (A, S, False) \<inter> addrs base n"
  have "of_bool (A < beg) + of_bool (0 < unat base \<and> unat base - 1 \<in> ?F \<and> unat base \<in> ?F) \<le> (of_bool (0 < unat base \<and> unat base - 1 \<in> F \<and> unat base \<in> F) :: nat)"
    using k(1) by (auto simp: of_bool_def simp del: rng.simps)
  moreover have "of_bool (unat beg + unat c < unat A + unat S) + of_bool (unat base + unat n - 1 \<in> ?F \<and> unat base + unat n \<in> ?F) \<le>
      (of_bool (unat base + unat n - 1 \<in> F \<and> unat base + unat n \<in> F) :: nat)"
    using k(2) by (auto simp: of_bool_def simp del: rng.simps)
  ultimately show ?thesis unfolding sticking_def by linarith
qed

text \<open>One round that found the free block \<open>b\<close>.\<close>

lemma remove_round:
  fixes live :: "'m \<Rightarrow> 'b set"
  assumes M: "md_laws M live" and n: "n \<noteq> 0" "unat base + unat n \<le> 2 ^ 64"
    and r: "ra_rep live r s t" "maximal (blocks s t)" "height t + sticking (free_of (blocks s t)) base n < 253"
    and b: "b \<in> set_tree t" "exts s b = (A, S, False)" "rng (A, S, False) \<inter> addrs base n \<noteq> {}"
    and m: "b1 \<noteq> b2" "{b1, b2} \<inter> insert r (set_tree t) = {}" "{b1, b2} \<subseteq> live (md s)"
  defines "beg \<equiv> max base A" and "c \<equiv> min (base + n - 1) (A + S - 1) - max base A + 1"
  shows "\<exists>s' t'. cut_from_block M r b beg c (b1, b2) s = Some s' \<and> ra_rep live r s' t' \<and> maximal (blocks s' t') \<and>
    region_of (blocks s' t') = (free_of (blocks s t) - rng (A, S, False) \<inter> addrs base n, used_of (blocks s t)) \<and>
    height t' + sticking (free_of (blocks s' t')) base n \<le> height t + sticking (free_of (blocks s t)) base n \<and>
    card (free_of (blocks s' t') \<inter> addrs base n) < card (free_of (blocks s t) \<inter> addrs base n)"
proof -
  let ?F = "free_of (blocks s t)"
  have x: "(A, S, False) \<in> blocks s t" using b(1,2) by (force simp: blocks_def)
  then have p: "proper (A, S, False)" using ra_repD(6) [OF r(1)] by (auto simp: sound_def)
  note I = intersect_facts [OF p n b(3), folded beg_def c_def]
  have R: "rng (A, S, False) \<subseteq> ?F" using x unfolding free_of_def by force
  have "height t < 253" using r(3) by simp
  from cut_free_spec [OF M r(1) b(1,2) I(1,2) this m] r(2) obtain s' t' where s': "cut_from_block M r b beg c (b1, b2) s = Some s'" "ra_rep live r s' t'"
    "maximal (blocks s' t')" "free_of (blocks s' t') = ?F - rng (A, S, False) \<inter> addrs base n" "used_of (blocks s' t') = used_of (blocks s t)"
    "height t' \<le> height t + of_bool (A < beg) + of_bool (unat beg + unat c < unat A + unat S)" unfolding I(3) by auto
  have "height t' + sticking (free_of (blocks s' t')) base n \<le> height t + sticking ?F base n"
    using sticking_cut [OF b(3) R n(1) I(3), unfolded beg_def, OF refl] s'(6) unfolding s'(4) beg_def by linarith
  moreover have "?F \<inter> addrs base n \<noteq> free_of (blocks s' t') \<inter> addrs base n" "free_of (blocks s' t') \<inter> addrs base n \<subseteq> ?F \<inter> addrs base n"
    unfolding s'(4) using b(3) R by blast+
  then have "card (free_of (blocks s' t') \<inter> addrs base n) < card (?F \<inter> addrs base n)" by (intro psubset_card_mono) auto
  ultimately show ?thesis using s'(1-5) by blast
qed

lemma remove_range_loop_spec:
  assumes M: "md_laws M live" and n: "n \<noteq> 0" "unat base + unat n \<le> 2 ^ 64"
    and "ra_rep live r s t" "maximal (blocks s t)" "height t + sticking (free_of (blocks s t)) base n < 253"
  shows "\<exists>x s' t'. remove_range_loop M r base n s = Some (x, s') \<and> ra_rep live r s' t' \<and> maximal (blocks s' t') \<and>
    height t' \<le> height t + sticking (free_of (blocks s t)) base n \<and>
    ra_step (md_total M) (Remove_range base n) (region_of (blocks s t)) (case x of Inl e \<Rightarrow> Failed e | Inr _ \<Rightarrow> Done) (region_of (blocks s' t'))"
  using assms(4-6)
proof (induction "card (free_of (blocks s t) \<inter> addrs base n)" arbitrary: s t rule: less_induct)
  case less
  let ?step = "\<lambda>x B'. ra_step (md_total M) (Remove_range base n) (region_of (blocks s t)) x (region_of B')"
  obtain x s1 where s1: "alloc_two_blocks_metadata M s = (x, s1)" by fastforce
  note a1 = alloc_two_rep [OF M less.prems(1) s1]
  show ?case
  proof (cases x)
    case (Inl e)
    then have "?step (Failed e) (blocks s1 t)" using two_metadata_total [of M s e s1] s1 a1(2) by (auto intro: remove_fails)
    moreover have "remove_range_loop M r base n s = Some (Inl e, s1)" using s1 Inl by (subst remove_range_loop.simps) simp
    ultimately show ?thesis using a1(1,2) less.prems(2) by (intro exI [of _ "Inl e"] exI [of _ s1] exI [of _ t]) auto
  next
    case (Inr bs)
    obtain b1 b2 where s1: "alloc_two_blocks_metadata M s = (Inr (b1, b2), s1)" using s1 Inr by (cases bs) auto
    note m = two_metadata_back [OF M less.prems(1) s1]
    let ?f = "free_metadata M b2 (free_metadata M b1 s1)"
    have ends: ?thesis if "remove_range_loop M r base n s = Some (y, ?f)" "?step (case y of Inl e \<Rightarrow> Failed e | Inr _ \<Rightarrow> Done) (blocks s t)" for y
      using that m(4,5) less.prems(2) by (intro exI [of _ y] exI [of _ ?f] exI [of _ t]) simp
    obtain p where p: "lookup r base n True s1 = Some p" "found (objects (addr_tree s1)) (set_tree t) (hit True base n) p"
      using lookup_spec [OF a1(1), of base n True] n by auto
    show ?thesis
    proof (cases p)
      case None
      then have "\<forall>y \<in> blocks s1 t. rng y \<inter> addrs base n = {}" using p(2) by (auto simp: found_def hit_def blocks_def)
      then have c: "addrs base n \<inter> (free_of (blocks s t) \<union> taken (used_of (blocks s t))) = {}" unfolding a1(2) clear_iff .
      then have "free_of (blocks s t) - addrs base n = free_of (blocks s t)" "addrs base n \<inter> taken (used_of (blocks s t)) = {}" by blast+
      then have "?step Done (blocks s t)" using remove_ok [OF n(1)] by metis
      then show ?thesis using s1 p(1) None by (intro ends [of "Inr ()"]) (subst remove_range_loop.simps, simp_all)
    next
      case (Some b)
      obtain A S u where e: "exts s1 b = (A, S, u)" by (cases "exts s1 b") auto
      have b: "b \<in> set_tree t" "rng (A, S, u) \<inter> addrs base n \<noteq> {}" using p(2) Some e by (auto simp: found_def hit_def)
      have v: "b_addr (objects (addr_tree s1) b) = A" "b_size (objects (addr_tree s1) b) = S" "avail (objects (addr_tree s1) b) = (if u then 0 else S)"
        using exts_fields [of s1 b] e by (auto simp: avail_def)
      show ?thesis
      proof (cases u)
        case True
        then have "(A, S, True) \<in> blocks s t" using b(1) e a1(2) by (force simp: blocks_def)
        then have "\<exists>k \<in> addrs base n. k \<in> taken (used_of (blocks s t))" unfolding taken_iff using b(2) True
          by (auto simp del: rng.simps intro: bexI [of _ "(A, S, True)"])
        then have "?step (Failed DENIED) (blocks s t)" by (auto intro!: remove_fails)
        then show ?thesis using s1 p(1) Some v(3) True by (intro ends [of "Inl DENIED"]) (subst remove_range_loop.simps, simp_all)
      next
        case False
        have S: "S \<noteq> 0" using ra_repD(3) [OF a1(1) b(1)] e by simp
        obtain s2 t2 where s2: "cut_from_block M r b (max base A) (min (base + n - 1) (A + S - 1) - max base A + 1) (b1, b2) s1 = Some s2"
            "ra_rep live r s2 t2" "maximal (blocks s2 t2)" "free_of (blocks s2 t2) = free_of (blocks s t) - rng (A, S, False) \<inter> addrs base n"
            "used_of (blocks s2 t2) = used_of (blocks s t)"
            "height t2 + sticking (free_of (blocks s2 t2)) base n \<le> height t + sticking (free_of (blocks s t)) base n"
            "card (free_of (blocks s2 t2) \<inter> addrs base n) < card (free_of (blocks s t) \<inter> addrs base n)"
          using remove_round [OF M n a1(1) _ _ b(1) _ _ m(1-3)] less.prems(2,3) e b(2) False unfolding a1(2) by auto
        from less.hyps [OF s2(7,2,3)] s2(6) less.prems(3) obtain y s3 t3 where y: "remove_range_loop M r base n s2 = Some (y, s3)"
            "ra_rep live r s3 t3" "maximal (blocks s3 t3)" "height t3 \<le> height t2 + sticking (free_of (blocks s2 t2)) base n"
            "ra_step (md_total M) (Remove_range base n) (region_of (blocks s2 t2)) (case y of Inl e \<Rightarrow> Failed e | Inr _ \<Rightarrow> Done) (region_of (blocks s3 t3))"
          by auto
        have "remove_range_loop M r base n s = Some (y, s3)"
          using s1 p(1) Some v False S s2(1) y(1) by (subst remove_range_loop.simps) (simp add: Let_def)
        then show ?thesis using y(2-4) s2(6) remove_step_part [OF y(5) [unfolded s2(4,5)]]
          by (intro exI [of _ y] exI [of _ s3] exI [of _ t3]) auto
      qed
    qed
  qed
qed

lemma remove_refines:
  assumes M: "md_laws M live" and r: "ra_rep live r s t" "maximal (blocks s t)" and n: "unat a + unat n \<le> 2 ^ 64" and h: "height t < 251"
  shows "refines 3 M live r (Remove_range a n) s t"
proof (cases "n = 0")
  case True
  then have "ra_step (md_total M) (Remove_range a n) (region_of (blocks s t)) (Failed DENIED) (region_of (blocks s t))" by (auto intro: remove_fails)
  then show ?thesis using r True by (intro refinesI [of M r _ s "Failed DENIED" s live t t]) (simp_all add: remove_range_def)
next
  case False
  have k: "sticking (free_of (blocks s t)) a n \<le> 2" by (simp add: sticking_def)
  then have "height t + sticking (free_of (blocks s t)) a n < 253" using h by linarith
  from remove_range_loop_spec [OF M False n r this] obtain x s' t' where x: "remove_range_loop M r a n s = Some (x, s')"
    "ra_rep live r s' t'" "maximal (blocks s' t')" "height t' \<le> height t + sticking (free_of (blocks s t)) a n"
    "ra_step (md_total M) (Remove_range a n) (region_of (blocks s t)) (case x of Inl e \<Rightarrow> Failed e | Inr _ \<Rightarrow> Done) (region_of (blocks s' t'))"
    by blast
  then show ?thesis using False k
    by (intro refinesI [of M r _ s "case x of Inl e \<Rightarrow> Failed e | Inr _ \<Rightarrow> Done" s' live t' t]) (simp_all add: remove_range_def)
qed

end
