(* ===== verification/Range_Safety.thy ===== *)
theory Range_Safety
  imports Range_Refinement
begin

text \<open>
  Sequences of operations on a range allocator, from its construction to its destruction, what its
  queries answer, and concrete runs.
\<close>

section \<open>Sequences of operations\<close>

fun ra_run :: "('b, 'm) md_alloc \<Rightarrow> 'b \<Rightarrow> ra_cmd list \<Rightarrow> ('b, 'm) allocator \<Rightarrow> (ra_result list \<times> ('b, 'm) allocator) option" where
  "ra_run M r [] s = Some ([], s)"
| "ra_run M r (c # cs) s = do { (x, s1) \<leftarrow> ra_exec M r c s; (xs, s2) \<leftarrow> ra_run M r cs s1; Some (x # xs, s2) }"

text \<open>
  What a client has to keep: ranges that end inside of the address space, sizes that are not zero, a
  search that does not wrap; and a tree whose depth, a byte, leaves room for the next operation.
\<close>

fun ra_cmd_ok :: "ra_cmd \<Rightarrow> bool" where
  "ra_cmd_ok (Add_range a n) \<longleftrightarrow> unat a + unat n < 2 ^ 64"
| "ra_cmd_ok (Remove_range a n) \<longleftrightarrow> unat a + unat n \<le> 2 ^ 64"
| "ra_cmd_ok (Alloc_aligned n align rg) \<longleftrightarrow> request_ok n align rg"
| "ra_cmd_ok (Alloc_addr n a) \<longleftrightarrow> n \<noteq> 0"
| "ra_cmd_ok (Free a) \<longleftrightarrow> True"

fun ra_run_ok :: "('b, 'm) md_alloc \<Rightarrow> 'b \<Rightarrow> ra_cmd list \<Rightarrow> ('b, 'm) allocator \<Rightarrow> bool" where
  "ra_run_ok M r [] s \<longleftrightarrow> True"
| "ra_run_ok M r (c # cs) s \<longleftrightarrow> ra_cmd_ok c \<and> depth (nodes (addr_tree s) r) \<le> 251 \<and>
     (case ra_exec M r c s of None \<Rightarrow> True | Some (x, s1) \<Rightarrow> ra_run_ok M r cs s1)"

inductive ra_steps :: "bool \<Rightarrow> ra_cmd list \<Rightarrow> region \<Rightarrow> ra_result list \<Rightarrow> region \<Rightarrow> bool" for tot where
  no_steps: "ra_steps tot [] R [] R"
| more_steps: "ra_step tot c R x R1 \<Longrightarrow> ra_steps tot cs R1 xs R2 \<Longrightarrow> ra_steps tot (c # cs) R (x # xs) R2"

lemma root_depth:
  assumes "ra_rep live r s t"
  shows "unat (depth (nodes (addr_tree s) r)) = height t + 1"
proof -
  let ?a = "addr_tree s"
  have a: "avl_rep r ?a t" by (rule ra_repD(1) [OF assms])
  then have k: "tree_at (ch ?a) (pa ?a) r (ch ?a r LEFT) t" "ch ?a r RIGHT = None" "\<forall>y \<in> set_tree t. lc ?a y" "lc ?a r" "height t < 255"
    by (auto simp: avl_rep_def)
  then have "cdep ?a r LEFT = int (height t)" "cdep ?a r RIGHT = 0"
    using depth_height [OF k(1,3)] by (auto simp: cdep_def)
  then have "dp ?a r = word_of_int (int (height t) + 1)" using k(4) by (simp add: lc_def)
  then have "dp ?a r = word_of_nat (height t + 1)" by simp
  then have "unat (dp ?a r) = (height t + 1) mod 256" by (simp only: unat_of_nat) simp
  then show ?thesis using k(5) by (simp add: dp_def)
qed

lemma exec_refines:
  assumes M: "md_laws M live" and r: "ra_rep live r s t" "maximal (blocks s t)" and c: "ra_cmd_ok c" and h: "height t < 251"
  shows "\<exists>k. refines k M live r c s t"
proof (cases c)
  case (Add_range a n)
  then show ?thesis using add_refines [OF M r] c h by auto
next
  case (Remove_range a n)
  then show ?thesis using remove_refines [OF M r] c h by auto
next
  case (Alloc_aligned n align rg)
  then show ?thesis using alloc_refines [OF M r] c h by auto
next
  case (Alloc_addr n a)
  then show ?thesis using addr_refines [OF M r] c h by auto
next
  case (Free a)
  then show ?thesis using free_refines [OF M r] h by auto
qed

lemma run_refines:
  assumes M: "md_laws M live" and "ra_rep live r s t" "maximal (blocks s t)" "ra_run_ok M r cs s"
  shows "\<exists>xs s' t'. ra_run M r cs s = Some (xs, s') \<and> ra_rep live r s' t' \<and> maximal (blocks s' t') \<and>
    ra_steps (md_total M) cs (region_of (blocks s t)) xs (region_of (blocks s' t'))"
  using assms(2-4)
proof (induction cs arbitrary: s t)
  case Nil
  then show ?case by (intro exI [of _ "[]"] exI [of _ s] exI [of _ t]) (simp add: no_steps)
next
  case (Cons c cs)
  have "unat (depth (nodes (addr_tree s) r)) \<le> 251" using Cons.prems(3) by (simp add: word_le_nat_alt)
  then have "height t < 251" using root_depth [OF Cons.prems(1)] by simp
  then obtain k where "refines k M live r c s t" using exec_refines [OF M Cons.prems(1,2)] Cons.prems(3) by auto
  then obtain x s1 t1 where s1: "ra_exec M r c s = Some (x, s1)" "ra_rep live r s1 t1" "maximal (blocks s1 t1)"
    "ra_step (md_total M) c (region_of (blocks s t)) x (region_of (blocks s1 t1))" unfolding refines_def by blast
  from Cons.IH [OF s1(2,3)] s1(1) Cons.prems(3) obtain xs s2 t2 where s2: "ra_run M r cs s1 = Some (xs, s2)" "ra_rep live r s2 t2"
    "maximal (blocks s2 t2)" "ra_steps (md_total M) cs (region_of (blocks s1 t1)) xs (region_of (blocks s2 t2))" by auto
  have "ra_steps (md_total M) (c # cs) (region_of (blocks s t)) (x # xs) (region_of (blocks s2 t2))"
    using s1(4) s2(4) by (rule more_steps)
  then show ?case using s1(1) s2(1-3) by (intro exI [of _ "x # xs"] exI [of _ s2] exI [of _ t2]) simp
qed

lemma construct_rep_empty:
  assumes "r \<in> live m0"
  shows "ra_rep live r (allocator_construct r nd d m0) Leaf" "blocks (allocator_construct r nd d m0) Leaf = {}"
  using assms
  by (auto simp: ra_rep_def avl_rep_def allocator_construct_def avl_node_init_def blocks_def sound_def ch_def pa_def lc_def cdep_def dp_def)

subsection \<open>Queries\<close>

lemma size_at_spec:
  assumes r: "ra_rep live r s t"
  shows "\<exists>x. size_at r a s = Some x \<and> (\<forall>n. x = Inr n \<longleftrightarrow> (a, n) \<in> used_of (blocks s t))"
proof -
  obtain p where p: "lookup r a 0 False s = Some p" "found (objects (addr_tree s)) (set_tree t) (hit False a 1) p"
    using lookup_spec [OF r, of a 0 False] unat64_bound [of a] by auto
  note so = ra_repD(6) [OF r]
  have start: "unat a \<in> rng (a, n, u)" if "(a, n, u) \<in> blocks s t" for n u
    using that so by (auto simp: sound_def unat_pos)
  show ?thesis
  proof (cases p)
    case None
    then have "unat a \<notin> rng x" if "x \<in> blocks s t" for x using p(2) that by (auto simp: found_def hit_def blocks_def)
    then have "(a, n) \<notin> used_of (blocks s t)" for n using start [of n True] unfolding used_of_def by blast
    then show ?thesis using p(1) None by (simp add: size_at_def)
  next
    case (Some b)
    obtain A S u where e: "exts s b = (A, S, u)" by (cases "exts s b") auto
    have b: "(A, S, u) \<in> blocks s t" "unat a \<in> rng (A, S, u)" using p(2) Some e by (force simp: found_def hit_def blocks_def)+
    have "(a, n) \<in> used_of (blocks s t) \<longleftrightarrow> A = a \<and> u \<and> S = n" for n
    proof
      assume "(a, n) \<in> used_of (blocks s t)"
      then have "(a, n, True) \<in> blocks s t" by (simp add: used_of_def)
      from soundD [OF so this b(1)] start [OF this] b(2) show "A = a \<and> u \<and> S = n" by blast
    next
      assume "A = a \<and> u \<and> S = n"
      then show "(a, n) \<in> used_of (blocks s t)" using b(1) by (auto simp: used_of_def)
    qed
    then show ?thesis using p(1) Some e exts_fields [of s b] by (auto simp: size_at_def Let_def)
  qed
qed

lemma valid_addr_spec:
  assumes r: "ra_rep live r s t"
  shows "valid_addr r a s = Some (unat a \<in> free_of (blocks s t) \<union> taken (used_of (blocks s t)))"
proof -
  obtain p where p: "lookup r a 0 False s = Some p" "found (objects (addr_tree s)) (set_tree t) (hit False a 1) p"
    using lookup_spec [OF r, of a 0 False] unat64_bound [of a] by auto
  have "(p \<noteq> None) = (unat a \<in> \<Union> (rng ` blocks s t))" using p(2) by (cases p) (auto simp: found_def hit_def blocks_def)
  then show ?thesis using p(1) by (simp add: valid_addr_def covered)
qed

lemma find_any_spec:
  assumes "tree_at (ch s) p q b t"
  shows "\<exists>x. find_any_block u (nodes s) d b = Some x \<and> found d (set_tree t) (\<lambda>y. snd (snd y) = u) x"
  using assms
proof (induction t arbitrary: q b)
  case Leaf
  then show ?case by (subst find_any_block.simps) (simp add: found_def)
next
  case (Node l c w)
  then have b: "b = Some c" "tree_at (ch s) p c (ch s c LEFT) l" "tree_at (ch s) p c (ch s c RIGHT) w" by auto
  obtain x y where x: "find_any_block u (nodes s) d (ch s c LEFT) = Some x" "found d (set_tree l) (\<lambda>y. snd (snd y) = u) x"
      "find_any_block u (nodes s) d (ch s c RIGHT) = Some y" "found d (set_tree w) (\<lambda>y. snd (snd y) = u) y"
    using Node.IH(1) [OF b(2)] Node.IH(2) [OF b(3)] by auto
  have e: "snd (snd (extents d c)) = b_used (d c)" by (simp add: extents_def extent_of_def)
  show ?case using x b(1) e by (subst find_any_block.simps) (cases x; cases y; auto simp: found_def child_simps)
qed

lemma any_block_addr_spec:
  assumes r: "ra_rep live r s t"
  shows "\<exists>f a. any_block_addr r s = Some (f, a) \<and> (if f then \<exists>n. (a, n) \<in> used_of (blocks s t) else used_of (blocks s t) = {})"
proof -
  obtain x where x: "find_any_block True (nodes (addr_tree s)) (objects (addr_tree s)) (ch (addr_tree s) r LEFT) = Some x"
      "found (objects (addr_tree s)) (set_tree t) (\<lambda>y. snd (snd y) = True) x"
    using find_any_spec [OF ra_repD(8) [OF r], of True "objects (addr_tree s)"] by blast
  show ?thesis
  proof (cases x)
    case None
    then have "\<forall>y \<in> blocks s t. \<not> snd (snd y)" using x(2) by (auto simp: found_def blocks_def)
    then have "used_of (blocks s t) = {}" by (auto simp: used_of_def)
    then show ?thesis using x(1) None by (intro exI [of _ False] exI [of _ 0]) (simp add: any_block_addr_def avl_first_def child_simps)
  next
    case (Some b)
    then obtain n where "exts s b = (b_addr (objects (addr_tree s) b), n, True)" "b \<in> set_tree t"
      using x(2) exts_fields [of s b] by (cases "exts s b") (auto simp: found_def)
    then have "(b_addr (objects (addr_tree s) b), n) \<in> used_of (blocks s t)" by (force simp: used_of_def blocks_def)
    then show ?thesis using x(1) Some by (auto simp: any_block_addr_def avl_first_def child_simps)
  qed
qed

lemma avail_in_subtree_spec:
  assumes "tree_at (ch s) p q (Some b) t" "distinct (inorder t)"
  shows "avail_in_subtree (nodes s) d b = Some (\<Sum>x \<in> set_tree t. avail (d x))"
  using assms
proof (induction t arbitrary: q b)
  case (Node l c w)
  then have b: "b = c" "tree_at (ch s) p c (ch s c LEFT) l" "tree_at (ch s) p c (ch s c RIGHT) w" by auto
  have dis: "c \<notin> set_tree l \<union> set_tree w" "set_tree l \<inter> set_tree w = {}" "distinct (inorder l)" "distinct (inorder w)" using Node.prems(2) by auto
  have l: "(case ch s c LEFT of None \<Rightarrow> Some 0 | Some x \<Rightarrow> avail_in_subtree (nodes s) d x) = Some (\<Sum>x \<in> set_tree l. avail (d x))"
    using b(2) Node.IH(1) [of c] dis(3) by (cases "ch s c LEFT") (auto simp: tree_at_None)
  have w: "(case ch s c RIGHT of None \<Rightarrow> Some 0 | Some x \<Rightarrow> avail_in_subtree (nodes s) d x) = Some (\<Sum>x \<in> set_tree w. avail (d x))"
    using b(3) Node.IH(2) [of c] dis(4) by (cases "ch s c RIGHT") (auto simp: tree_at_None)
  have "(\<Sum>x \<in> set_tree (Node l c w). avail (d x)) = avail (d c) + ((\<Sum>x \<in> set_tree l. avail (d x)) + (\<Sum>x \<in> set_tree w. avail (d x)))"
    using dis(1,2) by (simp add: sum.union_disjoint)
  then show ?case using l w b(1) by (subst avail_in_subtree.simps) (simp add: child_simps add.assoc)
qed simp

lemma card_free:
  assumes r: "ra_rep live r s t"
  shows "(\<Sum>x \<in> set_tree t. avail (objects (addr_tree s) x)) = word_of_nat (card (free_of (blocks s t)))"
proof -
  let ?d = "objects (addr_tree s)" let ?X = "{x \<in> set_tree t. \<not> b_used (?d x)}"
  note d = ra_repD [OF r]
  have "free_of (blocks s t) = (\<Union>x \<in> ?X. rng (exts s x))" unfolding free_of_def blocks_def by (auto simp: exts_fields simp del: rng.simps)
  moreover have "rng (exts s x) \<inter> rng (exts s y) = {}" if "x \<in> ?X" "y \<in> ?X" "x \<noteq> y" for x y
    using that inj_onD [OF d(7), of x y] by (intro soundD [OF d(6)]) (auto simp: blocks_def)
  ultimately have "card (free_of (blocks s t)) = (\<Sum>x \<in> ?X. card (rng (exts s x)))" by (simp add: card_UN_disjoint extents_def extent_of_def)
  also have "\<dots> = (\<Sum>x \<in> ?X. unat (avail (?d x)))" by (rule sum.cong) (auto simp: extents_def extent_of_def avail_def)
  also have "\<dots> = (\<Sum>x \<in> set_tree t. unat (avail (?d x)))" by (rule sum.mono_neutral_left) (auto simp: avail_def)
  finally show ?thesis by simp
qed

lemma total_avail_spec:
  assumes r: "ra_rep live r s t"
  shows "total_avail r s = Some (word_of_nat (card (free_of (blocks s t))))"
proof (cases "ch (addr_tree s) r LEFT")
  case None
  then have "blocks s t = {}" using ra_repD(8) [OF r] by (simp add: tree_at_None blocks_def)
  then show ?thesis using None by (simp add: total_avail_def avl_first_def child_simps free_of_def)
next
  case (Some b)
  have "distinct (inorder t)" using ra_repD(1) [OF r] by (simp add: avl_rep_def)
  from avail_in_subtree_spec [OF ra_repD(8) [OF r, unfolded Some] this, of "objects (addr_tree s)"] Some show ?thesis
    by (simp add: total_avail_def avl_first_def child_simps card_free [OF r])
qed

text \<open>What the abstract allocator keeps: the allocations do not overlap each other or free addresses.\<close>

definition separate :: "region \<Rightarrow> bool" where
  "separate = (\<lambda>(F, U). F \<inter> taken U = {} \<and> (\<forall>x \<in> U. \<forall>y \<in> U. x \<noteq> y \<longrightarrow> addrs (fst x) (snd x) \<inter> addrs (fst y) (snd y) = {}))"

lemma region_separate:
  assumes "sound B"
  shows "separate (region_of B)"
proof -
  have "addrs a n \<inter> addrs a' n' = {}" if "(a, n) \<in> used_of B" "(a', n') \<in> used_of B" "(a, n) \<noteq> (a', n')" for a n a' n'
    using soundD [OF assms, of "(a, n, True)" "(a', n', True)"] that by (auto simp: used_of_def)
  then show ?thesis using free_not_taken [OF assms] unfolding separate_def by force
qed

text \<open>What the queries of an allocator answer, in terms of the abstract sets.\<close>

definition answers :: "'b \<Rightarrow> ('b, 'm) allocator \<Rightarrow> region \<Rightarrow> bool" where
  "answers r s = (\<lambda>(F, U).
     (\<forall>a. \<exists>x. size_at r a s = Some x \<and> (\<forall>n. x = Inr n \<longleftrightarrow> (a, n) \<in> U)) \<and>
     (\<forall>a. valid_addr r a s = Some (unat a \<in> F \<union> taken U)) \<and>
     total_avail r s = Some (word_of_nat (card F)) \<and>
     (\<exists>f a. any_block_addr r s = Some (f, a) \<and> (if f then \<exists>n. (a, n) \<in> U else U = {})))"

lemma answers_rep: "ra_rep live r s t \<Longrightarrow> answers r s (region_of (blocks s t))"
  unfolding answers_def using size_at_spec [of live r s t] valid_addr_spec [of live r s t] total_avail_spec [of live r s t] any_block_addr_spec [of live r s t]
  by simp

subsection \<open>Destruction\<close>

inductive_cases free_stepE: "ra_step tot (Free a) (F, U) x (F', U')"

lemma used_finite: "finite (used_of (blocks s t))"
proof -
  have "used_of (blocks s t) \<subseteq> (\<lambda>x. (fst x, fst (snd x))) ` blocks s t" by (force simp: used_of_def)
  moreover have "finite (blocks s t)" by (simp add: blocks_def)
  ultimately show ?thesis by (meson finite_imageI finite_subset)
qed

lemma free_finite: "finite (free_of (blocks s t))"
  by (auto simp: free_of_def blocks_def extents_def extent_of_def)

lemma free_step_used: "ra_step tot (Free a) (F, U) x (F', U') \<Longrightarrow> unat a \<in> taken U \<Longrightarrow> \<exists>y \<in> U. U' = U - {y}"
  by (elim free_stepE) blast+

lemma revert_allocations_spec:
  assumes M: "md_laws M live" "md_total M"
    and "ra_rep live r s t" "maximal (blocks s t)" "height t + card (used_of (blocks s t)) < 254"
  shows "\<exists>s' t'. revert_allocations M r s = Some s' \<and> ra_rep live r s' t' \<and> maximal (blocks s' t') \<and>
    height t' \<le> height t + card (used_of (blocks s t)) \<and> used_of (blocks s' t') = {}"
  using assms(3-5)
proof (induction "card (used_of (blocks s t))" arbitrary: s t rule: less_induct)
  case less
  let ?U = "used_of (blocks s t)"
  obtain f a where f: "any_block_addr r s = Some (f, a)" "if f then \<exists>n. (a, n) \<in> ?U else ?U = {}"
    using any_block_addr_spec [OF less.prems(1)] by blast
  show ?case
  proof (cases f)
    case False
    then show ?thesis using f less.prems by (intro exI [of _ s] exI [of _ t]) (simp add: revert_allocations.simps)
  next
    case True
    then obtain n where n: "(a, n) \<in> ?U" using f(2) by auto
    have "refines 1 M live r (Free a) s t" using free_refines [OF M(1) less.prems(1,2)] less.prems(3) by simp
    then obtain s1 t1 where s1: "ra_free M r a s = Some s1" "ra_rep live r s1 t1" "maximal (blocks s1 t1)" "height t1 \<le> height t + 1"
      "ra_step (md_total M) (Free a) (region_of (blocks s t)) Done (region_of (blocks s1 t1))" unfolding refines_def by auto
    have "n \<noteq> 0" using n ra_repD(6) [OF less.prems(1)] by (auto simp: used_of_def sound_def)
    then have "unat a \<in> taken ?U" using n unat_pos [of n] by (force simp: taken_def)
    from free_step_used [OF s1(5) this] obtain x where x: "x \<in> ?U" "used_of (blocks s1 t1) = ?U - {x}" by blast
    then have c: "card (used_of (blocks s1 t1)) = card ?U - 1" "0 < card ?U" using used_finite [of s t] by (auto simp: card_gt_0_iff)
    then have "card (used_of (blocks s1 t1)) < card ?U" "height t1 + card (used_of (blocks s1 t1)) < 254" using s1(4) less.prems(3) by linarith+
    from less.hyps [OF this(1) s1(2,3) this(2)] obtain s2 t2 where s2: "revert_allocations M r s1 = Some s2" "ra_rep live r s2 t2"
      "maximal (blocks s2 t2)" "height t2 \<le> height t1 + card (used_of (blocks s1 t1))" "used_of (blocks s2 t2) = {}" by blast
    moreover then have "height t2 \<le> height t + card ?U" using s1(4) c by linarith
    ultimately show ?thesis using f(1) True s1(1) by (intro exI [of _ s2] exI [of _ t2]) (simp add: revert_allocations.simps [of M r s])
  qed
qed

text \<open>A block does not stick out of its own range.\<close>

lemma sticking_block:
  assumes B: "sound B" "maximal B" and x: "(A, S, False) \<in> B"
  shows "sticking (free_of B) A S = 0"
proof -
  have S: "0 < unat S" using B(1) x by (auto simp: sound_def unat_pos)
  have sa: "starts_at B (unat A)" "ends_at B (unat A + unat S)" using x by (force simp: starts_at_def ends_at_def)+
  have "\<not> (0 < unat A \<and> unat A - 1 \<in> free_of B)"
  proof
    assume a: "0 < unat A \<and> unat A - 1 \<in> free_of B"
    then obtain A' S' where y: "(A', S', False) \<in> B" "unat A - 1 \<in> rng (A', S', False)" by (auto simp: free_of_def)
    have "(A', S', False) \<noteq> (A, S, False)" using y(2) a by auto
    then have "rng (A', S', False) \<inter> rng (A, S, False) = {}" by (rule soundD [OF B(1) y(1) x])
    moreover have "unat A \<in> rng (A, S, False)" using S by simp
    ultimately have "unat A \<notin> rng (A', S', False)" by blast
    then have "unat A' + unat S' = unat A" using y(2) a by auto
    then have "ends_at B (unat A)" using y(1) by (force simp: ends_at_def)
    then show False using sa B(2) by (auto simp: maximal_def)
  qed
  moreover have "unat A + unat S \<notin> free_of B"
  proof
    assume "unat A + unat S \<in> free_of B"
    then obtain A' S' where y: "(A', S', False) \<in> B" "unat A + unat S \<in> rng (A', S', False)" by (auto simp: free_of_def)
    have "(A', S', False) \<noteq> (A, S, False)" using y(2) by auto
    then have "rng (A', S', False) \<inter> rng (A, S, False) = {}" by (rule soundD [OF B(1) y(1) x])
    moreover have "unat A + unat S - 1 \<in> rng (A, S, False)" using S by simp
    ultimately have "unat A + unat S - 1 \<notin> rng (A', S', False)" by blast
    then have "unat A' = unat A + unat S" using y(2) S by auto
    then have "starts_at B (unat A + unat S)" using y(1) by (force simp: starts_at_def)
    then show False using sa B(2) by (auto simp: maximal_def)
  qed
  ultimately show ?thesis by (auto simp: sticking_def)
qed

lemma revert_block_ranges_spec:
  assumes M: "md_laws M live" "md_total M"
    and any: "\<And>s t. ra_rep live r s t \<Longrightarrow> used_of (blocks s t) = U \<Longrightarrow>
      \<exists>p. any s = Some p \<and> (case p of None \<Rightarrow> free_of (blocks s t) = {} | Some b \<Rightarrow> b \<in> set_tree t \<and> \<not> b_used (objects (addr_tree s) b))"
    and "ra_rep live r s t" "maximal (blocks s t)" "height t < 253" "used_of (blocks s t) = U"
  shows "\<exists>s' t'. revert_block_ranges M r any k s = Some (0 < k \<or> free_of (blocks s t) \<noteq> {}, s') \<and> ra_rep live r s' t' \<and>
    maximal (blocks s' t') \<and> region_of (blocks s' t') = ({}, U)"
  using assms(4-7)
proof (induction "card (free_of (blocks s t))" arbitrary: s t k rule: less_induct)
  case less
  let ?F = "free_of (blocks s t)"
  obtain p where p: "any s = Some p" "case p of None \<Rightarrow> ?F = {} | Some b \<Rightarrow> b \<in> set_tree t \<and> \<not> b_used (objects (addr_tree s) b)"
    using any [OF less.prems(1,4)] by blast
  show ?case
  proof (cases p)
    case None
    then show ?thesis using p less.prems by (intro exI [of _ s] exI [of _ t]) (simp add: revert_block_ranges.simps)
  next
    case (Some b)
    then have b: "b \<in> set_tree t" "\<not> b_used (objects (addr_tree s) b)" using p(2) by auto
    obtain A S where e: "exts s b = (A, S, False)" using b(2) exts_fields(3) [of s b] by (cases "exts s b") auto
    have x: "(A, S, False) \<in> blocks s t" using b(1) e by (force simp: blocks_def)
    note so = ra_repD(6) [OF less.prems(1)]
    have S: "S \<noteq> 0" "unat A + unat S \<le> 2 ^ 64" "0 < unat S" using so x by (auto simp: sound_def unat_pos)
    have AF: "addrs A S \<subseteq> ?F" using x unfolding free_of_def by force
    have "height t + sticking ?F A S < 253" using sticking_block [OF so less.prems(2) x] less.prems(3) by simp
    from remove_range_loop_spec [OF M(1) S(1,2) less.prems(1,2) this] sticking_block [OF so less.prems(2) x] obtain y s1 t1 where
      s1: "remove_range_loop M r A S s = Some (y, s1)" "ra_rep live r s1 t1" "maximal (blocks s1 t1)" "height t1 \<le> height t"
        "ra_step (md_total M) (Remove_range A S) (region_of (blocks s t)) (case y of Inl e \<Rightarrow> Failed e | Inr _ \<Rightarrow> Done) (region_of (blocks s1 t1))"
      by auto
    have "addrs A S \<inter> taken (used_of (blocks s t)) = {}" using free_not_taken [OF so] AF by blast
    with s1(5) M(2) S(1) have y: "y = Inr ()" "free_of (blocks s1 t1) = ?F - addrs A S" "used_of (blocks s1 t1) = U"
      using less.prems(4) by (auto elim!: remove_stepE split: sum.splits)
    have "unat A \<in> ?F" "unat A \<notin> free_of (blocks s1 t1)" using AF S(3) y(2) by auto
    moreover have "free_of (blocks s1 t1) \<subseteq> ?F" using y(2) by auto
    ultimately have "card (free_of (blocks s1 t1)) < card ?F" "?F \<noteq> {}" by (auto intro!: psubset_card_mono free_finite)
    from less.hyps [OF this(1) s1(2,3) _ y(3), of "k + 1"] s1(4) less.prems(3) obtain s2 t2 where
      s2: "revert_block_ranges M r any (k + 1) s1 = Some (True, s2)" "ra_rep live r s2 t2" "maximal (blocks s2 t2)" "region_of (blocks s2 t2) = ({}, U)" by auto
    have "revert_block_ranges M r any k s = Some (True, s2)"
      using p(1) Some exts_fields [of s b] e s1(1) S(1) y(1) s2(1) by (subst revert_block_ranges.simps) (simp add: remove_range_def Let_def)
    then show ?thesis using s2(2-4) \<open>?F \<noteq> {}\<close> by auto
  qed
qed

lemma revert_unused_spec:
  assumes M: "md_laws M live" "md_total M" and r: "ra_rep live r s t" "maximal (blocks s t)" "height t < 253"
  shows "\<exists>s' t'. revert_unused_ranges M r s = Some (free_of (blocks s t) \<noteq> {}, s') \<and> ra_rep live r s' t' \<and> region_of (blocks s' t') = ({}, used_of (blocks s t))"
proof -
  let ?any = "\<lambda>s. find_any_block False (nodes (addr_tree s)) (objects (addr_tree s)) (avl_first r (addr_tree s))"
  have "\<exists>p. ?any s = Some p \<and> (case p of None \<Rightarrow> free_of (blocks s t) = {} | Some b \<Rightarrow> b \<in> set_tree t \<and> \<not> b_used (objects (addr_tree s) b))"
    if s: "ra_rep live r s t" for s :: "('a, 'b) allocator" and t
  proof -
    obtain x where "?any s = Some x" "found (objects (addr_tree s)) (set_tree t) (\<lambda>y. snd (snd y) = False) x"
      using find_any_spec [OF ra_repD(8) [OF s], of False "objects (addr_tree s)"] by (auto simp: avl_first_def child_simps)
    moreover have "free_of (blocks s t) = {}" if "\<forall>y \<in> set_tree t. snd (snd (exts s y))" using that unfolding free_of_def blocks_def by blast
    ultimately show ?thesis by (auto simp: found_def exts_fields split: option.splits)
  qed
  from revert_block_ranges_spec [OF M this r refl, of 0] show ?thesis unfolding revert_unused_ranges_def by auto
qed

lemma revert_all_spec:
  assumes M: "md_laws M live" "md_total M" and r: "ra_rep live r s t" "maximal (blocks s t)" "height t + card (used_of (blocks s t)) < 253"
  shows "\<exists>s'. revert_allocations_and_ranges M r s = Some s' \<and> avl_first r (addr_tree s') = None"
proof -
  obtain s1 t1 where s1: "revert_allocations M r s = Some s1" "ra_rep live r s1 t1" "maximal (blocks s1 t1)"
      "height t1 \<le> height t + card (used_of (blocks s t))" "used_of (blocks s1 t1) = {}"
    using revert_allocations_spec [OF M r(1,2)] r(3) by auto
  let ?any = "\<lambda>s. Some (avl_first r (addr_tree s))"
  have "\<exists>p. ?any s = Some p \<and> (case p of None \<Rightarrow> free_of (blocks s t) = {} | Some b \<Rightarrow> b \<in> set_tree t \<and> \<not> b_used (objects (addr_tree s) b))"
    if s: "ra_rep live r s t" "used_of (blocks s t) = {}" for s :: "('a, 'b) allocator" and t
  proof (cases "ch (addr_tree s) r LEFT")
    case None
    then have "blocks s t = {}" using ra_repD(8) [OF s(1)] by (simp add: tree_at_None blocks_def)
    then show ?thesis using None by (simp add: avl_first_def child_simps free_of_def)
  next
    case (Some b)
    then have "b \<in> set_tree t" using ra_repD(8) [OF s(1)] by (cases t) auto
    moreover from this have "\<not> b_used (objects (addr_tree s) b)" using s(2) by (force simp: used_of_def blocks_def extents_def extent_of_def)
    ultimately show ?thesis using Some by (simp add: avl_first_def child_simps)
  qed
  from revert_block_ranges_spec [OF M this s1(2,3) _ s1(5), of 0] s1(4) r(3) obtain f s2 t2 where s2: "revert_block_ranges M r ?any 0 s1 = Some (f, s2)"
    "ra_rep live r s2 t2" "region_of (blocks s2 t2) = ({}, {})" by auto
  have "blocks s2 t2 = {}"
  proof (rule ccontr)
    assume "blocks s2 t2 \<noteq> {}"
    then obtain a n u where x: "(a, n, u) \<in> blocks s2 t2" by auto
    then have "0 < unat n" using ra_repD(6) [OF s2(2)] by (auto simp: sound_def unat_pos)
    then have "unat a \<in> free_of (blocks s2 t2) \<union> taken (used_of (blocks s2 t2))" unfolding covered using x by force
    then show False using s2(3) by (simp add: taken_def)
  qed
  then have "ch (addr_tree s2) r LEFT = None" using ra_repD(8) [OF s2(2)] by (cases t2) (auto simp: blocks_def)
  then show ?thesis using s1(1) s2(1) by (simp add: revert_allocations_and_ranges_def avl_first_def child_simps)
qed

section \<open>Properties\<close>

lemma run_from_empty:
  assumes "md_laws M live" "r \<in> live m0" "ra_run_ok M r cs (allocator_construct r nd d m0)"
  shows "\<exists>xs s t. ra_run M r cs (allocator_construct r nd d m0) = Some (xs, s) \<and> ra_rep live r s t \<and> maximal (blocks s t) \<and>
    ra_steps (md_total M) cs ({}, {}) xs (region_of (blocks s t))"
proof -
  note c = construct_rep_empty [of r live m0 nd d, OF assms(2)]
  have "maximal {}" "region_of {} = ({}, {})" by (auto simp: maximal_def ends_at_simps free_of_def used_of_def)
  then show ?thesis using run_refines [OF assms(1) c(1) _ assms(3)] unfolding c(2) by simp
qed

text \<open>
  \<^bold>\<open>C15.\<close> The range allocator implements the abstract allocator. Take a sequence of operations on a newly
  constructed allocator in which ranges and requests have a size other than zero, no range wraps around the
  address space, neither does the lower bound of an aligned request plus its alignment and size, and the
  one-byte depth of the tree is 251 at most before every operation (\<open>ra_run_ok\<close>). It always returns, whatever the meta-data
  allocator refuses, and its results are a run of the abstract allocator: an allocation is aligned, inside of the
  requested range and made of free addresses, which are then no longer free; a removed range is
  unavailable, an added one available; an allocation at an address fails only if not all of the
  addresses are free or a meta-data request was refused. Allocations never overlap, and the queries
  answer what the abstract sets say, where \<^verbatim>\<open>valid_addr\<close> is true for every address of a block, free or used
  (its comment in \<^verbatim>\<open>allocator.h\<close> speaks of allocated blocks only). (\<^verbatim>\<open>base/src/lib/base/allocator_avl.cc\<close>)
\<close>

theorem range_allocator_refines:
  assumes "md_laws M live" "r \<in> live m0" "ra_run_ok M r cs (allocator_construct r nd d m0)"
  shows "\<exists>xs s R. ra_run M r cs (allocator_construct r nd d m0) = Some (xs, s) \<and>
    ra_steps (md_total M) cs ({}, {}) xs R \<and> separate R \<and> answers r s R"
proof -
  obtain xs s t where s: "ra_run M r cs (allocator_construct r nd d m0) = Some (xs, s)" "ra_rep live r s t"
    "ra_steps (md_total M) cs ({}, {}) xs (region_of (blocks s t))" using run_from_empty [OF assms] by blast
  then show ?thesis using region_separate [OF ra_repD(6) [OF s(2)]] answers_rep [OF s(2)] by blast
qed

text \<open>
  \<^bold>\<open>C16.\<close> Destroying an allocator removes everything. After a sequence of operations as above, with a meta-data
  allocator that never refuses a request, and if the depth of the tree and the number of allocations
  that are left are 253 at most together, giving back the unused ranges returns, tells whether there were any, and leaves the
  allocations alone; reverting all allocations and ranges returns too and leaves no block at all.
\<close>

theorem range_allocator_destroyed:
  assumes "md_laws M live" "md_total M" "r \<in> live m0" "ra_run_ok M r cs (allocator_construct r nd d m0)"
  shows "\<exists>xs s F U. ra_run M r cs (allocator_construct r nd d m0) = Some (xs, s) \<and> ra_steps True cs ({}, {}) xs (F, U) \<and>
    (unat (depth (nodes (addr_tree s) r)) + card U \<le> 253 \<longrightarrow>
      (\<exists>s'. revert_unused_ranges M r s = Some (F \<noteq> {}, s') \<and> answers r s' ({}, U)) \<and>
      (\<exists>s'. revert_allocations_and_ranges M r s = Some s' \<and> avl_first r (addr_tree s') = None))"
proof -
  obtain xs s t where s: "ra_run M r cs (allocator_construct r nd d m0) = Some (xs, s)" "ra_rep live r s t" "maximal (blocks s t)"
    "ra_steps True cs ({}, {}) xs (region_of (blocks s t))" using run_from_empty [OF assms(1,3,4)] assms(2) by auto
  let ?F = "free_of (blocks s t)" let ?U = "used_of (blocks s t)"
  have "(\<exists>s'. revert_unused_ranges M r s = Some (?F \<noteq> {}, s') \<and> answers r s' ({}, ?U)) \<and>
      (\<exists>s'. revert_allocations_and_ranges M r s = Some s' \<and> avl_first r (addr_tree s') = None)"
    if "unat (depth (nodes (addr_tree s) r)) + card ?U \<le> 253"
  proof -
    have h: "height t < 253" "height t + card ?U < 253" using that root_depth [OF s(2)] by linarith+
    obtain s' t' where s': "revert_unused_ranges M r s = Some (?F \<noteq> {}, s')" "ra_rep live r s' t'" "region_of (blocks s' t') = ({}, ?U)"
      using revert_unused_spec [OF assms(1,2) s(2,3) h(1)] by blast
    from answers_rep [OF s'(2)] s'(1,3) revert_all_spec [OF assms(1,2) s(2,3) h(2)] show ?thesis by auto
  qed
  then show ?thesis using s(1,4) by blast
qed

subsection \<open>Concrete runs\<close>

text \<open>A meta-data allocator that hands out the next number; its state holds the numbers given back, too.\<close>

definition number_md :: "(nat, nat \<times> nat list) md_alloc" where
  "number_md = \<lparr>md_try_alloc = (\<lambda>(k, xs). (Inr k, (k + 1, removeAll k xs))), md_free = (\<lambda>b (k, xs). (k, b # xs))\<rparr>"

definition numbers_live :: "nat \<times> nat list \<Rightarrow> nat set" where
  "numbers_live = (\<lambda>(k, xs). {..<k} - set xs)"

definition new_allocator :: "(nat, nat \<times> nat list) allocator" where
  "new_allocator = allocator_construct 0 (\<lambda>_. avl_node_init) (\<lambda>_. new_block 0 0 False) (1, [])"

lemma number_md_laws: "md_laws number_md numbers_live" "md_total number_md" "0 \<in> numbers_live (1, [])"
  by (auto simp: md_laws_def md_total_def number_md_def numbers_live_def)

lemmas ra_eval = number_md_def new_allocator_def allocator_construct_def avl_node_init_def new_block_def avail_def child_max_avail_def
  block_recompute_def block_higher_def block_policy_def align_addr_def sum_in_range_def fits_def construct_block_def free_metadata_def
  alloc_block_metadata_def alloc_two_blocks_metadata_def add_block_def destroy_block_def cut_from_block_def lookup_def
  add_range_def remove_range_def allocate_def alloc_aligned_def ra_alloc_addr_def ra_free_def avl_first_def
  find_best_fit.simps find_by_address.simps remove_range_loop.simps
  avl_insert.simps recompute_depth.simps rightmost.simps rebalance_up.simps replace_child_def avl_remove_def
  rebalance_subtree_def rotate_subtree_def avl_adopt_def avl_link_def set_depth_def new_depth_def bias_def child_depth_def

definition sample_run :: "ra_cmd list" where
  "sample_run = [Add_range 0x1000 0x1000, Alloc_aligned 0x100 8 \<lparr>r_start = 0x1800, r_end = 0x1fff\<rparr>, Alloc_addr 0x80 0x1000, Free 0x1800]"

lemma sample_run_ok: "ra_run_ok number_md 0 sample_run new_allocator"
  by (simp add: sample_run_def request_ok_def ra_eval Let_def cong: eval_cong)

theorem range_allocator_refines_witness:
  "\<exists>xs s R. ra_run number_md 0 sample_run new_allocator = Some (xs, s) \<and> ra_steps True sample_run ({}, {}) xs R \<and> separate R \<and> answers 0 s R"
  using range_allocator_refines [OF number_md_laws(1,3), of sample_run "\<lambda>_. avl_node_init" "\<lambda>_. new_block 0 0 False"]
    sample_run_ok number_md_laws(2) by (simp add: new_allocator_def)

lemma step_card: "ra_step tot c R x R' \<Longrightarrow> finite (snd R) \<Longrightarrow> finite (snd R') \<and> card (snd R') \<le> card (snd R) + 1"
  by (induction rule: ra_step.induct) (auto simp: card_insert_if card_Diff_singleton_if)

lemma steps_card: "ra_steps tot cs R xs R' \<Longrightarrow> finite (snd R) \<Longrightarrow> card (snd R') \<le> card (snd R) + length cs"
  by (induction rule: ra_steps.induct) (auto dest: step_card)

theorem range_allocator_destroyed_witness:
  "\<exists>xs s. ra_run number_md 0 sample_run new_allocator = Some (xs, s) \<and>
     (\<exists>s'. revert_allocations_and_ranges number_md 0 s = Some s' \<and> avl_first 0 (addr_tree s') = None)"
proof -
  obtain xs s F U where s: "ra_run number_md 0 sample_run new_allocator = Some (xs, s)" "ra_steps True sample_run ({}, {}) xs (F, U)"
      "unat (depth (nodes (addr_tree s) 0)) + card U \<le> 253 \<longrightarrow> (\<exists>s'. revert_allocations_and_ranges number_md 0 s = Some s' \<and> avl_first 0 (addr_tree s') = None)"
    using range_allocator_destroyed [OF number_md_laws, of sample_run "\<lambda>_. avl_node_init" "\<lambda>_. new_block 0 0 False"]
      sample_run_ok unfolding new_allocator_def by blast
  have "map_option (\<lambda>(x, s). depth (nodes (addr_tree s) 0)) (ra_run number_md 0 sample_run new_allocator) = Some 3"
    by (simp add: sample_run_def ra_eval Let_def cong: eval_cong)
  then have "unat (depth (nodes (addr_tree s) 0)) = 3" using s(1) by simp
  moreover have "card U \<le> 4" using steps_card [OF s(2)] by (simp add: sample_run_def)
  ultimately show ?thesis using s(1,3) by auto
qed

text \<open>
  A search by size may miss a block that fits. Removing a node of the tree recomputes the biggest
  free size of the parents before that of their children; after one range has been removed, a request
  for 4096 bytes is denied although a free block of exactly this size is still there, as the same
  request at its address shows.
\<close>

theorem alloc_misses_free_block:
  "map_option fst (ra_run number_md 0
      [Add_range 0x80000 0x10, Add_range 0x40000 0x10, Add_range 0xc0000 0x10, Add_range 0x20000 0x10, Add_range 0x60000 0x10,
       Add_range 0xa0000 0x10, Add_range 0x10000 0x10, Add_range 0x30000 0x1000, Remove_range 0x20000 0x10,
       Alloc_aligned 0x1000 3 \<lparr>r_start = 0, r_end = all_ones\<rparr>, Alloc_addr 0x1000 0x30000] new_allocator) =
    Some [Done, Done, Done, Done, Done, Done, Done, Done, Done, Failed DENIED, Allocated 0x30000]"
  by (simp add: ra_eval Let_def cong: eval_cong)

text \<open>
  The address arithmetic of the search and of the merging wraps. With the range from 0 to 0xfff, a
  request of nearly the whole address space is granted at 0x1000, which is no address of the allocator;
  a request at the top of the address space is granted at address 0, below the start of the requested
  range; and a range that ends at the top of the address space is merged with the one at 0 into a block
  in which neither of their addresses is found any more.
\<close>

theorem range_arithmetic_wraps:
  "map_option fst (ra_run number_md 0 [Add_range 0 0x1000, Alloc_aligned (- 0x1000) 12 \<lparr>r_start = 0x1000, r_end = all_ones\<rparr>] new_allocator) =
     Some [Done, Allocated 0x1000] \<and>
   map_option fst (ra_run number_md 0 [Add_range 0 0x1000, Alloc_aligned 0x10 12 \<lparr>r_start = - 0x10, r_end = all_ones\<rparr>] new_allocator) =
     Some [Done, Allocated 0] \<and>
   map_option fst (ra_run number_md 0 [Add_range 0 0x1000, Add_range (- 0x1000) 0x1000, Alloc_addr 0x10 0, Alloc_addr 0x10 (- 0x1000)] new_allocator) =
     Some [Done, Done, Failed DENIED, Failed DENIED]"
  by (simp add: ra_eval Let_def cong: eval_cong) (simp add: word_le_nat_alt word_nat)

end
