(* ===== verification/Spec2Isabelle.thy ===== *)
theory Spec2Isabelle
  imports Account Kernel_Cpu Bit_Allocator Packet_Wakeup Ram_File Signal_Sources Arg_String Range_Safety
begin

text \<open>
  \<^bold>\<open>A verification development of core parts of the Genode OS framework.\<close>

  Genode builds systems from components in protection domains that interact by synchronous IPC,
  asynchronous signals and shared memory, and that account for every resource they use. The
  development follows this structure from the bottom up: the kernel \<^verbatim>\<open>base-hw\<close>, on which threads
  are scheduled, call each other and signal each other; the utilities below kernel and components; the
  accounting of core; and two services on top, packet streams and RAM files. All paths below are
  relative to \<^verbatim>\<open>src/repos/\<close>.

  \<^bold>\<open>Conventions.\<close> One definition models one function, method or loop of the source, under its name, in the
  order of the source. A class is a record, its objects are identified by numbers or by a type of
  identities, and memory that several objects share is a function from identities to fields, so that
  aliasing is visible. An operation is a function on the state; exceptions are values of a sum type. The
  result \<open>None\<close> of an operation stands for what the source must not do: an assertion that fails, a null
  or dangling pointer that is used, a queue element that is enqueued twice, or a loop that does not end.
  Hence each theorem that has \<open>Some\<close> as result also states that none of this happens. Loops whose end is not
  evident are partial functions in the option monad; no definition has a bound on its steps. Machine
  integers are words of their width, or natural numbers with the wrap-around written out; the target is a
  64-bit machine. Devices, other kernels and allocators of unknown implementation are parameters.

  \<^bold>\<open>The kernel\<close> (\<^verbatim>\<open>base-hw/src/core/kernel/\<close>).
  Theory \<open>Double_List\<close> (\<^verbatim>\<open>double_list.h\<close>) has the pointers of the kernel's lists and shows that any number of
  lists over shared items behaves as sequences; its locale \<open>kernel_list\<close> is the contract that the
  scheduler uses. Theory \<open>Cpu_Scheduler\<close> (\<^verbatim>\<open>cpu_scheduler.h\<close>, \<^verbatim>\<open>cpu_scheduler.cc\<close>) has claims, fills and quotas: the
  scheduler state stays consistent under every operation, no assertion fails, and an update selects a
  claimant of the highest priority, or the next share in round-robin order, or the idle share, as long as
  no share is given a quota while it carries an old claim; a run shows that the condition is needed. Theory
  \<open>Linked_List\<close> (\<^verbatim>\<open>base/include/util/list.h\<close>) and theory \<open>Timer\<close> (\<^verbatim>\<open>timer.h\<close>, \<^verbatim>\<open>timer.cc\<close>) have the sorted list of
  timeouts: exactly the due timeouts are triggered, in order, and the nearest one in time. Theory \<open>Kernel_Cpu\<close>
  (\<^verbatim>\<open>cpu.h\<close>, \<^verbatim>\<open>cpu.cc\<close>, \<^verbatim>\<open>cpu_mp.cc\<close>) composes scheduler and timer as the kernel pass \<^verbatim>\<open>Cpu::schedule\<close> does: a pass
  within the contracts succeeds and programs the timer so that the chosen job is interrupted at the end of
  its slice at the latest. What the exception of the running job and the callbacks of timeouts do is a
  sequence of operations on the CPU, an argument of the pass. Theory \<open>Fifo\<close>
  (\<^verbatim>\<open>base/include/util/fifo.h\<close>) refines the pointer-based queues to lists by the contract \<open>fifo_spec\<close>. Theory
  \<open>Kernel_Thread\<close> (\<^verbatim>\<open>thread.h\<close>, \<^verbatim>\<open>thread.cc\<close>, \<^verbatim>\<open>cpu.cc\<close>) has the states of threads and the activation of CPU
  shares along helping relationships, theory \<open>Ipc_Node\<close> (\<^verbatim>\<open>ipc_node.h\<close>, \<^verbatim>\<open>ipc_node.cc\<close>) the IPC protocol and the kernel calls
  on it. The invariant \<open>kinv\<close> says that queues and targets agree, that helping is acyclic and that a share is
  ready exactly if the thread that it helps is runnable; it gives safety from boot on, the round trip of a
  call and its reply, and that a server serves every client. Theory \<open>Signal_Receiver\<close> (\<^verbatim>\<open>signal_receiver.h\<close>,
  \<^verbatim>\<open>signal_receiver.cc\<close>) extends the same state by signals. The operations on IPC are shown to leave
  signals alone by a small calculus (\<open>calmly\<close>), so that one invariant \<open>sinv\<close> covers any interleaving of both: no
  wakeup is lost, and submits are neither lost nor doubled; the submits received are counted by a ghost log
  beside the delivered data. Theory \<open>Signal_Sources\<close> (\<^verbatim>\<open>thread.h\<close>, \<^verbatim>\<open>thread.cc\<close>, \<^verbatim>\<open>irq.h\<close>, \<^verbatim>\<open>irq.cc\<close>) adds the pointers to contexts
  that threads keep for their pager and interrupts for their handler: no assertion fails and no destructed
  object is used under guards that are stated, one of which is that a context which such a pointer refers to
  is not destructed; without it, the next fault or interrupt uses the destructed context.

  \<^bold>\<open>Utilities\<close> (\<^verbatim>\<open>base/include/util/\<close>).
  Theory \<open>Bit_Array\<close> and theory \<open>Bit_Allocator\<close> (\<^verbatim>\<open>bit_array.h\<close>, \<^verbatim>\<open>bit_allocator.h\<close>) have the allocator of aligned blocks of
  indices on words of bits, with the contract \<open>bit_store\<close> between them: operations are exact on the set of
  bits, blocks are disjoint, and an allocation ends and succeeds whenever a suitable block is free. Theory
  \<open>C_String\<close> (\<^verbatim>\<open>string.h\<close>, \<^verbatim>\<open>base/include/cpu/string.h\<close>) shows that the optimised copy of memory equals a copy of all
  bytes at once; the contract of the CPU-specific part is the locale \<open>cpu_copy_routine\<close>. Theory \<open>Token\<close> (\<^verbatim>\<open>token.h\<close>) has the
  tokenizer, theory \<open>Arg_String\<close> (\<^verbatim>\<open>arg_string.h\<close>) the arguments by which sessions are requested: looking up an
  argument equals a reference on the list of arguments, and adding one may exceed the buffer.

  \<^bold>\<open>Address ranges\<close> (\<^verbatim>\<open>base/include/util/avl_tree.h\<close>, \<^verbatim>\<open>base/include/base/allocator_avl.h\<close>, \<^verbatim>\<open>base/src/lib/base/\<close>).
  Theory \<open>Avl_Tree\<close> has the nodes of the balanced tree with their pointers and one-byte depths, and the trees
  that they stand for; theory \<open>Avl_Nodes\<close> shows what rotation and insertion do to the pointers, theory
  \<open>Avl_Removal\<close> what removal does. Both return, keep the order of the nodes and the depths, and touch no other
  node; insertion keeps the balance, removal does not. Theory \<open>Range_Allocator\<close> has the allocator of address
  ranges by which core hands out memory, on this tree; its meta-data allocator is a parameter that may refuse
  any request. Theory \<open>Range_Blocks\<close> describes the blocks as a set of extents that do not overlap: the tree
  operations keep the extents because the hook that they call does (locale \<open>quiet_hook\<close>). Theory
  \<open>Range_Refinement\<close> relates each operation to a step of an abstract allocator, which knows only the free
  addresses and the allocations (\<open>ra_step\<close>), and theory \<open>Range_Safety\<close> does so for sequences of operations, from
  the construction to the destruction of an allocator. The depth of a tree is a byte; the theorems ask that it
  is 251 at most, which a balanced tree of any size that fits into memory is far below; a tree that removals
  have unbalanced may be higher.

  \<^bold>\<open>Accounting\<close> (\<^verbatim>\<open>base/include/base/quota_guard.h\<close>, \<^verbatim>\<open>base/src/core/include/account.h\<close>).
  Theory \<open>Quota_Guard\<close> refines the guards with 64-bit counters to an unbounded ledger and shows that a
  reservation is transactional; its locale \<open>quota_contract\<close> is what clients rely on. Theory \<open>Account\<close> has the tree of
  accounts: it stays well-formed, a transfer conserves the sum of all limits, and the destruction of an
  account returns its quota. An operation is one step; the source takes the mutexes of the two accounts of a
  transfer one after the other, and what others see between the downgrade and the upgrade is not modelled.

  \<^bold>\<open>Packet streams\<close> (\<^verbatim>\<open>os/include/os/packet_stream.h\<close>).
  Theories \<open>Packet_Queue\<close>, \<open>Packet_Stream\<close> and \<open>Packet_Wakeup\<close> have the rings of descriptors in shared memory, both ends of
  a stream, and the interleaving of the memory accesses of a sender and a receiver: packets arrive in order, a hostile peer cannot cause an
  access outside the queue, the content of a valid packet lies in the bulk buffer unless its size is so large that the check wraps, and
  no wakeup is lost: a call that finds a queue full or empty throws, as in the source, and the side that has
  seen this gets a signal once the situation has changed.

  \<^bold>\<open>RAM files\<close> (\<^verbatim>\<open>os/include/ram_fs/chunk.h\<close>, \<^verbatim>\<open>os/src/lib/vfs/ram_file_system.h\<close>).
  Theory \<open>Chunk\<close> verifies the nested sparse storage level by level with the locale \<open>chunk_level\<close>, theory \<open>Ram_File\<close> interprets it
  on the geometry of the source: reads, writes and truncations of a file act as on a sequence of bytes. The
  allocator is a parameter of every write (\<open>refusals\<close>) and may refuse the memory for a chunk with any of its
  exceptions; a write catches \<^verbatim>\<open>Out_of_ram\<close> and returns 0, but keeps the bytes it has stored by then.

  \<^bold>\<open>Theory \<open>Prelude\<close>\<close> holds the machine types and the lemmas on words, lists and options that all share.

  \<^bold>\<open>Flaws.\<close> Where the code does not do what it means to, the theorem states what it does instead: cycles of
  helping threads, pausing a thread during a call, the destruction of signal contexts and receivers in use,
  stale claims of the scheduler, the capacity check and the prefix match of argument strings, removals that
  unbalance the tree, and requests for address ranges that miss a free block, and others.

  \<^bold>\<open>Not modelled.\<close> Of the kernel: the capability tree of protection domains (a kernel call has the result of
  the lookup as argument), the transfer of capabilities with messages (a message is its payload, without the
  capability identifier of its destination), virtual machines, work items between CPUs, and all code bound to registers of a CPU or a board. Memory accesses of different CPUs take effect in
  program order, and the kernel runs under its global lock. The 32-bit counters of string scanning loops
  are unbounded here, hence tokens are taken to be shorter than $2^{32}$ characters. Of the framework: id spaces, registries and dictionaries, slabs and heaps, the data that clients
  attach to the blocks of a range allocator, user-level locks, the RPC framework, session routing, XML, and the servers, drivers and
  applications. Ports of third-party code and the bindings to other kernels depend on sources that are
  not part of the repository.

  \<^bold>\<open>Next.\<close> The natural continuation is the capability tree and the id spaces on the AVL tree, and slabs and heaps below the allocators.
\<close>

end
